(* ===== verification/Prelude.thy ===== *)
theory Prelude
  imports Main "HOL-Library.Word" "HOL-Library.Monad_Syntax"
begin

text \<open>
  Shared vocabulary of the development.

  A C++ object graph is modelled by a store: a function from addresses (pool slot
  numbers) to slot contents.  A slot holds raw bytes, a free-list node or a constructed
  object.  Dereferencing anything but a constructed object is undefined behaviour in the
  source; here it is \<open>None\<close>, and every operation that may dereference returns an
  \<open>option\<close>.  A theorem that an operation returns \<open>Some\<close> is therefore a
  memory-safety theorem.

  The theory also holds the generic facts on options, words and lists that several
  components use.
\<close>

named_theorems store_simps \<open>reading a store after an update\<close>
named_theorems rep_defs \<open>representation predicates, unfolded on demand\<close>

text \<open>
  Stores are updated everywhere; a read of an updated store is resolved when the
  addresses are known to be equal or different, not by a case split on every read.
\<close>

declare fun_upd_apply [simp del]
declare fun_upd_same [simp] fun_upd_other [simp]

type_synonym addr = nat

datatype 'a slot = Raw | FreeNode "addr option" | Object 'a

type_synonym 'a store = "addr \<Rightarrow> 'a slot"

section \<open>Objects in a store\<close>

definition deref :: "'a store \<Rightarrow> addr \<Rightarrow> 'a option" where
  "deref h a = (case h a of Object x \<Rightarrow> Some x | _ \<Rightarrow> None)"

definition update_at :: "'a store \<Rightarrow> addr \<Rightarrow> ('a \<Rightarrow> 'a) \<Rightarrow> 'a store option" where
  "update_at h a f = (case h a of Object x \<Rightarrow> Some (h(a := Object (f x))) | _ \<Rightarrow> None)"

text \<open>The total readers used in specifications and proofs.\<close>

definition live :: "'a store \<Rightarrow> addr \<Rightarrow> bool" where
  "live h a \<longleftrightarrow> (\<exists>x. h a = Object x)"

definition obj :: "'a store \<Rightarrow> addr \<Rightarrow> 'a" where
  "obj h a = (case h a of Object x \<Rightarrow> x | _ \<Rightarrow> undefined)"

lemma deref_live [store_simps]: "live h a \<Longrightarrow> deref h a = Some (obj h a)"
  by (auto simp: deref_def live_def obj_def)

lemma update_at_live [store_simps]:
  "live h a \<Longrightarrow> update_at h a f = Some (h(a := Object (f (obj h a))))"
  by (auto simp: update_at_def live_def obj_def)

lemma live_upd [store_simps]: "live (h(a := Object x)) b \<longleftrightarrow> b = a \<or> live h b"
  by (simp add: live_def fun_upd_apply)

lemma obj_upd [store_simps]: "obj (h(a := Object x)) b = (if b = a then x else obj h b)"
  by (simp add: obj_def fun_upd_apply)

lemma live_Object: "live h a \<Longrightarrow> h a = Object (obj h a)"
  by (auto simp: live_def obj_def)

section \<open>Optional pointers around a list\<close>

text \<open>The first element of a list, or what follows it; the last one, or what precedes it.\<close>

definition first_or :: "'a option \<Rightarrow> 'a list \<Rightarrow> 'a option" where
  "first_or nx xs = (case xs of [] \<Rightarrow> nx | x # _ \<Rightarrow> Some x)"

definition last_or :: "'a option \<Rightarrow> 'a list \<Rightarrow> 'a option" where
  "last_or pv xs = (if xs = [] then pv else Some (last xs))"

lemma first_or_simps [simp]:
  "first_or nx [] = nx" "first_or nx (x # xs) = Some x"
  "first_or nx (xs @ ys) = first_or (first_or nx ys) xs"
  by (auto simp: first_or_def split: list.splits)

lemma last_or_simps [simp]:
  "last_or pv [] = pv" "last_or pv (x # xs) = last_or (Some x) xs"
  "last_or pv (xs @ ys) = last_or (last_or pv xs) ys"
  by (auto simp: last_or_def)

lemma first_or_None_iff [simp]: "first_or None xs = None \<longleftrightarrow> xs = []"
  by (cases xs) auto

lemma None_first_or_iff [simp]: "None = first_or None xs \<longleftrightarrow> xs = []"
  by (cases xs) auto

section \<open>Words\<close>

lemma word_min_unat: "unat (min x y) = min (unat x) (unat y)"
  by (simp add: min_def word_le_nat_alt)

lemma word_gt_0_unat: "0 < (x :: 'a::len word) \<longleftrightarrow> 0 < unat x"
  by (simp add: word_less_nat_alt)

lemma of_nat_pos_word:
  assumes "n < 2 ^ LENGTH('a)"
  shows "0 < (of_nat n :: 'a::len word) \<longleftrightarrow> 0 < n"
  using assms by (simp add: word_gt_0_unat unat_of_nat)

lemma of_nat_eq_1_word:
  assumes "n < 2 ^ LENGTH('a)" and "1 < LENGTH('a)"
  shows "(of_nat n :: 'a::len word) = 1 \<longleftrightarrow> n = 1"
proof -
  have "(1::nat) < 2 ^ LENGTH('a)"
    using assms(2) one_less_power [of "2::nat" "LENGTH('a)"] by simp
  then show ?thesis
    using assms(1) word_of_nat_eq_iff [where ?'a = 'a, of n 1] by (simp add: take_bit_eq_mod)
qed

section \<open>Extreme elements and lists\<close>

lemma Max_insert_if:
  "finite P \<Longrightarrow> Max (insert p P) = (if P = {} \<or> Max P < p then p else Max P)"
  by (cases "P = {}") (simp, metis Max_insert max_def not_le)

lemma Min_insert_if:
  "finite P \<Longrightarrow> Min (insert p P) = (if P = {} \<or> p < Min P then p else Min P)"
  by (cases "P = {}") (simp, metis Min_insert min_def not_le order_le_less)

lemma unat_of_nat_small: "m < 2 ^ LENGTH('a) \<Longrightarrow> unat (of_nat m :: 'a::len word) = m"
  by (simp add: unat_of_nat)

end
