(* ===== verification/Core_Types.thy ===== *)
theory Core_Types
  imports Prelude
begin

text \<open>
  The data types of \<^verbatim>\<open>core/types.h\<close>, \<^verbatim>\<open>core/order.h\<close> and \<^verbatim>\<open>transport/message.h\<close>.

  Identifiers, quantities and timestamps keep their machine width.  A price is an
  \<^verbatim>\<open>int64_t\<close> tick count that the program compares and steps by one inside
  \<open>0 .. MAX_PRICE_TICKS\<close> only, so it never wraps and is an \<open>int\<close> here.
\<close>

section \<open>Scalars and enumerations (types.h)\<close>

type_synonym OrderId = "64 word"
type_synonym Price = int
type_synonym Quantity = "32 word"
type_synonym Timestamp = "64 word"

datatype Side = Bid | Ask

datatype OrderType = Limit | Market

definition MAX_PRICE_TICKS :: Price where
  "MAX_PRICE_TICKS = 10000000"

section \<open>Orders (order.h)\<close>

record order =
  o_id :: OrderId
  o_side :: Side
  o_type :: OrderType
  o_price :: Price
  o_quantity :: Quantity
  o_filled_quantity :: Quantity
  o_timestamp :: Timestamp
  o_prev :: "addr option"
  o_next :: "addr option"

text \<open>The default member initialisers: what \<^verbatim>\<open>Order{}\<close> constructs.\<close>

definition default_order :: order where
  "default_order = \<lparr>o_id = 0, o_side = Bid, o_type = Limit, o_price = 0, o_quantity = 0,
     o_filled_quantity = 0, o_timestamp = 0, o_prev = None, o_next = None\<rparr>"

definition remaining_quantity :: "order \<Rightarrow> Quantity" where
  "remaining_quantity x = o_quantity x - o_filled_quantity x"

definition is_filled :: "order \<Rightarrow> bool" where
  "is_filled x \<longleftrightarrow> o_filled_quantity x \<ge> o_quantity x"

section \<open>Messages (message.h)\<close>

record new_order_message =
  n_id :: OrderId
  n_side :: Side
  n_type :: OrderType
  n_price :: Price
  n_quantity :: Quantity
  n_timestamp :: Timestamp

record cancel_message =
  c_id :: OrderId
  c_timestamp :: Timestamp

record fill_message =
  f_aggressive_id :: OrderId
  f_passive_id :: OrderId
  f_price :: Price
  f_quantity :: Quantity
  f_timestamp :: Timestamp
  f_aggressor_side :: Side

record book_update_message =
  u_side :: Side
  u_price :: Price
  u_new_total_quantity :: Quantity

datatype engine_message = NewOrder new_order_message | Cancel cancel_message

datatype output_message = FillOut fill_message | BookUpdate book_update_message

section \<open>Facts about quantities\<close>

lemma remaining_pos_iff: "0 < remaining_quantity x \<and> o_filled_quantity x \<le> o_quantity x \<longleftrightarrow> \<not> is_filled x"
  by (auto simp: remaining_quantity_def is_filled_def word_less_nat_alt word_le_nat_alt unat_sub
      word_gt_0_unat)

lemma unat_remaining:
  "o_filled_quantity x \<le> o_quantity x \<Longrightarrow>
    unat (remaining_quantity x) = unat (o_quantity x) - unat (o_filled_quantity x)"
  by (simp add: remaining_quantity_def unat_sub)

text \<open>Filling an order by no more than what is open: the open quantity drops by exactly that.\<close>

lemma fill_remaining:
  assumes "\<not> is_filled x" "q \<le> remaining_quantity x"
  defines "y \<equiv> x\<lparr>o_filled_quantity := o_filled_quantity x + q\<rparr>"
  shows "remaining_quantity y = remaining_quantity x - q"
    and "o_filled_quantity y \<le> o_quantity y"
    and "unat (remaining_quantity y) = unat (remaining_quantity x) - unat q"
    and "is_filled y \<longleftrightarrow> q = remaining_quantity x"
proof -
  let ?f = "o_filled_quantity x" and ?n = "o_quantity x"
  have lt: "unat ?f < unat ?n"
    using assms(1) by (simp add: is_filled_def word_less_nat_alt not_le)
  have q: "unat q \<le> unat ?n - unat ?f"
    using assms(2) lt unat_remaining [of x] by (simp add: word_le_nat_alt)
  have uf: "unat (?f + q) = unat ?f + unat q"
    by (rule unat_add_lem [THEN iffD1]) (use q lt unsigned_less [of ?n, where ?'a = nat] in linarith)
  show "remaining_quantity y = remaining_quantity x - q"
    by (simp add: y_def remaining_quantity_def)
  show le: "o_filled_quantity y \<le> o_quantity y"
    using q lt uf by (simp add: y_def word_le_nat_alt)
  show "unat (remaining_quantity y) = unat (remaining_quantity x) - unat q"
    using unat_remaining [OF le] unat_remaining [of x] lt uf
    by (simp add: y_def word_le_nat_alt)
  have "is_filled y \<longleftrightarrow> unat ?n \<le> unat ?f + unat q"
    using uf by (simp add: is_filled_def y_def word_le_nat_alt)
  also have "\<dots> \<longleftrightarrow> unat q = unat (remaining_quantity x)"
    using q lt unat_remaining [of x] by (auto simp: word_le_nat_alt)
  also have "\<dots> \<longleftrightarrow> q = remaining_quantity x"
    by (simp add: word_unat_eq_iff)
  finally show "is_filled y \<longleftrightarrow> q = remaining_quantity x" .
qed

end
