(* ===== verification/Ieee_Double.thy ===== *)
theory Ieee_Double
  imports Prelude "HOL-Library.Log_Nat"
begin

text \<open>
  IEEE 754 binary64 arithmetic, as far as the program uses it: the price and size
  conversions of \<^verbatim>\<open>core/types.h\<close> and \<^verbatim>\<open>feed/feed_handler.cpp\<close> and the rank computation of
  \<^verbatim>\<open>metrics/latency_tracker.h\<close>.  A finite double is the rational number it denotes, and
  every operation rounds the exact result to nearest, ties to even, with 53 bits of
  precision and gradual underflow.  Signed zeros and NaN payloads are not distinguished.
\<close>

datatype dbl = Fin rat | PInf | NInf | NaN

section \<open>Rounding\<close>

definition bit_length :: "int \<Rightarrow> int" where
  "bit_length n = int (floorlog 2 (nat n))"

text \<open>The binary exponent: \<open>2 ^ k \<le> x < 2 ^ (k + 1)\<close> for positive \<open>x\<close>.\<close>

definition exponent :: "rat \<Rightarrow> int" where
  "exponent x = (let (n, d) = quotient_of x; k = bit_length n - bit_length d in
     if 2 powi k \<le> x then k else k - 1)"

definition round_even :: "rat \<Rightarrow> int" where
  "round_even y = (let f = \<lfloor>y\<rfloor>; d = y - of_int f in
     if d < 1 / 2 \<or> (d = 1 / 2 \<and> even f) then f else f + 1)"

definition ulp :: "rat \<Rightarrow> rat" where
  "ulp x = 2 powi (max (exponent \<bar>x\<bar> - 52) (- 1074))"

definition fl :: "rat \<Rightarrow> rat" where
  "fl x = (if x = 0 then 0 else of_int (round_even (x / ulp x)) * ulp x)"

definition round_dbl :: "rat \<Rightarrow> dbl" where
  "round_dbl x = (let r = fl x in if r \<ge> 2 ^ 1024 then PInf else if r \<le> - (2 ^ 1024) then NInf else Fin r)"

section \<open>Operations\<close>

fun dneg :: "dbl \<Rightarrow> dbl" where
  "dneg (Fin x) = Fin (- x)" | "dneg PInf = NInf" | "dneg NInf = PInf" | "dneg NaN = NaN"

fun scale_inf :: "rat \<Rightarrow> dbl \<Rightarrow> dbl" where
  "scale_inf x d = (if x > 0 then d else if x < 0 then dneg d else NaN)"

fun dmul :: "dbl \<Rightarrow> dbl \<Rightarrow> dbl" where
  "dmul (Fin x) (Fin y) = round_dbl (x * y)"
| "dmul NaN _ = NaN" | "dmul _ NaN = NaN"
| "dmul (Fin x) d = scale_inf x d" | "dmul d (Fin y) = scale_inf y d"
| "dmul PInf d = d" | "dmul NInf d = dneg d"

fun ddiv :: "dbl \<Rightarrow> dbl \<Rightarrow> dbl" where
  "ddiv (Fin x) (Fin y) = (if y = 0 then scale_inf x PInf else round_dbl (x / y))"
| "ddiv NaN _ = NaN" | "ddiv _ NaN = NaN"
| "ddiv (Fin x) d = Fin 0" | "ddiv d (Fin y) = (if y < 0 then dneg d else d)"
| "ddiv d e = NaN"

fun dadd :: "dbl \<Rightarrow> dbl \<Rightarrow> dbl" where
  "dadd (Fin x) (Fin y) = round_dbl (x + y)"
| "dadd NaN _ = NaN" | "dadd _ NaN = NaN"
| "dadd (Fin x) d = d" | "dadd d (Fin y) = d"
| "dadd PInf PInf = PInf" | "dadd NInf NInf = NInf" | "dadd d e = NaN"

text \<open>The comparison \<^verbatim>\<open>a <= b\<close>; false when an operand is a NaN.\<close>

fun dle :: "dbl \<Rightarrow> dbl \<Rightarrow> bool" where
  "dle (Fin x) (Fin y) \<longleftrightarrow> x \<le> y"
| "dle NaN _ \<longleftrightarrow> False" | "dle _ NaN \<longleftrightarrow> False"
| "dle NInf _ \<longleftrightarrow> True" | "dle _ PInf \<longleftrightarrow> True" | "dle _ _ \<longleftrightarrow> False"

text \<open>The comparison \<^verbatim>\<open>a < b\<close>.\<close>

definition dlt :: "dbl \<Rightarrow> dbl \<Rightarrow> bool" where
  "dlt a b \<longleftrightarrow> dle a b \<and> \<not> dle b a"

text \<open>\<^verbatim>\<open>static_cast<double>\<close> of an integer, and \<^verbatim>\<open>std::round\<close> (halves away from zero).\<close>

definition dbl_of_int :: "int \<Rightarrow> dbl" where
  "dbl_of_int n = round_dbl (of_int n)"

definition round_away :: "rat \<Rightarrow> int" where
  "round_away x = (if x \<ge> 0 then \<lfloor>x + 1 / 2\<rfloor> else \<lceil>x - 1 / 2\<rceil>)"

definition trunc_int :: "rat \<Rightarrow> int" where
  "trunc_int x = (if x \<ge> 0 then \<lfloor>x\<rfloor> else \<lceil>x\<rceil>)"

section \<open>Exponents\<close>

lemma bit_length_bounds:
  assumes "0 < n"
  shows "2 powi (bit_length n - 1) \<le> (of_int n :: rat)" "(of_int n :: rat) < 2 powi bit_length n"
proof -
  let ?m = "nat n" and ?k = "floorlog 2 (nat n)"
  have m: "0 < ?m" using assms by simp
  have k: "0 < ?k" using m by (simp add: floorlog_def)
  have "2 ^ (?k - 1) \<le> ?m" "?m < 2 ^ ?k"
    using floorlog_bounds [OF m, of 2] by auto
  then have "(2::rat) ^ (?k - 1) \<le> of_nat ?m" "(of_nat ?m :: rat) < 2 ^ ?k"
    using of_nat_le_iff [of "2 ^ (?k - 1)" ?m, where ?'a = rat] of_nat_less_iff [of ?m "2 ^ ?k", where ?'a = rat]
    by (simp_all only: of_nat_numeral of_nat_power)
  moreover have "int ?k - 1 = int (?k - 1)" using k by simp
  moreover have "(of_nat ?m :: rat) = of_int n" using assms by simp
  ultimately show "2 powi (bit_length n - 1) \<le> (of_int n :: rat)" "(of_int n :: rat) < 2 powi bit_length n"
    by (simp_all only: bit_length_def power_int_of_nat)
qed

lemma exponent_bounds:
  assumes "0 < x"
  shows "2 powi exponent x \<le> x" "x < 2 powi (exponent x + 1)"
proof -
  obtain n d where q: "quotient_of x = (n, d)" by (cases "quotient_of x")
  have d: "0 < d" and x: "x = of_int n / of_int d" using quotient_of_denom_pos [OF q] quotient_of_div [OF q] by auto
  have n: "0 < n" using assms x d by (simp add: zero_less_divide_iff)
  let ?k = "bit_length n - bit_length d"
  note bn = bit_length_bounds [OF n] and bd = bit_length_bounds [OF d]
  have dpos: "(0::rat) < of_int d" using d by simp
  have "x < 2 powi bit_length n / 2 powi (bit_length d - 1)"
    unfolding x using bn(2) bd(1) dpos n by (intro frac_less) auto
  also have "\<dots> = 2 powi (bit_length n - (bit_length d - 1))" by (simp add: power_int_diff [symmetric])
  also have "bit_length n - (bit_length d - 1) = ?k + 1" by simp
  finally have up: "x < 2 powi (?k + 1)" .
  have "2 powi (bit_length n - 1) / 2 powi bit_length d \<le> x"
    unfolding x using bn(1) bd(2) dpos n by (intro frac_le) auto
  moreover have "(2::rat) powi (bit_length n - 1) / 2 powi bit_length d = 2 powi (?k - 1)"
    by (simp add: power_int_diff [symmetric] algebra_simps)
  ultimately have lo: "2 powi (?k - 1) \<le> x" by simp
  show "2 powi exponent x \<le> x" using lo by (simp add: exponent_def q Let_def)
  show "x < 2 powi (exponent x + 1)" using up by (simp add: exponent_def q Let_def)
qed


section \<open>Rounding errors\<close>

lemma round_even_error: "\<bar>of_int (round_even y) - y\<bar> \<le> 1 / 2"
  using floor_correct [of y] by (auto simp: round_even_def Let_def)

lemma round_even_int [simp]: "round_even (of_int n) = n"
  by (simp add: round_even_def)

lemma round_even_le:
  assumes "y \<le> of_int n"
  shows "round_even y \<le> n"
proof (cases "y = of_int n")
  case False
  then have "\<lfloor>y\<rfloor> < n" using assms by (simp add: floor_less_iff)
  then show ?thesis by (simp add: round_even_def Let_def)
qed simp

lemma round_even_ge:
  assumes "of_int n \<le> y"
  shows "n \<le> round_even y"
proof -
  have "n \<le> \<lfloor>y\<rfloor>" using assms by (simp add: le_floor_iff)
  then show ?thesis by (simp add: round_even_def Let_def)
qed

lemma ulp_pos [simp]: "0 < ulp x" "ulp x \<noteq> 0"
  by (simp_all add: ulp_def)

lemma fl_0 [simp]: "fl 0 = 0"
  by (simp add: fl_def)

text \<open>The error is at most half a unit in the last place.\<close>

lemma fl_error_ulp: "\<bar>fl x - x\<bar> \<le> ulp x / 2"
proof (cases "x = 0")
  case False
  have "fl x - x = (of_int (round_even (x / ulp x)) - x / ulp x) * ulp x"
    using False by (simp add: fl_def algebra_simps)
  then have "\<bar>fl x - x\<bar> = \<bar>of_int (round_even (x / ulp x)) - x / ulp x\<bar> * ulp x"
    by (simp only: abs_mult abs_of_pos [OF ulp_pos(1)])
  also have "\<dots> \<le> (1 / 2) * ulp x" by (intro mult_right_mono round_even_error) (simp add: less_imp_le)
  finally show ?thesis by simp
qed (simp add: less_imp_le)

text \<open>For numbers in the normal range the relative error is at most \<open>2 ^ -53\<close>.\<close>

lemma fl_error:
  assumes "2 powi (- 1022) \<le> \<bar>x\<bar>"
  shows "\<bar>fl x - x\<bar> \<le> \<bar>x\<bar> / 2 ^ 53"
proof -
  have pos: "0 < \<bar>x\<bar>" using assms zero_less_power_int [of 2 "-1022"] by (metis less_le_trans zero_less_numeral)
  note eb = exponent_bounds [OF pos]
  have "(2::rat) powi (- 1022) < 2 powi (exponent \<bar>x\<bar> + 1)" using assms eb(2) by (rule le_less_trans)
  then have "- 1022 < exponent \<bar>x\<bar> + 1" using power_int_increasing [of "exponent \<bar>x\<bar> + 1" "- 1022" "2::rat"] by force
  then have "- 1022 \<le> exponent \<bar>x\<bar>" by simp
  then have "max (exponent \<bar>x\<bar> - 52) (- 1074) = exponent \<bar>x\<bar> - 52" by (intro max_absorb1) simp
  then have u: "ulp x = 2 powi (exponent \<bar>x\<bar> - 52)" by (simp only: ulp_def)
  have "ulp x / 2 = 2 powi exponent \<bar>x\<bar> / 2 ^ 53"
    unfolding u by (simp add: power_int_diff power_numeral_reduce)
  also have "\<dots> \<le> \<bar>x\<bar> / 2 ^ 53" using eb(1) by (intro divide_right_mono) simp_all
  finally show ?thesis using fl_error_ulp [of x] by simp
qed


lemma exponent_less:
  assumes "0 < x" "x < 2 ^ k"
  shows "exponent x < int k"
proof (rule ccontr)
  assume "\<not> exponent x < int k"
  then have "(2::rat) powi int k \<le> 2 powi exponent x" by (intro power_int_increasing) simp_all
  then show False using exponent_bounds(1) [OF assms(1)] assms(2) by simp
qed

text \<open>Below \<open>2 ^ k\<close> the absolute error is at most \<open>2 ^ (k - 54)\<close>.\<close>

lemma fl_abs_error:
  assumes "\<bar>x\<bar> < 2 ^ k"
  shows "\<bar>fl x - x\<bar> \<le> 2 ^ k / 2 ^ 54"
proof (cases "x = 0")
  case False
  then have "exponent \<bar>x\<bar> < int k" using assms by (intro exponent_less) simp_all
  then have "max (exponent \<bar>x\<bar> - 52) (- 1074) \<le> int k - 53" by simp
  then have "ulp x \<le> 2 powi (int k - 53)" unfolding ulp_def by (intro power_int_increasing) simp_all
  also have "\<dots> = 2 ^ k / 2 ^ 53" by (simp add: power_int_diff)
  finally show ?thesis using fl_error_ulp [of x] by simp
qed simp

text \<open>
  Below \<open>2 ^ (53 - j)\<close> the unit in the last place divides \<open>2 ^ -j\<close>, so rounding does not
  move a number across a multiple of \<open>2 ^ -j\<close>.
\<close>

lemma ulp_divides:
  assumes "x \<noteq> 0" "\<bar>x\<bar> < 2 ^ (53 - j)" "j \<le> 53"
  shows "\<exists>m. (1::rat) / 2 ^ j / ulp x = of_int m"
proof -
  let ?e = "max (exponent \<bar>x\<bar> - 52) (- 1074)"
  have "exponent \<bar>x\<bar> < int (53 - j)" using assms by (intro exponent_less) simp_all
  then have e: "?e \<le> - int j" using assms(3) by simp
  have "(1::rat) / 2 ^ j = 2 powi (- int j)" by (simp add: power_int_minus inverse_eq_divide)
  then have "(1::rat) / 2 ^ j / ulp x = 2 powi (- int j - ?e)" by (simp only: ulp_def power_int_diff [OF disjI1] zero_neq_numeral [symmetric] not_False_eq_True)
  also have "\<dots> = 2 ^ nat (- int j - ?e)" using e by (simp add: power_int_def)
  also have "\<dots> = of_int (2 ^ nat (- int j - ?e))" by simp
  finally show ?thesis by blast
qed

lemma fl_le_grid:
  assumes "x \<le> of_int n / 2 ^ j" "\<bar>x\<bar> < 2 ^ (53 - j)" "j \<le> 53" "0 \<le> n"
  shows "fl x \<le> of_int n / 2 ^ j"
proof (cases "x = 0")
  case False
  obtain m where m: "(1::rat) / 2 ^ j / ulp x = of_int m" using ulp_divides [OF False assms(2,3)] by blast
  have eq: "of_int n / 2 ^ j = of_int (n * m) * ulp x"
    using m by (simp add: field_simps)
  have "x / ulp x \<le> of_int (n * m)" using assms(1) unfolding eq by (simp add: pos_divide_le_eq)
  then have "round_even (x / ulp x) \<le> n * m" by (rule round_even_le)
  then have "of_int (round_even (x / ulp x)) * ulp x \<le> of_int (n * m) * ulp x"
    by (intro mult_right_mono) (simp_all only: of_int_le_iff less_imp_le ulp_pos)
  then show ?thesis using False by (simp add: fl_def eq)
qed (use assms in simp)

lemma fl_ge_grid:
  assumes "of_int n / 2 ^ j \<le> x" "\<bar>x\<bar> < 2 ^ (53 - j)" "j \<le> 53" "n \<le> 0 \<or> x \<noteq> 0"
  shows "of_int n / 2 ^ j \<le> fl x"
proof (cases "x = 0")
  case False
  obtain m where m: "(1::rat) / 2 ^ j / ulp x = of_int m" using ulp_divides [OF False assms(2,3)] by blast
  have eq: "of_int n / 2 ^ j = of_int (n * m) * ulp x"
    using m by (simp add: field_simps)
  have "of_int (n * m) \<le> x / ulp x" using assms(1) unfolding eq by (simp add: pos_le_divide_eq)
  then have "n * m \<le> round_even (x / ulp x)" by (rule round_even_ge)
  then have "of_int (n * m) * ulp x \<le> of_int (round_even (x / ulp x)) * ulp x"
    by (intro mult_right_mono) (simp_all only: of_int_le_iff less_imp_le ulp_pos)
  then show ?thesis using False by (simp add: fl_def eq)
qed (use assms in simp)

text \<open>Integers below \<open>2 ^ 53\<close> are represented exactly.\<close>

lemma fl_int: "\<bar>n\<bar> < 2 ^ 53 \<Longrightarrow> fl (of_int n) = of_int n"
proof (cases "n = 0")
  case False
  assume "\<bar>n\<bar> < 2 ^ 53"
  then have "\<bar>of_int n :: rat\<bar> < 2 ^ (53 - 0)" using of_int_less_iff [of "\<bar>n\<bar>" "2 ^ 53", where ?'a = rat] by simp
  then obtain m where m: "(1::rat) / 2 ^ 0 / ulp (of_int n) = of_int m"
    using ulp_divides [of "of_int n" 0] False by auto
  then have "of_int n / ulp (of_int n) = of_int (n * m)" by (simp add: field_simps)
  then have "round_even (of_int n / ulp (of_int n)) = n * m" by (simp only: round_even_int)
  moreover have "of_int (n * m) * ulp (of_int n) = (of_int n :: rat)" using m by (simp add: field_simps)
  ultimately show ?thesis using False by (simp add: fl_def)
qed simp


lemma round_dbl_fin:
  assumes "\<bar>fl x\<bar> < 2 ^ 1024"
  shows "round_dbl x = Fin (fl x)"
proof -
  have "\<not> fl x \<ge> 2 ^ 1024" "\<not> fl x \<le> - (2 ^ 1024)" using assms by (simp_all only: abs_less_iff not_le minus_less_iff)
  then show ?thesis by (simp only: round_dbl_def Let_def if_False)
qed

lemma small_power: "(y::rat) < 2 ^ k \<Longrightarrow> k \<le> 1024 \<Longrightarrow> y < 2 ^ 1024"
  by (erule order_less_le_trans) (rule power_increasing, simp_all)

lemma dbl_fin_error:
  assumes "\<bar>x\<bar> < 2 ^ k" "k \<le> 1000"
  obtains y where "round_dbl x = Fin y" "\<bar>y - x\<bar> \<le> 2 ^ k / 2 ^ 54"
proof
  have e: "\<bar>fl x - x\<bar> \<le> 2 ^ k / 2 ^ 54" by (rule fl_abs_error) (rule assms(1))
  have "(2::rat) ^ k / 2 ^ 54 \<le> 2 ^ k" by (simp add: divide_le_eq)
  then have "\<bar>fl x\<bar> < 2 ^ Suc k" unfolding power_Suc using e assms(1) by linarith
  then have "\<bar>fl x\<bar> < 2 ^ 1024" by (rule small_power) (use assms(2) in simp)
  then show "round_dbl x = Fin (fl x)" by (rule round_dbl_fin)
  show "\<bar>fl x - x\<bar> \<le> 2 ^ k / 2 ^ 54" by (rule e)
qed

text \<open>Rounding a number that is not negative.\<close>

lemma fl_nonneg: "0 \<le> x \<Longrightarrow> 0 \<le> fl x"
  using round_even_ge [of 0 "x / ulp x"] by (simp add: fl_def less_imp_le)

lemma dbl_fin_nonneg:
  assumes "0 \<le> x" "x < 2 ^ k" "k \<le> 1000"
  obtains y where "round_dbl x = Fin y" "0 \<le> y" "y \<le> x + 2 ^ k / 2 ^ 54"
proof -
  have "\<bar>x\<bar> < 2 ^ k" using assms(1,2) by simp
  then obtain y where y: "round_dbl x = Fin y" "\<bar>y - x\<bar> \<le> 2 ^ k / 2 ^ 54" using dbl_fin_error assms(3) by blast
  have "y = fl x" using y(1) by (auto simp: round_dbl_def Let_def split: if_splits)
  then have "0 \<le> y" using fl_nonneg [OF assms(1)] by simp
  moreover have "y \<le> x + 2 ^ k / 2 ^ 54" using y(2) unfolding abs_le_iff by linarith
  ultimately show thesis by (rule that [OF y(1)])
qed

lemma dbl_of_int_exact:
  assumes "\<bar>n\<bar> < 2 ^ 53"
  shows "dbl_of_int n = Fin (of_int n)"
proof -
  have "\<bar>fl (of_int n)\<bar> < (2::rat) ^ 53"
    using fl_int [OF assms] assms of_int_less_iff [of "\<bar>n\<bar>" "2 ^ 53", where ?'a = rat] by simp
  then have "\<bar>fl (of_int n)\<bar> < 2 ^ 1024" by (rule small_power) simp
  then show ?thesis using round_dbl_fin fl_int [OF assms] by (simp add: dbl_of_int_def)
qed

lemma round_away_near:
  assumes "\<bar>x - of_int n\<bar> < 1 / 2"
  shows "round_away x = n"
proof -
  have b: "x - of_int n < 1 / 2" "- (x - of_int n) < 1 / 2" using assms by (simp_all only: abs_less_iff)
  show ?thesis
  proof (cases "x \<ge> 0")
    case True
    have "\<lfloor>x + 1 / 2\<rfloor> = n" by (rule floor_unique) (use b in linarith)+
    then show ?thesis using True by (simp add: round_away_def)
  next
    case False
    have "\<lceil>x - 1 / 2\<rceil> = n" by (rule ceiling_unique) (use b in linarith)+
    then show ?thesis using False by (simp add: round_away_def)
  qed
qed


end
