(* ===== verification/Price_Conversion.thy ===== *)
theory Price_Conversion
  imports Core_Types Ieee_Double
begin

text \<open>
  The conversions between dollars and ticks at the boundary of the system
  (\<^verbatim>\<open>core/types.h\<close>).  The cast of a double to a 64-bit integer is undefined when the
  value does not fit; that is \<open>None\<close>.
\<close>

definition DOLLARS_PER_TICK :: dbl where
  "DOLLARS_PER_TICK = round_dbl (1 / 100)"

definition to_int64 :: "rat \<Rightarrow> int option" where
  "to_int64 x = (let t = trunc_int x in if - (2 ^ 63) \<le> t \<and> t < 2 ^ 63 then Some t else None)"

definition dollars_to_ticks :: "dbl \<Rightarrow> Price option" where
  "dollars_to_ticks price = (case ddiv price DOLLARS_PER_TICK of
      Fin x \<Rightarrow> to_int64 (of_int (round_away x))
    | _ \<Rightarrow> None)"

definition ticks_to_dollars :: "Price \<Rightarrow> dbl" where
  "ticks_to_dollars ticks = dmul (dbl_of_int ticks) DOLLARS_PER_TICK"

section \<open>Error analysis\<close>

lemma rel_error_obtain:
  assumes "2 powi (- 1022) \<le> \<bar>x\<bar>"
  obtains \<delta> where "fl x = x * (1 + \<delta>)" "\<bar>\<delta>\<bar> \<le> 1 / 2 ^ 53"
proof -
  have pos: "0 < \<bar>x\<bar>" using assms zero_less_power_int [of 2 "-1022"] by (metis less_le_trans zero_less_numeral)
  have "fl x = x * (1 + (fl x - x) / x)" using pos by (simp add: field_simps)
  moreover have "\<bar>(fl x - x) / x\<bar> \<le> 1 / 2 ^ 53"
    using fl_error [OF assms] pos by (simp add: abs_divide pos_divide_le_eq mult.commute)
  ultimately show thesis by (rule that)
qed

lemma tiny: "(2::rat) powi (- 1022) \<le> 1 / 2 ^ 20"
proof -
  have "(2::rat) powi (- 1022) \<le> 2 powi (- 20)" by (rule power_int_increasing) simp_all
  then show ?thesis by (simp add: power_int_minus inverse_eq_divide)
qed

lemma fin_small: "\<bar>fl x\<bar> < 2 ^ k \<Longrightarrow> k \<le> 1024 \<Longrightarrow> round_dbl x = Fin (fl x)"
  by (rule round_dbl_fin) (rule small_power)

lemma tick_error: "\<bar>fl (1 / 100) - 1 / 100\<bar> \<le> 1 / 1000"
proof -
  have "(2::rat) powi (- 1022) \<le> \<bar>1 / 100\<bar>" using tiny by simp
  from fl_error [OF this] show ?thesis by (rule order_trans) simp
qed

lemma tick_fin: "DOLLARS_PER_TICK = Fin (fl (1 / 100))"
proof -
  have "fl (1 / 100) - 1 / 100 \<le> (1 / 1000 :: rat)" "1 / 100 - fl (1 / 100) \<le> (1 / 1000 :: rat)" using tick_error by linarith+
  then have "\<bar>fl (1 / 100)\<bar> < (2::rat) ^ 0" by (simp add: abs_less_iff)
  then show ?thesis unfolding DOLLARS_PER_TICK_def by (rule fin_small) simp
qed

lemma tick_value:
  obtains d where "DOLLARS_PER_TICK = Fin d" "1 / 128 < d" "d < 1 / 64"
proof (rule that [OF tick_fin])
  have "fl (1 / 100) - 1 / 100 \<le> (1 / 1000 :: rat)" "1 / 100 - fl (1 / 100) \<le> (1 / 1000 :: rat)" using tick_error by linarith+
  then show "1 / 128 < fl (1 / 100)" "fl (1 / 100) < 1 / 64" by simp_all
qed

text \<open>The conversion is defined for every amount up to \<open>2 ^ 40\<close> dollars.\<close>

lemma to_int64_int: "- (2 ^ 63) \<le> n \<Longrightarrow> n < 2 ^ 63 \<Longrightarrow> to_int64 (of_int n) = Some n"
  by (simp add: to_int64_def trunc_int_def)

lemma round_away_bound: "\<bar>x\<bar> < of_int n \<Longrightarrow> \<bar>round_away x\<bar> \<le> n"
proof -
  assume "\<bar>x\<bar> < of_int n"
  then have x: "x < of_int n" "- x < of_int n" by (simp_all add: abs_less_iff)
  show ?thesis
  proof (cases "x \<ge> 0")
    case True
    then have "0 \<le> \<lfloor>x + 1 / 2\<rfloor>" by simp
    moreover have "\<lfloor>x + 1 / 2\<rfloor> < n + 1" unfolding floor_less_iff using x by simp
    ultimately show ?thesis using True by (simp add: round_away_def)
  next
    case False
    then have "\<lceil>x - 1 / 2\<rceil> \<le> 0" by (simp add: ceiling_le_iff)
    moreover have "- n - 1 < \<lceil>x - 1 / 2\<rceil>" unfolding less_ceiling_iff using x by simp
    ultimately show ?thesis using False by (simp add: round_away_def)
  qed
qed

lemma dollars_to_ticks_defined:
  assumes "\<bar>x\<bar> < 2 ^ 40"
  shows "\<exists>t. dollars_to_ticks (Fin x) = Some t"
proof -
  obtain d where d: "DOLLARS_PER_TICK = Fin d" "1 / 128 < d" "d < 1 / 64" by (rule tick_value)
  have "\<bar>x / d\<bar> = \<bar>x\<bar> / d" using d(2) by (simp add: abs_divide)
  also have "\<dots> \<le> 2 ^ 40 / (1 / 128)" using assms d(2) by (intro frac_le) simp_all
  also have "\<dots> < 2 ^ 48" by simp
  finally have q: "\<bar>x / d\<bar> < 2 ^ 48" .
  then obtain y where y: "round_dbl (x / d) = Fin y" "\<bar>y - x / d\<bar> \<le> 2 ^ 48 / 2 ^ 54" by (rule dbl_fin_error) simp
  have "\<bar>y - x / d\<bar> \<le> 1" using y(2) by (rule order_trans) simp
  moreover have "\<bar>x / d\<bar> < 281474976710656" using q by simp
  ultimately have "\<bar>y\<bar> < of_int 281474976710658" unfolding of_int_numeral by linarith
  then have "\<bar>round_away y\<bar> \<le> 281474976710658" by (rule round_away_bound)
  then have "to_int64 (of_int (round_away y)) = Some (round_away y)" by (intro to_int64_int) simp_all
  then show ?thesis using y(1) d(2) by (simp add: dollars_to_ticks_def d(1))
qed

lemma two_roundings:
  fixes x t d :: rat
  assumes t: "1 \<le> t" "t < 2 ^ 24" and d: "1 / 128 < d" "d < 1 / 64"
  shows "\<bar>fl (fl (t * d) / d) - t\<bar> < 1 / 2" "\<bar>fl (t * d)\<bar> < 2 ^ 24" "\<bar>fl (fl (t * d) / d)\<bar> < 2 ^ 25"
proof -
  have td: "1 / 128 \<le> t * d" "t * d < 2 ^ 18"
    using mult_mono [of 1 t "1 / 128" d] mult_strict_mono [of t "2 ^ 24" d "1 / 64"] t d by simp_all
  have "2 powi (- 1022) \<le> \<bar>t * d\<bar>" using tiny td by simp
  then obtain \<delta> where e1: "fl (t * d) = t * d * (1 + \<delta>)" "\<bar>\<delta>\<bar> \<le> 1 / 2 ^ 53" by (rule rel_error_obtain)
  have \<delta>: "\<bar>\<delta>\<bar> \<le> 1 / 2 ^ 30" "- (1 / 2 ^ 30) \<le> \<delta>" "\<delta> \<le> 1 / 2 ^ 30" using e1(2) by (simp_all add: abs_le_iff)
  have y: "fl (t * d) / d = t * (1 + \<delta>)" using e1(1) d by simp
  have ty: "1 / 2 \<le> t * (1 + \<delta>)" using mult_mono [of 1 t "1 / 2" "1 + \<delta>"] t \<delta> by simp
  then have "2 powi (- 1022) \<le> \<bar>t * (1 + \<delta>)\<bar>" using tiny by simp
  then obtain \<epsilon> where e2: "fl (t * (1 + \<delta>)) = t * (1 + \<delta>) * (1 + \<epsilon>)" "\<bar>\<epsilon>\<bar> \<le> 1 / 2 ^ 53" by (rule rel_error_obtain)
  have \<epsilon>: "\<bar>\<epsilon>\<bar> \<le> 1 / 2 ^ 30" using e2(2) by simp
  have "\<bar>(1 + \<delta>) * (1 + \<epsilon>) - 1\<bar> \<le> \<bar>\<delta>\<bar> + \<bar>\<epsilon>\<bar> + \<bar>\<delta>\<bar> * \<bar>\<epsilon>\<bar>"
    by (simp add: algebra_simps abs_mult [symmetric])
  also have "\<bar>\<delta>\<bar> * \<bar>\<epsilon>\<bar> \<le> 1 / 2 ^ 30 * 1" by (intro mult_mono \<delta>) (use \<epsilon> in simp_all)
  finally have dev: "\<bar>(1 + \<delta>) * (1 + \<epsilon>) - 1\<bar> \<le> 3 / 2 ^ 30" using \<delta>(1) \<epsilon> by simp
  have "fl (fl (t * d) / d) - t = t * ((1 + \<delta>) * (1 + \<epsilon>) - 1)" unfolding y e2(1) by (simp add: algebra_simps)
  then have "\<bar>fl (fl (t * d) / d) - t\<bar> = t * \<bar>(1 + \<delta>) * (1 + \<epsilon>) - 1\<bar>" using t by (simp add: abs_mult)
  also have "\<dots> \<le> t * (3 / 2 ^ 30)" using dev t by (intro mult_left_mono) simp_all
  also have "\<dots> < 2 ^ 24 * (3 / 2 ^ 30)" using t by (intro mult_strict_right_mono) simp_all
  also have "\<dots> < (1 / 2 :: rat)" by simp
  finally show near: "\<bar>fl (fl (t * d) / d) - t\<bar> < 1 / 2" .
  have "t < 16777216" using t by simp
  with near have "\<bar>fl (fl (t * d) / d)\<bar> < 33554432" using t(1) by linarith
  then show "\<bar>fl (fl (t * d) / d)\<bar> < 2 ^ 25" by simp
  have "\<bar>fl (t * d)\<bar> = t * d * (1 + \<delta>)" using e1(1) td \<delta> by simp
  also have "\<dots> < 2 ^ 18 * 2" using td \<delta> by (intro mult_strict_mono) simp_all
  finally show "\<bar>fl (t * d)\<bar> < 2 ^ 24" by simp
qed

text \<open>
  C20: Converting ticks to dollars and back is exact for every price of the grid, in
  spite of the rounding of \<^verbatim>\<open>0.01\<close>, of the product and of the quotient.
\<close>

theorem ticks_roundtrip:
  assumes "0 \<le> t" "t < MAX_PRICE_TICKS"
  shows "dollars_to_ticks (ticks_to_dollars t) = Some t"
proof (cases "t = 0")
  case True
  obtain d where d: "DOLLARS_PER_TICK = Fin d" "1 / 128 < d" by (rule tick_value)
  have z: "round_dbl 0 = Fin 0" using fin_small [of 0 0] by simp
  then have "ticks_to_dollars 0 = Fin 0" by (simp add: ticks_to_dollars_def dbl_of_int_def d(1))
  moreover have "ddiv (Fin 0) DOLLARS_PER_TICK = Fin 0" using z d by (simp add: d(1))
  moreover have "round_away 0 = 0" by (rule round_away_near) simp
  ultimately show ?thesis using True by (simp add: dollars_to_ticks_def to_int64_def trunc_int_def)
next
  case False
  obtain d where d: "DOLLARS_PER_TICK = Fin d" "1 / 128 < d" "d < 1 / 64" by (rule tick_value)
  have t: "1 \<le> (of_int t :: rat)" "(of_int t :: rat) < 2 ^ 24" "\<bar>t\<bar> < 2 ^ 53" "t < 2 ^ 63"
    using assms False by (simp_all add: MAX_PRICE_TICKS_def)
  note tr = two_roundings [OF t(1,2) d(2,3)]
  have "ticks_to_dollars t = Fin (fl (of_int t * d))"
    using dbl_of_int_exact [OF t(3)] fin_small [OF tr(2)] by (simp add: ticks_to_dollars_def d(1))
  moreover have "ddiv (Fin (fl (of_int t * d))) DOLLARS_PER_TICK = Fin (fl (fl (of_int t * d) / d))"
    using d(2) fin_small [OF tr(3)] by (simp add: d(1))
  moreover have "round_away (fl (fl (of_int t * d) / d)) = t" by (rule round_away_near [OF tr(1)])
  ultimately show ?thesis
    using t(4) assms by (simp add: dollars_to_ticks_def to_int64_def trunc_int_def)
qed

theorem ticks_roundtrip_witness: "dollars_to_ticks (ticks_to_dollars 6543210) = Some 6543210"
  by (rule ticks_roundtrip) (simp_all add: MAX_PRICE_TICKS_def)

end
