(* ===== verification/From_Chars.thy ===== *)
theory From_Chars
  imports Price_Conversion
begin

text \<open>
  \<^verbatim>\<open>std::from_chars\<close> for \<^verbatim>\<open>double\<close> in the default (general) format, as the feed handler uses
  it: an optional minus sign, decimal digits with an optional point and an optional
  exponent, or an infinity or NaN in letters.  The result is the error or the value,
  with the characters that were not consumed.  The exact decimal value is rounded to
  nearest; a value that rounds to an infinity, or a non-zero one that rounds to zero, is
  out of range.
\<close>

datatype errc = invalid_argument | result_out_of_range

definition is_digit :: "char \<Rightarrow> bool" where
  "is_digit c \<longleftrightarrow> 48 \<le> (of_char c :: nat) \<and> (of_char c :: nat) \<le> 57"

definition digit_value :: "char \<Rightarrow> nat" where
  "digit_value c = of_char c - 48"

definition nat_of_digits :: "string \<Rightarrow> nat" where
  "nat_of_digits s = foldl (\<lambda>n c. 10 * n + digit_value c) 0 s"

definition to_lower :: "char \<Rightarrow> char" where
  "to_lower c = (if 65 \<le> (of_char c :: nat) \<and> (of_char c :: nat) \<le> 90 then char_of ((of_char c :: nat) + 32) else c)"

definition is_nchar :: "char \<Rightarrow> bool" where
  "is_nchar c \<longleftrightarrow> is_digit c \<or> c = CHR ''_'' \<or>
     97 \<le> (of_char (to_lower c) :: nat) \<and> (of_char (to_lower c) :: nat) \<le> 122"

section \<open>The grammar\<close>

definition scan_sign :: "string \<Rightarrow> bool \<times> string" where
  "scan_sign s = (case s of [] \<Rightarrow> (False, []) | c # r \<Rightarrow> if c = CHR ''-'' then (True, r) else (False, s))"

definition scan_fraction :: "string \<Rightarrow> string \<times> string" where
  "scan_fraction s = (case s of [] \<Rightarrow> ([], [])
     | c # r \<Rightarrow> if c = CHR ''.'' then (takeWhile is_digit r, dropWhile is_digit r) else ([], s))"

text \<open>The sign of an exponent may also be a plus.  Without a digit there is no exponent.\<close>

definition scan_exponent :: "string \<Rightarrow> int \<times> string" where
  "scan_exponent s = (case s of [] \<Rightarrow> (0, [])
     | c # r \<Rightarrow>
         if c = CHR ''e'' \<or> c = CHR ''E'' then
           let (neg, r1) = (case r of [] \<Rightarrow> (False, r)
                 | c1 # r' \<Rightarrow> if c1 = CHR ''-'' then (True, r') else if c1 = CHR ''+'' then (False, r') else (False, r));
               ds = takeWhile is_digit r1
           in if ds = [] then (0, s)
              else ((if neg then - 1 else 1) * int (nat_of_digits ds), dropWhile is_digit r1)
         else (0, s))"

definition scan_nan_payload :: "string \<Rightarrow> string" where
  "scan_nan_payload s = (case s of [] \<Rightarrow> []
     | c # r \<Rightarrow> if c = CHR ''('' then
         (case dropWhile is_nchar r of [] \<Rightarrow> s | c1 # r1 \<Rightarrow> if c1 = CHR '')'' then r1 else s)
       else s)"

definition scan_special :: "bool \<Rightarrow> string \<Rightarrow> (dbl \<times> string) option" where
  "scan_special neg s =
     (let inf = (if neg then NInf else PInf) in
      if map to_lower (take 8 s) = ''infinity'' then Some (inf, drop 8 s)
      else if map to_lower (take 3 s) = ''inf'' then Some (inf, drop 3 s)
      else if map to_lower (take 3 s) = ''nan'' then Some (NaN, scan_nan_payload (drop 3 s))
      else None)"

definition decimal_value :: "bool \<Rightarrow> string \<Rightarrow> string \<Rightarrow> int \<Rightarrow> rat" where
  "decimal_value neg ip fp e =
     (if neg then - 1 else 1) * of_nat (nat_of_digits (ip @ fp)) * 10 powi (e - int (length fp))"

definition represent :: "rat \<Rightarrow> errc + dbl" where
  "represent v = (case round_dbl v of
      Fin x \<Rightarrow> if x = 0 \<and> v \<noteq> 0 then Inl result_out_of_range else Inr (Fin x)
    | _ \<Rightarrow> Inl result_out_of_range)"

definition from_chars :: "string \<Rightarrow> (errc + dbl) \<times> string" where
  "from_chars s =
     (let (neg, s1) = scan_sign s;
          ip = takeWhile is_digit s1;
          (fp, r) = scan_fraction (dropWhile is_digit s1)
      in if ip = [] \<and> fp = [] then
           (case scan_special neg s1 of
              Some (d, rest) \<Rightarrow> (Inr d, rest)
            | None \<Rightarrow> (Inl invalid_argument, s))
         else let (e, rest) = scan_exponent r in (represent (decimal_value neg ip fp e), rest))"

section \<open>Decimal notation\<close>

text \<open>A number of \<open>w\<close> digits, with leading zeros, and an amount with \<open>w\<close> decimal places.\<close>

fun digits_of :: "nat \<Rightarrow> nat \<Rightarrow> string" where
  "digits_of 0 n = []"
| "digits_of (Suc w) n = digits_of w (n div 10) @ [char_of (48 + n mod 10)]"

definition print_amount :: "nat \<Rightarrow> nat \<Rightarrow> nat \<Rightarrow> string" where
  "print_amount v w n = digits_of v (n div 10 ^ w) @ ''.'' @ digits_of w n"

lemma digits_of_numeral:
  "digits_of (numeral w) n = digits_of (pred_numeral w) (n div 10) @ [char_of (48 + n mod 10)]"
  using digits_of.simps(2) [of "pred_numeral w" n] unfolding numeral_eq_Suc [of w, symmetric] .

lemma of_char_digit [simp]: "of_char (char_of (48 + n mod 10) :: char) = (48 + n mod 10 :: nat)"
proof -
  have "(48 + n mod 10) mod 256 = (48 + n mod 10 :: nat)" by (intro mod_less) (simp add: less_trans [OF mod_less_divisor])
  then show ?thesis by (simp only: of_char_of)
qed

lemma digit_char [simp]: "is_digit (char_of (48 + n mod 10))" "digit_value (char_of (48 + n mod 10)) = n mod 10"
proof -
  have "n mod 10 \<le> 9" using mod_less_divisor [of 10 n] by simp
  then show "is_digit (char_of (48 + n mod 10))" by (simp only: is_digit_def of_char_digit) simp
  show "digit_value (char_of (48 + n mod 10)) = n mod 10" by (simp only: digit_value_def of_char_digit add_diff_cancel_left')
qed

lemma length_digits_of [simp]: "length (digits_of w n) = w"
  by (induction w n rule: digits_of.induct) simp_all

lemma digits_of_all: "c \<in> set (digits_of w n) \<Longrightarrow> is_digit c"
  by (induction w n rule: digits_of.induct) auto

lemma nat_of_digits_snoc: "nat_of_digits (s @ [c]) = 10 * nat_of_digits s + digit_value c"
  by (simp add: nat_of_digits_def)

lemma nat_of_digits_of: "nat_of_digits (digits_of w n) = n mod 10 ^ w"
proof (induction w n rule: digits_of.induct)
  case (2 w n)
  have "n mod 10 ^ Suc w = 10 * (n div 10 mod 10 ^ w) + n mod 10" by (simp add: mod_mult2_eq)
  then show ?case using 2 by (simp only: digits_of.simps nat_of_digits_snoc digit_char)
qed (simp add: nat_of_digits_def)

lemma digits_of_append: "digits_of v (n div 10 ^ w) @ digits_of w n = digits_of (v + w) n"
proof (induction w arbitrary: n)
  case (Suc w)
  have "n div 10 ^ Suc w = n div 10 div 10 ^ w" by (simp add: div_mult2_eq)
  then show ?case using Suc [of "n div 10"] by simp
qed simp

lemma span_digits:
  assumes "\<And>c r'. r = c # r' \<Longrightarrow> \<not> is_digit c"
  shows "takeWhile is_digit (digits_of w n @ r) = digits_of w n" "dropWhile is_digit (digits_of w n @ r) = r"
  using assms digits_of_all [of _ w n] by (cases r; simp add: takeWhile_append dropWhile_append)+

lemma not_digit [simp]: "\<not> is_digit (CHR ''.'')" "\<not> is_digit (CHR ''-'')"
  by (simp_all add: is_digit_def)

lemma from_chars_amount:
  assumes "0 < v" "n < 10 ^ (v + w)"
  shows "from_chars (print_amount v w n) = (represent (of_nat n / 10 ^ w), [])"
proof -
  let ?i = "digits_of v (n div 10 ^ w)" and ?f = "digits_of w n"
  have ne: "?i \<noteq> []" using assms(1) length_digits_of [of v "n div 10 ^ w"] by (metis list.size(3) less_irrefl)
  have "hd ?i \<noteq> CHR ''-''" using ne digits_of_all [of "hd ?i"] by (metis hd_in_set not_digit(2))
  then have "scan_sign (?i @ ''.'' @ ?f) = (False, ?i @ ''.'' @ ?f)"
    using ne by (cases ?i) (simp_all add: scan_sign_def)
  moreover have "takeWhile is_digit (?i @ ''.'' @ ?f) = ?i" "dropWhile is_digit (?i @ ''.'' @ ?f) = ''.'' @ ?f"
    by (rule span_digits, simp)+
  moreover have "scan_fraction (''.'' @ ?f) = (?f, [])" using span_digits [of "[]" w n] by (simp add: scan_fraction_def)
  moreover have "decimal_value False ?i ?f 0 = of_nat n / 10 ^ w"
    using assms(2) by (simp add: decimal_value_def digits_of_append nat_of_digits_of power_int_minus inverse_eq_divide)
  ultimately show ?thesis using ne by (simp add: from_chars_def print_amount_def scan_exponent_def)
qed

end
