(* ===== verification/Feed_Handler.thy ===== *)
theory Feed_Handler
  imports From_Chars "HOL-Library.Multiset"
begin

text \<open>
  \<^verbatim>\<open>feed/feed_handler.cpp\<close>: Coinbase level-2 frames to engine messages.

  The JSON parser (simdjson) is a parameter, the record \<open>simdjson\<close>: parsing a document,
  a field of an element, and the conversions of an element to a string, an array and an
  unsigned integer, each \<open>None\<close> where the library reports an error.  The clock reading
  and the iteration order of the hash map are parameters as well.  An operation returns
  \<open>None\<close> where the source has undefined or unspecified behaviour: the cast of a price
  that does not fit 64 bits and the rounding of a NaN size.
\<close>

record 'el simdjson =
  sj_parse :: "string \<Rightarrow> 'el option"
  sj_at :: "'el \<Rightarrow> string \<Rightarrow> 'el option"
  sj_string :: "'el \<Rightarrow> string option"
  sj_array :: "'el \<Rightarrow> 'el list option"
  sj_uint64 :: "'el \<Rightarrow> 64 word option"

section \<open>Numbers\<close>

definition LOTS_PER_COIN :: dbl where
  "LOTS_PER_COIN = Fin 1000000"

definition parse_double :: "string \<Rightarrow> dbl option" where
  "parse_double s = (if s = [] then None
     else case from_chars s of
            (Inr d, rest) \<Rightarrow> if rest = [] then Some d else None
          | (Inl _, _) \<Rightarrow> None)"

datatype tick_result = Ticks Price | TickSyntax | TickRange

definition to_ticks :: "string \<Rightarrow> tick_result option" where
  "to_ticks s = (case parse_double s of
      None \<Rightarrow> Some TickSyntax
    | Some dollars \<Rightarrow> do {
        p \<leftarrow> dollars_to_ticks dollars;
        Some (if p \<le> 0 \<or> p \<ge> MAX_PRICE_TICKS then TickRange else Ticks p) })"

text \<open>\<^verbatim>\<open>std::llround\<close>; its result is unspecified outside the range of the type.\<close>

definition llround :: "dbl \<Rightarrow> int option" where
  "llround d = (case d of Fin x \<Rightarrow> to_int64 (of_int (round_away x)) | _ \<Rightarrow> None)"

definition to_lots :: "string \<Rightarrow> Quantity option option" where
  "to_lots s = (case parse_double s of
      None \<Rightarrow> Some None
    | Some coins \<Rightarrow>
        if dle coins (Fin 0) then Some (Some 0)
        else let scaled = dmul coins LOTS_PER_COIN in
          if dle (dbl_of_int (uint (- 1 :: Quantity))) scaled then Some (Some (- 1))
          else do {
            rounded \<leftarrow> llround scaled;
            Some (Some (if rounded < 0 then 0 else of_int rounded)) })"

definition parse_side :: "string \<Rightarrow> Side option" where
  "parse_side s = (if s = ''buy'' \<or> s = ''bid'' then Some Bid
     else if s = ''sell'' \<or> s = ''ask'' then Some Ask else None)"

section \<open>State\<close>

record level_key =
  lk_price :: Price
  lk_side :: Side

text \<open>
  The hash map of live levels is the list of its entries; a key is inserted only when it
  is absent.  Whatever order the container iterates in is a permutation of this list.
\<close>

type_synonym live_map = "(level_key \<times> OrderId) list"

record feed_impl =
  fh_live :: live_map
  fh_next_id :: OrderId
  fh_last_sequence :: "64 word"
  fh_have_sequence :: bool
  fh_malformed :: "64 word"
  fh_sequence_gaps :: "64 word"
  fh_ignored :: "64 word"
  fh_skipped :: "64 word"

definition new_feed :: feed_impl where
  "new_feed = \<lparr>fh_live = [], fh_next_id = 1, fh_last_sequence = 0, fh_have_sequence = False,
     fh_malformed = 0, fh_sequence_gaps = 0, fh_ignored = 0, fh_skipped = 0\<rparr>"

abbreviation bump_malformed :: "feed_impl \<Rightarrow> feed_impl" where
  "bump_malformed f \<equiv> f\<lparr>fh_malformed := fh_malformed f + 1\<rparr>"

abbreviation bump_skipped :: "feed_impl \<Rightarrow> feed_impl" where
  "bump_skipped f \<equiv> f\<lparr>fh_skipped := fh_skipped f + 1\<rparr>"

abbreviation bump_ignored :: "feed_impl \<Rightarrow> feed_impl" where
  "bump_ignored f \<equiv> f\<lparr>fh_ignored := fh_ignored f + 1\<rparr>"

definition note_sequence :: "64 word \<Rightarrow> feed_impl \<Rightarrow> feed_impl" where
  "note_sequence seq f =
     (let f1 = (if fh_have_sequence f \<and> seq \<noteq> fh_last_sequence f + 1
                then f\<lparr>fh_sequence_gaps := fh_sequence_gaps f + 1\<rparr> else f)
      in f1\<lparr>fh_have_sequence := True, fh_last_sequence := seq\<rparr>)"

definition apply_level ::
  "Side \<Rightarrow> Price \<Rightarrow> Quantity \<Rightarrow> Timestamp \<Rightarrow> feed_impl \<times> engine_message list \<Rightarrow> feed_impl \<times> engine_message list" where
  "apply_level side price qty ts st =
     (let (f, out) = st;
          key = \<lparr>lk_price = price, lk_side = side\<rparr>;
          (f1, out1) = (case map_of (fh_live f) key of
              Some oid \<Rightarrow> (f\<lparr>fh_live := filter (\<lambda>(k, _). k \<noteq> key) (fh_live f)\<rparr>,
                          out @ [Cancel \<lparr>c_id = oid, c_timestamp = ts\<rparr>])
            | None \<Rightarrow> (f, out))
      in if qty = 0 then (f1, out1)
         else let oid = fh_next_id f1 in
           (f1\<lparr>fh_next_id := oid + 1, fh_live := (key, oid) # fh_live f1\<rparr>,
            out1 @ [NewOrder \<lparr>n_id = oid, n_side = side, n_type = Limit, n_price = price,
                      n_quantity = qty, n_timestamp = ts\<rparr>]))"

definition reset_book ::
  "(live_map \<Rightarrow> live_map) \<Rightarrow> Timestamp \<Rightarrow> feed_impl \<times> engine_message list \<Rightarrow> feed_impl \<times> engine_message list" where
  "reset_book iter ts st =
     (let (f, out) = st in
      (f\<lparr>fh_live := []\<rparr>, out @ map (\<lambda>(_, oid). Cancel \<lparr>c_id = oid, c_timestamp = ts\<rparr>) (iter (fh_live f))))"

section \<open>Rows\<close>

text \<open>
  The loops over the strings of a row.  The counter is the number of elements read, or
  \<open>- 1\<close> after an element that is not a string.
\<close>

fun scan_pair :: "'el simdjson \<Rightarrow> 'el list \<Rightarrow> int \<times> string \<times> string \<Rightarrow> int \<times> string \<times> string" where
  "scan_pair sj [] st = st"
| "scan_pair sj (el # els) (i, price_s, size_s) =
     (case sj_string sj el of
        None \<Rightarrow> (- 1, price_s, size_s)
      | Some s \<Rightarrow> scan_pair sj els (i + 1, if i = 0 then s else price_s, if i = 1 then s else size_s))"

fun scan_triple :: "'el simdjson \<Rightarrow> 'el list \<Rightarrow> int \<times> string \<times> string \<times> string \<Rightarrow> int \<times> string \<times> string \<times> string" where
  "scan_triple sj [] st = st"
| "scan_triple sj (el # els) (field, side_s, price_s, size_s) =
     (case sj_string sj el of
        None \<Rightarrow> (- 1, side_s, price_s, size_s)
      | Some s \<Rightarrow> scan_triple sj els (field + 1, if field = 0 then s else side_s,
          if field = 1 then s else price_s, if field = 2 then s else size_s))"

text \<open>
  The price and size strings of a row: \<^verbatim>\<open>to_ticks\<close> first, \<^verbatim>\<open>to_lots\<close> only when it succeeds,
  and a failure is out of range or malformed by the flag \<^verbatim>\<open>oob\<close>.
\<close>

datatype level_result = Malformed | OutOfBook | Level Price Quantity

definition read_level :: "string \<Rightarrow> string \<Rightarrow> level_result option" where
  "read_level price_s size_s = do {
     t \<leftarrow> to_ticks price_s;
     (case t of
        TickSyntax \<Rightarrow> Some Malformed
      | TickRange \<Rightarrow> Some OutOfBook
      | Ticks price \<Rightarrow> do {
          l \<leftarrow> to_lots size_s;
          Some (case l of None \<Rightarrow> Malformed | Some qty \<Rightarrow> Level price qty) }) }"

definition consume_row ::
  "'el simdjson \<Rightarrow> Side \<Rightarrow> Timestamp \<Rightarrow> bool \<Rightarrow> 'el \<Rightarrow> feed_impl \<times> engine_message list \<Rightarrow> (feed_impl \<times> engine_message list) option" where
  "consume_row sj side ts skip_zero row_el st =
     (case sj_array sj row_el of
        None \<Rightarrow> Some (apfst bump_malformed st)
      | Some row \<Rightarrow>
          let (i, price_s, size_s) = scan_pair sj row (0, [], []) in
          if i < 2 then Some (apfst bump_malformed st)
          else do {
            r \<leftarrow> read_level price_s size_s;
            Some (case r of
                Malformed \<Rightarrow> apfst bump_malformed st
              | OutOfBook \<Rightarrow> apfst bump_skipped st
              | Level price qty \<Rightarrow>
                  if skip_zero \<and> qty = 0 then st else apply_level side price qty ts st) })"

fun consume_price_size_array ::
  "'el simdjson \<Rightarrow> Side \<Rightarrow> Timestamp \<Rightarrow> bool \<Rightarrow> 'el list \<Rightarrow> feed_impl \<times> engine_message list \<Rightarrow> (feed_impl \<times> engine_message list) option" where
  "consume_price_size_array sj side ts skip_zero [] st = Some st"
| "consume_price_size_array sj side ts skip_zero (row_el # levels) st = do {
     st1 \<leftarrow> consume_row sj side ts skip_zero row_el st;
     consume_price_size_array sj side ts skip_zero levels st1 }"

definition consume_change ::
  "'el simdjson \<Rightarrow> Timestamp \<Rightarrow> 'el \<Rightarrow> feed_impl \<times> engine_message list \<Rightarrow> (feed_impl \<times> engine_message list) option" where
  "consume_change sj ts change st =
     (case sj_array sj change of
        None \<Rightarrow> Some (apfst bump_malformed st)
      | Some row \<Rightarrow>
          let (field, side_s, price_s, size_s) = scan_triple sj row (0, [], [], []) in
          if field < 3 then Some (apfst bump_malformed st)
          else (case parse_side side_s of
              None \<Rightarrow> Some (apfst bump_malformed st)
            | Some side \<Rightarrow> do {
                r \<leftarrow> read_level price_s size_s;
                Some (case r of
                    Malformed \<Rightarrow> apfst bump_malformed st
                  | OutOfBook \<Rightarrow> apfst bump_skipped st
                  | Level price qty \<Rightarrow> apply_level side price qty ts st) }))"

fun consume_changes ::
  "'el simdjson \<Rightarrow> Timestamp \<Rightarrow> 'el list \<Rightarrow> feed_impl \<times> engine_message list \<Rightarrow> (feed_impl \<times> engine_message list) option" where
  "consume_changes sj ts [] st = Some st"
| "consume_changes sj ts (change # changes) st = do {
     st1 \<leftarrow> consume_change sj ts change st;
     consume_changes sj ts changes st1 }"

section \<open>Frames\<close>

text \<open>\<^verbatim>\<open>doc[key].get(x)\<close>: the field and its conversion, an error of either is an error.\<close>

definition get_field :: "'el simdjson \<Rightarrow> ('el \<Rightarrow> 'b option) \<Rightarrow> 'el \<Rightarrow> string \<Rightarrow> 'b option" where
  "get_field sj conv doc key = Option.bind (sj_at sj doc key) conv"

definition consume_side ::
  "'el simdjson \<Rightarrow> 'el \<Rightarrow> string \<Rightarrow> Side \<Rightarrow> Timestamp \<Rightarrow> feed_impl \<times> engine_message list \<Rightarrow> (feed_impl \<times> engine_message list) option" where
  "consume_side sj doc key side ts st =
     (case get_field sj (sj_array sj) doc key of
        None \<Rightarrow> Some st
      | Some levels \<Rightarrow> consume_price_size_array sj side ts True levels st)"

text \<open>The frame handler; the result also holds the returned number of appended messages.\<close>

definition parse ::
  "'el simdjson \<Rightarrow> (live_map \<Rightarrow> live_map) \<Rightarrow> Timestamp \<Rightarrow> string \<Rightarrow> feed_impl \<times> engine_message list \<Rightarrow>
     (nat \<times> feed_impl \<times> engine_message list) option" where
  "parse sj iter now raw_json st =
     (let before = length (snd st) in
      case sj_parse sj raw_json of
        None \<Rightarrow> Some (0, apfst bump_malformed st)
      | Some doc \<Rightarrow>
      case get_field sj (sj_string sj) doc ''type'' of
        None \<Rightarrow> Some (0, apfst bump_malformed st)
      | Some type \<Rightarrow>
          if type = ''l2update'' then
            (case get_field sj (sj_array sj) doc ''changes'' of
               None \<Rightarrow> Some (0, apfst bump_malformed st)
             | Some changes \<Rightarrow> do {
                 st1 \<leftarrow> consume_changes sj now changes st;
                 Some (length (snd st1) - before, st1) })
          else if type = ''snapshot'' then do {
            st1 \<leftarrow> consume_side sj doc ''bids'' Bid now (reset_book iter now st);
            st2 \<leftarrow> consume_side sj doc ''asks'' Ask now st1;
            Some (length (snd st2) - before, st2) }
          else if type = ''match'' \<or> type = ''last_match'' then
            Some (0, apfst bump_ignored
              (case get_field sj (sj_uint64 sj) doc ''sequence'' of
                 None \<Rightarrow> st
               | Some seq \<Rightarrow> apfst (note_sequence seq) st))
          else Some (0, apfst bump_ignored st))"

definition live_levels :: "feed_impl \<Rightarrow> nat" where
  "live_levels f = length (fh_live f)"

definition malformed_count :: "feed_impl \<Rightarrow> 64 word" where "malformed_count f = fh_malformed f"
definition sequence_gaps :: "feed_impl \<Rightarrow> 64 word" where "sequence_gaps f = fh_sequence_gaps f"
definition ignored_count :: "feed_impl \<Rightarrow> 64 word" where "ignored_count f = fh_ignored f"
definition skipped_count :: "feed_impl \<Rightarrow> 64 word" where "skipped_count f = fh_skipped f"

end
