(* ===== verification/Spsc_Queue.thy ===== *)
theory Spsc_Queue
  imports Prelude
begin

text \<open>
  \<^verbatim>\<open>transport/spsc_queue.h\<close>: the bounded ring buffer between two threads, with the
  operations as one thread executes them without interruption.  Indices are 64-bit
  words wrapped by a mask; \<open>cap\<close> is the template parameter \<^verbatim>\<open>Capacity\<close>.  The theory
  \<open>Spsc_Concurrent\<close> splits the operations into their atomic steps.
\<close>

record 'a spsc =
  q_head :: "64 word"
  q_tail_cache :: "64 word"
  q_tail :: "64 word"
  q_head_cache :: "64 word"
  q_buffer :: "'a list"

text \<open>The static assertions on the capacity.\<close>

definition capacity_ok :: "64 word \<Rightarrow> bool" where
  "capacity_ok cap \<longleftrightarrow> and cap (cap - 1) = 0 \<and> cap > 1"

definition kIndexMask :: "64 word \<Rightarrow> 64 word" where
  "kIndexMask cap = cap - 1"

definition new_spsc :: "64 word \<Rightarrow> 'a \<Rightarrow> 'a spsc" where
  "new_spsc cap zero = \<lparr>q_head = 0, q_tail_cache = 0, q_tail = 0, q_head_cache = 0,
     q_buffer = replicate (unat cap) zero\<rparr>"

definition next_index :: "64 word \<Rightarrow> 64 word \<Rightarrow> 64 word" where
  "next_index cap i = and (i + 1) (kIndexMask cap)"

text \<open>Access to the buffer; an index outside it is a fault.\<close>

definition slot_write :: "'a spsc \<Rightarrow> 64 word \<Rightarrow> 'a \<Rightarrow> 'a spsc option" where
  "slot_write q i x = (if unat i < length (q_buffer q) then Some (q\<lparr>q_buffer := (q_buffer q)[unat i := x]\<rparr>) else None)"

definition slot_read :: "'a spsc \<Rightarrow> 64 word \<Rightarrow> 'a option" where
  "slot_read q i = (if unat i < length (q_buffer q) then Some (q_buffer q ! unat i) else None)"

definition try_push :: "64 word \<Rightarrow> 'a \<Rightarrow> 'a spsc \<Rightarrow> (bool \<times> 'a spsc) option" where
  "try_push cap item q = (let head = q_head q; nxt = next_index cap head;
       q1 = (if nxt = q_tail_cache q then q\<lparr>q_tail_cache := q_tail q\<rparr> else q) in
     if nxt = q_tail_cache q1 then Some (False, q1)
     else do {
       q2 \<leftarrow> slot_write q1 head item;
       Some (True, q2\<lparr>q_head := nxt\<rparr>) })"

definition try_pop :: "64 word \<Rightarrow> 'a spsc \<Rightarrow> ('a option \<times> 'a spsc) option" where
  "try_pop cap q = (let tail = q_tail q;
       q1 = (if tail = q_head_cache q then q\<lparr>q_head_cache := q_head q\<rparr> else q) in
     if tail = q_head_cache q1 then Some (None, q1)
     else do {
       item \<leftarrow> slot_read q1 tail;
       Some (Some item, q1\<lparr>q_tail := next_index cap tail\<rparr>) })"

definition spsc_size :: "64 word \<Rightarrow> 'a spsc \<Rightarrow> 64 word" where
  "spsc_size cap q = and (q_head q - q_tail q) (kIndexMask cap)"

definition spsc_empty :: "'a spsc \<Rightarrow> bool" where
  "spsc_empty q \<longleftrightarrow> q_head q = q_tail q"

text \<open>Sequences of operations, and what a bounded first-in-first-out list does on them.\<close>

datatype 'a queue_op = Push 'a | Pop
datatype 'a queue_result = Pushed bool | Popped "'a option"

fun spsc_ops :: "64 word \<Rightarrow> 'a queue_op list \<Rightarrow> 'a spsc \<Rightarrow> ('a queue_result list \<times> 'a spsc) option" where
  "spsc_ops cap [] q = Some ([], q)"
| "spsc_ops cap (Push x # ops) q = do {
     (r, q1) \<leftarrow> try_push cap x q; (rs, q2) \<leftarrow> spsc_ops cap ops q1; Some (Pushed r # rs, q2) }"
| "spsc_ops cap (Pop # ops) q = do {
     (r, q1) \<leftarrow> try_pop cap q; (rs, q2) \<leftarrow> spsc_ops cap ops q1; Some (Popped r # rs, q2) }"

fun fifo_ops :: "nat \<Rightarrow> 'a queue_op list \<Rightarrow> 'a list \<Rightarrow> 'a queue_result list \<times> 'a list" where
  "fifo_ops limit [] xs = ([], xs)"
| "fifo_ops limit (Push x # ops) xs = (let ok = length xs < limit;
     (rs, ys) = fifo_ops limit ops (if ok then xs @ [x] else xs) in (Pushed ok # rs, ys))"
| "fifo_ops limit (Pop # ops) [] = (let (rs, ys) = fifo_ops limit ops [] in (Popped None # rs, ys))"
| "fifo_ops limit (Pop # ops) (x # xs) = (let (rs, ys) = fifo_ops limit ops xs in (Popped (Some x) # rs, ys))"

section \<open>Powers of two and index arithmetic\<close>

lemma and_pred_zero_nat:
  fixes c :: nat
  assumes "0 < c" "and c (c - 1) = 0"
  shows "\<exists>k. c = 2 ^ k"
  using assms
proof (induction c rule: less_induct)
  case (less c)
  show ?case
  proof (cases "even c")
    case True
    then obtain j where j: "c = 2 * j" by blast
    have "c - 1 = 2 * (j - 1) + 1" using j less.prems(1) by simp
    then have "and c (c - 1) = 2 * and j (j - 1)" using j by (subst and_rec) simp
    then have "and j (j - 1) = 0" "0 < j" "j < c" using less.prems j by simp_all
    from less.IH [OF this(3,2,1)] show ?thesis using j by (metis power_Suc)
  next
    case False
    then obtain j where j: "c = 2 * j + 1" by (metis oddE)
    then have "and c (c - 1) = 2 * j" by (subst and_rec) simp
    then have "c = 1" using less.prems(2) j by simp
    then show ?thesis by (metis power_0)
  qed
qed

lemma capacity_power:
  assumes "capacity_ok cap"
  obtains k where "unat cap = 2 ^ k" "0 < k" "k < 64" "kIndexMask cap = mask k"
proof -
  have gt: "1 < unat cap" using assms by (simp add: capacity_ok_def word_less_nat_alt)
  have "unat (cap - 1) = unat cap - 1" using gt by (subst unat_sub) (simp_all add: word_le_nat_alt)
  then have "and (unat cap) (unat cap - 1) = 0"
    using assms by (metis capacity_ok_def unsigned_0 unsigned_and_eq)
  with gt obtain k where k: "unat cap = 2 ^ k" using and_pred_zero_nat [of "unat cap"] by auto
  have "0 < k" using k gt by (cases k) auto
  moreover have "(2::nat) ^ k < 2 ^ 64" using k unsigned_less [of cap, where ?'a = nat] by simp
  then have "k < 64" by (rule power_less_imp_less_exp [rotated]) simp
  moreover have "cap = of_nat (unat cap)" by simp
  then have "cap = 2 ^ k" by (simp only: k of_nat_power of_nat_numeral)
  then have "kIndexMask cap = mask k" by (simp add: kIndexMask_def mask_eq_exp_minus_1)
  ultimately show thesis using that k by blast
qed

definition idx :: "64 word \<Rightarrow> nat \<Rightarrow> 64 word" where
  "idx cap n = and (of_nat n) (kIndexMask cap)"

lemma unat_idx:
  assumes "capacity_ok cap"
  shows "unat (idx cap n) = n mod unat cap"
proof -
  obtain k where k: "unat cap = 2 ^ k" "k < 64" "kIndexMask cap = mask k" using capacity_power [OF assms] by blast
  have "idx cap n = take_bit k (of_nat n)" by (simp add: idx_def k(3) take_bit_eq_mask)
  then have "unat (idx cap n) = take_bit k (unat (of_nat n :: 64 word))" by (simp only: unsigned_take_bit_eq)
  then have "unat (idx cap n) = (n mod 2 ^ 64) mod 2 ^ k" by (simp add: unat_of_nat take_bit_eq_mod)
  also have "(2::nat) ^ k dvd 2 ^ 64" using k(2) by (intro le_imp_power_dvd) simp
  then have "(n mod 2 ^ 64) mod 2 ^ k = n mod 2 ^ k" by (rule mod_mod_cancel)
  finally show ?thesis by (simp add: k(1))
qed


lemma idx_0 [simp]: "idx cap 0 = 0"
  by (simp add: idx_def)

lemma next_index_idx:
  assumes "capacity_ok cap"
  shows "next_index cap (idx cap n) = idx cap (Suc n)"
proof -
  have "next_index cap (idx cap n) = idx cap (Suc (unat (idx cap n)))"
    by (simp add: next_index_def idx_def [of cap "Suc _"] add.commute)
  then have "unat (next_index cap (idx cap n)) = unat (idx cap (Suc n))"
    by (simp add: unat_idx [OF assms] mod_Suc_eq)
  then show ?thesis by (simp add: word_unat_eq_iff)
qed

text \<open>Two counters less than a capacity apart have the same index only if they are equal.\<close>

lemma idx_eq_iff:
  assumes "capacity_ok cap" "m \<le> n" "n < m + unat cap"
  shows "idx cap m = idx cap n \<longleftrightarrow> m = n"
proof
  assume "idx cap m = idx cap n"
  then have "m mod unat cap = n mod unat cap" using unat_idx [OF assms(1)] by metis
  then have "unat cap dvd n - m" using assms(2) by (metis mod_eq_dvd_iff_nat)
  then show "m = n" using assms(2,3) nat_dvd_not_less [of "n - m" "unat cap"] by fastforce
qed simp

lemma idx_full_iff:
  assumes "capacity_ok cap" "m \<le> n" "n < m + unat cap"
  shows "idx cap (Suc n) = idx cap m \<longleftrightarrow> Suc n = m + unat cap"
proof (cases "Suc n = m + unat cap")
  case True
  then have "Suc n mod unat cap = m mod unat cap" by simp
  then show ?thesis using True unat_idx [OF assms(1)] by (metis word_unat_eq_iff)
next
  case False
  then show ?thesis using idx_eq_iff [OF assms(1), of m "Suc n"] assms(2,3) by auto
qed

lemma cap_pos: "capacity_ok cap \<Longrightarrow> 1 < unat cap"
  by (simp add: capacity_ok_def word_less_nat_alt)

section \<open>Representation\<close>

text \<open>
  \<open>ring_rep cap q t xs\<close>: \<open>t\<close> items have been popped so far and \<open>xs\<close> are in the queue.
  The producer's cached tail belongs to an earlier count \<open>tc\<close>, the consumer's cached
  head to a count \<open>hc\<close> of items already pushed.
\<close>

definition cells :: "64 word \<Rightarrow> 'a list \<Rightarrow> nat \<Rightarrow> 'a list \<Rightarrow> bool" where
  "cells cap buf t xs \<longleftrightarrow> (\<forall>i < length xs. buf ! ((t + i) mod unat cap) = xs ! i)"

definition ring_rep :: "64 word \<Rightarrow> 'a spsc \<Rightarrow> nat \<Rightarrow> 'a list \<Rightarrow> bool" where
  "ring_rep cap q t xs \<longleftrightarrow> length xs < unat cap \<and> length (q_buffer q) = unat cap \<and>
     cells cap (q_buffer q) t xs \<and>
     q_tail q = idx cap t \<and> q_head q = idx cap (t + length xs) \<and>
     (\<exists>tc \<le> t. q_tail_cache q = idx cap tc \<and> t + length xs < tc + unat cap) \<and>
     (\<exists>hc \<ge> t. q_head_cache q = idx cap hc \<and> hc \<le> t + length xs)"

definition queue_rep :: "64 word \<Rightarrow> 'a spsc \<Rightarrow> 'a list \<Rightarrow> bool" where
  "queue_rep cap q xs \<longleftrightarrow> (\<exists>t. ring_rep cap q t xs)"

lemma cells_push:
  assumes "cells cap buf t xs" "length xs < unat cap" "length buf = unat cap" "capacity_ok cap"
  shows "cells cap (buf[(t + length xs) mod unat cap := x]) t (xs @ [x])"
  unfolding cells_def
proof (intro allI impI)
  fix i assume i: "i < length (xs @ [x])"
  have pos: "0 < unat cap" using cap_pos [OF assms(4)] by simp
  have "(t + length xs) mod unat cap \<noteq> (t + i) mod unat cap" if "i < length xs"
  proof
    assume "(t + length xs) mod unat cap = (t + i) mod unat cap"
    then have "unat cap dvd (t + length xs) - (t + i)" using that by (metis mod_eq_dvd_iff_nat add_le_cancel_left less_imp_le)
    then show False using that assms(2) nat_dvd_not_less [of "length xs - i" "unat cap"] by simp
  qed
  then show "buf[(t + length xs) mod unat cap := x] ! ((t + i) mod unat cap) = (xs @ [x]) ! i"
    using i assms(1,3) pos by (cases "i = length xs") (auto simp: cells_def nth_append nth_list_update)
qed

lemma cells_pop: "cells cap buf t (x # xs) \<Longrightarrow> cells cap buf (Suc t) xs \<and> buf ! (t mod unat cap) = x"
  unfolding cells_def by force

lemma new_spsc_rep: "capacity_ok cap \<Longrightarrow> ring_rep cap (new_spsc cap z) 0 []"
  using cap_pos [of cap] by (auto simp: ring_rep_def new_spsc_def cells_def)

lemma new_queue_rep: "capacity_ok cap \<Longrightarrow> queue_rep cap (new_spsc cap z) []"
  unfolding queue_rep_def by (blast intro: new_spsc_rep)

lemma try_push_full:
  assumes ok: "capacity_ok cap" and rep: "ring_rep cap q t xs" and full: "Suc (length xs) = unat cap"
  shows "\<exists>q'. try_push cap x q = Some (False, q') \<and> ring_rep cap q' t xs"
proof -
  obtain tc where tc: "tc \<le> t" "q_tail_cache q = idx cap tc" "t + length xs < tc + unat cap"
    using rep by (auto simp: ring_rep_def)
  have "tc = t" using tc full by simp
  then have eq: "next_index cap (q_head q) = q_tail_cache q"
    using rep full tc(2) idx_full_iff [OF ok, of t "t + length xs"] next_index_idx [OF ok]
    by (simp add: ring_rep_def)
  moreover have "q_tail q = q_tail_cache q" using rep tc(2) \<open>tc = t\<close> by (simp add: ring_rep_def)
  ultimately have "try_push cap x q = Some (False, q)" by (simp add: try_push_def Let_def)
  then show ?thesis using rep by blast
qed

lemma try_push_ok:
  assumes ok: "capacity_ok cap" and rep: "ring_rep cap q t xs" and room: "Suc (length xs) < unat cap"
  shows "\<exists>q'. try_push cap x q = Some (True, q') \<and> ring_rep cap q' t (xs @ [x])"
proof -
  obtain tc where tc: "tc \<le> t" "q_tail_cache q = idx cap tc" "t + length xs < tc + unat cap"
    using rep by (auto simp: ring_rep_def)
  define n where "n = t + length xs"
  have nxt: "next_index cap (q_head q) = idx cap (Suc n)"
    using rep next_index_idx [OF ok] by (simp add: ring_rep_def n_def)
  define q1 where "q1 = (if idx cap (Suc n) = q_tail_cache q then q\<lparr>q_tail_cache := q_tail q\<rparr> else q)"
  have ne: "idx cap (Suc n) \<noteq> q_tail_cache q1" "\<exists>tc \<le> t. q_tail_cache q1 = idx cap tc \<and> Suc n < tc + unat cap"
  proof -
    have fresh: "idx cap (Suc n) \<noteq> idx cap t" using idx_full_iff [OF ok, of t n] room by (simp add: n_def)
    show "idx cap (Suc n) \<noteq> q_tail_cache q1"
      using fresh rep by (auto simp: q1_def ring_rep_def)
    show "\<exists>tc \<le> t. q_tail_cache q1 = idx cap tc \<and> Suc n < tc + unat cap"
    proof (cases "idx cap (Suc n) = q_tail_cache q")
      case True
      then show ?thesis using rep room by (intro exI [of _ t]) (simp add: q1_def ring_rep_def n_def)
    next
      case False
      then show ?thesis
        using tc idx_full_iff [OF ok, of tc n] by (intro exI [of _ tc]) (auto simp: q1_def n_def)
    qed
  qed
  have q1: "q_head q1 = idx cap n" "q_tail q1 = idx cap t" "q_buffer q1 = q_buffer q" "q_head_cache q1 = q_head_cache q"
    "length (q_buffer q) = unat cap" "q_head q = idx cap n"
    using rep by (simp_all add: q1_def ring_rep_def n_def)
  have u: "unat (idx cap n) = n mod unat cap" "n mod unat cap < unat cap"
    using unat_idx [OF ok] cap_pos [OF ok] by simp_all
  define q2 where "q2 = q1\<lparr>q_buffer := (q_buffer q)[n mod unat cap := x], q_head := idx cap (Suc n)\<rparr>"
  have "try_push cap x q = Some (True, q2)"
    using nxt ne(1) q1 u by (simp add: try_push_def Let_def slot_write_def q1_def [symmetric] q2_def)
  moreover have "cells cap (q_buffer q2) t (xs @ [x])"
    using cells_push [of cap "q_buffer q" t xs x] rep ok by (simp add: ring_rep_def q2_def n_def)
  then have "ring_rep cap q2 t (xs @ [x])"
    using rep room ne(2) q1 unfolding ring_rep_def q2_def by (auto simp: n_def)
  ultimately show ?thesis by blast
qed

lemma try_pop_empty:
  assumes "capacity_ok cap" "ring_rep cap q t []"
  shows "try_pop cap q = Some (None, q)"
  using assms(2) by (auto simp: ring_rep_def try_pop_def Let_def)

lemma try_pop_ok:
  assumes ok: "capacity_ok cap" and rep: "ring_rep cap q t (x # xs)"
  shows "\<exists>q'. try_pop cap q = Some (Some x, q') \<and> ring_rep cap q' (Suc t) xs"
proof -
  obtain hc where hc: "t \<le> hc" "q_head_cache q = idx cap hc" "hc \<le> t + length (x # xs)"
    using rep unfolding ring_rep_def by blast
  have len: "length (x # xs) < unat cap" and buf: "length (q_buffer q) = unat cap"
    using rep by (simp_all add: ring_rep_def)
  define q1 where "q1 = (if q_tail q = q_head_cache q then q\<lparr>q_head_cache := q_head q\<rparr> else q)"
  have ne: "q_tail q \<noteq> q_head_cache q1" "\<exists>hc \<ge> Suc t. q_head_cache q1 = idx cap hc \<and> hc \<le> t + length (x # xs)"
  proof -
    have t: "q_tail q = idx cap t" "q_head q = idx cap (t + length (x # xs))" using rep by (simp_all add: ring_rep_def)
    have fresh: "idx cap t \<noteq> idx cap (t + length (x # xs))" using idx_eq_iff [OF ok, of t "t + length (x # xs)"] len by simp
    show "q_tail q \<noteq> q_head_cache q1" using fresh t by (auto simp: q1_def)
    show "\<exists>hc \<ge> Suc t. q_head_cache q1 = idx cap hc \<and> hc \<le> t + length (x # xs)"
    proof (cases "q_tail q = q_head_cache q")
      case True
      then show ?thesis using t by (intro exI [of _ "t + length (x # xs)"]) (simp add: q1_def)
    next
      case False
      then have "hc \<noteq> t" using t hc(2) by auto
      then show ?thesis using hc False by (intro exI [of _ hc]) (simp add: q1_def)
    qed
  qed
  have u: "unat (idx cap t) = t mod unat cap" "t mod unat cap < unat cap"
    using unat_idx [OF ok] cap_pos [OF ok] by simp_all
  have c: "cells cap (q_buffer q) t (x # xs)" "q_tail q = idx cap t" using rep by (simp_all add: ring_rep_def)
  define q2 where "q2 = q1\<lparr>q_tail := idx cap (Suc t)\<rparr>"
  have "try_pop cap q = Some (Some x, q2)"
    using ne(1) u buf cells_pop [OF c(1)] c(2) next_index_idx [OF ok, of t]
    by (auto simp: try_pop_def Let_def slot_read_def q1_def q2_def split: if_splits)
  moreover have "ring_rep cap q2 (Suc t) xs"
  proof -
    obtain tc where "tc \<le> t" "q_tail_cache q = idx cap tc" "t + length (x # xs) < tc + unat cap"
      using rep by (auto simp: ring_rep_def)
    then have "\<exists>tc \<le> Suc t. q_tail_cache q2 = idx cap tc \<and> Suc t + length xs < tc + unat cap"
      by (intro exI [of _ tc]) (simp add: q2_def q1_def)
    moreover have "\<exists>hc \<ge> Suc t. q_head_cache q2 = idx cap hc \<and> hc \<le> Suc t + length xs" using ne(2) by (simp add: q2_def)
    ultimately show ?thesis
      using len buf cells_pop [OF c(1)] rep unfolding ring_rep_def q2_def q1_def by simp
  qed
  ultimately show ?thesis by blast
qed


section \<open>The queue interface\<close>

text \<open>
  What the threads rely on: a bounded queue that accepts until it is full and returns
  items in the order they were accepted.
\<close>

locale bounded_fifo =
  fixes push :: "'a \<Rightarrow> 'q \<Rightarrow> (bool \<times> 'q) option"
    and pop :: "'q \<Rightarrow> ('a option \<times> 'q) option"
    and rep :: "'q \<Rightarrow> 'a list \<Rightarrow> bool"
    and limit :: nat
  assumes rep_limit: "rep q xs \<Longrightarrow> length xs \<le> limit"
    and push_room: "rep q xs \<Longrightarrow> length xs < limit \<Longrightarrow> \<exists>q'. push x q = Some (True, q') \<and> rep q' (xs @ [x])"
    and push_full: "rep q xs \<Longrightarrow> length xs = limit \<Longrightarrow> \<exists>q'. push x q = Some (False, q') \<and> rep q' xs"
    and pop_nil: "rep q [] \<Longrightarrow> \<exists>q'. pop q = Some (None, q') \<and> rep q' []"
    and pop_cons: "rep q (x # xs) \<Longrightarrow> \<exists>q'. pop q = Some (Some x, q') \<and> rep q' xs"
begin

lemma push_rep:
  assumes "rep q xs"
  shows "\<exists>q'. push x q = Some (length xs < limit, q') \<and> rep q' (if length xs < limit then xs @ [x] else xs)"
  using push_room [OF assms] push_full [OF assms] rep_limit [OF assms] by (cases "length xs = limit") auto

lemma pop_rep:
  assumes "rep q xs"
  shows "\<exists>q'. pop q = Some (case xs of [] \<Rightarrow> None | x # _ \<Rightarrow> Some x, q') \<and> rep q' (tl xs)"
  using pop_nil pop_cons assms by (cases xs) auto

fun drain :: "nat \<Rightarrow> 'q \<Rightarrow> ('a list \<times> 'q) option" where
  "drain 0 q = Some ([], q)"
| "drain (Suc n) q = do {
     (r, q1) \<leftarrow> pop q;
     (case r of None \<Rightarrow> Some ([], q1)
      | Some x \<Rightarrow> do { (xs, q2) \<leftarrow> drain n q1; Some (x # xs, q2) }) }"

lemma drain_rep:
  assumes "rep q xs" "length xs \<le> n"
  shows "\<exists>q'. drain n q = Some (xs, q') \<and> rep q' []"
  using assms
proof (induction n arbitrary: q xs)
  case (Suc n)
  show ?case
  proof (cases xs)
    case Nil
    then obtain q1 where "pop q = Some (None, q1)" "rep q1 []" using pop_nil Suc.prems(1) by blast
    then show ?thesis using Nil by auto
  next
    case (Cons x ys)
    then obtain q1 where "pop q = Some (Some x, q1)" "rep q1 ys" using pop_cons Suc.prems(1) by blast
    moreover then obtain q2 where "drain n q1 = Some (ys, q2)" "rep q2 []" using Suc.IH [of q1 ys] Suc.prems(2) Cons by auto
    ultimately show ?thesis using Cons by auto
  qed
qed auto

end

interpretation ring: bounded_fifo "try_push cap" "try_pop cap" "\<lambda>q xs. capacity_ok cap \<and> queue_rep cap q xs" "unat cap - 1"
  for cap
proof unfold_locales
  fix q :: "'a spsc" and x :: 'a and xs
  show "length xs \<le> unat cap - 1" if "capacity_ok cap \<and> queue_rep cap q xs"
    using that by (auto simp: queue_rep_def ring_rep_def)
  show "\<exists>q'. try_push cap x q = Some (True, q') \<and> capacity_ok cap \<and> queue_rep cap q' (xs @ [x])"
    if "capacity_ok cap \<and> queue_rep cap q xs" "length xs < unat cap - 1"
  proof -
    have "Suc (length xs) < unat cap" using that(2) by simp
    then show ?thesis using that(1) try_push_ok [of cap q _ xs x] unfolding queue_rep_def by blast
  qed
  show "\<exists>q'. try_push cap x q = Some (False, q') \<and> capacity_ok cap \<and> queue_rep cap q' xs"
    if "capacity_ok cap \<and> queue_rep cap q xs" "length xs = unat cap - 1"
  proof -
    have "Suc (length xs) = unat cap" using that cap_pos [of cap] by simp
    then show ?thesis using that(1) try_push_full [of cap q _ xs x] unfolding queue_rep_def by blast
  qed
  show "\<exists>q'. try_pop cap q = Some (None, q') \<and> capacity_ok cap \<and> queue_rep cap q' []"
    if "capacity_ok cap \<and> queue_rep cap q []"
    using that try_pop_empty [of cap q] unfolding queue_rep_def by blast
  show "\<exists>q'. try_pop cap q = Some (Some x, q') \<and> capacity_ok cap \<and> queue_rep cap q' xs"
    if "capacity_ok cap \<and> queue_rep cap q (x # xs)"
    using that try_pop_ok [of cap q _ x xs] unfolding queue_rep_def by blast
qed

lemma spsc_ops_rep:
  assumes "capacity_ok cap \<and> queue_rep cap q xs"
  shows "\<exists>q'. spsc_ops cap ops q = Some (fst (fifo_ops (unat cap - 1) ops xs), q') \<and>
    queue_rep cap q' (snd (fifo_ops (unat cap - 1) ops xs))"
  using assms
proof (induction "unat cap - 1" ops xs arbitrary: q rule: fifo_ops.induct)
  case (2 x ops xs)
  obtain q1 where q1: "try_push cap x q = Some (length xs < unat cap - 1, q1)"
      "capacity_ok cap \<and> queue_rep cap q1 (if length xs < unat cap - 1 then xs @ [x] else xs)"
    using ring.push_rep [OF 2(2)] by blast
  show ?case using 2(1) [OF refl q1(2)] q1(1) by (auto simp: Let_def case_prod_unfold)
next
  case (3 ops)
  obtain q1 where q1: "try_pop cap q = Some (None, q1)" "capacity_ok cap \<and> queue_rep cap q1 []"
    using ring.pop_rep [OF 3(2)] by auto
  show ?case using 3(1) [OF q1(2)] q1(1) by (auto simp: Let_def case_prod_unfold)
next
  case (4 ops x xs)
  obtain q1 where q1: "try_pop cap q = Some (Some x, q1)" "capacity_ok cap \<and> queue_rep cap q1 xs"
    using ring.pop_rep [OF 4(2)] by auto
  show ?case using 4(1) [OF q1(2)] q1(1) by (auto simp: Let_def case_prod_unfold)
qed auto

lemma spsc_size_rep:
  assumes ok: "capacity_ok cap" and rep: "ring_rep cap q t xs"
  shows "spsc_size cap q = of_nat (length xs)" "spsc_empty q \<longleftrightarrow> xs = []"
proof -
  let ?c = "unat cap"
  have len: "length xs < ?c" and h: "q_head q = idx cap (t + length xs)" "q_tail q = idx cap t"
    using rep by (simp_all add: ring_rep_def)
  obtain k where k: "?c = 2 ^ k" "k < 64" "kIndexMask cap = mask k" using capacity_power [OF ok] by blast
  have dvd: "?c dvd 2 ^ 64" unfolding k(1) using k(2) by (intro le_imp_power_dvd) simp
  have of_int_idx: "idx cap n = of_int (int n mod int ?c)" for n
  proof -
    have "idx cap n = of_nat (unat (idx cap n))" by simp
    also have "\<dots> = of_int (int (n mod ?c))" by (simp only: unat_idx [OF ok] of_int_of_nat_eq)
    finally show ?thesis by (simp only: zmod_int)
  qed
  have "spsc_size cap q = and (idx cap (t + length xs) - idx cap t) (kIndexMask cap)"
    by (simp add: spsc_size_def h)
  also have "idx cap (t + length xs) - idx cap t = of_int (int (t + length xs) mod int ?c - int t mod int ?c)"
    by (simp add: of_int_idx)
  also have "and (of_int (int (t + length xs) mod int ?c - int t mod int ?c) :: 64 word) (kIndexMask cap) =
      of_int (take_bit k (int (t + length xs) mod int ?c - int t mod int ?c))"
    by (simp only: k(3) take_bit_eq_mask [symmetric] take_bit_of_int)
  also have "take_bit k (int (t + length xs) mod int ?c - int t mod int ?c) = int (length xs)"
    using len k(1) by (simp add: take_bit_eq_mod mod_diff_eq)
  finally show "spsc_size cap q = of_nat (length xs)" by simp
  show "spsc_empty q \<longleftrightarrow> xs = []"
    using idx_eq_iff [OF ok, of t "t + length xs"] len by (auto simp: spsc_empty_def h)
qed


section \<open>Properties\<close>

text \<open>
  C14: Executed by one thread at a time, the ring buffer is a first-in-first-out list
  bounded by its capacity minus one: on every sequence of pushes and pops no access
  leaves the buffer and every result is the one of the list, although the operations
  look at cached copies of the indices first.
\<close>

theorem spsc_refines_fifo:
  assumes "capacity_ok cap"
  shows "\<exists>q. spsc_ops cap ops (new_spsc cap zero) = Some (fst (fifo_ops (unat cap - 1) ops []), q) \<and>
    queue_rep cap q (snd (fifo_ops (unat cap - 1) ops []))"
  using assms new_queue_rep [OF assms] by (intro spsc_ops_rep) simp

theorem spsc_refines_fifo_witness:
  "\<exists>q. spsc_ops 2 [Push 7, Push 8, Pop, Pop, Push 9] (new_spsc 2 (0::nat)) =
     Some ([Pushed True, Pushed False, Popped (Some 7), Popped None, Pushed True], q)"
proof -
  have "capacity_ok 2" by code_simp
  from spsc_refines_fifo [OF this, of "[Push 7, Push 8, Pop, Pop, Push 9]" "0::nat"] show ?thesis by auto
qed

text \<open>
  The size computed from the wrapped indices is the number of queued items, also
  when the head index has wrapped around and is below the tail index.
\<close>

lemma spsc_size_exact:
  assumes "capacity_ok cap" "queue_rep cap q xs"
  shows "unat (spsc_size cap q) = length xs \<and> (spsc_empty q \<longleftrightarrow> xs = []) \<and> length xs \<le> unat cap - 1"
proof -
  obtain t where t: "ring_rep cap q t xs" using assms(2) by (auto simp: queue_rep_def)
  have "length xs < unat cap" using t by (simp add: ring_rep_def)
  moreover have "unat cap < 2 ^ LENGTH(64)" by (rule unsigned_less)
  ultimately have "unat (of_nat (length xs) :: 64 word) = length xs" by (intro unat_of_nat_small) simp
  then show ?thesis using spsc_size_rep [OF assms(1) t] \<open>length xs < unat cap\<close> by auto
qed

end
