(* ===== verification/Coinbase_Feed.thy ===== *)
theory Coinbase_Feed
  imports Feed_Handler Spsc_Queue
begin

text \<open>
  \<^verbatim>\<open>feed/coinbase_feed.cpp\<close>: the handlers installed in the WebSocket client.  Every frame
  is parsed into a batch, every message of the batch is stamped with one clock reading
  and offered to the input queue; a message the queue refuses is dropped and counted.
\<close>

definition FEED_QUEUE_SIZE :: "64 word" where
  "FEED_QUEUE_SIZE = 65536"

record coinbase_feed =
  cf_product_id :: string
  cf_handler :: feed_impl
  cf_dropped :: "64 word"
  cf_pushed :: "64 word"

definition new_coinbase_feed :: "string \<Rightarrow> coinbase_feed" where
  "new_coinbase_feed product_id = \<lparr>cf_product_id = product_id, cf_handler = new_feed, cf_dropped = 0, cf_pushed = 0\<rparr>"

definition subscribe_message :: "coinbase_feed \<Rightarrow> string" where
  \<open>subscribe_message c = ''{"type":"subscribe","product_ids":["'' @ cf_product_id c @ ''"],"channels":["level2_batch","matches"]}''\<close>

fun stamp :: "Timestamp \<Rightarrow> engine_message \<Rightarrow> engine_message" where
  "stamp now (NewOrder m) = NewOrder (m\<lparr>n_timestamp := now\<rparr>)"
| "stamp now (Cancel m) = Cancel (m\<lparr>c_timestamp := now\<rparr>)"

definition count_push :: "bool \<Rightarrow> coinbase_feed \<Rightarrow> coinbase_feed" where
  "count_push ok c = (if ok then c\<lparr>cf_pushed := cf_pushed c + 1\<rparr> else c\<lparr>cf_dropped := cf_dropped c + 1\<rparr>)"

fun push_batch :: "Timestamp \<Rightarrow> engine_message list \<Rightarrow> coinbase_feed \<times> engine_message spsc \<Rightarrow> (coinbase_feed \<times> engine_message spsc) option" where
  "push_batch now [] st = Some st"
| "push_batch now (msg # batch) (c, q) = do {
     (ok, q1) \<leftarrow> try_push FEED_QUEUE_SIZE (stamp now msg) q;
     push_batch now batch (count_push ok c, q1) }"

definition on_message ::
  "'el simdjson \<Rightarrow> (live_map \<Rightarrow> live_map) \<Rightarrow> Timestamp \<Rightarrow> Timestamp \<Rightarrow> string \<Rightarrow> coinbase_feed \<times> engine_message spsc \<Rightarrow>
     (coinbase_feed \<times> engine_message spsc) option" where
  "on_message sj iter parse_now now raw st = do {
     (_, h, batch) \<leftarrow> parse sj iter parse_now raw (cf_handler (fst st), []);
     push_batch now batch ((fst st)\<lparr>cf_handler := h\<rparr>, snd st) }"

section \<open>Every message is pushed or counted as dropped\<close>

lemma feed_capacity: "capacity_ok FEED_QUEUE_SIZE" "unat FEED_QUEUE_SIZE = 65536"
  by (simp_all add: FEED_QUEUE_SIZE_def capacity_ok_def)

lemma push_batch_rep:
  assumes "queue_rep FEED_QUEUE_SIZE q xs"
  shows "\<exists>c' q'. push_batch now batch (c, q) = Some (c', q') \<and>
    queue_rep FEED_QUEUE_SIZE q' (take 65535 (xs @ map (stamp now) batch)) \<and>
    cf_pushed c' = cf_pushed c + of_nat (min (length batch) (65535 - length xs)) \<and>
    cf_dropped c' = cf_dropped c + of_nat (length batch - (65535 - length xs)) \<and> cf_handler c' = cf_handler c"
  using assms
proof (induction batch arbitrary: c q xs)
  case Nil
  have "length xs \<le> 65535" using ring.rep_limit [of FEED_QUEUE_SIZE q xs] Nil feed_capacity by simp
  then show ?case using Nil by simp
next
  case (Cons m batch)
  have rep: "capacity_ok FEED_QUEUE_SIZE \<and> queue_rep FEED_QUEUE_SIZE q xs" using Cons.prems feed_capacity by simp
  have len: "length xs \<le> 65535" using ring.rep_limit [OF rep] feed_capacity by simp
  obtain q1 where q1: "try_push FEED_QUEUE_SIZE (stamp now m) q = Some (length xs < 65535, q1)"
      "queue_rep FEED_QUEUE_SIZE q1 (if length xs < 65535 then xs @ [stamp now m] else xs)"
    using ring.push_rep [OF rep, of "stamp now m"] feed_capacity by auto
  show ?case
  proof (cases "length xs < 65535")
    case True
    then have "65535 - length xs = Suc (65535 - length (xs @ [stamp now m]))" by simp
    then show ?thesis using Cons.IH [of q1 "xs @ [stamp now m]" "c\<lparr>cf_pushed := cf_pushed c + 1\<rparr>"] q1 True
      by (auto simp: add.assoc count_push_def)
  next
    case False
    then have "length xs = 65535" using len by simp
    then show ?thesis using Cons.IH [of q1 xs "c\<lparr>cf_dropped := cf_dropped c + 1\<rparr>"] q1 by (auto simp: add.assoc count_push_def)
  qed
qed

end
