(* ===== verification/Price_Level.thy ===== *)
theory Price_Level
  imports Core_Types
begin

text \<open>
  \<^verbatim>\<open>core/price_level.h\<close>: the FIFO queue of the orders at one price, an intrusive
  doubly linked list through \<open>o_prev\<close> and \<open>o_next\<close> of the orders in the store.
  \<open>level_rep h lv xs\<close> is the class invariant of the header: the links, head and
  tail describe the list \<open>xs\<close>, and the two aggregates are its count and the sum of
  the open quantities, both at their 32-bit width.
\<close>

section \<open>Model\<close>

type_synonym heap = "order store"

record price_level =
  pl_head :: "addr option"
  pl_tail :: "addr option"
  pl_total_quantity :: Quantity
  pl_order_count :: "32 word"

definition empty_level :: price_level where
  "empty_level = \<lparr>pl_head = None, pl_tail = None, pl_total_quantity = 0, pl_order_count = 0\<rparr>"

definition push_back :: "heap \<Rightarrow> price_level \<Rightarrow> addr \<Rightarrow> (heap \<times> price_level) option" where
  "push_back h lv a = do {
     h1 \<leftarrow> update_at h a (\<lambda>x. x\<lparr>o_prev := pl_tail lv\<rparr>);
     h2 \<leftarrow> update_at h1 a (\<lambda>x. x\<lparr>o_next := None\<rparr>);
     (h3, lv1) \<leftarrow> (case pl_tail lv of
         Some t \<Rightarrow> do { h' \<leftarrow> update_at h2 t (\<lambda>x. x\<lparr>o_next := Some a\<rparr>); Some (h', lv) }
       | None \<Rightarrow> Some (h2, lv\<lparr>pl_head := Some a\<rparr>));
     let lv2 = lv1\<lparr>pl_tail := Some a\<rparr>;
     x \<leftarrow> deref h3 a;
     Some (h3, lv2\<lparr>pl_total_quantity := pl_total_quantity lv2 + remaining_quantity x,
       pl_order_count := pl_order_count lv2 + 1\<rparr>) }"

text \<open>\<^verbatim>\<open>PriceLevel::remove\<close>; the name \<open>remove\<close> is taken by the set library.\<close>

definition level_remove :: "heap \<Rightarrow> price_level \<Rightarrow> addr \<Rightarrow> (heap \<times> price_level) option" where
  "level_remove h lv a = do {
     x \<leftarrow> deref h a;
     (h1, lv1) \<leftarrow> (case o_prev x of
         Some u \<Rightarrow> do { h' \<leftarrow> update_at h u (\<lambda>y. y\<lparr>o_next := o_next x\<rparr>); Some (h', lv) }
       | None \<Rightarrow> Some (h, lv\<lparr>pl_head := o_next x\<rparr>));
     x1 \<leftarrow> deref h1 a;
     (h2, lv2) \<leftarrow> (case o_next x1 of
         Some v \<Rightarrow> do { h' \<leftarrow> update_at h1 v (\<lambda>y. y\<lparr>o_prev := o_prev x1\<rparr>); Some (h', lv1) }
       | None \<Rightarrow> Some (h1, lv1\<lparr>pl_tail := o_prev x1\<rparr>));
     h3 \<leftarrow> update_at h2 a (\<lambda>y. y\<lparr>o_prev := None\<rparr>);
     h4 \<leftarrow> update_at h3 a (\<lambda>y. y\<lparr>o_next := None\<rparr>);
     x2 \<leftarrow> deref h4 a;
     Some (h4, lv2\<lparr>pl_total_quantity := pl_total_quantity lv2 - remaining_quantity x2,
       pl_order_count := pl_order_count lv2 - 1\<rparr>) }"

definition pop_front :: "heap \<Rightarrow> price_level \<Rightarrow> (addr option \<times> heap \<times> price_level) option" where
  "pop_front h lv = (case pl_head lv of
      None \<Rightarrow> Some (None, h, lv)
    | Some a \<Rightarrow> do {
        x \<leftarrow> deref h a;
        let lv1 = lv\<lparr>pl_head := o_next x\<rparr>;
        (h1, lv2) \<leftarrow> (case pl_head lv1 of
            Some b \<Rightarrow> do { h' \<leftarrow> update_at h b (\<lambda>y. y\<lparr>o_prev := None\<rparr>); Some (h', lv1) }
          | None \<Rightarrow> Some (h, lv1\<lparr>pl_tail := None\<rparr>));
        x1 \<leftarrow> deref h1 a;
        let lv3 = lv2\<lparr>pl_total_quantity := pl_total_quantity lv2 - remaining_quantity x1,
          pl_order_count := pl_order_count lv2 - 1\<rparr>;
        h2 \<leftarrow> update_at h1 a (\<lambda>y. y\<lparr>o_prev := None\<rparr>);
        h3 \<leftarrow> update_at h2 a (\<lambda>y. y\<lparr>o_next := None\<rparr>);
        Some (Some a, h3, lv3) })"

definition reduce_quantity :: "price_level \<Rightarrow> Quantity \<Rightarrow> price_level" where
  "reduce_quantity lv qty = lv\<lparr>pl_total_quantity := pl_total_quantity lv - qty\<rparr>"

definition front :: "price_level \<Rightarrow> addr option" where
  "front lv = pl_head lv"

definition level_empty :: "price_level \<Rightarrow> bool" where
  "level_empty lv \<longleftrightarrow> pl_head lv = None"

definition total_quantity :: "price_level \<Rightarrow> Quantity" where
  "total_quantity lv = pl_total_quantity lv"

definition order_count :: "price_level \<Rightarrow> 32 word" where
  "order_count lv = pl_order_count lv"

section \<open>The class invariant\<close>

fun links :: "heap \<Rightarrow> addr option \<Rightarrow> addr list \<Rightarrow> addr option \<Rightarrow> bool" where
  "links h pv [] nx \<longleftrightarrow> True"
| "links h pv (a # as) nx \<longleftrightarrow> live h a \<and> o_prev (obj h a) = pv \<and>
     o_next (obj h a) = first_or nx as \<and> links h (Some a) as nx"

definition open_sum :: "heap \<Rightarrow> addr list \<Rightarrow> Quantity" where
  "open_sum h xs = (\<Sum>a\<leftarrow>xs. remaining_quantity (obj h a))"

definition level_rep :: "heap \<Rightarrow> price_level \<Rightarrow> addr list \<Rightarrow> bool" where
  "level_rep h lv xs \<longleftrightarrow> links h None xs None \<and> distinct xs \<and>
     pl_head lv = first_or None xs \<and> pl_tail lv = last_or None xs \<and>
     pl_total_quantity lv = open_sum h xs \<and> pl_order_count lv = of_nat (length xs)"

text \<open>
  The operations move orders around but never change what they say: an order without
  its two list pointers is its payload.
\<close>

definition payload :: "order \<Rightarrow> order" where
  "payload x = x\<lparr>o_prev := None, o_next := None\<rparr>"

definition same_payloads :: "heap \<Rightarrow> heap \<Rightarrow> bool" where
  "same_payloads h h' \<longleftrightarrow> (\<forall>a. (live h a \<longrightarrow> live h' a \<and> payload (obj h' a) = payload (obj h a)) \<and>
     (\<not> live h a \<longrightarrow> h' a = h a))"

lemma payload_sel [simp]:
  "o_id (payload x) = o_id x" "o_side (payload x) = o_side x" "o_type (payload x) = o_type x"
  "o_price (payload x) = o_price x" "o_quantity (payload x) = o_quantity x"
  "o_filled_quantity (payload x) = o_filled_quantity x" "o_timestamp (payload x) = o_timestamp x"
  "remaining_quantity (payload x) = remaining_quantity x" "is_filled (payload x) = is_filled x"
  by (simp_all add: payload_def remaining_quantity_def is_filled_def)

lemma payload_upd [simp]:
  "payload (x\<lparr>o_prev := p\<rparr>) = payload x" "payload (x\<lparr>o_next := p\<rparr>) = payload x"
  "remaining_quantity (x\<lparr>o_prev := p\<rparr>) = remaining_quantity x"
  "remaining_quantity (x\<lparr>o_next := p\<rparr>) = remaining_quantity x"
  by (simp_all add: payload_def remaining_quantity_def)

lemma payload_eqD:
  assumes "payload y = payload x"
  shows "o_id y = o_id x" "o_side y = o_side x" "o_type y = o_type x" "o_price y = o_price x"
    "o_quantity y = o_quantity x" "o_filled_quantity y = o_filled_quantity x"
    "o_timestamp y = o_timestamp x" "remaining_quantity y = remaining_quantity x"
    "is_filled y = is_filled x"
  using assms by (metis payload_sel)+

lemma same_payloads_refl [simp, intro]: "same_payloads h h"
  by (simp add: same_payloads_def)

lemma same_payloads_trans:
  "same_payloads h h' \<Longrightarrow> same_payloads h' h'' \<Longrightarrow> same_payloads h h''"
  unfolding same_payloads_def by (metis live_def)

lemma same_payloads_upd:
  "live h a \<Longrightarrow> payload x = payload (obj h a) \<Longrightarrow> same_payloads h (h(a := Object x))"
  by (auto simp: same_payloads_def store_simps)

lemma same_payloads_live: "same_payloads h h' \<Longrightarrow> live h' a \<longleftrightarrow> live h a"
  by (metis live_def same_payloads_def)

lemma same_payloads_obj:
  assumes "same_payloads h h'" "live h a"
  shows "o_id (obj h' a) = o_id (obj h a)" "o_side (obj h' a) = o_side (obj h a)"
    "o_type (obj h' a) = o_type (obj h a)" "o_price (obj h' a) = o_price (obj h a)"
    "o_quantity (obj h' a) = o_quantity (obj h a)"
    "o_filled_quantity (obj h' a) = o_filled_quantity (obj h a)"
    "o_timestamp (obj h' a) = o_timestamp (obj h a)"
    "remaining_quantity (obj h' a) = remaining_quantity (obj h a)"
    "is_filled (obj h' a) = is_filled (obj h a)"
proof -
  have "payload (obj h' a) = payload (obj h a)"
    using assms by (simp add: same_payloads_def)
  note eqs = payload_eqD [OF this]
  show "o_id (obj h' a) = o_id (obj h a)" "o_side (obj h' a) = o_side (obj h a)"
    "o_type (obj h' a) = o_type (obj h a)" "o_price (obj h' a) = o_price (obj h a)"
    "o_quantity (obj h' a) = o_quantity (obj h a)"
    "o_filled_quantity (obj h' a) = o_filled_quantity (obj h a)"
    "o_timestamp (obj h' a) = o_timestamp (obj h a)"
    "remaining_quantity (obj h' a) = remaining_quantity (obj h a)"
    "is_filled (obj h' a) = is_filled (obj h a)"
    by (fact eqs)+
qed

section \<open>Links\<close>

lemma links_append:
  "links h pv (xs @ ys) nx \<longleftrightarrow> links h pv xs (first_or nx ys) \<and> links h (last_or pv xs) ys nx"
  by (induction xs arbitrary: pv) auto

lemma links_frame: "(\<And>a. a \<in> set xs \<Longrightarrow> h' a = h a) \<Longrightarrow> links h' pv xs nx \<longleftrightarrow> links h pv xs nx"
  by (induction xs arbitrary: pv) (auto simp: live_def obj_def)

lemma links_upd [simp]: "a \<notin> set xs \<Longrightarrow> links (h(a := s)) pv xs nx \<longleftrightarrow> links h pv xs nx"
  by (rule links_frame) (auto simp: fun_upd_apply)

lemma links_live: "links h pv xs nx \<Longrightarrow> a \<in> set xs \<Longrightarrow> live h a"
  by (induction xs arbitrary: pv) auto

lemma links_relink_last:
  assumes "links h pv (xs @ [u]) nx" "u \<notin> set xs"
  shows "links (h(u := Object ((obj h u)\<lparr>o_next := nx'\<rparr>))) pv (xs @ [u]) nx'"
  using assms by (simp add: links_append store_simps)

lemma links_relink_first:
  assumes "links h pv (v # vs) nx" "v \<notin> set vs"
  shows "links (h(v := Object ((obj h v)\<lparr>o_prev := pv'\<rparr>))) pv' (v # vs) nx"
  using assms by (simp add: store_simps)

lemma open_sum_simps [simp]:
  "open_sum h [] = 0" "open_sum h (a # xs) = remaining_quantity (obj h a) + open_sum h xs"
  "open_sum h (xs @ ys) = open_sum h xs + open_sum h ys"
  by (simp_all add: open_sum_def)

lemma open_sum_cong:
  "(\<And>a. a \<in> set xs \<Longrightarrow> remaining_quantity (obj h' a) = remaining_quantity (obj h a)) \<Longrightarrow>
    open_sum h' xs = open_sum h xs"
  by (induction xs) auto

lemma open_sum_same_payloads:
  "same_payloads h h' \<Longrightarrow> (\<And>a. a \<in> set xs \<Longrightarrow> live h a) \<Longrightarrow> open_sum h' xs = open_sum h xs"
  by (rule open_sum_cong) (auto simp: same_payloads_obj)

lemma level_rep_live: "level_rep h lv xs \<Longrightarrow> a \<in> set xs \<Longrightarrow> live h a"
  by (auto simp: level_rep_def dest: links_live)

lemma level_rep_frame:
  assumes "level_rep h lv xs" "\<And>a. a \<in> set xs \<Longrightarrow> h' a = h a"
  shows "level_rep h' lv xs"
proof -
  have "open_sum h' xs = open_sum h xs"
    by (rule open_sum_cong) (simp add: assms(2) obj_def)
  then show ?thesis
    using assms links_frame [of xs h' h] by (simp add: level_rep_def)
qed

lemma empty_level_rep [simp]: "level_rep h empty_level []"
  by (simp add: level_rep_def empty_level_def)

lemma level_empty_rep: "level_rep h lv xs \<Longrightarrow> level_empty lv \<longleftrightarrow> xs = []"
  by (simp add: level_rep_def level_empty_def)

lemma front_rep: "level_rep h lv xs \<Longrightarrow> front lv = first_or None xs"
  by (simp add: level_rep_def front_def)

section \<open>The operations keep the invariant\<close>

text \<open>What every operation leaves alone: payloads, and all slots outside \<open>S\<close>.\<close>

definition touches_only :: "addr set \<Rightarrow> heap \<Rightarrow> heap \<Rightarrow> bool" where
  "touches_only S h h' \<longleftrightarrow> same_payloads h h' \<and> (\<forall>b. b \<notin> S \<longrightarrow> h' b = h b)"

lemma touches_onlyD:
  assumes "touches_only S h h'"
  shows "same_payloads h h'" "b \<notin> S \<Longrightarrow> h' b = h b"
  using assms by (auto simp: touches_only_def)

lemma touches_only_refl [simp]: "touches_only S h h"
  by (simp add: touches_only_def)

lemma touches_only_upd:
  "live h' a \<Longrightarrow> payload x = payload (obj h' a) \<Longrightarrow> a \<in> S \<Longrightarrow> touches_only S h h' \<Longrightarrow>
    touches_only S h (h'(a := Object x))"
  by (auto simp: touches_only_def fun_upd_apply intro: same_payloads_trans same_payloads_upd)

lemma push_back_rep:
  assumes rep: "level_rep h lv xs" and a: "live h a" "a \<notin> set xs"
  shows "\<exists>h' lv'. push_back h lv a = Some (h', lv') \<and> level_rep h' lv' (xs @ [a]) \<and>
    touches_only (insert a (set xs)) h h'"
proof (cases xs rule: rev_cases)
  case Nil
  let ?h' = "h(a := Object ((obj h a)\<lparr>o_prev := None, o_next := None\<rparr>))"
  show ?thesis
    using rep a Nil
    by (auto simp: push_back_def level_rep_def store_simps intro!: touches_only_upd)
next
  case (snoc ys t)
  have t: "live h t" "t \<noteq> a" "t \<notin> set ys"
    using rep a snoc by (auto simp: level_rep_def links_append)
  define h1 where "h1 = h(a := Object ((obj h a)\<lparr>o_prev := Some t, o_next := None\<rparr>))"
  define h' where "h' = h1(t := Object ((obj h1 t)\<lparr>o_next := Some a\<rparr>))"
  have to: "touches_only (insert a (set xs)) h h'"
    unfolding h'_def h1_def
    using a t snoc by (auto intro!: touches_only_upd simp: store_simps)
  have "links h None (ys @ [t]) None" using rep snoc by (simp add: level_rep_def)
  then have "links h1 None (ys @ [t]) None"
    using a snoc by (simp add: h1_def del: fun_upd_apply)
  then have "links h' None (ys @ [t]) (Some a)"
    unfolding h'_def by (rule links_relink_last) (use t in simp)
  moreover have "links h' (Some t) [a] None"
    using t by (simp add: h'_def h1_def store_simps)
  ultimately have links: "links h' None (xs @ [a]) None"
    using snoc by (simp add: links_append)
  have sum: "open_sum h' xs = open_sum h xs"
    using open_sum_same_payloads [OF touches_onlyD(1) [OF to]] level_rep_live [OF rep] by blast
  have ra: "remaining_quantity (obj h' a) = remaining_quantity (obj h a)"
    using same_payloads_obj(8) [OF touches_onlyD(1) [OF to] a(1)] .
  let ?lv' = "lv\<lparr>pl_tail := Some a,
    pl_total_quantity := pl_total_quantity lv + remaining_quantity (obj h' a),
    pl_order_count := pl_order_count lv + 1\<rparr>"
  have "push_back h lv a = Some (h', ?lv')"
    using rep a t snoc by (simp add: push_back_def level_rep_def store_simps h'_def h1_def)
  moreover have "level_rep h' ?lv' (xs @ [a])"
    using rep a links sum ra snoc by (simp add: level_rep_def)
  ultimately show ?thesis using to by blast
qed

text \<open>
  Unlinking happens in two independent halves: first the predecessor (or the head) is
  made to point past the order, then the successor (or the tail).
\<close>

definition unlink_prev :: "heap \<Rightarrow> price_level \<Rightarrow> order \<Rightarrow> (heap \<times> price_level) option" where
  "unlink_prev h lv x = (case o_prev x of
      Some u \<Rightarrow> do { h' \<leftarrow> update_at h u (\<lambda>y. y\<lparr>o_next := o_next x\<rparr>); Some (h', lv) }
    | None \<Rightarrow> Some (h, lv\<lparr>pl_head := o_next x\<rparr>))"

definition unlink_next :: "heap \<Rightarrow> price_level \<Rightarrow> order \<Rightarrow> (heap \<times> price_level) option" where
  "unlink_next h lv x = (case o_next x of
      Some v \<Rightarrow> do { h' \<leftarrow> update_at h v (\<lambda>y. y\<lparr>o_prev := o_prev x\<rparr>); Some (h', lv) }
    | None \<Rightarrow> Some (h, lv\<lparr>pl_tail := o_prev x\<rparr>))"

lemma unlink_prev_links:
  assumes l: "links h None (us @ a # vs) None" and d: "distinct (us @ a # vs)"
    and hd: "pl_head lv = first_or None (us @ a # vs)"
  shows "\<exists>h' lv'. unlink_prev h lv (obj h a) = Some (h', lv') \<and> links h' None us (first_or None vs) \<and>
    links h' (Some a) vs None \<and> obj h' a = obj h a \<and>
    lv' = lv\<lparr>pl_head := first_or None (us @ vs)\<rparr> \<and> touches_only (set us) h h'"
proof (cases us rule: rev_cases)
  case Nil
  then show ?thesis using l by (simp add: unlink_prev_def)
next
  case (snoc ts u)
  let ?h' = "h(u := Object ((obj h u)\<lparr>o_next := first_or None vs\<rparr>))"
  have u: "live h u" "u \<notin> set ts" "u \<noteq> a" "u \<notin> set vs"
    using l d snoc by (auto simp: links_append)
  have "links h None (ts @ [u]) (Some a)"
    using l snoc by (simp add: links_append)
  then have "links ?h' None (ts @ [u]) (first_or None vs)"
    by (rule links_relink_last) (use u in simp)
  moreover have "unlink_prev h lv (obj h a) = Some (?h', lv)"
    using l snoc u by (simp add: unlink_prev_def links_append store_simps)
  moreover have "touches_only (set us) h ?h'"
    using snoc u by (auto intro!: touches_only_upd)
  moreover have "links ?h' (Some a) vs None"
    using l u by (simp add: links_append)
  moreover have "lv = lv\<lparr>pl_head := first_or None (us @ vs)\<rparr>"
    using hd snoc by (cases lv; cases ts) auto
  ultimately show ?thesis
    using snoc u by (auto simp: store_simps)
qed

lemma unlink_next_links:
  assumes l: "links h None us (first_or None vs)" "links h (Some a) vs None"
    and a: "o_next (obj h a) = first_or None vs" "o_prev (obj h a) = last_or None us"
    and d: "distinct (us @ a # vs)" and tl: "pl_tail lv = last_or None (us @ a # vs)"
  shows "\<exists>h' lv'. unlink_next h lv (obj h a) = Some (h', lv') \<and> links h' None (us @ vs) None \<and>
    obj h' a = obj h a \<and> lv' = lv\<lparr>pl_tail := last_or None (us @ vs)\<rparr> \<and>
    touches_only (set vs) h h'"
proof (cases vs)
  case Nil
  then show ?thesis using assms by (simp add: unlink_next_def links_append)
next
  case (Cons v ws)
  let ?h' = "h(v := Object ((obj h v)\<lparr>o_prev := last_or None us\<rparr>))"
  have v: "live h v" "v \<notin> set ws" "v \<noteq> a" "v \<notin> set us"
    using l d Cons by auto
  have "links h (Some a) (v # ws) None" using l Cons by simp
  then have "links ?h' (last_or None us) (v # ws) None"
    by (rule links_relink_first) (use v in simp)
  moreover have "links ?h' None us (Some v)" using l Cons v by simp
  ultimately have "links ?h' None (us @ vs) None"
    using Cons by (simp add: links_append)
  moreover have "unlink_next h lv (obj h a) = Some (?h', lv)"
    using a Cons v by (simp add: unlink_next_def store_simps)
  moreover have "touches_only (set vs) h ?h'"
    using Cons v by (auto intro!: touches_only_upd)
  moreover have "lv = lv\<lparr>pl_tail := last_or None (us @ vs)\<rparr>"
    using tl Cons by (cases lv) simp
  ultimately show ?thesis using v by (auto simp: store_simps)
qed

lemma level_remove_halves:
  "level_remove h lv a = do {
     x \<leftarrow> deref h a;
     (h1, lv1) \<leftarrow> unlink_prev h lv x;
     x1 \<leftarrow> deref h1 a;
     (h2, lv2) \<leftarrow> unlink_next h1 lv1 x1;
     h3 \<leftarrow> update_at h2 a (\<lambda>y. y\<lparr>o_prev := None\<rparr>);
     h4 \<leftarrow> update_at h3 a (\<lambda>y. y\<lparr>o_next := None\<rparr>);
     x2 \<leftarrow> deref h4 a;
     Some (h4, lv2\<lparr>pl_total_quantity := pl_total_quantity lv2 - remaining_quantity x2,
       pl_order_count := pl_order_count lv2 - 1\<rparr>) }"
  unfolding level_remove_def unlink_prev_def unlink_next_def by (rule refl)

lemma touches_only_mono: "touches_only S h h' \<Longrightarrow> S \<subseteq> T \<Longrightarrow> touches_only T h h'"
  by (auto simp: touches_only_def)

lemma touches_only_trans:
  "touches_only S h h' \<Longrightarrow> touches_only S h' h'' \<Longrightarrow> touches_only S h h''"
  by (auto simp: touches_only_def intro: same_payloads_trans)

lemma touches_only_live: "touches_only S h h' \<Longrightarrow> live h' a \<longleftrightarrow> live h a"
  by (auto simp: touches_only_def same_payloads_live)

lemma level_remove_rep:
  assumes rep: "level_rep h lv (us @ a # vs)"
  shows "\<exists>h' lv'. level_remove h lv a = Some (h', lv') \<and> level_rep h' lv' (us @ vs) \<and>
    touches_only (set (us @ a # vs)) h h'"
proof -
  let ?xs = "us @ a # vs"
  have l: "links h None ?xs None" and d: "distinct ?xs"
    and hd: "pl_head lv = first_or None ?xs" and tl: "pl_tail lv = last_or None ?xs"
    using rep by (simp_all add: level_rep_def)
  have a: "live h a" "o_next (obj h a) = first_or None vs" "o_prev (obj h a) = last_or None us"
    using l by (simp_all add: links_append)
  obtain h1 lv1 where s1: "unlink_prev h lv (obj h a) = Some (h1, lv1)"
      "links h1 None us (first_or None vs)" "links h1 (Some a) vs None" "obj h1 a = obj h a"
      "lv1 = lv\<lparr>pl_head := first_or None (us @ vs)\<rparr>" "touches_only (set us) h h1"
    using unlink_prev_links [OF l d hd] by blast
  have tl1: "pl_tail lv1 = last_or None ?xs" using s1(5) tl by simp
  obtain h2 lv2 where s2: "unlink_next h1 lv1 (obj h1 a) = Some (h2, lv2)"
      "links h2 None (us @ vs) None" "obj h2 a = obj h1 a"
      "lv2 = lv1\<lparr>pl_tail := last_or None (us @ vs)\<rparr>" "touches_only (set vs) h1 h2"
    using unlink_next_links [OF s1(2,3) _ _ d tl1] s1(4) a by auto
  define h' where "h' = h2(a := Object ((obj h a)\<lparr>o_prev := None, o_next := None\<rparr>))"
  have live: "live h1 a" "live h2 a"
    using a(1) touches_only_live [OF s1(6)] touches_only_live [OF s2(5)] by auto
  have "touches_only (set ?xs) h h2"
    by (rule touches_only_trans [OF touches_only_mono [OF s1(6)] touches_only_mono [OF s2(5)]]) auto
  then have to: "touches_only (set ?xs) h h'"
    unfolding h'_def using live s1(4) s2(3) by (auto intro!: touches_only_upd)
  let ?lv' = "lv2\<lparr>pl_total_quantity := pl_total_quantity lv2 - remaining_quantity (obj h a),
    pl_order_count := pl_order_count lv2 - 1\<rparr>"
  have "level_remove h lv a = Some (h', ?lv')"
    using a(1) s1(1,4) s2(1,3) live by (simp add: level_remove_halves store_simps h'_def)
  moreover have "open_sum h' (us @ vs) = open_sum h (us @ vs)"
    by (rule open_sum_same_payloads [OF touches_onlyD(1) [OF to]])
      (use level_rep_live [OF rep] in auto)
  then have "level_rep h' ?lv' (us @ vs)"
    using rep s2 s1(5) d by (auto simp: level_rep_def h'_def)
  ultimately show ?thesis using to by blast
qed

text \<open>\<open>pop_front\<close> is \<open>remove\<close> of the front order, written out for the head.\<close>

lemma pop_front_remove:
  assumes "level_rep h lv (a # vs)"
  shows "pop_front h lv = do { (h', lv') \<leftarrow> level_remove h lv a; Some (Some a, h', lv') }"
proof (cases vs)
  case Nil
  then show ?thesis
    using assms by (simp add: pop_front_def level_remove_def level_rep_def store_simps)
next
  case (Cons v ws)
  then have "live h v" "v \<noteq> a" using assms by (auto simp: level_rep_def)
  with Cons show ?thesis
    using assms by (simp add: pop_front_def level_remove_def level_rep_def store_simps)
qed

lemma pop_front_rep:
  assumes "level_rep h lv (a # vs)"
  shows "\<exists>h' lv'. pop_front h lv = Some (Some a, h', lv') \<and> level_rep h' lv' vs \<and>
    touches_only (set (a # vs)) h h'"
  using level_remove_rep [of h lv "[]" a vs] assms pop_front_remove [OF assms] by auto

lemma pop_front_empty: "level_rep h lv [] \<Longrightarrow> pop_front h lv = Some (None, h, lv)"
  by (simp add: pop_front_def level_rep_def)

text \<open>
  The ordering rule for fills: raising an order's filled quantity and reducing the
  level's aggregate by the same amount, in this pair, keeps the invariant.
\<close>

lemma open_sum_fill:
  assumes "distinct xs" "a \<in> set xs"
  shows "open_sum (h(a := Object ((obj h a)\<lparr>o_filled_quantity := o_filled_quantity (obj h a) + q\<rparr>))) xs
    = open_sum h xs - q"
  using assms
proof (induction xs)
  case (Cons x xs)
  let ?h = "h(a := Object ((obj h a)\<lparr>o_filled_quantity := o_filled_quantity (obj h a) + q\<rparr>))"
  show ?case
  proof (cases "x = a")
    case True
    have "open_sum ?h xs = open_sum h xs"
      by (rule open_sum_cong) (use Cons.prems True in \<open>auto simp: store_simps\<close>)
    with True show ?thesis by (simp add: store_simps remaining_quantity_def del: fun_upd_apply)
  next
    case False
    with Cons show ?thesis by (simp add: store_simps)
  qed
qed simp

lemma links_payload_upd:
  assumes "links h pv xs nx" "o_prev x = o_prev (obj h a)" "o_next x = o_next (obj h a)"
  shows "links (h(a := Object x)) pv xs nx"
  using assms by (induction xs arbitrary: pv) (auto simp: store_simps)

lemma level_fill_rep:
  assumes "level_rep h lv xs" "a \<in> set xs"
  shows "level_rep (h(a := Object ((obj h a)\<lparr>o_filled_quantity := o_filled_quantity (obj h a) + q\<rparr>)))
    (reduce_quantity lv q) xs"
  using assms open_sum_fill [of xs a h q]
  by (simp add: level_rep_def reduce_quantity_def links_payload_upd)

section \<open>The queue interface\<close>

text \<open>
  The contract of an intrusive FIFO: \<open>rep h l xs\<close> says that \<open>l\<close> queues the nodes
  \<open>xs\<close>, oldest first, in the memory \<open>h\<close>; \<open>node h a\<close> says that \<open>a\<close> is a node.
\<close>

locale intrusive_fifo =
  fixes push :: "'h \<Rightarrow> 'l \<Rightarrow> addr \<Rightarrow> ('h \<times> 'l) option"
    and unlink :: "'h \<Rightarrow> 'l \<Rightarrow> addr \<Rightarrow> ('h \<times> 'l) option"
    and pop :: "'h \<Rightarrow> 'l \<Rightarrow> (addr option \<times> 'h \<times> 'l) option"
    and rep :: "'h \<Rightarrow> 'l \<Rightarrow> addr list \<Rightarrow> bool"
    and node :: "'h \<Rightarrow> addr \<Rightarrow> bool"
  assumes push_rep: "rep h l xs \<Longrightarrow> node h a \<Longrightarrow> a \<notin> set xs \<Longrightarrow>
      \<exists>h' l'. push h l a = Some (h', l') \<and> rep h' l' (xs @ [a]) \<and> node h' = node h"
    and unlink_rep: "rep h l (us @ a # vs) \<Longrightarrow>
      \<exists>h' l'. unlink h l a = Some (h', l') \<and> rep h' l' (us @ vs) \<and> node h' = node h"
    and pop_nil: "rep h l [] \<Longrightarrow> pop h l = Some (None, h, l)"
    and pop_cons: "rep h l (a # vs) \<Longrightarrow>
      \<exists>h' l'. pop h l = Some (Some a, h', l') \<and> rep h' l' vs \<and> node h' = node h"
begin

fun push_all :: "'h \<Rightarrow> 'l \<Rightarrow> addr list \<Rightarrow> ('h \<times> 'l) option" where
  "push_all h l [] = Some (h, l)"
| "push_all h l (a # as) = do { (h', l') \<leftarrow> push h l a; push_all h' l' as }"

fun pop_many :: "nat \<Rightarrow> 'h \<Rightarrow> 'l \<Rightarrow> (addr option list \<times> 'h \<times> 'l) option" where
  "pop_many 0 h l = Some ([], h, l)"
| "pop_many (Suc n) h l = do {
     (r, h', l') \<leftarrow> pop h l;
     (rs, h'', l'') \<leftarrow> pop_many n h' l';
     Some (r # rs, h'', l'') }"

lemma push_all_rep:
  assumes "rep h l xs" "\<forall>a\<in>set as. node h a" "distinct (xs @ as)"
  shows "\<exists>h' l'. push_all h l as = Some (h', l') \<and> rep h' l' (xs @ as) \<and> node h' = node h"
  using assms
proof (induction as arbitrary: h l xs)
  case Nil
  then show ?case by simp
next
  case (Cons a as)
  then obtain h1 l1 where s1: "push h l a = Some (h1, l1)" "rep h1 l1 (xs @ [a])" "node h1 = node h"
    using push_rep [of h l xs a] by auto
  have "\<exists>h' l'. push_all h1 l1 as = Some (h', l') \<and> rep h' l' ((xs @ [a]) @ as) \<and> node h' = node h1"
    by (rule Cons.IH) (use s1 Cons.prems in auto)
  with s1 show ?case by auto
qed

lemma pop_many_rep:
  assumes "rep h l (xs @ ys)"
  shows "\<exists>h' l'. pop_many (length xs) h l = Some (map Some xs, h', l') \<and> rep h' l' ys"
  using assms
proof (induction xs arbitrary: h l)
  case Nil
  then show ?case by simp
next
  case (Cons a xs)
  then obtain h1 l1 where s1: "pop h l = Some (Some a, h1, l1)" "rep h1 l1 (xs @ ys)"
    using pop_cons [of h l a "xs @ ys"] by auto
  then obtain h2 l2 where "pop_many (length xs) h1 l1 = Some (map Some xs, h2, l2)" "rep h2 l2 ys"
    using Cons.IH by blast
  with s1 show ?case by auto
qed

text \<open>First in, first out, also after one of the queued nodes was unlinked.\<close>

lemma fifo_unlink:
  assumes "rep h l []" "\<forall>a\<in>set (us @ x # vs). node h a" "distinct (us @ x # vs)"
  shows "\<exists>h1 l1 h2 l2 h3 l3. push_all h l (us @ x # vs) = Some (h1, l1) \<and>
    unlink h1 l1 x = Some (h2, l2) \<and>
    pop_many (length (us @ vs)) h2 l2 = Some (map Some (us @ vs), h3, l3) \<and> rep h3 l3 []"
proof -
  obtain h1 l1 where s1: "push_all h l (us @ x # vs) = Some (h1, l1)" "rep h1 l1 (us @ x # vs)"
    using push_all_rep [of h l "[]" "us @ x # vs"] assms by auto
  obtain h2 l2 where s2: "unlink h1 l1 x = Some (h2, l2)" "rep h2 l2 (us @ vs)"
    using unlink_rep [OF s1(2)] by blast
  then show ?thesis using s1 pop_many_rep [of h2 l2 "us @ vs" "[]"] by auto
qed

end

lemma touches_only_live_eq: "touches_only S h h' \<Longrightarrow> live h' = live h"
  by (auto simp: touches_only_live fun_eq_iff)

interpretation lvl: intrusive_fifo push_back level_remove pop_front level_rep live
proof unfold_locales
  show "\<exists>h' l'. push_back h l a = Some (h', l') \<and> level_rep h' l' (xs @ [a]) \<and> live h' = live h"
    if "level_rep h l xs" "live h a" "a \<notin> set xs" for h l xs a
    using push_back_rep [OF that] touches_only_live_eq by blast
  show "\<exists>h' l'. level_remove h l a = Some (h', l') \<and> level_rep h' l' (us @ vs) \<and> live h' = live h"
    if "level_rep h l (us @ a # vs)" for h l us a vs
    using level_remove_rep [OF that] touches_only_live_eq by blast
  show "\<exists>h' l'. pop_front h l = Some (Some a, h', l') \<and> level_rep h' l' vs \<and> live h' = live h"
    if "level_rep h l (a # vs)" for h l a vs
    using pop_front_rep [OF that] touches_only_live_eq by blast
qed (rule pop_front_empty)

end
