(* ===== verification/Order_Book.thy ===== *)
theory Order_Book
  imports Price_Level
begin

text \<open>
  \<^verbatim>\<open>core/order_book.h\<close> and \<^verbatim>\<open>core/order_book.cpp\<close>: the flat array of price levels, the
  identifier index, the side counters and the lazily maintained best prices.

  \<open>book_rep h b Q\<close> is the invariant: \<open>Q p\<close> is the queue of order addresses at price
  \<open>p\<close>, the index holds exactly the queued orders under their identifiers, the counters
  count the sides, the book is uncrossed, and the best prices are the extreme prices of
  their side (or the documented sentinels).  Adding and cancelling keep it, and the
  rescans of \<^verbatim>\<open>update_best_bid_after_remove\<close> and \<^verbatim>\<open>update_best_ask_after_remove\<close> find
  the true next best price.
\<close>

section \<open>Model\<close>

record order_book =
  ob_levels :: "Price \<Rightarrow> price_level"
  ob_best_bid :: Price
  ob_best_ask :: Price
  ob_bid_count :: "64 word"
  ob_ask_count :: "64 word"
  ob_order_map :: "OrderId \<rightharpoonup> addr"

definition new_book :: order_book where
  "new_book = \<lparr>ob_levels = (\<lambda>_. empty_level), ob_best_bid = 0, ob_best_ask = MAX_PRICE_TICKS - 1,
     ob_bid_count = 0, ob_ask_count = 0, ob_order_map = Map.empty\<rparr>"

text \<open>
  The array access \<^verbatim>\<open>levels_[static_cast<size_t>(price)]\<close>: an index outside the array is
  a fault.
\<close>

definition get_level :: "order_book \<Rightarrow> Price \<Rightarrow> price_level option" where
  "get_level b p = (if 0 \<le> p \<and> p < MAX_PRICE_TICKS then Some (ob_levels b p) else None)"

definition set_level :: "order_book \<Rightarrow> Price \<Rightarrow> price_level \<Rightarrow> order_book" where
  "set_level b p lv = b\<lparr>ob_levels := (ob_levels b)(p := lv)\<rparr>"

definition best_bid :: "order_book \<Rightarrow> Price" where "best_bid b = ob_best_bid b"
definition best_ask :: "order_book \<Rightarrow> Price" where "best_ask b = ob_best_ask b"
definition spread :: "order_book \<Rightarrow> Price" where "spread b = ob_best_ask b - ob_best_bid b"
definition has_bids :: "order_book \<Rightarrow> bool" where "has_bids b \<longleftrightarrow> ob_bid_count b > 0"
definition has_asks :: "order_book \<Rightarrow> bool" where "has_asks b \<longleftrightarrow> ob_ask_count b > 0"
definition bid_count :: "order_book \<Rightarrow> 64 word" where "bid_count b = ob_bid_count b"
definition ask_count :: "order_book \<Rightarrow> 64 word" where "ask_count b = ob_ask_count b"

definition get_order :: "order_book \<Rightarrow> OrderId \<Rightarrow> addr option" where
  "get_order b i = ob_order_map b i"

definition note_added :: "order \<Rightarrow> order_book \<Rightarrow> order_book" where
  "note_added x b = (case o_side x of
      Bid \<Rightarrow> let b1 = b\<lparr>ob_bid_count := ob_bid_count b + 1\<rparr> in
        if ob_bid_count b1 = 1 \<or> o_price x > ob_best_bid b1 then b1\<lparr>ob_best_bid := o_price x\<rparr> else b1
    | Ask \<Rightarrow> let b1 = b\<lparr>ob_ask_count := ob_ask_count b + 1\<rparr> in
        if ob_ask_count b1 = 1 \<or> o_price x < ob_best_ask b1 then b1\<lparr>ob_best_ask := o_price x\<rparr> else b1)"

definition add_order :: "heap \<Rightarrow> order_book \<Rightarrow> addr \<Rightarrow> (bool \<times> heap \<times> order_book) option" where
  "add_order h b a = do {
     x \<leftarrow> deref h a;
     if o_price x < 0 \<or> o_price x \<ge> MAX_PRICE_TICKS then Some (False, h, b)
     else if ob_order_map b (o_id x) \<noteq> None then Some (False, h, b)
     else do {
       let b1 = b\<lparr>ob_order_map := (ob_order_map b)(o_id x \<mapsto> a)\<rparr>;
       lv \<leftarrow> get_level b1 (o_price x);
       (h1, lv1) \<leftarrow> push_back h lv a;
       x1 \<leftarrow> deref h1 a;
       Some (True, h1, note_added x1 (set_level b1 (o_price x) lv1)) } }"

text \<open>The two rescans: from a price downwards to 0, and upwards to the end of the array.\<close>

function scan_down :: "(Price \<Rightarrow> price_level) \<Rightarrow> Price \<Rightarrow> Price option" where
  "scan_down ls p = (if p < 0 then None
     else if \<not> level_empty (ls p) then Some p
     else scan_down ls (p - 1))"
  by pat_completeness auto
termination
  by (relation "measure (\<lambda>(ls, p). nat (p + 1))") auto

function scan_up :: "(Price \<Rightarrow> price_level) \<Rightarrow> Price \<Rightarrow> Price option" where
  "scan_up ls p = (if p \<ge> MAX_PRICE_TICKS then None
     else if \<not> level_empty (ls p) then Some p
     else scan_up ls (p + 1))"
  by pat_completeness auto
termination
  by (relation "measure (\<lambda>(ls, p). nat (MAX_PRICE_TICKS - p))") auto

declare scan_down.simps [simp del] scan_up.simps [simp del]

definition update_best_bid_after_remove :: "Price \<Rightarrow> order_book \<Rightarrow> order_book" where
  "update_best_bid_after_remove removed b =
     (if ob_bid_count b = 0 then b\<lparr>ob_best_bid := 0\<rparr>
      else case scan_down (ob_levels b) (removed - 1) of
        Some p \<Rightarrow> b\<lparr>ob_best_bid := p\<rparr>
      | None \<Rightarrow> b)"

definition update_best_ask_after_remove :: "Price \<Rightarrow> order_book \<Rightarrow> order_book" where
  "update_best_ask_after_remove removed b =
     (if ob_ask_count b = 0 then b\<lparr>ob_best_ask := MAX_PRICE_TICKS - 1\<rparr>
      else case scan_up (ob_levels b) (removed + 1) of
        Some p \<Rightarrow> b\<lparr>ob_best_ask := p\<rparr>
      | None \<Rightarrow> b)"

definition note_removed :: "Side \<Rightarrow> order_book \<Rightarrow> order_book" where
  "note_removed sd b = (case sd of
      Bid \<Rightarrow> b\<lparr>ob_bid_count := ob_bid_count b - 1\<rparr>
    | Ask \<Rightarrow> b\<lparr>ob_ask_count := ob_ask_count b - 1\<rparr>)"

definition repair_best :: "Side \<Rightarrow> Price \<Rightarrow> order_book \<Rightarrow> order_book" where
  "repair_best sd price b =
     (if sd = Bid \<and> price = ob_best_bid b then update_best_bid_after_remove price b
      else if sd = Ask \<and> price = ob_best_ask b then update_best_ask_after_remove price b
      else b)"

definition cancel_order :: "heap \<Rightarrow> order_book \<Rightarrow> OrderId \<Rightarrow> (bool \<times> heap \<times> order_book) option" where
  "cancel_order h b i = (case ob_order_map b i of
      None \<Rightarrow> Some (False, h, b)
    | Some a \<Rightarrow> do {
        x \<leftarrow> deref h a;
        let price = o_price x;
        let sd = o_side x;
        lv \<leftarrow> get_level b price;
        (h1, lv1) \<leftarrow> level_remove h lv a;
        let b1 = (set_level b price lv1)\<lparr>ob_order_map := (ob_order_map b)(i := None)\<rparr>;
        let b2 = note_removed sd b1;
        lv2 \<leftarrow> get_level b2 price;
        Some (True, h1, if level_empty lv2 then repair_best sd price b2 else b2) })"

section \<open>The representation invariant\<close>

type_synonym queues = "Price \<Rightarrow> addr list"

definition resting :: "queues \<Rightarrow> addr set" where
  "resting Q = (\<Union>p. set (Q p))"

definition side_set :: "heap \<Rightarrow> queues \<Rightarrow> Side \<Rightarrow> addr set" where
  "side_set h Q sd = {a \<in> resting Q. o_side (obj h a) = sd}"

definition prices :: "heap \<Rightarrow> addr set \<Rightarrow> Price set" where
  "prices h A = (\<lambda>a. o_price (obj h a)) ` A"

definition book_links :: "heap \<Rightarrow> order_book \<Rightarrow> queues \<Rightarrow> bool" where
  "book_links h b Q \<longleftrightarrow>
     (\<forall>p. 0 \<le> p \<and> p < MAX_PRICE_TICKS \<longrightarrow> level_rep h (ob_levels b p) (Q p)) \<and>
     (\<forall>p. \<not> (0 \<le> p \<and> p < MAX_PRICE_TICKS) \<longrightarrow> Q p = []) \<and>
     (\<forall>p. \<forall>a\<in>set (Q p). o_price (obj h a) = p) \<and>
     (\<forall>i a. ob_order_map b i = Some a \<longleftrightarrow> a \<in> resting Q \<and> o_id (obj h a) = i) \<and>
     finite (resting Q) \<and> card (resting Q) < 2 ^ 32 \<and>
     ob_bid_count b = of_nat (card (side_set h Q Bid)) \<and>
     ob_ask_count b = of_nat (card (side_set h Q Ask))"

definition uncrossed :: "heap \<Rightarrow> queues \<Rightarrow> bool" where
  "uncrossed h Q \<longleftrightarrow> (\<forall>x\<in>prices h (side_set h Q Bid). \<forall>y\<in>prices h (side_set h Q Ask). x < y)"

definition best_prices :: "heap \<Rightarrow> order_book \<Rightarrow> queues \<Rightarrow> bool" where
  "best_prices h b Q \<longleftrightarrow>
     ob_best_bid b = (if side_set h Q Bid = {} then 0 else Max (prices h (side_set h Q Bid))) \<and>
     ob_best_ask b = (if side_set h Q Ask = {} then MAX_PRICE_TICKS - 1
       else Min (prices h (side_set h Q Ask)))"

definition book_rep :: "heap \<Rightarrow> order_book \<Rightarrow> queues \<Rightarrow> bool" where
  "book_rep h b Q \<longleftrightarrow> book_links h b Q \<and> uncrossed h Q \<and> best_prices h b Q"

lemma new_book_rep: "book_rep h new_book (\<lambda>_. [])"
  by (simp add: book_rep_def book_links_def uncrossed_def best_prices_def new_book_def resting_def
      side_set_def prices_def)

section \<open>The rescans\<close>

lemma scan_down_Some:
  "scan_down ls p = Some q \<Longrightarrow> 0 \<le> q \<and> q \<le> p \<and> \<not> level_empty (ls q) \<and> (\<forall>r. q < r \<and> r \<le> p \<longrightarrow> level_empty (ls r))"
proof (induction ls p rule: scan_down.induct)
  case (1 ls p)
  show ?case
  proof (cases "p < 0 \<or> \<not> level_empty (ls p)")
    case True
    then show ?thesis using 1(2) by (auto simp: scan_down.simps [of ls p] split: if_splits)
  next
    case False
    then have "scan_down ls (p - 1) = Some q"
      using 1(2) by (simp add: scan_down.simps [of ls p])
    then have "0 \<le> q \<and> q \<le> p - 1 \<and> \<not> level_empty (ls q) \<and> (\<forall>r. q < r \<and> r \<le> p - 1 \<longrightarrow> level_empty (ls r))"
      using 1(1) False by simp
    moreover have "r \<le> p \<longleftrightarrow> r \<le> p - 1 \<or> r = p" for r by auto
    ultimately show ?thesis using False by auto
  qed
qed

lemma scan_down_None: "scan_down ls p = None \<Longrightarrow> 0 \<le> r \<Longrightarrow> r \<le> p \<Longrightarrow> level_empty (ls r)"
proof (induction ls p rule: scan_down.induct)
  case (1 ls p)
  then show ?case
    by (cases "r = p") (auto simp: scan_down.simps [of ls p] split: if_splits)
qed

lemma scan_up_Some:
  "scan_up ls p = Some q \<Longrightarrow> p \<le> q \<and> q < MAX_PRICE_TICKS \<and> \<not> level_empty (ls q) \<and>
    (\<forall>r. p \<le> r \<and> r < q \<longrightarrow> level_empty (ls r))"
proof (induction ls p rule: scan_up.induct)
  case (1 ls p)
  show ?case
  proof (cases "p \<ge> MAX_PRICE_TICKS \<or> \<not> level_empty (ls p)")
    case True
    then show ?thesis using 1(2) by (auto simp: scan_up.simps [of ls p] split: if_splits)
  next
    case False
    then have "scan_up ls (p + 1) = Some q"
      using 1(2) by (simp add: scan_up.simps [of ls p])
    then have "p + 1 \<le> q \<and> q < MAX_PRICE_TICKS \<and> \<not> level_empty (ls q) \<and> (\<forall>r. p + 1 \<le> r \<and> r < q \<longrightarrow> level_empty (ls r))"
      using 1(1) False by simp
    then show ?thesis
      using False by (metis add1_zle_eq le_less order.strict_implies_order)
  qed
qed

lemma scan_up_None:
  "scan_up ls p = None \<Longrightarrow> p \<le> r \<Longrightarrow> r < MAX_PRICE_TICKS \<Longrightarrow> level_empty (ls r)"
proof (induction ls p rule: scan_up.induct)
  case (1 ls p)
  then show ?case
    by (cases "r = p") (auto simp: scan_up.simps [of ls p] split: if_splits)
qed

section \<open>Reading the invariant\<close>

lemma book_linksD:
  assumes "book_links h b Q"
  shows "0 \<le> p \<Longrightarrow> p < MAX_PRICE_TICKS \<Longrightarrow> level_rep h (ob_levels b p) (Q p)"
    and "\<not> (0 \<le> p \<and> p < MAX_PRICE_TICKS) \<Longrightarrow> Q p = []"
    and "a \<in> set (Q p) \<Longrightarrow> o_price (obj h a) = p"
    and "ob_order_map b i = Some a \<longleftrightarrow> a \<in> resting Q \<and> o_id (obj h a) = i"
    and "finite (resting Q)" "card (resting Q) < 2 ^ 32"
    and "ob_bid_count b = of_nat (card (side_set h Q Bid))"
    and "ob_ask_count b = of_nat (card (side_set h Q Ask))"
  using assms unfolding book_links_def by blast+

lemma resting_queue:
  assumes "book_links h b Q" "a \<in> resting Q"
  shows "a \<in> set (Q (o_price (obj h a)))" "0 \<le> o_price (obj h a)" "o_price (obj h a) < MAX_PRICE_TICKS"
    and "live h a"
proof -
  obtain p where p: "a \<in> set (Q p)" using assms(2) by (auto simp: resting_def)
  then have eq: "o_price (obj h a) = p" using book_linksD(3) [OF assms(1)] by simp
  have "0 \<le> p \<and> p < MAX_PRICE_TICKS" 
    using book_linksD(2) [OF assms(1), of p] p by (cases "0 \<le> p \<and> p < MAX_PRICE_TICKS") auto
  then show "a \<in> set (Q (o_price (obj h a)))" "0 \<le> o_price (obj h a)"
    "o_price (obj h a) < MAX_PRICE_TICKS" "live h a"
    using p eq book_linksD(1) [OF assms(1), of p] level_rep_live by auto
qed

lemma queue_resting: "a \<in> set (Q p) \<Longrightarrow> a \<in> resting Q"
  by (auto simp: resting_def)

lemma side_set_resting: "a \<in> side_set h Q sd \<Longrightarrow> a \<in> resting Q"
  by (simp add: side_set_def)

lemma finite_side_set: "finite (resting Q) \<Longrightarrow> finite (side_set h Q sd)"
  by (simp add: side_set_def)

lemma card_side_set: "finite (resting Q) \<Longrightarrow> card (side_set h Q sd) \<le> card (resting Q)"
  by (rule card_mono) (auto simp: side_set_def)

lemma card_side_64:
  assumes "book_links h b Q"
  shows "card (side_set h Q sd) < 2 ^ LENGTH(64)"
  using card_side_set [OF book_linksD(5) [OF assms], of h sd] book_linksD(6) [OF assms] by simp

lemma has_bids_rep: "book_links h b Q \<Longrightarrow> has_bids b \<longleftrightarrow> side_set h Q Bid \<noteq> {}"
  using of_nat_pos_word [OF card_side_64 [of h b Q Bid]] book_linksD(7) [of h b Q]
    finite_side_set [OF book_linksD(5), of h b Q h Bid]
  by (simp add: has_bids_def card_gt_0_iff)

lemma has_asks_rep: "book_links h b Q \<Longrightarrow> has_asks b \<longleftrightarrow> side_set h Q Ask \<noteq> {}"
  using of_nat_pos_word [OF card_side_64 [of h b Q Ask]] book_linksD(8) [of h b Q]
    finite_side_set [OF book_linksD(5), of h b Q h Ask]
  by (simp add: has_asks_def card_gt_0_iff)

lemma get_order_rep:
  "book_links h b Q \<Longrightarrow> get_order b i = Some a \<longleftrightarrow> a \<in> resting Q \<and> o_id (obj h a) = i"
  by (simp add: get_order_def book_linksD(4))

lemma get_order_None_rep:
  "book_links h b Q \<Longrightarrow> get_order b i = None \<longleftrightarrow> (\<forall>a\<in>resting Q. o_id (obj h a) \<noteq> i)"
  using get_order_rep [of h b Q i] by (metis not_None_eq)

section \<open>Changes of the queues\<close>

lemma resting_snoc: "resting (Q(p := Q p @ [a])) = insert a (resting Q)"
  by (auto simp: resting_def fun_upd_apply split: if_splits)

lemma resting_drop:
  assumes "book_links h b Q" "Q p = us @ a # vs"
  shows "resting (Q(p := us @ vs)) = resting Q - {a}"
proof -
  have p: "o_price (obj h a) = p" using book_linksD(3) [OF assms(1)] assms(2) by simp
  have "a \<notin> set (Q q)" if "q \<noteq> p" for q
    using book_linksD(3) [OF assms(1), of a q] p that by auto
  moreover have "a \<notin> set us \<union> set vs"
    using book_linksD(1,2) [OF assms(1), of p] assms(2)
    by (cases "0 \<le> p \<and> p < MAX_PRICE_TICKS") (auto simp: level_rep_def)
  ultimately show ?thesis
    using assms(2) by (auto simp: resting_def fun_upd_apply split: if_splits) (metis UnE set_append set_ConsD)
qed

lemma resting_remove1:
  assumes "book_links h b Q" "a \<in> resting Q"
  defines "p \<equiv> o_price (obj h a)"
  shows "resting (Q(p := remove1 a (Q p))) = resting Q - {a}"
proof -
  obtain us vs where q: "Q p = us @ a # vs" "remove1 a (Q p) = us @ vs"
    using split_list_first [OF resting_queue(1) [OF assms(1,2)]] by (auto simp: remove1_append p_def)
  show ?thesis unfolding q(2) by (rule resting_drop [OF assms(1) q(1)])
qed

lemma side_set_cong:
  assumes "same_payloads h h'" "\<And>a. a \<in> resting Q \<Longrightarrow> live h a"
  shows "side_set h' Q sd = side_set h Q sd"
  using assms same_payloads_obj(2) by (fastforce simp: side_set_def)

lemma prices_cong:
  assumes "same_payloads h h'" "\<And>a. a \<in> A \<Longrightarrow> live h a"
  shows "prices h' A = prices h A"
  using assms by (auto simp: prices_def same_payloads_obj(4) intro!: image_cong)

lemma side_prices_frame:
  assumes "same_payloads h h'" "\<And>a. a \<in> resting Q \<Longrightarrow> live h a"
  shows "side_set h' Q sd = side_set h Q sd"
    and "prices h' (side_set h' Q sd) = prices h (side_set h Q sd)"
proof -
  show eq: "side_set h' Q sd = side_set h Q sd" by (rule side_set_cong [OF assms])
  have "live h a" if "a \<in> side_set h Q sd" for a
    by (rule assms(2)) (rule side_set_resting [OF that])
  then show "prices h' (side_set h' Q sd) = prices h (side_set h Q sd)"
    unfolding eq by (rule prices_cong [OF assms(1)])
qed

lemma side_set_insert:
  "resting Q' = insert a (resting Q) \<Longrightarrow>
    side_set h Q' sd = (if o_side (obj h a) = sd then insert a (side_set h Q sd) else side_set h Q sd)"
  by (auto simp: side_set_def)

lemma side_set_delete:
  "resting Q' = resting Q - {a} \<Longrightarrow>
    side_set h Q' sd = side_set h Q sd - {a}"
  by (auto simp: side_set_def)

lemma prices_simps [simp]:
  "prices h {} = {}" "prices h (insert a A) = insert (o_price (obj h a)) (prices h A)"
  "prices h A = {} \<longleftrightarrow> A = {}" "finite A \<Longrightarrow> finite (prices h A)"
  by (auto simp: prices_def)

text \<open>
  One level changes, the orders keep their payloads: the invariant of the whole book
  follows from what happened at that level, in the index and in the counters.
\<close>

lemma book_links_update:
  assumes bl: "book_links h b Q" and to: "touches_only (insert a (set (Q p))) h h'"
    and a: "live h a" "o_price (obj h a) = p" and p: "0 \<le> p" "p < MAX_PRICE_TICKS"
    and lv: "level_rep h' (ob_levels b' p) xs" "\<And>q. q \<noteq> p \<Longrightarrow> ob_levels b' q = ob_levels b q"
    and xs: "set xs \<subseteq> insert a (set (Q p))"
    and m: "\<And>i c. ob_order_map b' i = Some c \<longleftrightarrow> c \<in> resting (Q(p := xs)) \<and> o_id (obj h c) = i"
    and fin: "card (resting (Q(p := xs))) < 2 ^ 32"
    and n: "ob_bid_count b' = of_nat (card (side_set h (Q(p := xs)) Bid))"
      "ob_ask_count b' = of_nat (card (side_set h (Q(p := xs)) Ask))"
  shows "book_links h' b' (Q(p := xs))"
proof -
  note sp = touches_onlyD(1) [OF to]
  have sub: "resting (Q(p := xs)) \<subseteq> insert a (resting Q)"
    using xs by (auto simp: resting_def fun_upd_apply split: if_splits)
  have live: "live h c" if "c \<in> resting (Q(p := xs))" for c
    using that sub a(1) resting_queue(4) [OF bl] by auto
  have sides: "side_set h' (Q(p := xs)) sd = side_set h (Q(p := xs)) sd" for sd
    by (rule side_set_cong [OF sp]) (rule live)
  have price: "o_price (obj h c) = q" if "c \<in> set ((Q(p := xs)) q)" for c q
    using that xs book_linksD(3) [OF bl] a(2) by (auto simp: fun_upd_apply split: if_splits)
  have "level_rep h' (ob_levels b' q) ((Q(p := xs)) q)" if q: "0 \<le> q" "q < MAX_PRICE_TICKS" for q
  proof (cases "q = p")
    case False
    have "c \<notin> insert a (set (Q p))" if "c \<in> set (Q q)" for c
      using that book_linksD(3) [OF bl] False a(2) by auto
    then have "level_rep h' (ob_levels b q) (Q q)"
      using level_rep_frame [OF book_linksD(1) [OF bl q]] touches_onlyD(2) [OF to] by blast
    with False lv(2) show ?thesis by simp
  qed (use lv(1) in simp)
  moreover have "(Q(p := xs)) q = []" if "\<not> (0 \<le> q \<and> q < MAX_PRICE_TICKS)" for q
    using that book_linksD(2) [OF bl, of q] p by (auto simp: fun_upd_apply)
  moreover have "o_price (obj h' c) = q" if "c \<in> set ((Q(p := xs)) q)" for c q
    using price [OF that] same_payloads_obj(4) [OF sp live [OF queue_resting [of c "Q(p := xs)" q, OF that]]] by simp
  moreover have "ob_order_map b' i = Some c \<longleftrightarrow> c \<in> resting (Q(p := xs)) \<and> o_id (obj h' c) = i" for i c
    using m [of i c] same_payloads_obj(1) [OF sp live] by auto
  moreover have "finite (resting (Q(p := xs)))"
    using finite_subset [OF sub] book_linksD(5) [OF bl] by simp
  ultimately show ?thesis
    unfolding book_links_def using fin n sides by simp
qed

section \<open>Adding an order\<close>

lemma note_added_frame [simp]:
  "ob_levels (note_added x b) = ob_levels b" "ob_order_map (note_added x b) = ob_order_map b"
  "ob_bid_count (note_added x b) = (if o_side x = Bid then ob_bid_count b + 1 else ob_bid_count b)"
  "ob_ask_count (note_added x b) = (if o_side x = Ask then ob_ask_count b + 1 else ob_ask_count b)"
  by (simp_all add: note_added_def Let_def split: Side.split)

lemma set_level_frame [simp]:
  "ob_levels (set_level b p lv) p = lv" "q \<noteq> p \<Longrightarrow> ob_levels (set_level b p lv) q = ob_levels b q"
  "ob_order_map (set_level b p lv) = ob_order_map b"
  "ob_bid_count (set_level b p lv) = ob_bid_count b" "ob_ask_count (set_level b p lv) = ob_ask_count b"
  "ob_best_bid (set_level b p lv) = ob_best_bid b" "ob_best_ask (set_level b p lv) = ob_best_ask b"
  by (simp_all add: set_level_def)

lemma add_order_links:
  assumes bl: "book_links h b Q" and a: "live h a" "a \<notin> resting Q"
    and p: "p = o_price (obj h a)" "0 \<le> p" "p < MAX_PRICE_TICKS"
    and i: "get_order b (o_id (obj h a)) = None" and room: "card (resting Q) + 1 < 2 ^ 32"
  shows "\<exists>h' b1. add_order h b a = Some (True, h', note_added (obj h' a) b1) \<and>
    book_links h' (note_added (obj h' a) b1) (Q(p := Q p @ [a])) \<and>
    touches_only (insert a (set (Q p))) h h' \<and>
    ob_bid_count b1 = ob_bid_count b \<and> ob_ask_count b1 = ob_ask_count b \<and>
    ob_best_bid b1 = ob_best_bid b \<and> ob_best_ask b1 = ob_best_ask b"
proof -
  let ?Q = "Q(p := Q p @ [a])"
  have lv: "level_rep h (ob_levels b p) (Q p)" using book_linksD(1) [OF bl] p by simp
  have "a \<notin> set (Q p)" using a(2) queue_resting by blast
  then obtain h' lv1 where pb: "push_back h (ob_levels b p) a = Some (h', lv1)"
      "level_rep h' lv1 (Q p @ [a])" "touches_only (insert a (set (Q p))) h h'"
    using push_back_rep [OF lv a(1)] by blast
  have la: "live h' a" "o_side (obj h' a) = o_side (obj h a)"
    using a(1) touches_only_live [OF pb(3)] same_payloads_obj(2) [OF touches_onlyD(1) [OF pb(3)]] by auto
  define b1 where "b1 = set_level (b\<lparr>ob_order_map := (ob_order_map b)(o_id (obj h a) \<mapsto> a)\<rparr>) p lv1"
  have run: "add_order h b a = Some (True, h', note_added (obj h' a) b1)"
    using a p i pb(1) la(1)
    by (simp add: add_order_def store_simps get_level_def get_order_def b1_def)
  have rest: "resting ?Q = insert a (resting Q)" by (rule resting_snoc)
  have noid: "o_id (obj h d) \<noteq> o_id (obj h a)" if "d \<in> resting Q" for d
    using i get_order_None_rep [OF bl] that by auto
  have fin: "finite (side_set h Q sd)" "a \<notin> side_set h Q sd" for sd
    using finite_side_set [OF book_linksD(5) [OF bl]] a(2) side_set_resting by auto
  have "book_links h' (note_added (obj h' a) b1) ?Q"
  proof (rule book_links_update [OF bl pb(3) a(1) p(1) [symmetric] p(2,3)])
    fix j c
    show "(ob_order_map (note_added (obj h' a) b1) j = Some c) = (c \<in> resting ?Q \<and> o_id (obj h c) = j)"
      using book_linksD(4) [OF bl, of j c] rest a(2) noid
      by (auto simp: b1_def fun_upd_apply split: if_splits)
  qed (use pb(2) rest room a(2) book_linksD(5,7,8) [OF bl] fin la(2) in
      \<open>auto simp: b1_def side_set_insert [OF rest]\<close>)
  then show ?thesis using run pb(3) by (auto simp: b1_def)
qed

text \<open>
  The full contract: an order that does not cross the other side keeps the book
  uncrossed and its best prices exact.
\<close>

definition not_crossing :: "heap \<Rightarrow> queues \<Rightarrow> order \<Rightarrow> bool" where
  "not_crossing h Q x \<longleftrightarrow> (case o_side x of
      Bid \<Rightarrow> \<forall>y\<in>prices h (side_set h Q Ask). o_price x < y
    | Ask \<Rightarrow> \<forall>y\<in>prices h (side_set h Q Bid). y < o_price x)"

lemma note_added_best:
  assumes "ob_bid_count b = of_nat (card B)" "card B + 1 < 2 ^ 64" "finite B"
    and "ob_ask_count b = of_nat (card A)" "card A + 1 < 2 ^ 64" "finite A"
    and "ob_best_bid b = (if B = {} then 0 else Max (prices h B))"
    and "ob_best_ask b = (if A = {} then m else Min (prices h A))"
  shows "ob_best_bid (note_added x b) = (if o_side x = Bid then Max (insert (o_price x) (prices h B)) else ob_best_bid b)"
    and "ob_best_ask (note_added x b) = (if o_side x = Ask then Min (insert (o_price x) (prices h A)) else ob_best_ask b)"
proof -
  have one: "(of_nat n :: 64 word) + 1 = 1 \<longleftrightarrow> n = 0" if "n + 1 < 2 ^ 64" for n
    using that of_nat_eq_1_word [where ?'a = 64, of "n + 1"] by simp
  note mx = Max_insert_if [OF prices_simps(4) [OF assms(3)], of _ h]
  note mn = Min_insert_if [OF prices_simps(4) [OF assms(6)], of _ h]
  have B: "ob_bid_count b + 1 = 1 \<longleftrightarrow> B = {}" and A: "ob_ask_count b + 1 = 1 \<longleftrightarrow> A = {}"
    using assms(1-6) one [of "card B"] one [of "card A"] by auto
  show "ob_best_bid (note_added x b) = (if o_side x = Bid then Max (insert (o_price x) (prices h B)) else ob_best_bid b)"
    unfolding mx using assms(7) B by (cases "o_side x") (simp_all add: note_added_def Let_def)
  show "ob_best_ask (note_added x b) = (if o_side x = Ask then Min (insert (o_price x) (prices h A)) else ob_best_ask b)"
    unfolding mn using assms(8) A by (cases "o_side x") (simp_all add: note_added_def Let_def)
qed

lemma add_order_rep:
  assumes br: "book_rep h b Q" and a: "live h a" "a \<notin> resting Q"
    and p: "p = o_price (obj h a)" "0 \<le> p" "p < MAX_PRICE_TICKS"
    and i: "get_order b (o_id (obj h a)) = None" and room: "card (resting Q) + 1 < 2 ^ 32"
    and nc: "not_crossing h Q (obj h a)"
  shows "\<exists>h' b'. add_order h b a = Some (True, h', b') \<and> book_rep h' b' (Q(p := Q p @ [a])) \<and>
    touches_only (insert a (set (Q p))) h h'"
proof -
  let ?Q = "Q(p := Q p @ [a])" and ?B = "side_set h Q Bid" and ?A = "side_set h Q Ask"
  have bl: "book_links h b Q" and uc: "uncrossed h Q" and bp: "best_prices h b Q"
    using br by (auto simp: book_rep_def)
  obtain h' b1 where s: "add_order h b a = Some (True, h', note_added (obj h' a) b1)"
      "book_links h' (note_added (obj h' a) b1) ?Q" "touches_only (insert a (set (Q p))) h h'"
      "ob_bid_count b1 = ob_bid_count b" "ob_ask_count b1 = ob_ask_count b"
      "ob_best_bid b1 = ob_best_bid b" "ob_best_ask b1 = ob_best_ask b"
    using add_order_links [OF bl a p i room] by blast
  note sp = touches_onlyD(1) [OF s(3)]
  have rest: "resting ?Q = insert a (resting Q)" by (rule resting_snoc)
  have live: "live h c" if "c \<in> resting ?Q" for c
    using that rest a(1) resting_queue(4) [OF bl] by auto
  have sides: "side_set h' ?Q sd = (if o_side (obj h a) = sd then insert a (side_set h Q sd) else side_set h Q sd)"
    and pr: "prices h' (side_set h' ?Q sd) = (if o_side (obj h a) = sd then insert p (prices h (side_set h Q sd))
      else prices h (side_set h Q sd))" for sd
    using side_prices_frame [where Q = ?Q and sd = sd, OF sp live] p(1) side_set_insert [OF rest, of h sd] by simp_all
  have fin: "finite (side_set h Q sd)" "card (side_set h Q sd) + 1 < 2 ^ 64" for sd
    using finite_side_set [OF book_linksD(5) [OF bl]] card_side_set [OF book_linksD(5) [OF bl], of h sd]
      book_linksD(6) [OF bl] by auto
  have same: "o_side (obj h' a) = o_side (obj h a)" "o_price (obj h' a) = p"
    using same_payloads_obj(2,4) [OF sp a(1)] p(1) by auto
  have "uncrossed h' ?Q"
    using uc nc p(1) unfolding uncrossed_def pr not_crossing_def
    by (cases "o_side (obj h a)") auto
  moreover have "best_prices h' (note_added (obj h' a) b1) ?Q"
    using note_added_best [where b = b1 and B = ?B and A = ?A and h = h and x = "obj h' a"
        and m = "MAX_PRICE_TICKS - 1"]
      book_linksD(7,8) [OF bl] bp s(4-7) fin same
    unfolding best_prices_def pr by (cases "o_side (obj h a)") (simp_all add: sides)
  ultimately show ?thesis using s by (auto simp: book_rep_def)
qed

section \<open>Cancelling an order\<close>

lemma level_empty_queue:
  "book_links h b Q \<Longrightarrow> 0 \<le> p \<Longrightarrow> p < MAX_PRICE_TICKS \<Longrightarrow> level_empty (ob_levels b p) \<longleftrightarrow> Q p = []"
  using level_empty_rep [OF book_linksD(1)] by blast

lemma prices_queue:
  assumes "book_links h b Q"
  shows "x \<in> prices h (side_set h Q sd) \<longleftrightarrow> (\<exists>a\<in>set (Q x). o_side (obj h a) = sd)"
  using book_linksD(3) [OF assms] resting_queue(1) [OF assms]
  by (auto simp: prices_def side_set_def image_iff intro: queue_resting)

lemma queue_price:
  "book_links h b Q \<Longrightarrow> c \<in> set (Q q) \<Longrightarrow> q \<in> prices h (side_set h Q (o_side (obj h c)))"
  using prices_queue by blast

lemma prices_range:
  assumes "book_links h b Q" "x \<in> prices h (side_set h Q sd)"
  shows "0 \<le> x" "x < MAX_PRICE_TICKS"
  using assms resting_queue(2,3) [OF assms(1)] by (auto simp: prices_def side_set_def)

lemma finite_prices: "book_links h b Q \<Longrightarrow> finite (prices h (side_set h Q sd))"
  using finite_side_set book_linksD(5) by simp

text \<open>The downward rescan finds the best remaining bid, the upward one the best remaining ask.\<close>

lemma scan_down_best:
  assumes bl: "book_links h b Q" and p: "p < MAX_PRICE_TICKS"
  defines "B \<equiv> prices h (side_set h Q Bid)"
  assumes asks: "\<forall>y\<in>prices h (side_set h Q Ask). p < y" and bids: "B \<noteq> {}" "\<forall>x\<in>B. x < p"
  shows "scan_down (ob_levels b) (p - 1) = Some (Max B)"
proof -
  have fin: "finite B" unfolding B_def by (rule finite_prices [OF bl])
  have m: "Max B \<in> B" using fin bids(1) by (rule Max_in)
  then have mr: "0 \<le> Max B" "Max B < MAX_PRICE_TICKS" "Max B < p"
    using prices_range [OF bl] bids(2) by (auto simp: B_def)
  have ne: "\<not> level_empty (ob_levels b (Max B))"
    using m mr level_empty_queue [OF bl mr(1,2)] prices_queue [OF bl, of "Max B" Bid] by (auto simp: B_def)
  show ?thesis
  proof (cases "scan_down (ob_levels b) (p - 1)")
    case None
    then show ?thesis using scan_down_None [of "ob_levels b" "p - 1" "Max B"] ne mr by simp
  next
    case (Some q)
    note q = scan_down_Some [OF Some]
    then have "Q q \<noteq> []" using level_empty_queue [OF bl, of q] p by auto
    then obtain c where c: "c \<in> set (Q q)" by (cases "Q q") auto
    then have "q \<in> B"
      using q asks queue_price [OF bl c] unfolding B_def by (cases "o_side (obj h c)") auto
    then have "q \<le> Max B" using fin by simp
    moreover have "\<not> q < Max B" using q ne mr by auto
    ultimately show ?thesis using Some by simp
  qed
qed

lemma scan_up_best:
  assumes bl: "book_links h b Q" and p: "0 \<le> p"
  defines "A \<equiv> prices h (side_set h Q Ask)"
  assumes bids: "\<forall>y\<in>prices h (side_set h Q Bid). y < p" and asks: "A \<noteq> {}" "\<forall>x\<in>A. p < x"
  shows "scan_up (ob_levels b) (p + 1) = Some (Min A)"
proof -
  have fin: "finite A" unfolding A_def by (rule finite_prices [OF bl])
  have m: "Min A \<in> A" using fin asks(1) by (rule Min_in)
  then have mr: "0 \<le> Min A" "Min A < MAX_PRICE_TICKS" "p < Min A"
    using prices_range [OF bl] asks(2) by (auto simp: A_def)
  have ne: "\<not> level_empty (ob_levels b (Min A))"
    using m mr level_empty_queue [OF bl mr(1,2)] prices_queue [OF bl, of "Min A" Ask] by (auto simp: A_def)
  show ?thesis
  proof (cases "scan_up (ob_levels b) (p + 1)")
    case None
    then show ?thesis using scan_up_None [of "ob_levels b" "p + 1" "Min A"] ne mr by simp
  next
    case (Some q)
    note q = scan_up_Some [OF Some]
    then have "Q q \<noteq> []" using level_empty_queue [OF bl, of q] p by auto
    then obtain c where c: "c \<in> set (Q q)" by (cases "Q q") auto
    then have "q \<in> A"
      using q bids queue_price [OF bl c] unfolding A_def by (cases "o_side (obj h c)") auto
    then have "Min A \<le> q" using fin by simp
    moreover have "\<not> Min A < q" using q ne mr by auto
    ultimately show ?thesis using Some by simp
  qed
qed

lemma repair_best_frame [simp]:
  "ob_levels (repair_best sd p b) = ob_levels b" "ob_order_map (repair_best sd p b) = ob_order_map b"
  "ob_bid_count (repair_best sd p b) = ob_bid_count b" "ob_ask_count (repair_best sd p b) = ob_ask_count b"
  by (simp_all add: repair_best_def update_best_bid_after_remove_def update_best_ask_after_remove_def
      split: option.split)

lemma repair_best_other [simp]:
  "ob_best_ask (repair_best Bid p b) = ob_best_ask b" "ob_best_bid (repair_best Ask p b) = ob_best_bid b"
  by (simp_all add: repair_best_def update_best_bid_after_remove_def update_best_ask_after_remove_def
      split: option.split)

lemma book_links_repair [simp]: "book_links h (repair_best sd p b) Q \<longleftrightarrow> book_links h b Q"
  by (simp add: book_links_def)

lemma counts_zero:
  assumes "book_links h b Q"
  shows "ob_bid_count b = 0 \<longleftrightarrow> side_set h Q Bid = {}" "ob_ask_count b = 0 \<longleftrightarrow> side_set h Q Ask = {}"
  using has_bids_rep [OF assms] has_asks_rep [OF assms]
  by (auto simp: has_bids_def has_asks_def word_greater_zero_iff)

text \<open>After an order at price \<open>p\<close> left side \<open>sd\<close>: the repair restores the best prices.\<close>

lemma repair_best_bid:
  assumes bl: "book_links h b Q" and p: "0 \<le> p" "p < MAX_PRICE_TICKS"
  defines "B \<equiv> prices h (side_set h Q Bid)"
  assumes asks: "\<forall>y\<in>prices h (side_set h Q Ask). p < y" and old: "ob_best_bid b = Max (insert p B)"
  shows "ob_best_bid (if Q p = [] then repair_best Bid p b else b) =
    (if side_set h Q Bid = {} then 0 else Max B)"
proof (cases "Q p = []")
  case False
  then obtain c where "c \<in> set (Q p)" by (cases "Q p") auto
  then have "p \<in> B"
    using asks prices_queue [OF bl, of p] unfolding B_def by (cases "o_side (obj h c)") auto
  then have "insert p B = B" "side_set h Q Bid \<noteq> {}" by (auto simp: B_def)
  then show ?thesis using False old by simp
next
  case True
  have fin: "finite B" unfolding B_def by (rule finite_prices [OF bl])
  have notin: "p \<notin> B" using True prices_queue [OF bl, of p Bid] by (simp add: B_def)
  have old': "ob_best_bid b = (if B = {} \<or> Max B < p then p else Max B)"
    using old Max_insert_if [OF fin] by simp
  have "scan_down (ob_levels b) (p - 1) = Some (Max B)" if "B \<noteq> {}" "Max B < p"
    using scan_down_best [OF bl p(2) asks] that fin by (simp add: B_def)
  moreover have "Max B \<noteq> p" if "B \<noteq> {}" using that fin notin Max_in by blast
  ultimately show ?thesis
    using True old' counts_zero [OF bl]
    by (auto simp: repair_best_def update_best_bid_after_remove_def B_def simp del: Max_less_iff)
qed

lemma repair_best_ask:
  assumes bl: "book_links h b Q" and p: "0 \<le> p" "p < MAX_PRICE_TICKS"
  defines "A \<equiv> prices h (side_set h Q Ask)"
  assumes bids: "\<forall>y\<in>prices h (side_set h Q Bid). y < p" and old: "ob_best_ask b = Min (insert p A)"
  shows "ob_best_ask (if Q p = [] then repair_best Ask p b else b) =
    (if side_set h Q Ask = {} then MAX_PRICE_TICKS - 1 else Min A)"
proof (cases "Q p = []")
  case False
  then obtain c where "c \<in> set (Q p)" by (cases "Q p") auto
  then have "p \<in> A"
    using bids prices_queue [OF bl, of p] unfolding A_def by (cases "o_side (obj h c)") auto
  then have "insert p A = A" "side_set h Q Ask \<noteq> {}" by (auto simp: A_def)
  then show ?thesis using False old by simp
next
  case True
  have fin: "finite A" unfolding A_def by (rule finite_prices [OF bl])
  have notin: "p \<notin> A" using True prices_queue [OF bl, of p Ask] by (simp add: A_def)
  have old': "ob_best_ask b = (if A = {} \<or> p < Min A then p else Min A)"
    using old Min_insert_if [OF fin] by simp
  have "scan_up (ob_levels b) (p + 1) = Some (Min A)" if "A \<noteq> {}" "p < Min A"
    using scan_up_best [OF bl p(1) bids] that fin by (simp add: A_def)
  moreover have "Min A \<noteq> p" if "A \<noteq> {}" using that fin notin Min_in by blast
  ultimately show ?thesis
    using True old' counts_zero [OF bl]
    by (auto simp: repair_best_def update_best_ask_after_remove_def A_def simp del: Min_gr_iff)
qed

lemma note_removed_frame [simp]:
  "ob_levels (note_removed sd b) = ob_levels b" "ob_order_map (note_removed sd b) = ob_order_map b"
  "ob_best_bid (note_removed sd b) = ob_best_bid b" "ob_best_ask (note_removed sd b) = ob_best_ask b"
  "ob_bid_count (note_removed sd b) = (if sd = Bid then ob_bid_count b - 1 else ob_bid_count b)"
  "ob_ask_count (note_removed sd b) = (if sd = Ask then ob_ask_count b - 1 else ob_ask_count b)"
  by (simp_all add: note_removed_def split: Side.split)

lemma of_nat_card_remove:
  assumes "finite A" "a \<in> A"
  shows "(of_nat (card (A - {a})) :: 'w::len word) = of_nat (card A) - 1"
  using card_Suc_Diff1 [OF assms] by (metis add_diff_cancel_left' of_nat_Suc)

text \<open>The index and the counters of a side without one of its orders.\<close>

lemma removed_index:
  assumes bl: "book_links h b Q" and i: "get_order b i = Some a" and rest: "resting Q' = resting Q - {a}"
  shows "((ob_order_map b)(i := None)) j = Some c \<longleftrightarrow> c \<in> resting Q' \<and> o_id (obj h c) = j"
proof (cases "j = i")
  case True
  then show ?thesis using get_order_rep [OF bl, of i c] i rest by auto
next
  case False
  then show ?thesis using book_linksD(4) [OF bl, of j c] get_order_rep [OF bl, of i a] i rest by auto
qed

lemma removed_counts:
  assumes bl: "book_links h b Q" and a: "a \<in> resting Q" and rest: "resting Q' = resting Q - {a}"
  shows "(of_nat (card (side_set h Q' s)) :: 64 word) =
    (if s = o_side (obj h a) then of_nat (card (side_set h Q s)) - 1 else of_nat (card (side_set h Q s)))"
proof -
  have "a \<in> side_set h Q (o_side (obj h a))" "s \<noteq> o_side (obj h a) \<Longrightarrow> a \<notin> side_set h Q s"
    using a by (auto simp: side_set_def)
  then show ?thesis
    using of_nat_card_remove [OF finite_side_set [OF book_linksD(5) [OF bl]]] side_set_delete [OF rest, of h s] by auto
qed

lemma cancel_order_links:
  assumes bl: "book_links h b Q" and i: "get_order b i = Some a"
  defines "p \<equiv> o_price (obj h a)" and "sd \<equiv> o_side (obj h a)"
  defines "Q' \<equiv> Q(p := remove1 a (Q p))"
  shows "\<exists>h' b2. cancel_order h b i = Some (True, h', if Q' p = [] then repair_best sd p b2 else b2) \<and>
    book_links h' b2 Q' \<and> touches_only (set (Q p)) h h' \<and>
    ob_best_bid b2 = ob_best_bid b \<and> ob_best_ask b2 = ob_best_ask b"
proof -
  have a: "a \<in> resting Q" "o_id (obj h a) = i" using get_order_rep [OF bl] i by auto
  note aq = resting_queue [OF bl a(1), folded p_def]
  have lv: "level_rep h (ob_levels b p) (Q p)" by (rule book_linksD(1) [OF bl aq(2,3)])
  obtain us vs where q: "Q p = us @ a # vs" "a \<notin> set us"
    using split_list_first [OF aq(1)] by blast
  then have q': "remove1 a (Q p) = us @ vs" by (simp add: remove1_append)
  obtain h' lv1 where rm: "level_remove h (ob_levels b p) a = Some (h', lv1)"
      "level_rep h' lv1 (us @ vs)" "touches_only (set (Q p)) h h'"
    using level_remove_rep [of h "ob_levels b p" us a vs] lv q by auto
  define b2 where "b2 = note_removed sd ((set_level b p lv1)\<lparr>ob_order_map := (ob_order_map b)(i := None)\<rparr>)"
  have bl2: "book_links h' b2 Q'"
  proof -
    have rest: "resting Q' = resting Q - {a}"
      unfolding Q'_def p_def by (rule resting_remove1 [OF bl a(1)])
    have idx: "ob_order_map b2 j = Some c \<longleftrightarrow> c \<in> resting Q' \<and> o_id (obj h c) = j" for j c
      using removed_index [OF bl i rest] by (simp add: b2_def)
    note cnt = removed_counts [OF bl a(1) rest, folded sd_def]
    have to: "touches_only (insert a (set (Q p))) h h'"
      using rm(3) by (rule touches_only_mono) auto
    show ?thesis
      unfolding Q'_def
    proof (rule book_links_update [OF bl to aq(4) _ aq(2,3) _ _ _ idx [unfolded Q'_def]])
      show "card (resting (Q(p := remove1 a (Q p)))) < 2 ^ 32"
        using book_linksD(5,6) [OF bl] rest card_Diff1_le [of "resting Q" a] by (simp add: Q'_def)
    qed (use rm(2) q q' book_linksD(7,8) [OF bl] cnt [of Bid] cnt [of Ask] in
        \<open>auto simp: b2_def Q'_def set_level_def p_def\<close>)
  qed
  moreover have "cancel_order h b i = Some (True, h', if Q' p = [] then repair_best sd p b2 else b2)"
    using i aq rm(1,2) q' level_empty_rep [OF rm(2)]
    by (simp add: cancel_order_def get_order_def store_simps get_level_def Let_def b2_def
        p_def [symmetric] sd_def [symmetric] Q'_def)
  ultimately show ?thesis using rm(3) by (auto simp: b2_def)
qed

text \<open>Repairing the best price of the side an order at price \<open>p\<close> was removed from.\<close>

lemma best_after_remove:
  assumes bl: "book_links h' b2 Q'" and p: "0 \<le> p" "p < MAX_PRICE_TICKS" and bp: "best_prices h b Q" and uc: "uncrossed h Q"
    and best: "ob_best_bid b2 = ob_best_bid b" "ob_best_ask b2 = ob_best_ask b"
    and own: "prices h (side_set h Q sd) = insert p (prices h' (side_set h' Q' sd))"
    and other: "\<And>s. s \<noteq> sd \<Longrightarrow> side_set h' Q' s = side_set h Q s \<and> prices h' (side_set h' Q' s) = prices h (side_set h Q s)"
  defines "b' \<equiv> if Q' p = [] then repair_best sd p b2 else b2"
  shows "best_prices h' b' Q'"
proof (cases sd)
  case Bid
  have asks: "prices h' (side_set h' Q' Ask) = prices h (side_set h Q Ask)" "side_set h' Q' Ask = side_set h Q Ask"
    using other [of Ask] Bid by blast+
  have ne: "side_set h Q Bid \<noteq> {}" using own Bid by (auto simp: prices_def)
  have lt: "\<forall>y\<in>prices h' (side_set h' Q' Ask). p < y" using uc own Bid asks by (auto simp: uncrossed_def)
  have "ob_best_bid b2 = Max (insert p (prices h' (side_set h' Q' Bid)))" using bp ne own Bid best(1) by (simp add: best_prices_def)
  from repair_best_bid [OF bl p lt this]
  have "ob_best_bid b' = (if side_set h' Q' Bid = {} then 0 else Max (prices h' (side_set h' Q' Bid)))" unfolding b'_def Bid .
  moreover have "ob_best_ask b' = ob_best_ask b" using Bid best(2) by (simp add: b'_def)
  ultimately show ?thesis using bp asks unfolding best_prices_def by simp
next
  case Ask
  have bids: "prices h' (side_set h' Q' Bid) = prices h (side_set h Q Bid)" "side_set h' Q' Bid = side_set h Q Bid"
    using other [of Bid] Ask by blast+
  have ne: "side_set h Q Ask \<noteq> {}" using own Ask by (auto simp: prices_def)
  have lt: "\<forall>y\<in>prices h' (side_set h' Q' Bid). y < p" using uc own Ask bids by (auto simp: uncrossed_def)
  have "ob_best_ask b2 = Min (insert p (prices h' (side_set h' Q' Ask)))" using bp ne own Ask best(2) by (simp add: best_prices_def)
  from repair_best_ask [OF bl p lt this]
  have "ob_best_ask b' = (if side_set h' Q' Ask = {} then MAX_PRICE_TICKS - 1 else Min (prices h' (side_set h' Q' Ask)))" unfolding b'_def Ask .
  moreover have "ob_best_bid b' = ob_best_bid b" using Ask best(1) by (simp add: b'_def)
  ultimately show ?thesis using bp bids unfolding best_prices_def by simp
qed

lemma cancel_order_rep:
  assumes br: "book_rep h b Q" and i: "get_order b i = Some a"
  defines "p \<equiv> o_price (obj h a)"
  shows "\<exists>h' b'. cancel_order h b i = Some (True, h', b') \<and>
    book_rep h' b' (Q(p := remove1 a (Q p))) \<and> touches_only (set (Q p)) h h'"
proof -
  let ?sd = "o_side (obj h a)"
  define Q' where "Q' = Q(p := remove1 a (Q p))"
  have bl: "book_links h b Q" and uc: "uncrossed h Q" and bp: "best_prices h b Q"
    using br by (auto simp: book_rep_def)
  obtain h' b2 where s: "cancel_order h b i = Some (True, h', if Q' p = [] then repair_best ?sd p b2 else b2)"
      "book_links h' b2 Q'" "touches_only (set (Q p)) h h'"
      "ob_best_bid b2 = ob_best_bid b" "ob_best_ask b2 = ob_best_ask b"
    using cancel_order_links [OF bl i] unfolding p_def Q'_def by blast
  have a: "a \<in> resting Q" using get_order_rep [OF bl] i by auto
  note aq = resting_queue [OF bl a, folded p_def]
  have rest: "resting Q' = resting Q - {a}"
    unfolding Q'_def p_def by (rule resting_remove1 [OF bl a])
  have live: "live h c" if "c \<in> resting Q'" for c
    using that rest resting_queue(4) [OF bl] by auto
  have sides: "side_set h' Q' sd = side_set h Q sd - {a}"
    and pr: "prices h' (side_set h' Q' sd) = prices h (side_set h Q sd - {a})" for sd
    using side_prices_frame [where Q = Q' and sd = sd, OF touches_onlyD(1) [OF s(3)] live]
      side_set_delete [OF rest, of h sd] by simp_all
  have own: "prices h (side_set h Q ?sd) = insert p (prices h' (side_set h' Q' ?sd))"
    using a unfolding pr by (auto simp: prices_def side_set_def p_def)
  have "side_set h Q sd - {a} = side_set h Q sd" if "sd \<noteq> ?sd" for sd
    using that by (auto simp: side_set_def)
  then have other: "side_set h' Q' sd = side_set h Q sd \<and> prices h' (side_set h' Q' sd) = prices h (side_set h Q sd)" if "sd \<noteq> ?sd" for sd
    using that by (metis pr sides)
  have "uncrossed h' Q'"
    using uc unfolding uncrossed_def pr by (auto simp: prices_def)
  then have "book_rep h' (if Q' p = [] then repair_best ?sd p b2 else b2) Q'"
    using best_after_remove [OF s(2) aq(2,3) bp uc s(4,5) own other] s(2) by (simp add: book_rep_def)
  then show ?thesis using s(1,3) unfolding Q'_def by blast
qed

section \<open>Refusals\<close>

lemma cancel_order_missing: "get_order b i = None \<Longrightarrow> cancel_order h b i = Some (False, h, b)"
  by (simp add: cancel_order_def get_order_def)

lemma add_order_out_of_range:
  "live h a \<Longrightarrow> o_price (obj h a) < 0 \<or> o_price (obj h a) \<ge> MAX_PRICE_TICKS \<Longrightarrow>
    add_order h b a = Some (False, h, b)"
  by (auto simp: add_order_def store_simps)

lemma add_order_duplicate:
  "live h a \<Longrightarrow> get_order b (o_id (obj h a)) \<noteq> None \<Longrightarrow> add_order h b a = Some (False, h, b)"
  by (simp add: add_order_def store_simps get_order_def)

section \<open>The book as a keyed collection\<close>

text \<open>
  What the engine and the tests rely on: lookups after an add and after a cancel, and
  the refusal of duplicate and of unknown identifiers.  \<open>may_add s a\<close> collects the
  preconditions under which an order may rest.
\<close>

locale keyed_book =
  fixes add :: "'s \<Rightarrow> addr \<Rightarrow> (bool \<times> 's) option"
    and cancel :: "'s \<Rightarrow> 'k \<Rightarrow> (bool \<times> 's) option"
    and get :: "'s \<Rightarrow> 'k \<Rightarrow> addr option"
    and key :: "'s \<Rightarrow> addr \<Rightarrow> 'k"
    and inv :: "'s \<Rightarrow> bool"
    and may_add :: "'s \<Rightarrow> addr \<Rightarrow> bool"
  assumes add_new: "inv s \<Longrightarrow> may_add s a \<Longrightarrow> get s (key s a) = None \<Longrightarrow>
      \<exists>s'. add s a = Some (True, s') \<and> inv s' \<and> get s' = (get s)(key s a := Some a)"
    and add_duplicate: "inv s \<Longrightarrow> may_add s a \<Longrightarrow> get s (key s a) \<noteq> None \<Longrightarrow> add s a = Some (False, s)"
    and cancel_known: "inv s \<Longrightarrow> get s k = Some a \<Longrightarrow>
      \<exists>s'. cancel s k = Some (True, s') \<and> inv s' \<and> get s' = (get s)(k := None)"
    and cancel_unknown: "get s k = None \<Longrightarrow> cancel s k = Some (False, s)"
begin

lemma add_cancel:
  assumes "inv s" "may_add s a" "get s (key s a) = None"
  shows "\<exists>s1 s2. add s a = Some (True, s1) \<and> get s1 (key s a) = Some a \<and>
    cancel s1 (key s a) = Some (True, s2) \<and> inv s2 \<and> get s2 = get s \<and>
    cancel s2 (key s a) = Some (False, s2)"
proof -
  obtain s1 where s1: "add s a = Some (True, s1)" "inv s1" "get s1 = (get s)(key s a := Some a)"
    using add_new [OF assms] by blast
  then obtain s2 where s2: "cancel s1 (key s a) = Some (True, s2)" "inv s2" "get s2 = (get s1)(key s a := None)"
    using cancel_known [of s1 "key s a" a] by auto
  have "get s2 = get s" using s1(3) s2(3) assms(3) by (auto simp: fun_upd_apply)
  then show ?thesis using s1 s2 assms(3) cancel_unknown [of s2 "key s a"] by auto
qed

lemma cancel_twice:
  assumes "inv s"
  shows "\<exists>r s1. cancel s k = Some (r, s1) \<and> r = (get s k \<noteq> None) \<and> inv s1 \<and>
    cancel s1 k = Some (False, s1)"
  using assms cancel_known [of s k] cancel_unknown [of s k] cancel_unknown
  by (cases "get s k") fastforce+

end

definition book_inv :: "heap \<times> order_book \<Rightarrow> bool" where
  "book_inv s \<longleftrightarrow> (\<exists>Q. book_rep (fst s) (snd s) Q)"

definition may_rest :: "heap \<times> order_book \<Rightarrow> addr \<Rightarrow> bool" where
  "may_rest s a \<longleftrightarrow> live (fst s) a \<and> 0 \<le> o_price (obj (fst s) a) \<and>
     o_price (obj (fst s) a) < MAX_PRICE_TICKS \<and>
     (\<forall>Q. book_rep (fst s) (snd s) Q \<longrightarrow> a \<notin> resting Q \<and> card (resting Q) + 1 < 2 ^ 32 \<and>
       not_crossing (fst s) Q (obj (fst s) a))"

lemma get_order_after:
  assumes "book_rep h b Q" "book_rep h' b' Q'" "touches_only S h h'"
    and "\<And>c. c \<in> resting Q' \<union> resting Q \<Longrightarrow> live h c"
  shows "get_order b' j = Some c \<longleftrightarrow> c \<in> resting Q' \<and> o_id (obj h c) = j"
  using get_order_rep [of h' b' Q' j c] assms same_payloads_obj(1) [OF touches_onlyD(1) [OF assms(3)], of c]
  by (auto simp: book_rep_def)

interpretation kb: keyed_book
  "\<lambda>s a. add_order (fst s) (snd s) a" "\<lambda>s i. cancel_order (fst s) (snd s) i"
  "\<lambda>s. get_order (snd s)" "\<lambda>s a. o_id (obj (fst s) a)" book_inv may_rest
proof unfold_locales
  fix s :: "heap \<times> order_book" and a
  assume inv: "book_inv s" and ok: "may_rest s a" and new: "get_order (snd s) (o_id (obj (fst s) a)) = None"
  obtain h b where s: "s = (h, b)" by (cases s)
  obtain Q where br: "book_rep h b Q" using inv s by (auto simp: book_inv_def)
  let ?p = "o_price (obj h a)"
  have ok': "live h a" "a \<notin> resting Q" "0 \<le> ?p" "?p < MAX_PRICE_TICKS" "card (resting Q) + 1 < 2 ^ 32"
      "not_crossing h Q (obj h a)"
    using ok br s by (auto simp: may_rest_def)
  obtain h' b' where r: "add_order h b a = Some (True, h', b')" "book_rep h' b' (Q(?p := Q ?p @ [a]))"
      "touches_only (insert a (set (Q ?p))) h h'"
    using add_order_rep [OF br ok'(1,2) refl ok'(3,4) _ ok'(5,6)] new s by auto
  have live: "live h c" if "c \<in> insert a (resting Q)" for c
    using that ok'(1) resting_queue(4) [of h b Q] br by (auto simp: book_rep_def)
  have "get_order b' j = Some c \<longleftrightarrow> ((get_order b)(o_id (obj h a) := Some a)) j = Some c" for j c
    using get_order_after [OF br r(2,3), of j c] live ok'(2) new s get_order_rep [of h b Q] br
      get_order_None_rep [of h b Q]
    by (auto simp: resting_snoc book_rep_def fun_upd_apply)
  then have "get_order b' = (get_order b)(o_id (obj h a) := Some a)"
    by (intro ext) (metis option.exhaust)
  then show "\<exists>s'. add_order (fst s) (snd s) a = Some (True, s') \<and> book_inv s' \<and>
      get_order (snd s') = (get_order (snd s))(o_id (obj (fst s) a) := Some a)"
    using r s by (auto simp: book_inv_def)
next
  fix s :: "heap \<times> order_book" and i a
  assume inv: "book_inv s" and i: "get_order (snd s) i = Some a"
  obtain h b where s: "s = (h, b)" by (cases s)
  obtain Q where br: "book_rep h b Q" using inv s by (auto simp: book_inv_def)
  then have bl: "book_links h b Q" by (simp add: book_rep_def)
  let ?p = "o_price (obj h a)"
  obtain h' b' where r: "cancel_order h b i = Some (True, h', b')"
      "book_rep h' b' (Q(?p := remove1 a (Q ?p)))" "touches_only (set (Q ?p)) h h'"
    using cancel_order_rep [OF br, of i a] i s by auto
  have a: "a \<in> resting Q" "o_id (obj h a) = i" using get_order_rep [OF bl] i s by auto
  note rest = resting_remove1 [OF bl a(1)]
  have "get_order b' j = Some c \<longleftrightarrow> ((get_order b)(i := None)) j = Some c" for j c
    using get_order_after [OF br r(2,3), of j c] resting_queue(4) [OF bl] rest a
      get_order_rep [OF bl, of j c] get_order_rep [OF bl, of i c] i s
    by (auto simp: fun_upd_apply)
  then have "get_order b' = (get_order b)(i := None)"
    by (intro ext) (metis option.exhaust)
  then show "\<exists>s'. cancel_order (fst s) (snd s) i = Some (True, s') \<and> book_inv s' \<and>
      get_order (snd s') = (get_order (snd s))(i := None)"
    using r s by (auto simp: book_inv_def)
qed (auto simp: may_rest_def add_order_duplicate cancel_order_missing)

end
