(* ===== verification/Memory_Pool.thy ===== *)
theory Memory_Pool
  imports Prelude
begin

text \<open>
  \<^verbatim>\<open>core/memory_pool.h\<close>: a fixed number of slots with a free list threaded through
  the unused slots.  The store of the pool is the memory all orders live in.  The
  theory shows that the free list is exactly the set of slots not handed out, that no
  slot is handed out twice, and that exhaustion is reported by a null pointer.
\<close>

section \<open>Model\<close>

record 'a pool =
  mp_storage :: "'a store"
  mp_free_head :: "addr option"
  mp_available :: "64 word"

text \<open>The constructor's loop \<^verbatim>\<open>for (i = PoolSize; i > 0; --i)\<close> pushes slot \<open>i - 1\<close>.\<close>

fun link_slots :: "nat \<Rightarrow> 'a pool \<Rightarrow> 'a pool" where
  "link_slots 0 p = p"
| "link_slots (Suc i) p =
     link_slots i (p\<lparr>mp_storage := (mp_storage p)(i := FreeNode (mp_free_head p)), mp_free_head := Some i\<rparr>)"

definition new_pool :: "nat \<Rightarrow> 'a pool" where
  "new_pool pool_size =
     link_slots pool_size \<lparr>mp_storage = (\<lambda>_. Raw), mp_free_head = None, mp_available = of_nat pool_size\<rparr>"

text \<open>\<open>allocate\<close> reads the free-list node in the head slot; any other content is a fault.\<close>

definition allocate :: "'a pool \<Rightarrow> (addr option \<times> 'a pool) option" where
  "allocate p = (case mp_free_head p of
      None \<Rightarrow> Some (None, p)
    | Some a \<Rightarrow> (case mp_storage p a of
        FreeNode nx \<Rightarrow> Some (Some a, p\<lparr>mp_free_head := nx, mp_available := mp_available p - 1\<rparr>)
      | _ \<Rightarrow> None))"

definition deallocate :: "addr \<Rightarrow> 'a pool \<Rightarrow> 'a pool" where
  "deallocate a p = p\<lparr>mp_storage := (mp_storage p)(a := FreeNode (mp_free_head p)),
     mp_free_head := Some a, mp_available := mp_available p + 1\<rparr>"

definition available :: "'a pool \<Rightarrow> 64 word" where
  "available p = mp_available p"

text \<open>What the pool's client does with a slot: placement new, and the destructor call.\<close>

definition construct :: "'a \<Rightarrow> addr \<Rightarrow> 'a pool \<Rightarrow> 'a pool" where
  "construct x a p = p\<lparr>mp_storage := (mp_storage p)(a := Object x)\<rparr>"

definition destroy :: "addr \<Rightarrow> 'a pool \<Rightarrow> 'a pool" where
  "destroy a p = p\<lparr>mp_storage := (mp_storage p)(a := Raw)\<rparr>"

section \<open>Representation\<close>

fun free_links :: "'a store \<Rightarrow> addr list \<Rightarrow> bool" where
  "free_links h [] \<longleftrightarrow> True"
| "free_links h (a # as) \<longleftrightarrow> h a = FreeNode (first_or None as) \<and> free_links h as"

definition pool_rep :: "nat \<Rightarrow> 'a pool \<Rightarrow> addr list \<Rightarrow> bool" where
  "pool_rep n p xs \<longleftrightarrow> free_links (mp_storage p) xs \<and> mp_free_head p = first_or None xs \<and>
     distinct xs \<and> set xs \<subseteq> {..<n} \<and> mp_available p = of_nat (length xs)"

lemma free_links_upd [simp]: "a \<notin> set xs \<Longrightarrow> free_links (h(a := s)) xs \<longleftrightarrow> free_links h xs"
  by (induction xs) auto

lemma free_links_member: "free_links h xs \<Longrightarrow> a \<in> set xs \<Longrightarrow> \<exists>nx. h a = FreeNode nx"
  by (induction xs) auto

lemma free_links_agree:
  "free_links h xs \<Longrightarrow> (\<And>a. a \<in> set xs \<Longrightarrow> h' a = h a) \<Longrightarrow> free_links h' xs"
  by (induction xs) auto

lemma link_slots_rep:
  assumes "free_links (mp_storage p) xs" "mp_free_head p = first_or None xs"
    and "distinct xs" "set xs \<subseteq> {i..<n}" "i \<le> n"
  shows "free_links (mp_storage (link_slots i p)) ([0..<i] @ xs) \<and>
    mp_free_head (link_slots i p) = first_or None ([0..<i] @ xs) \<and>
    mp_available (link_slots i p) = mp_available p"
  using assms
proof (induction i arbitrary: p xs)
  case 0
  then show ?case by simp
next
  case (Suc i)
  let ?p = "p\<lparr>mp_storage := (mp_storage p)(i := FreeNode (mp_free_head p)), mp_free_head := Some i\<rparr>"
  have ni: "i \<notin> set xs" using Suc.prems(4) by auto
  have links: "free_links (mp_storage ?p) (i # xs)"
    using Suc.prems(1,2) ni by simp
  have "free_links (mp_storage (link_slots i ?p)) ([0..<i] @ (i # xs)) \<and>
    mp_free_head (link_slots i ?p) = first_or None ([0..<i] @ (i # xs)) \<and>
    mp_available (link_slots i ?p) = mp_available ?p"
    by (rule Suc.IH [OF links]) (use Suc.prems ni in auto)
  then show ?case by simp
qed

lemma new_pool_rep: "pool_rep n (new_pool n) [0..<n]"
  using link_slots_rep [of "\<lparr>mp_storage = (\<lambda>_. Raw), mp_free_head = None, mp_available = of_nat n\<rparr>" "[]" n n]
  by (auto simp: pool_rep_def new_pool_def)

lemma allocate_empty: "pool_rep n p [] \<Longrightarrow> allocate p = Some (None, p)"
  by (simp add: pool_rep_def allocate_def)

lemma allocate_cons:
  assumes "pool_rep n p (a # xs)"
  defines "p' \<equiv> p\<lparr>mp_free_head := first_or None xs, mp_available := mp_available p - 1\<rparr>"
  shows "allocate p = Some (Some a, p')" "pool_rep n p' xs"
  using assms by (auto simp: pool_rep_def allocate_def)

lemma deallocate_rep:
  "pool_rep n p xs \<Longrightarrow> a \<notin> set xs \<Longrightarrow> a < n \<Longrightarrow> pool_rep n (deallocate a p) (a # xs)"
  by (simp add: pool_rep_def deallocate_def)

lemma construct_rep: "pool_rep n p xs \<Longrightarrow> a \<notin> set xs \<Longrightarrow> pool_rep n (construct x a p) xs"
  by (simp add: pool_rep_def construct_def)

lemma destroy_rep: "pool_rep n p xs \<Longrightarrow> a \<notin> set xs \<Longrightarrow> pool_rep n (destroy a p) xs"
  by (simp add: pool_rep_def destroy_def)

lemma available_rep: "pool_rep n p xs \<Longrightarrow> available p = of_nat (length xs)"
  by (simp add: pool_rep_def available_def)

lemma pool_rep_length: "pool_rep n p xs \<Longrightarrow> length xs \<le> n"
  by (metis pool_rep_def card_lessThan card_mono distinct_card finite_lessThan)

section \<open>The allocator interface\<close>

text \<open>
  What a client of the pool may rely on.  \<open>rep p xs\<close> says that \<open>xs\<close> are the free
  slots in the order they will be handed out; \<open>slot_of\<close> reads the memory.
\<close>

locale slot_allocator =
  fixes alloc :: "'p \<Rightarrow> (addr option \<times> 'p) option"
    and dealloc :: "addr \<Rightarrow> 'p \<Rightarrow> 'p"
    and rep :: "'p \<Rightarrow> addr list \<Rightarrow> bool"
    and slot_of :: "'p \<Rightarrow> addr \<Rightarrow> 'a slot"
    and size :: nat
  assumes rep_distinct: "rep p xs \<Longrightarrow> distinct xs"
    and rep_range: "rep p xs \<Longrightarrow> set xs \<subseteq> {..<size}"
    and alloc_null: "rep p [] \<Longrightarrow> alloc p = Some (None, p)"
    and alloc_slot: "rep p (a # xs) \<Longrightarrow>
      \<exists>p'. alloc p = Some (Some a, p') \<and> rep p' xs \<and> slot_of p' = slot_of p"
    and dealloc_slot: "rep p xs \<Longrightarrow> a \<notin> set xs \<Longrightarrow> a < size \<Longrightarrow> rep (dealloc a p) (a # xs)"
    and dealloc_frame: "b \<noteq> a \<Longrightarrow> slot_of (dealloc a p) b = slot_of p b"
begin

text \<open>\<open>k\<close> allocations in a row, and the slots they return.\<close>

fun alloc_many :: "nat \<Rightarrow> 'p \<Rightarrow> (addr option list \<times> 'p) option" where
  "alloc_many 0 p = Some ([], p)"
| "alloc_many (Suc k) p = do {
     (r, p') \<leftarrow> alloc p;
     (rs, p'') \<leftarrow> alloc_many k p';
     Some (r # rs, p'') }"

lemma alloc_many_free:
  assumes "rep p (xs @ ys)"
  shows "\<exists>p'. alloc_many (length xs) p = Some (map Some xs, p') \<and> rep p' ys"
  using assms
proof (induction xs arbitrary: p)
  case Nil
  then show ?case by simp
next
  case (Cons a xs)
  then obtain p1 where p1: "alloc p = Some (Some a, p1)" "rep p1 (xs @ ys)"
    using alloc_slot [of p a "xs @ ys"] by auto
  then obtain p2 where "alloc_many (length xs) p1 = Some (map Some xs, p2)" "rep p2 ys"
    using Cons.IH by blast
  with p1 show ?case by auto
qed

lemma alloc_many_exhausted:
  "rep p [] \<Longrightarrow> alloc_many k p = Some (replicate k None, p)"
  by (induction k) (auto simp: alloc_null)

text \<open>A slot given back is the next one handed out, and the free list is as before.\<close>

lemma dealloc_alloc:
  assumes "rep p xs" "a \<notin> set xs" "a < size"
  shows "\<exists>p'. alloc (dealloc a p) = Some (Some a, p') \<and> rep p' xs"
  using alloc_slot [OF dealloc_slot [OF assms]] by blast

end

interpretation mp: slot_allocator allocate deallocate "pool_rep n" mp_storage n for n
proof unfold_locales
  show "pool_rep n p [] \<Longrightarrow> allocate p = Some (None, p)" for p :: "'a pool"
    by (rule allocate_empty)
  show "pool_rep n p (a # xs) \<Longrightarrow>
      \<exists>p'. allocate p = Some (Some a, p') \<and> pool_rep n p' xs \<and> mp_storage p' = mp_storage p"
    for p :: "'a pool" and a xs
    using allocate_cons [of n p a xs] by auto
qed (auto simp: pool_rep_def deallocate_def)

end
