(* ===== verification/Matching_Engine.thy ===== *)
theory Matching_Engine
  imports Order_Book Memory_Pool
begin

text \<open>
  \<^verbatim>\<open>core/matching_engine.h\<close> and \<^verbatim>\<open>core/matching_engine.cpp\<close>: the engine owns the book,
  the order pool and the vector of fills.  The store all pointers refer to is the
  storage of the pool.  The two matching loops and the loop of \<open>fill_level\<close> are
  \<^theory_text>\<open>partial_function (option)\<close>s: \<open>None\<close> stands for a fault or for a loop that does
  not end, and \<open>Engine_Refinement\<close> shows that neither happens.
\<close>

record engine =
  e_book :: order_book
  e_pool :: "order pool"
  e_fills :: "fill_message list"

definition ORDER_POOL_SIZE :: nat where
  "ORDER_POOL_SIZE = 1000000"

definition new_engine :: "nat \<Rightarrow> engine" where
  "new_engine pool_size = \<lparr>e_book = new_book, e_pool = new_pool pool_size, e_fills = []\<rparr>"

definition heap_of :: "engine \<Rightarrow> heap" where
  "heap_of e = mp_storage (e_pool e)"

definition set_heap :: "heap \<Rightarrow> engine \<Rightarrow> engine" where
  "set_heap h e = e\<lparr>e_pool := (e_pool e)\<lparr>mp_storage := h\<rparr>\<rparr>"

definition pool_available :: "engine \<Rightarrow> 64 word" where
  "pool_available e = available (e_pool e)"

text \<open>\<^verbatim>\<open>order->~Order(); pool_.deallocate(order);\<close>\<close>

definition release :: "addr \<Rightarrow> engine \<Rightarrow> engine" where
  "release a e = e\<lparr>e_pool := deallocate a (destroy a (e_pool e))\<rparr>"

section \<open>Filling one level\<close>

text \<open>The body of the loop in \<^verbatim>\<open>MatchingEngine::fill_level\<close>.\<close>

definition fill_one ::
    "Price \<Rightarrow> OrderId \<Rightarrow> Side \<Rightarrow> Timestamp \<Rightarrow> engine \<Rightarrow> Quantity \<Rightarrow> (engine \<times> Quantity) option" where
  "fill_one level_price aggressive_id aggressor_side ts e remaining = do {
     level \<leftarrow> get_level (e_book e) level_price;
     passive \<leftarrow> front level;
     x \<leftarrow> deref (heap_of e) passive;
     let qty = min remaining (remaining_quantity x);
     h1 \<leftarrow> update_at (heap_of e) passive (\<lambda>y. y\<lparr>o_filled_quantity := o_filled_quantity y + qty\<rparr>);
     let b1 = set_level (e_book e) level_price (reduce_quantity level qty);
     x1 \<leftarrow> deref h1 passive;
     let fill = \<lparr>f_aggressive_id = aggressive_id, f_passive_id = o_id x1, f_price = level_price,
       f_quantity = qty, f_timestamp = ts, f_aggressor_side = aggressor_side\<rparr>;
     let e1 = (set_heap h1 e)\<lparr>e_book := b1, e_fills := e_fills e @ [fill]\<rparr>;
     if is_filled x1 then do {
       (_, h2, b2) \<leftarrow> cancel_order h1 b1 (o_id x1);
       Some (release passive ((set_heap h2 e1)\<lparr>e_book := b2\<rparr>), remaining - qty) }
     else Some (e1, remaining - qty) }"

partial_function (option) fill_level ::
    "Price \<Rightarrow> OrderId \<Rightarrow> Side \<Rightarrow> Timestamp \<Rightarrow> engine \<Rightarrow> Quantity \<Rightarrow> (engine \<times> Quantity) option" where
  "fill_level level_price aggressive_id aggressor_side ts e remaining = do {
     level \<leftarrow> get_level (e_book e) level_price;
     if remaining > 0 \<and> \<not> level_empty level then do {
       (e', remaining') \<leftarrow> fill_one level_price aggressive_id aggressor_side ts e remaining;
       fill_level level_price aggressive_id aggressor_side ts e' remaining' }
     else Some (e, remaining) }"

section \<open>Processing messages\<close>

definition is_limit :: "new_order_message \<Rightarrow> bool" where
  "is_limit msg \<longleftrightarrow> n_type msg = Limit"

text \<open>The two matching loops: a buy walks the asks upwards, a sell walks the bids downwards.\<close>

partial_function (option) match_asks :: "new_order_message \<Rightarrow> engine \<Rightarrow> Quantity \<Rightarrow> (engine \<times> Quantity) option" where
  "match_asks msg e remaining =
     (if remaining > 0 \<and> has_asks (e_book e) then
        if is_limit msg \<and> best_ask (e_book e) > n_price msg then Some (e, remaining)
        else do {
          (e', remaining') \<leftarrow> fill_level (best_ask (e_book e)) (n_id msg) (n_side msg) (n_timestamp msg) e remaining;
          match_asks msg e' remaining' }
      else Some (e, remaining))"

partial_function (option) match_bids :: "new_order_message \<Rightarrow> engine \<Rightarrow> Quantity \<Rightarrow> (engine \<times> Quantity) option" where
  "match_bids msg e remaining =
     (if remaining > 0 \<and> has_bids (e_book e) then
        if is_limit msg \<and> best_bid (e_book e) < n_price msg then Some (e, remaining)
        else do {
          (e', remaining') \<leftarrow> fill_level (best_bid (e_book e)) (n_id msg) (n_side msg) (n_timestamp msg) e remaining;
          match_bids msg e' remaining' }
      else Some (e, remaining))"

declare fill_level.simps [code] match_asks.simps [code] match_bids.simps [code]

text \<open>The order object that rests: the member assignments after placement new.\<close>

definition resting_order :: "new_order_message \<Rightarrow> Quantity \<Rightarrow> order \<Rightarrow> order" where
  "resting_order msg remaining x = x\<lparr>o_id := n_id msg, o_side := n_side msg, o_type := n_type msg,
     o_price := n_price msg, o_quantity := n_quantity msg,
     o_filled_quantity := n_quantity msg - remaining, o_timestamp := n_timestamp msg\<rparr>"

definition rest_order :: "new_order_message \<Rightarrow> Quantity \<Rightarrow> engine \<Rightarrow> engine option" where
  "rest_order msg remaining e = do {
     (slot, p1) \<leftarrow> allocate (e_pool e);
     (case slot of
        None \<Rightarrow> Some (e\<lparr>e_pool := p1\<rparr>)
      | Some a \<Rightarrow> do {
          let e1 = e\<lparr>e_pool := construct default_order a p1\<rparr>;
          h1 \<leftarrow> update_at (heap_of e1) a (resting_order msg remaining);
          (added, h2, b2) \<leftarrow> add_order h1 (e_book e1) a;
          let e2 = (set_heap h2 e1)\<lparr>e_book := b2\<rparr>;
          Some (if added then e2 else release a e2) }) }"

definition process_new_order :: "new_order_message \<Rightarrow> engine \<Rightarrow> engine option" where
  "process_new_order msg e = (let e0 = e\<lparr>e_fills := []\<rparr> in
     if n_quantity msg = 0 then Some e0
     else if is_limit msg \<and> (n_price msg < 0 \<or> n_price msg \<ge> MAX_PRICE_TICKS) then Some e0
     else do {
       (e1, remaining) \<leftarrow> (case n_side msg of
           Bid \<Rightarrow> match_asks msg e0 (n_quantity msg)
         | Ask \<Rightarrow> match_bids msg e0 (n_quantity msg));
       if remaining > 0 \<and> is_limit msg then rest_order msg remaining e1 else Some e1 })"

definition process_cancel :: "cancel_message \<Rightarrow> engine \<Rightarrow> (bool \<times> engine) option" where
  "process_cancel msg e = (case get_order (e_book e) (c_id msg) of
      None \<Rightarrow> Some (False, e)
    | Some a \<Rightarrow> do {
        (_, h1, b1) \<leftarrow> cancel_order (heap_of e) (e_book e) (c_id msg);
        Some (True, release a ((set_heap h1 e)\<lparr>e_book := b1\<rparr>)) })"

fun process :: "engine_message \<Rightarrow> engine \<Rightarrow> engine option" where
  "process (NewOrder msg) e = process_new_order msg e"
| "process (Cancel msg) e = do { (_, e') \<leftarrow> process_cancel msg (e\<lparr>e_fills := []\<rparr>); Some e' }"

text \<open>A stream of messages, and the fills each of them returned.\<close>

fun run_messages :: "engine_message list \<Rightarrow> engine \<Rightarrow> (fill_message list list \<times> engine) option" where
  "run_messages [] e = Some ([], e)"
| "run_messages (msg # msgs) e = do {
     e1 \<leftarrow> process msg e;
     (fss, e2) \<leftarrow> run_messages msgs e1;
     Some (e_fills e1 # fss, e2) }"

end
