(* ===== verification/Matching_Spec.thy ===== *)
theory Matching_Spec
  imports Core_Types
begin

text \<open>
  The abstract specification of the matching engine: a limit order book with
  price-time priority.  Each side is one list of makers in priority order (best price
  first, oldest first within a price).  An incoming order sweeps the opposite list from
  the front; a limit remainder is inserted behind all orders of an equal or better
  price.  Quantities are natural numbers here; there are no pointers, slots or levels.

  \<^verbatim>\<open>core/matching_engine.h\<close> states this algorithm in its header comment.  The theory
  \<open>Engine_Refinement\<close> proves that the C++ engine implements it.
\<close>

section \<open>Specification\<close>

record maker =
  m_id :: OrderId
  m_price :: Price
  m_open :: nat

record lob =
  lob_bids :: "maker list"
  lob_asks :: "maker list"

definition empty_lob :: lob where
  "empty_lob = \<lparr>lob_bids = [], lob_asks = []\<rparr>"

text \<open>
  Sweep a priority list with \<open>r\<close> units, as long as the price is acceptable: the
  executions (maker and quantity), what is left of \<open>r\<close>, and the remaining list.
\<close>

fun sweep :: "(Price \<Rightarrow> bool) \<Rightarrow> nat \<Rightarrow> maker list \<Rightarrow> (maker \<times> nat) list \<times> nat \<times> maker list" where
  "sweep ok r [] = ([], r, [])"
| "sweep ok r (m # ms) =
     (if r = 0 \<or> \<not> ok (m_price m) then ([], r, m # ms)
      else if m_open m \<le> r then
        (let (ex, r', ms') = sweep ok (r - m_open m) ms in ((m, m_open m) # ex, r', ms'))
      else ([(m, r)], 0, m\<lparr>m_open := m_open m - r\<rparr> # ms))"

text \<open>
  The order of prices on a side: a higher bid and a lower ask come first.  A new maker is
  inserted behind everything that is not strictly worse than it.
\<close>

definition better :: "Side \<Rightarrow> Price \<Rightarrow> Price \<Rightarrow> bool" where
  "better sd p q \<longleftrightarrow> (case sd of Bid \<Rightarrow> p > q | Ask \<Rightarrow> p < q)"

definition enqueue :: "(Price \<Rightarrow> Price \<Rightarrow> bool) \<Rightarrow> maker \<Rightarrow> maker list \<Rightarrow> maker list" where
  "enqueue bt m ms = takeWhile (\<lambda>x. \<not> bt (m_price m) (m_price x)) ms @ m #
     dropWhile (\<lambda>x. \<not> bt (m_price m) (m_price x)) ms"

definition opposite :: "Side \<Rightarrow> Side" where
  "opposite sd = (case sd of Bid \<Rightarrow> Ask | Ask \<Rightarrow> Bid)"

definition lob_side :: "Side \<Rightarrow> lob \<Rightarrow> maker list" where
  "lob_side sd s = (case sd of Bid \<Rightarrow> lob_bids s | Ask \<Rightarrow> lob_asks s)"

definition set_lob_side :: "Side \<Rightarrow> maker list \<Rightarrow> lob \<Rightarrow> lob" where
  "set_lob_side sd ms s = (case sd of Bid \<Rightarrow> s\<lparr>lob_bids := ms\<rparr> | Ask \<Rightarrow> s\<lparr>lob_asks := ms\<rparr>)"

definition lob_ids :: "lob \<Rightarrow> OrderId set" where
  "lob_ids s = m_id ` (set (lob_bids s) \<union> set (lob_asks s))"

definition lob_size :: "lob \<Rightarrow> nat" where
  "lob_size s = length (lob_bids s) + length (lob_asks s)"

definition to_fill :: "new_order_message \<Rightarrow> maker \<times> nat \<Rightarrow> fill_message" where
  "to_fill msg x = \<lparr>f_aggressive_id = n_id msg, f_passive_id = m_id (fst x), f_price = m_price (fst x),
     f_quantity = of_nat (snd x), f_timestamp = n_timestamp msg, f_aggressor_side = n_side msg\<rparr>"

definition rejected :: "new_order_message \<Rightarrow> bool" where
  "rejected msg \<longleftrightarrow> n_quantity msg = 0 \<or>
     (n_type msg = Limit \<and> (n_price msg < 0 \<or> n_price msg \<ge> MAX_PRICE_TICKS))"

text \<open>The prices an incoming order accepts.\<close>

definition accepts :: "new_order_message \<Rightarrow> Price \<Rightarrow> bool" where
  "accepts msg p \<longleftrightarrow> n_type msg = Market \<or>
     (case n_side msg of Bid \<Rightarrow> p \<le> n_price msg | Ask \<Rightarrow> n_price msg \<le> p)"

definition rest_maker :: "Side \<Rightarrow> maker \<Rightarrow> lob \<Rightarrow> lob" where
  "rest_maker sd m s = set_lob_side sd (enqueue (better sd) m (lob_side sd s)) s"

text \<open>
  A remainder rests if the order is a limit order, a slot is free and its identifier is
  not in the book.
\<close>

definition rest_remainder :: "nat \<Rightarrow> new_order_message \<Rightarrow> nat \<Rightarrow> lob \<Rightarrow> lob" where
  "rest_remainder cap msg r s =
     (if r > 0 \<and> n_type msg = Limit \<and> lob_size s < cap \<and> n_id msg \<notin> lob_ids s
      then rest_maker (n_side msg) \<lparr>m_id = n_id msg, m_price = n_price msg, m_open = r\<rparr> s
      else s)"

definition lob_new :: "nat \<Rightarrow> new_order_message \<Rightarrow> lob \<Rightarrow> fill_message list \<times> lob" where
  "lob_new cap msg s =
     (if rejected msg then ([], s)
      else let (ex, r, ms) = sweep (accepts msg) (unat (n_quantity msg)) (lob_side (opposite (n_side msg)) s)
        in (map (to_fill msg) ex, rest_remainder cap msg r (set_lob_side (opposite (n_side msg)) ms s)))"

definition lob_cancel :: "OrderId \<Rightarrow> lob \<Rightarrow> lob" where
  "lob_cancel i s = \<lparr>lob_bids = filter (\<lambda>m. m_id m \<noteq> i) (lob_bids s),
     lob_asks = filter (\<lambda>m. m_id m \<noteq> i) (lob_asks s)\<rparr>"

fun lob_process :: "nat \<Rightarrow> engine_message \<Rightarrow> lob \<Rightarrow> fill_message list \<times> lob" where
  "lob_process cap (NewOrder msg) s = lob_new cap msg s"
| "lob_process cap (Cancel msg) s = ([], lob_cancel (c_id msg) s)"

fun lob_run :: "nat \<Rightarrow> engine_message list \<Rightarrow> lob \<Rightarrow> fill_message list list \<times> lob" where
  "lob_run cap [] s = ([], s)"
| "lob_run cap (msg # msgs) s =
     (let (fs, s1) = lob_process cap msg s; (fss, s2) = lob_run cap msgs s1 in (fs # fss, s2))"

section \<open>Sides\<close>

lemma opposite_simps [simp]: "opposite Bid = Ask" "opposite Ask = Bid" "opposite (opposite sd) = sd"
  "opposite sd \<noteq> sd" "sd \<noteq> opposite sd"
  by (cases sd; simp add: opposite_def)+

lemma lob_side_simps [simp]:
  "lob_side Bid s = lob_bids s" "lob_side Ask s = lob_asks s"
  "set_lob_side Bid ms s = s\<lparr>lob_bids := ms\<rparr>" "set_lob_side Ask ms s = s\<lparr>lob_asks := ms\<rparr>"
  by (simp_all add: lob_side_def set_lob_side_def)

lemma lob_side_set [simp]:
  "lob_side sd (set_lob_side sd' ms s) = (if sd = sd' then ms else lob_side sd s)"
  by (cases sd; cases sd') simp_all

lemma lob_eqI: "(\<And>sd. lob_side sd s = lob_side sd t) \<Longrightarrow> s = t" for s t :: lob
  using lob_side_simps(1) [of s] lob_side_simps(1) [of t] lob_side_simps(2) [of s] lob_side_simps(2) [of t]
  by (metis lob.equality old.unit.exhaust)

lemma better_simps [simp]: "better Bid p q \<longleftrightarrow> p > q" "better Ask p q \<longleftrightarrow> p < q" "\<not> better sd p p"
  by (cases sd; simp add: better_def)+

lemma better_antisym: "better sd p q \<Longrightarrow> \<not> better sd q p"
  by (cases sd) auto

section \<open>Sweeping\<close>

lemma sweep_zero [simp]: "sweep ok 0 ms = ([], 0, ms)"
  by (cases ms) auto

text \<open>A sweep either uses up its quantity or the list.\<close>

lemma sweep_stops: "sweep (\<lambda>_. True) r ms = (ex, r', ms') \<Longrightarrow> r' = 0 \<or> ms' = []"
  by (induction ms arbitrary: r ex) (auto split: if_splits prod.splits)

lemma sweep_append:
  assumes "\<forall>m\<in>set ms. ok (m_price m)" "sweep (\<lambda>_. True) r ms = (ex, r', ms')"
  shows "sweep ok r (ms @ ns) = (if ms' = [] then let (ex2, r2, ns2) = sweep ok r' ns in (ex @ ex2, r2, ns2)
    else (ex, 0, ms' @ ns))"
  using assms
proof (induction ms arbitrary: r ex)
  case (Cons m ms)
  show ?case
  proof (cases "r = 0 \<or> \<not> m_open m \<le> r")
    case False
    obtain ex1 where "sweep (\<lambda>_. True) (r - m_open m) ms = (ex1, r', ms')" "ex = (m, m_open m) # ex1"
      using Cons.prems(2) False by (auto split: prod.splits)
    then show ?thesis using Cons.IH [of "r - m_open m" ex1] Cons.prems(1) False
      by (auto split: prod.splits)
  qed (use Cons.prems in auto)
qed (auto split: prod.splits)

lemma enqueue_split:
  assumes "\<forall>x\<in>set us. \<not> bt (m_price m) (m_price x)" "\<forall>x\<in>set vs. bt (m_price m) (m_price x)"
  shows "enqueue bt m (us @ vs) = us @ m # vs"
  using assms by (cases vs) (auto simp: enqueue_def takeWhile_append2 dropWhile_append2)


lemma sweep_le: "sweep ok r ms = (ex, r', ms') \<Longrightarrow> r' \<le> r"
  by (induction ms arbitrary: r ex) (fastforce split: if_splits prod.splits)+

text \<open>
  The shape of a sweep: a prefix of the list is used up, the next maker possibly in part,
  everything behind it is untouched.
\<close>

lemma sweep_shape:
  assumes "sweep ok r ms = (ex, r', ms')"
  obtains (used) taken where "ms = taken @ ms'" "ex = map (\<lambda>m. (m, m_open m)) taken"
      "r = sum_list (map m_open taken) + r'" "r' = 0 \<or> ms' = [] \<or> \<not> ok (m_price (hd ms'))"
      "\<forall>m\<in>set taken. ok (m_price m)"
  | (partly) taken m q rest where "ms = taken @ m # rest" "ex = map (\<lambda>m. (m, m_open m)) taken @ [(m, q)]"
      "ms' = m\<lparr>m_open := m_open m - q\<rparr> # rest" "0 < q" "q < m_open m" "r' = 0"
      "r = sum_list (map m_open taken) + q" "\<forall>m\<in>set (taken @ [m]). ok (m_price m)"
proof -
  have "(\<exists>taken. ms = taken @ ms' \<and> ex = map (\<lambda>m. (m, m_open m)) taken \<and>
      r = sum_list (map m_open taken) + r' \<and> (r' = 0 \<or> ms' = [] \<or> \<not> ok (m_price (hd ms'))) \<and>
      (\<forall>m\<in>set taken. ok (m_price m))) \<or>
    (\<exists>taken m q rest. ms = taken @ m # rest \<and> ex = map (\<lambda>m. (m, m_open m)) taken @ [(m, q)] \<and>
      ms' = m\<lparr>m_open := m_open m - q\<rparr> # rest \<and> 0 < q \<and> q < m_open m \<and> r' = 0 \<and>
      r = sum_list (map m_open taken) + q \<and> (\<forall>m\<in>set (taken @ [m]). ok (m_price m)))"
    (is "?U ms r ex \<or> ?P ms r ex")
    using assms
  proof (induction ms arbitrary: r ex)
    case (Cons m ms)
    consider (stop) "r = 0 \<or> \<not> ok (m_price m)" | (all) "r \<noteq> 0" "ok (m_price m)" "m_open m \<le> r"
      | (part) "r \<noteq> 0" "ok (m_price m)" "\<not> m_open m \<le> r" by blast
    then show ?case
    proof cases
      case stop
      then show ?thesis using Cons.prems by (intro disjI1 exI [of _ "[]"]) auto
    next
      case all
      obtain ex1 where s: "sweep ok (r - m_open m) ms = (ex1, r', ms')" and ex: "ex = (m, m_open m) # ex1"
        using Cons.prems all by (auto split: prod.splits)
      from Cons.IH [OF s] show ?thesis
      proof (rule disjE)
        assume "?U ms (r - m_open m) ex1"
        then obtain taken where "ms = taken @ ms'" "ex1 = map (\<lambda>m. (m, m_open m)) taken"
          "r - m_open m = sum_list (map m_open taken) + r'" "r' = 0 \<or> ms' = [] \<or> \<not> ok (m_price (hd ms'))"
          "\<forall>m\<in>set taken. ok (m_price m)" by blast
        then show ?thesis using all ex by (intro disjI1 exI [of _ "m # taken"]) auto
      next
        assume "?P ms (r - m_open m) ex1"
        then obtain taken m1 q rest where "ms = taken @ m1 # rest" "ex1 = map (\<lambda>m. (m, m_open m)) taken @ [(m1, q)]"
          "ms' = m1\<lparr>m_open := m_open m1 - q\<rparr> # rest" "0 < q" "q < m_open m1" "r' = 0"
          "r - m_open m = sum_list (map m_open taken) + q" "\<forall>m\<in>set (taken @ [m1]). ok (m_price m)" by blast
        then show ?thesis using all ex
          by (intro disjI2 exI [of _ "m # taken"] exI [of _ m1] exI [of _ q] exI [of _ rest]) auto
      qed
    next
      case part
      then show ?thesis using Cons.prems
        by (intro disjI2 exI [of _ "[]"] exI [of _ m] exI [of _ r] exI [of _ ms]) auto
    qed
  qed auto
  then show thesis using used partly by (elim disjE exE conjE) blast+
qed

lemma sum_open_full: "sum_list (map (snd \<circ> (\<lambda>m. (m, m_open m))) ms) = sum_list (map m_open ms)"
  by (simp add: o_def)

text \<open>Quantity is conserved: what the taker got, the makers gave.\<close>

lemma sweep_conserves:
  assumes "sweep ok r ms = (ex, r', ms')"
  shows "sum_list (map snd ex) + r' = r"
    and "sum_list (map m_open ms') + sum_list (map snd ex) = sum_list (map m_open ms)"
  by (rule sweep_shape [OF assms]; simp add: o_def)+

lemma sweep_executions:
  assumes "sweep ok r ms = (ex, r', ms')" "x \<in> set ex"
  shows "ok (m_price (fst x))" "fst x \<in> set ms" "snd x \<le> m_open (fst x)" "snd x \<le> r"
proof -
  show "ok (m_price (fst x))" "fst x \<in> set ms" "snd x \<le> m_open (fst x)"
    by (rule sweep_shape [OF assms(1)]; use assms(2) in auto)+
  show "snd x \<le> r" using sweep_conserves(1) [OF assms(1)] member_le_sum_list [of "snd x" "map snd ex"] assms(2) by auto
qed

lemma sweep_positive:
  assumes "sweep ok r ms = (ex, r', ms')" "x \<in> set ex" "\<And>m. m \<in> set ms \<Longrightarrow> 0 < m_open m"
  shows "0 < snd x"
  by (rule sweep_shape [OF assms(1)]; use assms(2,3) in auto)

lemma sweep_ids:
  assumes "sweep ok r ms = (ex, r', ms')"
  shows "set (map m_id ms') \<subseteq> set (map m_id ms)" "length ms' \<le> length ms"
  by (rule sweep_shape [OF assms]; auto)+

end
