(* ===== verification/Engine_Refinement.thy ===== *)
theory Engine_Refinement
  imports Matching_Engine Matching_Spec
begin

text \<open>
  The engine of \<open>Matching_Engine\<close> implements the specification of \<open>Matching_Spec\<close>.

  \<open>engine_rep n e Q fl\<close> is the invariant of the engine: the book invariant holds with
  the queues \<open>Q\<close>, the free list of the pool is \<open>fl\<close>, every slot is either free or
  holds a resting order, and no resting order is completely filled.  \<open>lob_of\<close> reads
  the abstract book off such a state.  Every operation returns \<open>Some\<close> (no fault, no
  endless loop), keeps the invariant, and acts on the abstract book as specified.
\<close>

section \<open>Invariant and abstraction\<close>

definition engine_rep :: "nat \<Rightarrow> engine \<Rightarrow> queues \<Rightarrow> addr list \<Rightarrow> bool" where
  "engine_rep n e Q fl \<longleftrightarrow> book_rep (heap_of e) (e_book e) Q \<and> pool_rep n (e_pool e) fl \<and>
     set fl \<inter> resting Q = {} \<and> set fl \<union> resting Q = {..<n} \<and> n < 2 ^ 32 \<and>
     (\<forall>a\<in>resting Q. \<not> is_filled (obj (heap_of e) a))"

definition maker_of :: "heap \<Rightarrow> addr \<Rightarrow> maker" where
  "maker_of h a = \<lparr>m_id = o_id (obj h a), m_price = o_price (obj h a),
     m_open = unat (remaining_quantity (obj h a))\<rparr>"

definition side_list :: "heap \<Rightarrow> queues \<Rightarrow> Side \<Rightarrow> Price list \<Rightarrow> addr list" where
  "side_list h Q sd ps = concat (map (\<lambda>p. filter (\<lambda>a. o_side (obj h a) = sd) (Q p)) ps)"

text \<open>The orders of one side in priority order.\<close>

definition priority :: "heap \<Rightarrow> queues \<Rightarrow> Side \<Rightarrow> addr list" where
  "priority h Q sd = side_list h Q sd (case sd of
      Bid \<Rightarrow> rev [0..MAX_PRICE_TICKS - 1] | Ask \<Rightarrow> [0..MAX_PRICE_TICKS - 1])"

definition lob_of :: "engine \<Rightarrow> queues \<Rightarrow> lob" where
  "lob_of e Q = \<lparr>lob_bids = map (maker_of (heap_of e)) (priority (heap_of e) Q Bid),
     lob_asks = map (maker_of (heap_of e)) (priority (heap_of e) Q Ask)\<rparr>"

section \<open>Frames\<close>

lemma heap_of_simps [simp]:
  "heap_of (set_heap h e) = h" "heap_of (e\<lparr>e_book := b\<rparr>) = heap_of e"
  "heap_of (e\<lparr>e_fills := fs\<rparr>) = heap_of e" "heap_of (e\<lparr>e_pool := p\<rparr>) = mp_storage p"
  "e_book (set_heap h e) = e_book e" "e_fills (set_heap h e) = e_fills e"
  "e_pool (set_heap h e) = (e_pool e)\<lparr>mp_storage := h\<rparr>"
  by (simp_all add: heap_of_def set_heap_def)

lemma book_rep_frame:
  assumes "book_rep h b Q" "\<And>c. c \<in> resting Q \<Longrightarrow> h' c = h c"
  shows "book_rep h' b Q"
proof -
  have bl: "book_links h b Q" using assms(1) by (simp add: book_rep_def)
  have same: "obj h' c = obj h c" if "c \<in> resting Q" for c
    using assms(2) [OF that] by (simp add: obj_def)
  have sides: "side_set h' Q sd = side_set h Q sd" for sd
    using same by (auto simp: side_set_def)
  have pr: "prices h' (side_set h Q sd) = prices h (side_set h Q sd)" for sd
    using same by (auto simp: prices_def side_set_def intro!: image_cong)
  have "level_rep h' (ob_levels b p) (Q p)" if "0 \<le> p" "p < MAX_PRICE_TICKS" for p
    using level_rep_frame [OF book_linksD(1) [OF bl that]] assms(2) queue_resting by blast
  then have "book_links h' b Q"
    using bl same sides queue_resting [of _ Q] unfolding book_links_def by auto
  then show ?thesis
    using assms(1) by (simp add: book_rep_def uncrossed_def best_prices_def sides pr)
qed

lemma pool_rep_frame:
  assumes "pool_rep n p fl" "\<And>c. c \<in> set fl \<Longrightarrow> h c = mp_storage p c"
  shows "pool_rep n (p\<lparr>mp_storage := h\<rparr>) fl"
  using assms free_links_agree [of "mp_storage p" fl h] by (simp add: pool_rep_def)

lemma same_payloads_free:
  assumes "pool_rep n p fl" "same_payloads (mp_storage p) h" "c \<in> set fl"
  shows "h c = mp_storage p c"
proof -
  have "\<not> live (mp_storage p) c"
    using assms(1,3) free_links_member [of "mp_storage p" fl c] by (auto simp: pool_rep_def live_def)
  then show ?thesis using assms(2) by (simp add: same_payloads_def)
qed

lemma side_list_cong:
  assumes "\<And>a. a \<in> resting Q \<Longrightarrow> o_side (obj h' a) = o_side (obj h a)"
  shows "side_list h' Q sd ps = side_list h Q sd ps"
  unfolding side_list_def
  by (rule arg_cong [where f = concat], rule map_cong [OF refl], rule filter_cong [OF refl])
    (use assms queue_resting in auto)

lemma side_list_subset: "set (side_list h Q sd ps) \<subseteq> side_set h Q sd"
  by (auto simp: side_list_def side_set_def intro: queue_resting)

lemma set_priority:
  assumes "book_links h b Q"
  shows "set (priority h Q sd) = side_set h Q sd"
proof
  show "set (priority h Q sd) \<subseteq> side_set h Q sd"
    using side_list_subset by (auto simp: priority_def)
  show "side_set h Q sd \<subseteq> set (priority h Q sd)"
    using resting_queue [OF assms]
    by (cases sd) (fastforce simp: priority_def side_list_def side_set_def)+
qed

text \<open>Unlinking an order takes it out of its priority list and changes nothing else.\<close>

lemma side_list_remove:
  assumes bl: "book_links h b Q" and a: "a \<in> resting Q"
  defines "p \<equiv> o_price (obj h a)"
  shows "side_list h (Q(p := remove1 a (Q p))) sd ps = filter (\<lambda>x. x \<noteq> a) (side_list h Q sd ps)"
proof -
  have "distinct (Q p)"
    using book_linksD(1) [OF bl] resting_queue(2,3) [OF bl a] by (simp add: level_rep_def p_def)
  then have "(Q(p := remove1 a (Q p))) q = filter (\<lambda>x. x \<noteq> a) (Q q)" for q
    using book_linksD(3) [OF bl, of a q]
    by (cases "q = p") (auto simp: distinct_remove1_removeAll removeAll_filter_not_eq p_def eq_commute
        intro!: filter_True [symmetric])
  then show ?thesis
    by (auto simp: side_list_def filter_concat o_def conj_commute filter_filter intro!: arg_cong [where f = concat])
qed

section \<open>One fill\<close>

text \<open>
  Raising the filled quantity of a queued order together with the aggregate of its level
  keeps the book invariant: no identifier, side, price or link changes.
\<close>

definition filled_by :: "Quantity \<Rightarrow> order \<Rightarrow> order" where
  "filled_by q x = x\<lparr>o_filled_quantity := o_filled_quantity x + q\<rparr>"

lemma filled_by_sel [simp]:
  "o_id (filled_by q x) = o_id x" "o_side (filled_by q x) = o_side x"
  "o_price (filled_by q x) = o_price x"
  by (simp_all add: filled_by_def)

lemma book_rep_fill:
  fixes q :: Quantity
  assumes br: "book_rep h b Q" and a: "a \<in> set (Q p)"
  defines "h' \<equiv> h(a := Object (filled_by q (obj h a)))"
  shows "book_rep h' (set_level b p (reduce_quantity (ob_levels b p) q)) Q"
proof -
  let ?b = "set_level b p (reduce_quantity (ob_levels b p) q)"
  have bl: "book_links h b Q" using br by (simp add: book_rep_def)
  have same: "o_id (obj h' c) = o_id (obj h c)" "o_side (obj h' c) = o_side (obj h c)"
    "o_price (obj h' c) = o_price (obj h c)" for c
    by (simp_all add: h'_def store_simps)
  have sides: "side_set h' Q sd = side_set h Q sd" and pr: "prices h' A = prices h A" for sd A
    by (simp_all add: side_set_def prices_def same)
  have "level_rep h' (ob_levels ?b r) (Q r)" if r: "0 \<le> r" "r < MAX_PRICE_TICKS" for r
  proof (cases "r = p")
    case True
    then show ?thesis
      using level_fill_rep [OF book_linksD(1) [OF bl r], of a q] a by (simp add: h'_def filled_by_def)
  next
    case False
    then have "a \<notin> set (Q r)" using a book_linksD(3) [OF bl] by blast
    then have "level_rep h' (ob_levels b r) (Q r)"
      by (intro level_rep_frame [OF book_linksD(1) [OF bl r]]) (auto simp: h'_def fun_upd_apply)
    with False show ?thesis by simp
  qed
  then have "book_links h' ?b Q"
    using bl unfolding book_links_def by (simp add: same sides)
  then show ?thesis
    using br by (simp add: book_rep_def uncrossed_def best_prices_def sides pr)
qed

text \<open>Giving a slot that no order rests in back to the pool.\<close>

lemma release_rep:
  assumes "book_rep (heap_of e) (e_book e) Q" "pool_rep n (e_pool e) fl"
    and "a \<notin> set fl" "a < n" "a \<notin> resting Q"
  shows "book_rep (heap_of (release a e)) (e_book (release a e)) Q"
    and "pool_rep n (e_pool (release a e)) (a # fl)"
    and "c \<noteq> a \<Longrightarrow> heap_of (release a e) c = heap_of e c"
    and "e_fills (release a e) = e_fills e"
proof -
  show frame: "heap_of (release a e) c = heap_of e c" if "c \<noteq> a" for c
    using that by (simp add: release_def heap_of_def deallocate_def destroy_def)
  show "book_rep (heap_of (release a e)) (e_book (release a e)) Q"
    using book_rep_frame [OF assms(1), of "heap_of (release a e)"] frame assms(5)
    by (metis release_def engine.ext_inject engine.surjective engine.update_convs(2))
  show "pool_rep n (e_pool (release a e)) (a # fl)"
    using destroy_rep [OF assms(2,3)] deallocate_rep assms(3,4) by (simp add: release_def)
qed (simp add: release_def)

text \<open>
  Cancelling an order and giving its slot back, as the fill loop and \<open>process_cancel\<close> do:
  the order leaves its queue, its slot heads the free list, the other orders keep their data.
\<close>

lemma cancel_release_rep:
  assumes br: "book_rep (heap_of e) (e_book e) Q" and pool: "pool_rep n (e_pool e) fl"
    and part: "set fl \<inter> resting Q = {}" "set fl \<union> resting Q = {..<n}" and a: "a \<in> resting Q"
  defines "p \<equiv> o_price (obj (heap_of e) a)"
  defines "Q' \<equiv> Q(p := remove1 a (Q p))"
  shows "\<exists>h2 b2 e'. cancel_order (heap_of e) (e_book e) (o_id (obj (heap_of e) a)) = Some (True, h2, b2) \<and>
    e' = release a ((set_heap h2 e)\<lparr>e_book := b2\<rparr>) \<and>
    book_rep (heap_of e') (e_book e') Q' \<and> pool_rep n (e_pool e') (a # fl) \<and>
    e_fills e' = e_fills e \<and> resting Q' = resting Q - {a} \<and>
    (\<forall>d\<in>resting Q - {a}. payload (obj (heap_of e') d) = payload (obj (heap_of e) d))"
proof -
  have bl: "book_links (heap_of e) (e_book e) Q" using br by (simp add: book_rep_def)
  have i: "get_order (e_book e) (o_id (obj (heap_of e) a)) = Some a" using get_order_rep [OF bl] a by simp
  obtain h2 b2 where c: "cancel_order (heap_of e) (e_book e) (o_id (obj (heap_of e) a)) = Some (True, h2, b2)"
      "book_rep h2 b2 Q'" "touches_only (set (Q p)) (heap_of e) h2"
    using cancel_order_rep [OF br i] by (auto simp: p_def Q'_def)
  have rest: "resting Q' = resting Q - {a}" using resting_remove1 [OF bl a] by (simp add: p_def Q'_def)
  define e2 where "e2 = (set_heap h2 e)\<lparr>e_book := b2\<rparr>"
  have same: "same_payloads (heap_of e) h2" by (rule touches_onlyD(1) [OF c(3)])
  have pool2: "pool_rep n (e_pool e2) fl"
    using pool_rep_frame [OF pool, of h2] same_payloads_free [OF pool, of h2] same
    by (simp add: e2_def heap_of_def)
  have br2: "book_rep (heap_of e2) (e_book e2) Q'" using c(2) by (simp add: e2_def)
  have an: "a \<notin> set fl" "a < n" "a \<notin> resting Q'" using part a rest by auto
  note rel = release_rep [OF br2 pool2 an]
  have "payload (obj (heap_of (release a e2)) d) = payload (obj (heap_of e) d)" if "d \<in> resting Q - {a}" for d
    using that same resting_queue(4) [OF bl, of d] rel(3) [of d] by (simp add: same_payloads_def obj_def e2_def)
  then show ?thesis
    using c(1) rel(1,2,4) rest by (intro exI [of _ h2] exI [of _ b2] exI [of _ "release a e2"]) (simp add: e2_def)
qed

text \<open>The fill message of one execution.\<close>

definition fill_of :: "OrderId \<Rightarrow> Side \<Rightarrow> Timestamp \<Rightarrow> maker \<times> nat \<Rightarrow> fill_message" where
  "fill_of aid sd ts x = \<lparr>f_aggressive_id = aid, f_passive_id = m_id (fst x), f_price = m_price (fst x),
     f_quantity = of_nat (snd x), f_timestamp = ts, f_aggressor_side = sd\<rparr>"

lemma fill_one_step:
  fixes r :: Quantity and aid :: OrderId and sd :: Side and ts :: Timestamp
  assumes rep: "engine_rep n e Q fl" and q: "Q p = a # as"
  defines "x \<equiv> obj (heap_of e) a" and "h1 \<equiv> \<lambda>qty. (heap_of e)(a := Object (filled_by qty (obj (heap_of e) a)))"
  defines "qty \<equiv> min r (remaining_quantity x)"
  defines "e1 \<equiv> (set_heap (h1 qty) e)\<lparr>e_book := set_level (e_book e) p (reduce_quantity (ob_levels (e_book e) p) qty),
      e_fills := e_fills e @ [fill_of aid sd ts (maker_of (heap_of e) a, unat qty)]\<rparr>"
  shows "book_rep (heap_of e1) (e_book e1) Q" "pool_rep n (e_pool e1) fl"
    and "fill_one p aid sd ts e r =
      (if remaining_quantity x \<le> r then do {
         (_, h2, b2) \<leftarrow> cancel_order (heap_of e1) (e_book e1) (o_id x);
         Some (release a ((set_heap h2 e1)\<lparr>e_book := b2\<rparr>), r - qty) }
       else Some (e1, r - qty))"
proof -
  have br: "book_rep (heap_of e) (e_book e) Q" and pr: "pool_rep n (e_pool e) fl"
    and disj: "set fl \<inter> resting Q = {}" and unf: "\<forall>a\<in>resting Q. \<not> is_filled (obj (heap_of e) a)"
    using rep by (auto simp: engine_rep_def)
  have bl: "book_links (heap_of e) (e_book e) Q" using br by (simp add: book_rep_def)
  have a: "a \<in> resting Q" using q by (auto intro: queue_resting [where p = p])
  note aq = resting_queue [OF bl a]
  have p: "o_price (obj (heap_of e) a) = p" using book_linksD(3) [OF bl, of a p] q by simp
  show "book_rep (heap_of e1) (e_book e1) Q"
    using book_rep_fill [OF br, of a p qty] q by (simp add: e1_def h1_def)
  have "h1 qty c = mp_storage (e_pool e) c" if "c \<in> set fl" for c
    using that a disj by (auto simp: h1_def heap_of_def fun_upd_apply)
  from pool_rep_frame [OF pr this] show "pool_rep n (e_pool e1) fl"
    by (simp add: e1_def)
  have lv: "get_level (e_book e) p = Some (ob_levels (e_book e) p)" "front (ob_levels (e_book e) p) = Some a"
    using aq p front_rep [OF book_linksD(1) [OF bl, of p]] q by (simp_all add: get_level_def)
  have "qty \<le> remaining_quantity x" by (simp add: qty_def)
  note fr = fill_remaining [OF _ this]
  have "is_filled (filled_by qty x) \<longleftrightarrow> qty = remaining_quantity x"
    using fr(4) unf a by (simp add: x_def filled_by_def)
  then have full: "is_filled (filled_by qty x) \<longleftrightarrow> remaining_quantity x \<le> r"
    by (auto simp: qty_def min_def)
  have "fill_one p aid sd ts e r = (if is_filled (filled_by qty x) then do {
         (_, h2, b2) \<leftarrow> cancel_order (heap_of e1) (e_book e1) (o_id x);
         Some (release a ((set_heap h2 e1)\<lparr>e_book := b2\<rparr>), r - qty) }
       else Some (e1, r - qty))"
    using lv aq(4) p
    by (simp add: fill_one_def Let_def store_simps e1_def h1_def x_def [symmetric] qty_def [symmetric]
        filled_by_def [symmetric] fill_of_def maker_of_def)
  then show "fill_one p aid sd ts e r = (if remaining_quantity x \<le> r then do {
         (_, h2, b2) \<leftarrow> cancel_order (heap_of e1) (e_book e1) (o_id x);
         Some (release a ((set_heap h2 e1)\<lparr>e_book := b2\<rparr>), r - qty) }
       else Some (e1, r - qty))"
    using full by simp
qed

text \<open>The incoming order takes less than the front order offers.\<close>

lemma fill_one_partial:
  assumes rep: "engine_rep n e Q fl" and q: "Q p = a # as"
    and r: "\<not> remaining_quantity (obj (heap_of e) a) \<le> r"
  shows "\<exists>e'. fill_one p aid sd ts e r = Some (e', 0) \<and> engine_rep n e' Q fl \<and>
    e_fills e' = e_fills e @ [fill_of aid sd ts (maker_of (heap_of e) a, unat r)] \<and>
    (\<forall>s ps. side_list (heap_of e') Q s ps = side_list (heap_of e) Q s ps) \<and>
    (\<forall>c. maker_of (heap_of e') c = (if c = a
      then (maker_of (heap_of e) a)\<lparr>m_open := m_open (maker_of (heap_of e) a) - unat r\<rparr>
      else maker_of (heap_of e) c))"
proof -
  let ?x = "obj (heap_of e) a"
  have qty: "min r (remaining_quantity ?x) = r" using r by (simp add: min_def not_le order_less_imp_le)
  define h1 where "h1 = (heap_of e)(a := Object (filled_by r ?x))"
  define e1 where "e1 = (set_heap h1 e)\<lparr>e_book := set_level (e_book e) p (reduce_quantity (ob_levels (e_book e) p) r),
      e_fills := e_fills e @ [fill_of aid sd ts (maker_of (heap_of e) a, unat r)]\<rparr>"
  note step = fill_one_step [OF rep q, where r = r and aid = aid and sd = sd and ts = ts, unfolded qty, folded h1_def, folded e1_def]
  have h: "heap_of e1 = h1" by (simp add: e1_def)
  have run: "fill_one p aid sd ts e r = Some (e1, 0)" using step(3) r by simp
  have unf: "\<forall>c\<in>resting Q. \<not> is_filled (obj (heap_of e) c)" and a: "a \<in> resting Q"
    using rep q queue_resting [of a Q p] by (auto simp: engine_rep_def)
  have le: "r \<le> remaining_quantity ?x" using r by simp
  note fr = fill_remaining [OF unf [rule_format, OF a] le]
  have "\<not> is_filled (filled_by r ?x)" using fr(4) r by (auto simp: filled_by_def)
  then have "\<forall>c\<in>resting Q. \<not> is_filled (obj h1 c)" using unf by (simp add: h1_def store_simps)
  then have "engine_rep n e1 Q fl" using rep step(1,2) h by (simp add: engine_rep_def)
  moreover have "side_list h1 Q s ps = side_list (heap_of e) Q s ps" for s ps
    by (rule side_list_cong) (simp add: h1_def store_simps)
  moreover have "maker_of h1 c = (if c = a
      then (maker_of (heap_of e) a)\<lparr>m_open := m_open (maker_of (heap_of e) a) - unat r\<rparr>
      else maker_of (heap_of e) c)" for c
    using fr(3) by (simp add: maker_of_def h1_def store_simps filled_by_def)
  ultimately show ?thesis using run h by (auto simp: e1_def)
qed

text \<open>The front order is used up: it leaves the book and its slot returns to the pool.\<close>

lemma fill_one_full:
  assumes rep: "engine_rep n e Q fl" and q: "Q p = a # as"
    and r: "remaining_quantity (obj (heap_of e) a) \<le> r"
  shows "\<exists>e'. fill_one p aid sd ts e r = Some (e', r - remaining_quantity (obj (heap_of e) a)) \<and>
    engine_rep n e' (Q(p := as)) (a # fl) \<and>
    e_fills e' = e_fills e @ [fill_of aid sd ts (maker_of (heap_of e) a, m_open (maker_of (heap_of e) a))] \<and>
    (\<forall>s ps. side_list (heap_of e') (Q(p := as)) s ps = filter (\<lambda>c. c \<noteq> a) (side_list (heap_of e) Q s ps)) \<and>
    (\<forall>c\<in>resting Q - {a}. maker_of (heap_of e') c = maker_of (heap_of e) c)"
proof -
  let ?x = "obj (heap_of e) a" and ?Q = "Q(p := as)"
  define qty where "qty = remaining_quantity ?x"
  have qty: "min r (remaining_quantity ?x) = qty" using r by (simp add: min_def qty_def)
  define h1 where "h1 = (heap_of e)(a := Object (filled_by qty ?x))"
  define e1 where "e1 = (set_heap h1 e)\<lparr>e_book := set_level (e_book e) p (reduce_quantity (ob_levels (e_book e) p) qty),
      e_fills := e_fills e @ [fill_of aid sd ts (maker_of (heap_of e) a, unat qty)]\<rparr>"
  note step = fill_one_step [OF rep q, where r = r and aid = aid and sd = sd and ts = ts, unfolded qty, folded h1_def, folded e1_def]
  have h: "heap_of e1 = h1" by (simp add: e1_def)
  have bl1: "book_links h1 (e_book e1) Q" using step(1) h by (simp add: book_rep_def)
  have a: "a \<in> resting Q" using q by (auto intro: queue_resting [where p = p])
  have ap: "o_price (obj h1 a) = p" "o_id (obj h1 a) = o_id ?x"
    using book_linksD(3) [OF bl1, of a p] q by (simp_all add: h1_def store_simps)
  have eng: "set fl \<inter> resting Q = {}" "set fl \<union> resting Q = {..<n}" "n < 2 ^ 32"
      "\<forall>c\<in>resting Q. \<not> is_filled (obj (heap_of e) c)"
    using rep by (auto simp: engine_rep_def)
  obtain h2 b2 e' where c: "cancel_order h1 (e_book e1) (o_id ?x) = Some (True, h2, b2)"
      "e' = release a ((set_heap h2 e1)\<lparr>e_book := b2\<rparr>)" "book_rep (heap_of e') (e_book e') ?Q"
      "pool_rep n (e_pool e') (a # fl)" "e_fills e' = e_fills e1"
    and rest: "resting ?Q = resting Q - {a}"
    and "\<forall>d\<in>resting Q - {a}. payload (obj (heap_of e') d) = payload (obj h1 d)"
    using cancel_release_rep [OF step(1,2) eng(1,2) a] ap q by (auto simp: h)
  then have obj2: "payload (obj (heap_of e') d) = payload (obj (heap_of e) d)" if "d \<in> resting Q - {a}" for d
    using that by (simp add: h1_def store_simps)
  have "engine_rep n e' ?Q (a # fl)"
    using c(3,4) eng rest a payload_eqD(9) [OF obj2] by (auto simp: engine_rep_def)
  moreover have "side_list (heap_of e') ?Q s ps = filter (\<lambda>c. c \<noteq> a) (side_list (heap_of e) Q s ps)" for s ps
  proof -
    have "side_list (heap_of e') ?Q s ps = side_list h1 ?Q s ps"
      by (rule side_list_cong) (use payload_eqD(2) [OF obj2] rest in \<open>simp add: h1_def store_simps\<close>)
    also have "\<dots> = filter (\<lambda>c. c \<noteq> a) (side_list h1 Q s ps)"
      using side_list_remove [OF bl1 a, of s ps] ap(1) q by simp
    also have "side_list h1 Q s ps = side_list (heap_of e) Q s ps"
      by (rule side_list_cong) (simp add: h1_def store_simps)
    finally show ?thesis .
  qed
  moreover have "maker_of (heap_of e') d = maker_of (heap_of e) d" if "d \<in> resting Q - {a}" for d
    using payload_eqD [OF obj2 [OF that]] by (simp add: maker_of_def)
  moreover have "fill_one p aid sd ts e r = Some (e', r - qty)"
    using step(3) r c(1,2) h by simp
  moreover have "e_fills e' = e_fills e @ [fill_of aid sd ts (maker_of (heap_of e) a, m_open (maker_of (heap_of e) a))]"
    using c(5) by (simp add: e1_def qty_def maker_of_def)
  ultimately show ?thesis by (auto simp: qty_def)
qed

section \<open>Filling a level\<close>

lemma engine_repD:
  assumes "engine_rep n e Q fl"
  shows "book_rep (heap_of e) (e_book e) Q" "book_links (heap_of e) (e_book e) Q"
    "pool_rep n (e_pool e) fl" "set fl \<inter> resting Q = {}" "set fl \<union> resting Q = {..<n}" "n < 2 ^ 32"
    "\<And>a. a \<in> resting Q \<Longrightarrow> \<not> is_filled (obj (heap_of e) a)"
  using assms by (auto simp: engine_rep_def book_rep_def)

lemma maker_open_pos:
  assumes "engine_rep n e Q fl" "a \<in> resting Q"
  shows "0 < m_open (maker_of (heap_of e) a)"
  using engine_repD(7) [OF assms] remaining_pos_iff by (auto simp: maker_of_def word_gt_0_unat)

lemma fill_level_stop:
  assumes "engine_rep n e Q fl" "0 \<le> p" "p < MAX_PRICE_TICKS" "r = 0 \<or> Q p = []"
  shows "fill_level p aid sd ts e r = Some (e, r)"
  using assms level_empty_queue [OF engine_repD(2) [OF assms(1)] assms(2,3)]
  by (subst fill_level.simps) (auto simp: get_level_def)

lemma fill_level_go:
  assumes "engine_rep n e Q fl" "0 \<le> p" "p < MAX_PRICE_TICKS" "r \<noteq> 0" "Q p \<noteq> []"
  shows "fill_level p aid sd ts e r = do {
    (e', r') \<leftarrow> fill_one p aid sd ts e r; fill_level p aid sd ts e' r' }"
  using assms level_empty_queue [OF engine_repD(2) [OF assms(1)] assms(2,3)]
  by (subst fill_level.simps) (auto simp: get_level_def word_greater_zero_iff)

text \<open>
  What it means that the level \<open>p\<close> with queue \<open>as\<close> was swept by \<open>r\<close> units on the way
  from \<open>e\<close> to \<open>e'\<close>: \<open>taken\<close> are the orders used up, \<open>left\<close> those that stay (the first
  of them possibly reduced); all other orders are untouched.  \<open>F\<close> builds a fill message.
\<close>

definition swept :: "nat \<Rightarrow> Price \<Rightarrow> (maker \<times> nat \<Rightarrow> fill_message) \<Rightarrow> queues \<Rightarrow> engine \<Rightarrow> Quantity \<Rightarrow>
    addr list \<Rightarrow> engine \<Rightarrow> Quantity \<Rightarrow> bool" where
  "swept n p F Q e r as e' r' \<longleftrightarrow> (\<exists>taken left fl' ex. as = taken @ left \<and>
     engine_rep n e' (Q(p := left)) fl' \<and>
     sweep (\<lambda>_. True) (unat r) (map (maker_of (heap_of e)) as) = (ex, unat r', map (maker_of (heap_of e')) left) \<and>
     e_fills e' = e_fills e @ map F ex \<and>
     (\<forall>s ps. side_list (heap_of e') (Q(p := left)) s ps = filter (\<lambda>c. c \<notin> set taken) (side_list (heap_of e) Q s ps)) \<and>
     (\<forall>c\<in>resting Q - set as. maker_of (heap_of e') c = maker_of (heap_of e) c))"

lemma swept_stop:
  assumes "engine_rep n e Q fl" "r = 0 \<or> Q p = []"
  shows "swept n p F Q e r (Q p) e r"
proof -
  have "sweep (\<lambda>_. True) (unat r) (map (maker_of (heap_of e)) (Q p)) = ([], unat r, map (maker_of (heap_of e)) (Q p))"
    using assms(2) by (cases "Q p") auto
  then show ?thesis
    unfolding swept_def using assms(1)
    by (intro exI [of _ "[]"] exI [of _ "Q p"] exI [of _ fl]) simp
qed

lemma queue_head_fresh:
  assumes "engine_rep n e Q fl" "0 \<le> p" "p < MAX_PRICE_TICKS" "Q p = a # as"
  shows "a \<notin> set as" "a \<in> resting Q" "resting (Q(p := as)) = resting Q - {a}"
proof -
  have bl: "book_links (heap_of e) (e_book e) Q" by (rule engine_repD(2) [OF assms(1)])
  show "a \<notin> set as" using book_linksD(1) [OF bl assms(2,3)] assms(4) by (simp add: level_rep_def)
  show "a \<in> resting Q" using assms(4) by (auto intro: queue_resting [where p = p])
  show "resting (Q(p := as)) = resting Q - {a}"
    using resting_drop [OF bl, of p "[]" a as] assms(4) by simp
qed

lemma swept_partial:
  assumes rep: "engine_rep n e Q fl" and p: "0 \<le> p" "p < MAX_PRICE_TICKS" and q: "Q p = a # as"
    and r: "r \<noteq> 0" "\<not> remaining_quantity (obj (heap_of e) a) \<le> r"
  shows "\<exists>e' fl'. fill_one p aid sd ts e r = Some (e', 0) \<and> engine_rep n e' Q fl' \<and>
    swept n p (fill_of aid sd ts) Q e r (a # as) e' 0"
proof -
  obtain e' where f: "fill_one p aid sd ts e r = Some (e', 0)" "engine_rep n e' Q fl"
      "e_fills e' = e_fills e @ [fill_of aid sd ts (maker_of (heap_of e) a, unat r)]"
      "\<forall>s ps. side_list (heap_of e') Q s ps = side_list (heap_of e) Q s ps"
      "\<forall>c. maker_of (heap_of e') c = (if c = a
        then (maker_of (heap_of e) a)\<lparr>m_open := m_open (maker_of (heap_of e) a) - unat r\<rparr>
        else maker_of (heap_of e) c)"
    using fill_one_partial [OF rep q r(2)] by blast
  have "\<not> m_open (maker_of (heap_of e) a) \<le> unat r" "unat r \<noteq> 0"
    using r by (simp_all add: maker_of_def word_le_nat_alt unat_eq_zero)
  then have sw: "sweep (\<lambda>_. True) (unat r) (map (maker_of (heap_of e)) (a # as)) =
      ([(maker_of (heap_of e) a, unat r)], unat 0, map (maker_of (heap_of e')) (a # as))"
    using f(5) queue_head_fresh(1) [OF rep p q] by (auto simp del: unat_0_iff)
  have "Q(p := a # as) = Q" using q by (metis fun_upd_triv)
  then have "swept n p (fill_of aid sd ts) Q e r (a # as) e' 0"
    unfolding swept_def using f sw
    by (intro exI [of _ "[]"] exI [of _ "a # as"] exI [of _ fl] exI [of _ "[(maker_of (heap_of e) a, unat r)]"]) auto
  with f(1,2) show ?thesis by blast
qed

lemma swept_full:
  assumes rep: "engine_rep n e Q fl" and p: "0 \<le> p" "p < MAX_PRICE_TICKS" and q: "Q p = a # as"
    and r: "r \<noteq> 0" "remaining_quantity (obj (heap_of e) a) \<le> r"
  shows "\<exists>e1. fill_one p aid sd ts e r = Some (e1, r - remaining_quantity (obj (heap_of e) a)) \<and>
    engine_rep n e1 (Q(p := as)) (a # fl) \<and>
    (\<forall>e' r'. swept n p (fill_of aid sd ts) (Q(p := as)) e1
        (r - remaining_quantity (obj (heap_of e) a)) as e' r' \<longrightarrow>
      swept n p (fill_of aid sd ts) Q e r (a # as) e' r')"
proof -
  let ?q = "remaining_quantity (obj (heap_of e) a)" and ?m = "maker_of (heap_of e) a"
  let ?F = "fill_of aid sd ts"
  note fresh = queue_head_fresh [OF rep p q]
  obtain e1 where f: "fill_one p aid sd ts e r = Some (e1, r - ?q)" "engine_rep n e1 (Q(p := as)) (a # fl)"
      "e_fills e1 = e_fills e @ [fill_of aid sd ts (?m, m_open ?m)]"
      "\<forall>s ps. side_list (heap_of e1) (Q(p := as)) s ps = filter (\<lambda>c. c \<noteq> a) (side_list (heap_of e) Q s ps)"
      "\<forall>c\<in>resting Q - {a}. maker_of (heap_of e1) c = maker_of (heap_of e) c"
    using fill_one_full [OF rep q r(2)] by blast
  have mk: "map (maker_of (heap_of e1)) as = map (maker_of (heap_of e)) as"
    using f(5) fresh(1) q queue_resting [of _ Q p] by auto
  have un: "unat (r - ?q) = unat r - m_open ?m" "m_open ?m \<le> unat r" "unat r \<noteq> 0"
    using r by (simp_all add: unat_sub maker_of_def word_le_nat_alt unat_eq_zero)
  have "swept n p ?F Q e r (a # as) e' r'" if sw: "swept n p ?F (Q(p := as)) e1 (r - ?q) as e' r'" for e' r'
  proof -
    obtain taken left fl' ex where ih: "as = taken @ left" "engine_rep n e' (Q(p := left)) fl'"
        "sweep (\<lambda>_. True) (unat (r - ?q)) (map (maker_of (heap_of e1)) as) = (ex, unat r', map (maker_of (heap_of e')) left)"
        "e_fills e' = e_fills e1 @ map ?F ex"
        "\<forall>s ps. side_list (heap_of e') (Q(p := left)) s ps = filter (\<lambda>c. c \<notin> set taken) (side_list (heap_of e1) (Q(p := as)) s ps)"
        "\<forall>c\<in>resting (Q(p := as)) - set as. maker_of (heap_of e') c = maker_of (heap_of e1) c"
      using sw by (auto simp: swept_def)
    have "sweep (\<lambda>_. True) (unat r) (map (maker_of (heap_of e)) (a # as)) =
        ((?m, m_open ?m) # ex, unat r', map (maker_of (heap_of e')) left)"
      using ih(3) mk un by simp
    moreover have "side_list (heap_of e') (Q(p := left)) s ps = filter (\<lambda>c. c \<notin> set (a # taken)) (side_list (heap_of e) Q s ps)" for s ps
      using ih(5) f(4) by (simp add: filter_filter conj_commute)
    moreover have "\<forall>c\<in>resting Q - set (a # as). maker_of (heap_of e') c = maker_of (heap_of e) c"
      using ih(6) f(5) fresh(3) by simp
    moreover have "a # as = (a # taken) @ left" "e_fills e' = e_fills e @ map ?F ((?m, m_open ?m) # ex)"
      using ih(1,4) f(3) by simp_all
    ultimately show ?thesis unfolding swept_def using ih(2) by blast
  qed
  with f(1,2) show ?thesis by blast
qed

text \<open>\<open>fill_level\<close> always returns, and sweeps its level.\<close>

lemma fill_level_rep:
  assumes "engine_rep n e Q fl" "0 \<le> p" "p < MAX_PRICE_TICKS" "Q p = as"
  shows "\<exists>e' r'. fill_level p aid sd ts e r = Some (e', r') \<and>
    swept n p (fill_of aid sd ts) Q e r as e' r'"
  using assms
proof (induction as arbitrary: e Q fl r)
  case Nil
  then show ?case using fill_level_stop [OF Nil.prems(1-3)] swept_stop [OF Nil.prems(1), of r p] by auto
next
  case (Cons a as)
  note rep = Cons.prems(1) and p = Cons.prems(2,3) and q = Cons.prems(4)
  show ?case
  proof (cases "r = 0")
    case True
    then show ?thesis using fill_level_stop [OF rep p] swept_stop [OF rep, of r p] q by auto
  next
    case False
    note go = fill_level_go [OF rep p False]
    show ?thesis
    proof (cases "remaining_quantity (obj (heap_of e) a) \<le> r")
      case True
      obtain e1 where f: "fill_one p aid sd ts e r = Some (e1, r - remaining_quantity (obj (heap_of e) a))"
          "engine_rep n e1 (Q(p := as)) (a # fl)"
        and comp: "\<And>e' r'. swept n p (fill_of aid sd ts) (Q(p := as)) e1
            (r - remaining_quantity (obj (heap_of e) a)) as e' r' \<Longrightarrow>
          swept n p (fill_of aid sd ts) Q e r (a # as) e' r'"
        using swept_full [OF rep p q False True] by blast
      obtain e' r' where "fill_level p aid sd ts e1 (r - remaining_quantity (obj (heap_of e) a)) = Some (e', r')"
          "swept n p (fill_of aid sd ts) (Q(p := as)) e1 (r - remaining_quantity (obj (heap_of e) a)) as e' r'"
        using Cons.IH [OF f(2) p fun_upd_same] by blast
      then show ?thesis using comp go q f(1) by auto
    next
      case part: False
      obtain e1 fl' where f: "fill_one p aid sd ts e r = Some (e1, 0)" "engine_rep n e1 Q fl'"
          "swept n p (fill_of aid sd ts) Q e r (a # as) e1 0"
        using swept_partial [OF rep p q False part] by blast
      show ?thesis using go q f(1,3) fill_level_stop [OF f(2) p] by simp
    qed
  qed
qed

end
