(* ===== verification/Engine_Simulation.thy ===== *)
theory Engine_Simulation
  imports Engine_Refinement
begin

text \<open>
  The whole engine against the specification: the matching loops, the insertion of a
  remainder, cancellation, and streams of messages.  The two loops of
  \<^verbatim>\<open>process_new_order\<close> are mirror images; they are treated together as \<open>matching\<close>, by
  the side of the incoming order.
\<close>

section \<open>Priority lists\<close>

definition price_order :: "Side \<Rightarrow> Price list" where
  "price_order sd = (case sd of Bid \<Rightarrow> rev [0..MAX_PRICE_TICKS - 1] | Ask \<Rightarrow> [0..MAX_PRICE_TICKS - 1])"

definition side_makers :: "engine \<Rightarrow> queues \<Rightarrow> Side \<Rightarrow> maker list" where
  "side_makers e Q sd = map (maker_of (heap_of e)) (priority (heap_of e) Q sd)"

definition best_of :: "Side \<Rightarrow> order_book \<Rightarrow> Price" where
  "best_of sd b = (case sd of Bid \<Rightarrow> best_bid b | Ask \<Rightarrow> best_ask b)"

lemma lob_side_of [simp]: "lob_side sd (lob_of e Q) = side_makers e Q sd"
  by (cases sd) (simp_all add: lob_of_def side_makers_def)

lemma priority_price_order: "priority h Q sd = side_list h Q sd (price_order sd)"
  by (simp add: priority_def price_order_def)

lemma side_list_append [simp]:
  "side_list h Q sd (ps @ qs) = side_list h Q sd ps @ side_list h Q sd qs"
  "side_list h Q sd (p # qs) = filter (\<lambda>a. o_side (obj h a) = sd) (Q p) @ side_list h Q sd qs"
  by (simp_all add: side_list_def)

lemma set_price_order [simp]: "set (price_order sd) = {0..MAX_PRICE_TICKS - 1}"
  by (cases sd) (auto simp: price_order_def)

lemma distinct_price_order [simp]: "distinct (price_order sd)"
  by (cases sd) (simp_all add: price_order_def)

lemma sorted_price_order: "sorted_wrt (better sd) (price_order sd)"
proof (cases sd)
  case Ask
  moreover have "better Ask = (<)" by (simp add: fun_eq_iff)
  ultimately show ?thesis by (simp add: price_order_def sorted_wrt_upto)
qed (simp add: price_order_def sorted_wrt_rev sorted_wrt_upto)

lemma price_order_split:
  assumes "0 \<le> p" "p < MAX_PRICE_TICKS"
  obtains ps qs where "price_order sd = ps @ p # qs"
    "\<forall>q\<in>set ps. better sd q p" "\<forall>q\<in>set qs. better sd p q"
proof -
  have "p \<in> set (price_order sd)" using assms by simp
  then obtain ps qs where s: "price_order sd = ps @ p # qs" by (meson split_list)
  then show thesis using that [of ps qs] sorted_price_order [of sd] by (auto simp: sorted_wrt_append)
qed

lemma side_list_price:
  assumes "book_links h b Q" "a \<in> set (side_list h Q sd ps)"
  shows "o_price (obj h a) \<in> set ps" "o_side (obj h a) = sd" "a \<in> resting Q"
  using assms book_linksD(3) [OF assms(1)] by (auto simp: side_list_def intro: queue_resting)

text \<open>The best price bounds its side, and the level there holds orders of that side only.\<close>

lemma best_of_bounds:
  assumes "book_rep h b Q" "a \<in> side_set h Q sd"
  shows "\<not> better sd (o_price (obj h a)) (best_of sd b)"
    and "best_of sd b \<in> prices h (side_set h Q sd)"
proof -
  have fin: "finite (prices h (side_set h Q sd))" and ne: "prices h (side_set h Q sd) \<noteq> {}"
    and pa: "o_price (obj h a) \<in> prices h (side_set h Q sd)"
    using assms finite_prices [of h b Q] by (auto simp: book_rep_def prices_def)
  have eq: "best_of sd b = (case sd of Bid \<Rightarrow> Max (prices h (side_set h Q Bid)) | Ask \<Rightarrow> Min (prices h (side_set h Q Ask)))"
    using assms by (cases sd) (auto simp: book_rep_def best_prices_def best_of_def best_bid_def best_ask_def)
  show "\<not> better sd (o_price (obj h a)) (best_of sd b)"
    using eq fin pa by (cases sd) (auto simp: not_less)
  show "best_of sd b \<in> prices h (side_set h Q sd)"
    using eq fin ne by (cases sd) (auto simp: Max_in Min_in)
qed

lemma best_level_pure:
  assumes "book_rep h b Q" "p \<in> prices h (side_set h Q sd)" "a \<in> set (Q p)"
  shows "o_side (obj h a) = sd"
proof (rule ccontr)
  assume "o_side (obj h a) \<noteq> sd"
  then have "o_side (obj h a) = opposite sd" by (cases sd; cases "o_side (obj h a)") auto
  moreover have "p \<in> prices h (side_set h Q (o_side (obj h a)))"
    using queue_price assms by (auto simp: book_rep_def)
  ultimately show False using assms(1,2) by (cases sd) (auto simp: book_rep_def uncrossed_def)
qed

lemma priority_best:
  assumes br: "book_rep h b Q" and ne: "side_set h Q sd \<noteq> {}"
  defines "p \<equiv> best_of sd b"
  obtains rest where "priority h Q sd = Q p @ rest" "set rest \<inter> set (Q p) = {}" "set rest \<subseteq> resting Q"
    "0 \<le> p" "p < MAX_PRICE_TICKS" "Q p \<noteq> []"
proof -
  have bl: "book_links h b Q" using br by (simp add: book_rep_def)
  obtain a where a: "a \<in> side_set h Q sd" using ne by auto
  note bb = best_of_bounds [OF br]
  have pp: "p \<in> prices h (side_set h Q sd)" using bb(2) [OF a] by (simp add: p_def)
  note pr = prices_range [OF bl pp]
  obtain ps qs where s: "price_order sd = ps @ p # qs" "\<forall>q\<in>set ps. better sd q p" "\<forall>q\<in>set qs. better sd p q"
    using price_order_split [OF pr] by blast
  have "side_list h Q sd ps = []"
  proof (rule ccontr)
    assume "side_list h Q sd ps \<noteq> []"
    then obtain c where c: "c \<in> set (side_list h Q sd ps)" by (cases "side_list h Q sd ps") auto
    then have "c \<in> side_set h Q sd" using side_list_subset by blast
    then show False using bb(1) side_list_price(1) [OF bl c] s(2) by (auto simp: p_def)
  qed
  moreover have "filter (\<lambda>a. o_side (obj h a) = sd) (Q p) = Q p"
    using best_level_pure [OF br pp] by simp
  ultimately have "priority h Q sd = Q p @ side_list h Q sd qs"
    by (simp add: priority_price_order s(1))
  moreover have "set (side_list h Q sd qs) \<inter> set (Q p) = {}"
    using side_list_price(1) [OF bl] book_linksD(3) [OF bl] s(3) by fastforce
  moreover have "set (side_list h Q sd qs) \<subseteq> resting Q" using side_list_price(3) [OF bl] by blast
  moreover have "Q p \<noteq> []" using pp prices_queue [OF bl] by auto
  ultimately show thesis using that pr by blast
qed


section \<open>The matching loops\<close>

definition matching :: "new_order_message \<Rightarrow> engine \<Rightarrow> Quantity \<Rightarrow> (engine \<times> Quantity) option" where
  "matching msg e r = (case n_side msg of Bid \<Rightarrow> match_asks msg e r | Ask \<Rightarrow> match_bids msg e r)"

lemma matching_unfold:
  fixes msg :: new_order_message
  assumes "engine_rep n e Q fl"
  defines "sd \<equiv> opposite (n_side msg)"
  shows "matching msg e r =
    (if r = 0 \<or> side_set (heap_of e) Q sd = {} \<or> \<not> accepts msg (best_of sd (e_book e)) then Some (e, r)
     else do { (e', r') \<leftarrow> fill_level (best_of sd (e_book e)) (n_id msg) (n_side msg) (n_timestamp msg) e r;
               matching msg e' r' })"
proof (cases "n_side msg")
  case Bid
  then have m: "matching msg = match_asks msg" by (simp add: matching_def fun_eq_iff)
  show ?thesis
    unfolding m using has_asks_rep [OF engine_repD(2) [OF assms(1)]] Bid
    by (subst match_asks.simps, cases "n_type msg")
      (auto simp: sd_def accepts_def is_limit_def best_of_def word_greater_zero_iff)
next
  case Ask
  then have m: "matching msg = match_bids msg" by (simp add: matching_def fun_eq_iff)
  show ?thesis
    unfolding m using has_bids_rep [OF engine_repD(2) [OF assms(1)]] Ask
    by (subst match_bids.simps, cases "n_type msg")
      (auto simp: sd_def accepts_def is_limit_def best_of_def word_greater_zero_iff)
qed

text \<open>One iteration takes from the front of the priority list of the opposite side.\<close>

lemma fill_best:
  assumes rep: "engine_rep n e Q fl" and ne: "side_set (heap_of e) Q sd \<noteq> {}"
  defines "p \<equiv> best_of sd (e_book e)"
  shows "\<exists>e' r' Q' fl' ex ms ms' rest. fill_level p aid asd ts e r = Some (e', r') \<and>
    engine_rep n e' Q' fl' \<and> sweep (\<lambda>_. True) (unat r) ms = (ex, unat r', ms') \<and>
    ms \<noteq> [] \<and> (\<forall>m\<in>set ms. m_price m = p) \<and>
    side_makers e Q sd = ms @ rest \<and> side_makers e' Q' sd = ms' @ rest \<and>
    side_makers e' Q' (opposite sd) = side_makers e Q (opposite sd) \<and>
    e_fills e' = e_fills e @ map (fill_of aid asd ts) ex"
proof -
  let ?h = "heap_of e"
  note br = engine_repD(1) [OF rep] and bl = engine_repD(2) [OF rep]
  obtain rest where pr: "priority ?h Q sd = Q p @ rest" "set rest \<inter> set (Q p) = {}" "set rest \<subseteq> resting Q"
      "0 \<le> p" "p < MAX_PRICE_TICKS" "Q p \<noteq> []"
    using priority_best [OF br ne] by (auto simp: p_def)
  obtain e' r' where f: "fill_level p aid asd ts e r = Some (e', r')"
      "swept n p (fill_of aid asd ts) Q e r (Q p) e' r'"
    using fill_level_rep [OF rep pr(4,5) refl] by blast
  obtain taken left fl' ex where sw: "Q p = taken @ left" "engine_rep n e' (Q(p := left)) fl'"
      "sweep (\<lambda>_. True) (unat r) (map (maker_of ?h) (Q p)) = (ex, unat r', map (maker_of (heap_of e')) left)"
      "e_fills e' = e_fills e @ map (fill_of aid asd ts) ex"
      "\<And>s ps. side_list (heap_of e') (Q(p := left)) s ps = filter (\<lambda>c. c \<notin> set taken) (side_list ?h Q s ps)"
      "\<And>c. c \<in> resting Q - set (Q p) \<Longrightarrow> maker_of (heap_of e') c = maker_of ?h c"
    using f(2) by (auto simp: swept_def)
  have dist: "set taken \<inter> set left = {}"
    using book_linksD(1) [OF bl pr(4,5)] sw(1) by (auto simp: level_rep_def)
  have "priority (heap_of e') (Q(p := left)) sd = left @ rest"
    using sw(5) [of sd "price_order sd"] pr(1,2) sw(1) dist
    by (auto simp: priority_price_order disjoint_iff intro!: filter_True)
  moreover have "map (maker_of (heap_of e')) rest = map (maker_of ?h) rest"
    using sw(6) pr(2,3) by auto
  moreover have "side_makers e' (Q(p := left)) (opposite sd) = side_makers e Q (opposite sd)"
  proof -
    have "c \<notin> set (Q p)" if "c \<in> set (priority ?h Q (opposite sd))" for c
      using that best_level_pure [OF br] best_of_bounds(2) [OF br] ne side_list_price(2) [OF bl]
      by (metis all_not_in_conv opposite_simps(4) p_def priority_price_order)
    then show ?thesis
      using sw(5) [of "opposite sd" "price_order (opposite sd)"] sw(1,6) side_list_price(3) [OF bl]
      by (fastforce simp: side_makers_def priority_price_order intro!: filter_True)
  qed
  moreover have "\<forall>m\<in>set (map (maker_of ?h) (Q p)). m_price m = p"
    using book_linksD(3) [OF bl] by (auto simp: maker_of_def)
  ultimately show ?thesis
    using f(1) sw(2-4) pr(1,6)
    by (intro exI [of _ e'] exI [of _ r'] exI [of _ "Q(p := left)"] exI [of _ fl'] exI [of _ ex]
        exI [of _ "map (maker_of ?h) (Q p)"] exI [of _ "map (maker_of (heap_of e')) left"]
        exI [of _ "map (maker_of ?h) rest"]) (simp add: side_makers_def)
qed


lemma side_makers_empty:
  assumes "engine_rep n e Q fl"
  shows "side_makers e Q sd = [] \<longleftrightarrow> side_set (heap_of e) Q sd = {}"
  using set_priority [OF engine_repD(2) [OF assms], of sd] by (auto simp: side_makers_def)

lemma side_makers_best:
  assumes rep: "engine_rep n e Q fl" and "side_set (heap_of e) Q sd \<noteq> {}"
  obtains m ms where "side_makers e Q sd = m # ms" "m_price m = best_of sd (e_book e)"
proof -
  let ?p = "best_of sd (e_book e)"
  obtain rest where pr: "priority (heap_of e) Q sd = Q ?p @ rest" "Q ?p \<noteq> []"
    using priority_best [OF engine_repD(1) [OF rep] assms(2)] by blast
  then obtain a as where "Q ?p = a # as" by (cases "Q ?p") auto
  moreover have "o_price (obj (heap_of e) a) = ?p"
    using book_linksD(3) [OF engine_repD(2) [OF rep], of a ?p] calculation by simp
  ultimately show thesis using that pr(1) by (auto simp: side_makers_def maker_of_def)
qed

lemma to_fill_eq: "to_fill msg = fill_of (n_id msg) (n_side msg) (n_timestamp msg)"
  by (simp add: to_fill_def fill_of_def fun_eq_iff)

text \<open>
  The loops return, act as \<open>sweep\<close> on the opposite side, leave the own side alone, and
  stop only when nothing is left to do.
\<close>

text \<open>A side that is empty, or whose best price is not acceptable, is not swept.\<close>

lemma sweep_stopped:
  assumes rep: "engine_rep n e Q fl" and stop: "r = 0 \<or> side_set (heap_of e) Q sd = {} \<or> \<not> ok (best_of sd (e_book e))"
  shows "sweep ok (unat r) (side_makers e Q sd) = ([], unat r, side_makers e Q sd)"
proof (cases "side_set (heap_of e) Q sd = {}")
  case False
  obtain m ms where "side_makers e Q sd = m # ms" "m_price m = best_of sd (e_book e)" by (rule side_makers_best [OF rep False])
  then show ?thesis using stop False by (auto simp: unat_eq_zero)
qed (use side_makers_empty [OF rep, of sd] in simp)

lemma matching_rep:
  fixes msg :: new_order_message
  assumes "engine_rep n e Q fl"
  defines "sd \<equiv> opposite (n_side msg)"
  shows "\<exists>e' r' Q' fl' ex. matching msg e r = Some (e', r') \<and> engine_rep n e' Q' fl' \<and>
    sweep (accepts msg) (unat r) (side_makers e Q sd) = (ex, unat r', side_makers e' Q' sd) \<and>
    side_makers e' Q' (n_side msg) = side_makers e Q (n_side msg) \<and>
    e_fills e' = e_fills e @ map (to_fill msg) ex \<and>
    (r' = 0 \<or> side_set (heap_of e') Q' sd = {} \<or> \<not> accepts msg (best_of sd (e_book e')))"
  using assms(1)
proof (induction "length (side_makers e Q sd)" arbitrary: e Q fl r rule: less_induct)
  case less
  note rep = less.prems and unf = matching_unfold [OF less.prems, of msg, folded sd_def]
  let ?b = "best_of sd (e_book e)"
  show ?case
  proof (cases "r = 0 \<or> side_set (heap_of e) Q sd = {} \<or> \<not> accepts msg ?b")
    case True
    from sweep_stopped [where ok = "accepts msg", OF rep this] show ?thesis
      by (intro exI [of _ e] exI [of _ r] exI [of _ Q] exI [of _ fl] exI [of _ "[]"]) (use True unf rep in simp)
  next
    case False
    then have ne: "side_set (heap_of e) Q sd \<noteq> {}" by simp
    obtain e1 r1 Q1 fl1 ex1 ms ms' rest where
      f: "fill_level ?b (n_id msg) (n_side msg) (n_timestamp msg) e r = Some (e1, r1)"
      and rep1: "engine_rep n e1 Q1 fl1" and sw: "sweep (\<lambda>_. True) (unat r) ms = (ex1, unat r1, ms')"
      and ms: "ms \<noteq> []" "\<forall>m\<in>set ms. m_price m = ?b"
      and sm: "side_makers e Q sd = ms @ rest" "side_makers e1 Q1 sd = ms' @ rest"
        "side_makers e1 Q1 (opposite sd) = side_makers e Q (opposite sd)"
      and fills: "e_fills e1 = e_fills e @ map (to_fill msg) ex1"
      using fill_best [OF rep ne, where aid = "n_id msg" and asd = "n_side msg" and ts = "n_timestamp msg" and r = r]
      unfolding to_fill_eq by blast
    have own: "side_makers e1 Q1 (n_side msg) = side_makers e Q (n_side msg)" using sm(3) by (simp add: sd_def)
    have run: "matching msg e r = matching msg e1 r1" using unf f False by simp
    have ok: "\<forall>m\<in>set ms. accepts msg (m_price m)" using ms(2) False by simp
    note app = sweep_append [OF ok sw, of rest]
    show ?thesis
    proof (cases "ms' = []")
      case True
      then have "length (side_makers e1 Q1 sd) < length (side_makers e Q sd)" using sm ms(1) by simp
      from less.hyps [OF this rep1] obtain e2 r2 Q2 fl2 ex2 where ih: "matching msg e1 r1 = Some (e2, r2)"
          "engine_rep n e2 Q2 fl2"
          "sweep (accepts msg) (unat r1) (side_makers e1 Q1 sd) = (ex2, unat r2, side_makers e2 Q2 sd)"
          "side_makers e2 Q2 (n_side msg) = side_makers e1 Q1 (n_side msg)"
          "e_fills e2 = e_fills e1 @ map (to_fill msg) ex2"
          "r2 = 0 \<or> side_set (heap_of e2) Q2 sd = {} \<or> \<not> accepts msg (best_of sd (e_book e2))"
        by blast
      show ?thesis
        by (rule exI [of _ e2], rule exI [of _ r2], rule exI [of _ Q2], rule exI [of _ fl2], rule exI [of _ "ex1 @ ex2"])
          (use ih True own run app sm(1,2) fills in simp)
    next
      case ne: False
      then have "r1 = 0" using sweep_stops [OF sw] by (simp add: unat_eq_zero)
      moreover have "matching msg e1 0 = Some (e1, 0)" using matching_unfold [OF rep1, of msg 0] by simp
      ultimately show ?thesis using run rep1 own app sm ne fills by auto
    qed
  qed
qed


section \<open>Counting\<close>

lemma distinct_side_list:
  assumes bl: "book_links h b Q" and "distinct ps" "set ps \<subseteq> {0..MAX_PRICE_TICKS - 1}"
  shows "distinct (side_list h Q sd ps)"
  using assms(2,3)
proof (induction ps)
  case (Cons p ps)
  then have "distinct (Q p)" using book_linksD(1) [OF bl, of p] by (simp add: level_rep_def)
  moreover have "set (Q p) \<inter> set (side_list h Q sd ps) = {}"
    using Cons.prems(1) book_linksD(3) [OF bl] side_list_price(1) [OF bl, of _ sd ps] by fastforce
  ultimately show ?case using Cons by auto
qed (simp add: side_list_def)

lemma length_priority:
  assumes "book_links h b Q"
  shows "length (priority h Q sd) = card (side_set h Q sd)"
  using distinct_card [of "priority h Q sd"] distinct_side_list [OF assms, of "price_order sd" sd] set_priority [OF assms]
  by (simp add: priority_price_order)

lemma resting_sides: "resting Q = side_set h Q Bid \<union> side_set h Q Ask" "side_set h Q Bid \<inter> side_set h Q Ask = {}"
proof -
  have "s = Bid \<or> s = Ask" for s by (cases s) auto
  then show "resting Q = side_set h Q Bid \<union> side_set h Q Ask" by (auto simp: side_set_def)
qed (auto simp: side_set_def)

lemma lob_size_rep:
  assumes "engine_rep n e Q fl"
  shows "lob_size (lob_of e Q) = card (resting Q)" "length fl + lob_size (lob_of e Q) = n"
proof -
  note bl = engine_repD(2) [OF assms]
  have "card (resting Q) = card (side_set (heap_of e) Q Bid) + card (side_set (heap_of e) Q Ask)"
    unfolding resting_sides(1) [where Q = Q and h = "heap_of e"]
    using finite_side_set [OF book_linksD(5) [OF bl]] resting_sides(2) by (intro card_Un_disjoint) auto
  then show 1: "lob_size (lob_of e Q) = card (resting Q)"
    using length_priority [OF bl] by (simp add: lob_size_def lob_of_def)
  have "card (set fl \<union> resting Q) = length fl + card (resting Q)"
    using engine_repD(3,4) [OF assms] book_linksD(5) [OF bl]
    by (simp add: card_Un_disjoint distinct_card pool_rep_def)
  then show "length fl + lob_size (lob_of e Q) = n"
    using engine_repD(5) [OF assms] 1 by simp
qed

lemma lob_ids_rep:
  assumes "engine_rep n e Q fl"
  shows "lob_ids (lob_of e Q) = (\<lambda>a. o_id (obj (heap_of e) a)) ` resting Q"
  using set_priority [OF engine_repD(2) [OF assms]] resting_sides(1) [where Q = Q and h = "heap_of e"]
  by (simp add: lob_ids_def lob_of_def image_Un image_image maker_of_def)

section \<open>Resting a remainder\<close>

lemma side_list_snoc:
  assumes "o_side (obj h a) \<noteq> sd \<or> p \<notin> set ps"
  shows "side_list h (Q(p := Q p @ [a])) sd ps = side_list h Q sd ps"
  using assms by (auto simp: side_list_def fun_upd_apply intro!: arg_cong [where f = concat])

lemma maker_of_payload:
  assumes "payload (obj h' c) = payload (obj h c)"
  shows "maker_of h' c = maker_of h c"
  using payload_eqD [OF assms] by (simp add: maker_of_def)

text \<open>Appending an order to the queue of its price is \<open>enqueue\<close> on the priority list.\<close>

lemma side_makers_snoc:
  assumes bl: "book_links h b Q" and p: "0 \<le> p" "p < MAX_PRICE_TICKS" "p = o_price (obj h a)"
  shows "map (maker_of h) (priority h (Q(p := Q p @ [a])) sd) = (if sd = o_side (obj h a)
    then enqueue (better sd) (maker_of h a) (map (maker_of h) (priority h Q sd))
    else map (maker_of h) (priority h Q sd))"
proof (cases "sd = o_side (obj h a)")
  case True
  obtain ps qs where s: "price_order sd = ps @ p # qs" "\<forall>q\<in>set ps. better sd q p" "\<forall>q\<in>set qs. better sd p q"
    using price_order_split [OF p(1,2)] by blast
  let ?u = "map (maker_of h) (side_list h Q sd ps @ filter (\<lambda>a. o_side (obj h a) = sd) (Q p))"
    and ?v = "map (maker_of h) (side_list h Q sd qs)"
  have "p \<notin> set ps" "p \<notin> set qs" using distinct_price_order [of sd] s(1) by auto
  then have "map (maker_of h) (priority h (Q(p := Q p @ [a])) sd) = ?u @ maker_of h a # ?v"
    by (simp add: priority_price_order s(1) side_list_snoc True [symmetric])
  also have "\<dots> = enqueue (better sd) (maker_of h a) (?u @ ?v)"
    using s(2,3) side_list_price(1) [OF bl] book_linksD(3) [OF bl] p(3) better_antisym
    by (intro enqueue_split [symmetric]) (fastforce simp: maker_of_def)+
  also have "?u @ ?v = map (maker_of h) (priority h Q sd)" by (simp add: priority_price_order s(1))
  finally show ?thesis using True by simp
next
  case False
  then show ?thesis by (simp add: priority_price_order side_list_snoc)
qed

lemma map_maker_cong:
  assumes "\<And>c. c \<in> resting Q \<Longrightarrow> payload (obj h' c) = payload (obj h c)"
  shows "map (maker_of h') (priority h' Q sd) = map (maker_of h) (priority h Q sd)"
proof -
  have "priority h' Q sd = priority h Q sd"
    unfolding priority_price_order using payload_eqD(2) [OF assms] by (rule side_list_cong)
  moreover have "c \<in> resting Q" if "c \<in> set (priority h Q sd)" for c
    using that side_list_subset by (fastforce simp: priority_price_order dest: side_set_resting)
  ultimately show ?thesis using maker_of_payload [OF assms] by simp
qed

end
