(* ===== verification/Engine_Run.thy ===== *)
theory Engine_Run
  imports Engine_Simulation
begin

text \<open>
  From the matching loops to whole streams of messages: the remainder of a limit order
  is put into a pool slot and added to the book, a cancellation takes an order out, and
  every message maps to one step of the specification.
\<close>

section \<open>Resting a remainder\<close>

lemma resting_order_sel [simp]:
  "o_id (resting_order msg r x) = n_id msg" "o_side (resting_order msg r x) = n_side msg"
  "o_price (resting_order msg r x) = n_price msg" "o_quantity (resting_order msg r x) = n_quantity msg"
  "remaining_quantity (resting_order msg r x) = r"
  by (simp_all add: resting_order_def remaining_quantity_def)

lemma resting_order_open:
  assumes "r \<noteq> 0" "r \<le> n_quantity msg"
  shows "\<not> is_filled (resting_order msg r x)"
proof -
  have "0 < unat r" using assms(1) by (simp add: unat_gt_0)
  then show ?thesis
    using assms(2) by (simp add: resting_order_def is_filled_def not_le word_less_nat_alt unat_sub word_le_nat_alt)
qed

lemma rest_order_alloc:
  assumes rep: "engine_rep n e Q (a # fl)"
  defines "h1 \<equiv> \<lambda>x. (heap_of e)(a := Object x)"
  shows "\<exists>p1. pool_rep n p1 fl \<and> mp_storage p1 = heap_of e \<and>
    rest_order msg r e = do {
      (added, h2, b2) \<leftarrow> add_order (h1 (resting_order msg r default_order)) (e_book e) a;
      let e2 = e\<lparr>e_pool := p1\<lparr>mp_storage := h2\<rparr>, e_book := b2\<rparr>;
      Some (if added then e2 else release a e2) }"
proof -
  define p1 where "p1 = (e_pool e)\<lparr>mp_free_head := first_or None fl, mp_available := mp_available (e_pool e) - 1\<rparr>"
  note al = allocate_cons [OF engine_repD(3) [OF rep], folded p1_def]
  have "mp_storage p1 = heap_of e" by (simp add: p1_def heap_of_def)
  with al show ?thesis
    by (intro exI [of _ p1])
      (simp add: rest_order_def construct_def set_heap_def h1_def store_simps Let_def case_prod_unfold cong: if_cong)
qed

text \<open>The slot taken for the new order is fresh, so nothing that rests is disturbed.\<close>

lemma fresh_slot:
  assumes rep: "engine_rep n e Q (a # fl)"
  shows "a \<notin> resting Q" "a < n" "a \<notin> set fl" "card (resting Q) + 1 < 2 ^ 32"
    and "book_rep ((heap_of e)(a := Object x)) (e_book e) Q"
proof -
  show a: "a \<notin> resting Q" "a < n" "a \<notin> set fl"
    using engine_repD(3-5) [OF rep] by (auto simp: pool_rep_def)
  show "card (resting Q) + 1 < 2 ^ 32"
    using lob_size_rep [OF rep] engine_repD(6) [OF rep] by simp
  show "book_rep ((heap_of e)(a := Object x)) (e_book e) Q"
    by (rule book_rep_frame [OF engine_repD(1) [OF rep]]) (use a(1) in \<open>auto simp: fun_upd_apply\<close>)
qed

lemma rest_order_duplicate:
  assumes rep: "engine_rep n e Q (a # fl)" and dup: "n_id msg \<in> lob_ids (lob_of e Q)"
  shows "\<exists>e'. rest_order msg r e = Some e' \<and> engine_rep n e' Q (a # fl) \<and> e_fills e' = e_fills e \<and>
    (\<forall>c\<in>resting Q. heap_of e' c = heap_of e c)"
proof -
  let ?x = "resting_order msg r default_order"
  let ?h = "(heap_of e)(a := Object ?x)"
  note fr = fresh_slot [OF rep]
  obtain p1 where p1: "pool_rep n p1 fl" "mp_storage p1 = heap_of e" "rest_order msg r e = do {
      (added, h2, b2) \<leftarrow> add_order ?h (e_book e) a;
      let e2 = e\<lparr>e_pool := p1\<lparr>mp_storage := h2\<rparr>, e_book := b2\<rparr>;
      Some (if added then e2 else release a e2) }"
    using rest_order_alloc [OF rep] by blast
  obtain c where "c \<in> resting Q" "o_id (obj (heap_of e) c) = n_id msg"
    using dup by (auto simp: lob_ids_rep [OF rep])
  then have "get_order (e_book e) (n_id msg) = Some c" by (simp add: get_order_rep [OF engine_repD(2) [OF rep]])
  then have add: "add_order ?h (e_book e) a = Some (False, ?h, e_book e)"
    by (simp add: add_order_def store_simps get_order_def)
  define e2 where "e2 = e\<lparr>e_pool := p1\<lparr>mp_storage := ?h\<rparr>, e_book := e_book e\<rparr>"
  have run: "rest_order msg r e = Some (release a e2)" using p1(3) add by (simp add: e2_def)
  have "pool_rep n (e_pool e2) fl"
    unfolding e2_def using p1(2) fr(3) by (auto simp: fun_upd_apply intro!: pool_rep_frame [OF p1(1)])
  moreover have "book_rep (heap_of e2) (e_book e2) Q" using fr(5) by (simp add: e2_def)
  ultimately have rel: "book_rep (heap_of (release a e2)) (e_book (release a e2)) Q"
      "pool_rep n (e_pool (release a e2)) (a # fl)" "\<And>c. c \<noteq> a \<Longrightarrow> heap_of (release a e2) c = heap_of e2 c"
      "e_fills (release a e2) = e_fills e2"
    using release_rep [of e2 Q n fl a] fr(1-3) by auto
  have same: "heap_of (release a e2) c = heap_of e c" if "c \<in> resting Q" for c
    using rel(3) [of c] that fr(1) by (auto simp: e2_def fun_upd_apply)
  then have "engine_rep n (release a e2) Q (a # fl)"
    using rel(1,2) engine_repD(4-7) [OF rep] by (auto simp: engine_rep_def obj_def)
  with run same rel(4) show ?thesis by (auto simp: e2_def)
qed


text \<open>The remainder of an order that stopped matching does not cross the other side.\<close>

lemma stopped_not_crossing:
  assumes br: "book_rep h b Q" and lim: "n_type msg = Limit"
    and stop: "side_set h Q (opposite (n_side msg)) = {} \<or> \<not> accepts msg (best_of (opposite (n_side msg)) b)"
    and x: "o_side x = n_side msg" "o_price x = n_price msg"
  shows "not_crossing h Q x"
proof -
  have "(case n_side msg of Bid \<Rightarrow> n_price msg < y | Ask \<Rightarrow> y < n_price msg)"
    if y: "y \<in> prices h (side_set h Q (opposite (n_side msg)))" for y
  proof -
    obtain a where a: "a \<in> side_set h Q (opposite (n_side msg))" "y = o_price (obj h a)"
      using y by (auto simp: prices_def)
    then show ?thesis
      using stop best_of_bounds(1) [OF br a(1)] lim by (cases "n_side msg") (auto simp: accepts_def)
  qed
  then show ?thesis using x by (cases "n_side msg") (auto simp: not_crossing_def)
qed

lemma rest_order_added:
  assumes rep: "engine_rep n e Q (a # fl)" and new: "n_id msg \<notin> lob_ids (lob_of e Q)"
    and r: "r \<noteq> 0" "r \<le> n_quantity msg" and p: "0 \<le> n_price msg" "n_price msg < MAX_PRICE_TICKS"
    and lim: "n_type msg = Limit"
    and stop: "side_set (heap_of e) Q (opposite (n_side msg)) = {} \<or>
      \<not> accepts msg (best_of (opposite (n_side msg)) (e_book e))"
  defines "Q' \<equiv> Q(n_price msg := Q (n_price msg) @ [a])"
  shows "\<exists>e'. rest_order msg r e = Some e' \<and> engine_rep n e' Q' fl \<and> e_fills e' = e_fills e \<and>
    (\<forall>c\<in>resting Q'. payload (obj (heap_of e') c) =
      payload (obj ((heap_of e)(a := Object (resting_order msg r default_order))) c))"
proof -
  let ?x = "resting_order msg r default_order"
  let ?h = "(heap_of e)(a := Object ?x)"
  note fr = fresh_slot [OF rep]
  obtain p1 where p1: "pool_rep n p1 fl" "mp_storage p1 = heap_of e" "rest_order msg r e = do {
      (added, h2, b2) \<leftarrow> add_order ?h (e_book e) a;
      let e2 = e\<lparr>e_pool := p1\<lparr>mp_storage := h2\<rparr>, e_book := b2\<rparr>;
      Some (if added then e2 else release a e2) }"
    using rest_order_alloc [OF rep] by blast
  have oa: "obj ?h a = ?x" "live ?h a" by (simp_all add: store_simps)
  have br: "book_rep ?h (e_book e) Q" by (rule fr(5))
  have bl: "book_links ?h (e_book e) Q" using br by (simp add: book_rep_def)
  have sides: "side_set ?h Q sd = side_set (heap_of e) Q sd" for sd
    using fr(1) by (auto simp: side_set_def store_simps)
  have "get_order (e_book e) (n_id msg) = None"
    using new by (simp add: lob_ids_rep [OF rep] get_order_None_rep [OF engine_repD(2) [OF rep]] image_iff) metis
  moreover have "not_crossing ?h Q ?x"
    using stopped_not_crossing [OF br lim] stop by (simp add: sides)
  ultimately obtain h2 b2 where add: "add_order ?h (e_book e) a = Some (True, h2, b2)" "book_rep h2 b2 Q'"
      "touches_only (insert a (set (Q (n_price msg)))) ?h h2"
    using add_order_rep [OF br oa(2) fr(1) _ _ _ _ fr(4), of "n_price msg"] p oa(1) by (auto simp: Q'_def)
  let ?e = "e\<lparr>e_pool := p1\<lparr>mp_storage := h2\<rparr>, e_book := b2\<rparr>"
  have rest: "resting Q' = insert a (resting Q)" by (simp add: Q'_def resting_snoc)
  have same: "same_payloads ?h h2" by (rule touches_onlyD(1) [OF add(3)])
  have pay: "payload (obj h2 c) = payload (obj ?h c)" if "c \<in> resting Q'" for c
    using same resting_queue(4) [OF bl] oa(2) that by (auto simp: rest same_payloads_def)
  have pool: "pool_rep n (p1\<lparr>mp_storage := ?h\<rparr>) fl"
    using p1(2) fr(3) by (auto simp: fun_upd_apply intro!: pool_rep_frame [OF p1(1)])
  have "pool_rep n (p1\<lparr>mp_storage := h2\<rparr>) fl"
    using pool_rep_frame [OF pool, of h2] same_payloads_free [OF pool, of h2] same by simp
  moreover have "\<not> is_filled (obj h2 c)" if "c \<in> resting Q'" for c
    using that payload_eqD(9) [OF pay [OF that]] resting_order_open [OF r] engine_repD(7) [OF rep, of c]
    by (cases "c = a") (auto simp: rest store_simps)
  ultimately have "engine_rep n ?e Q' fl"
    using add(2) engine_repD(4-6) [OF rep] fr(3) by (auto simp: engine_rep_def rest)
  moreover have "rest_order msg r e = Some ?e" using p1(3) add(1) by simp
  ultimately show ?thesis using pay by auto
qed

lemma rest_order_rep:
  assumes rep: "engine_rep n e Q fl" and r: "r \<noteq> 0" "r \<le> n_quantity msg"
    and p: "0 \<le> n_price msg" "n_price msg < MAX_PRICE_TICKS" and lim: "n_type msg = Limit"
    and stop: "side_set (heap_of e) Q (opposite (n_side msg)) = {} \<or>
      \<not> accepts msg (best_of (opposite (n_side msg)) (e_book e))"
  shows "\<exists>e' Q' fl'. rest_order msg r e = Some e' \<and> engine_rep n e' Q' fl' \<and> e_fills e' = e_fills e \<and>
    lob_of e' Q' = rest_remainder n msg (unat r) (lob_of e Q)"
proof (cases fl)
  case Nil
  then have "rest_order msg r e = Some e" "rest_remainder n msg (unat r) (lob_of e Q) = lob_of e Q"
    using allocate_empty [of n "e_pool e"] engine_repD(3) [OF rep] lob_size_rep(2) [OF rep]
    by (simp_all add: rest_order_def rest_remainder_def)
  then show ?thesis using rep by auto
next
  case (Cons a fl1)
  note rep1 = rep [unfolded Cons]
  have room: "lob_size (lob_of e Q) < n" using lob_size_rep(2) [OF rep1] by simp
  show ?thesis
  proof (cases "n_id msg \<in> lob_ids (lob_of e Q)")
    case True
    obtain e' where e': "rest_order msg r e = Some e'" "engine_rep n e' Q (a # fl1)" "e_fills e' = e_fills e"
        "\<forall>c\<in>resting Q. heap_of e' c = heap_of e c"
      using rest_order_duplicate [OF rep1 True] by blast
    have "lob_of e' Q = lob_of e Q"
      using map_maker_cong [of Q "heap_of e'" "heap_of e"] e'(4)
      by (intro lob_eqI) (simp add: side_makers_def obj_def)
    then show ?thesis using e' True by (auto simp: rest_remainder_def)
  next
    case False
    let ?Q = "Q(n_price msg := Q (n_price msg) @ [a])"
    let ?h = "(heap_of e)(a := Object (resting_order msg r default_order))"
    obtain e' where e': "rest_order msg r e = Some e'" "engine_rep n e' ?Q fl1" "e_fills e' = e_fills e"
        "\<forall>c\<in>resting ?Q. payload (obj (heap_of e') c) = payload (obj ?h c)"
      using rest_order_added [OF rep1 False r p lim stop] by blast
    have bl: "book_links ?h (e_book e) Q" using fresh_slot(5) [OF rep1] by (simp add: book_rep_def)
    have old: "map (maker_of ?h) (priority ?h Q sd) = side_makers e Q sd" for sd
      unfolding side_makers_def by (rule map_maker_cong) (use fresh_slot(1) [OF rep1] in \<open>auto simp: store_simps\<close>)
    have "side_makers e' ?Q sd = map (maker_of ?h) (priority ?h ?Q sd)" for sd
      unfolding side_makers_def using e'(4) by (intro map_maker_cong) blast
    moreover have "map (maker_of ?h) (priority ?h ?Q sd) = (if sd = n_side msg then enqueue (better sd) (maker_of ?h a) (side_makers e Q sd)
        else side_makers e Q sd)" for sd
      using side_makers_snoc [OF bl p, of a sd] by (simp add: old store_simps)
    ultimately have "lob_of e' ?Q = rest_maker (n_side msg) (maker_of ?h a) (lob_of e Q)"
      by (intro lob_eqI) (simp add: rest_maker_def)
    moreover have "maker_of ?h a = \<lparr>m_id = n_id msg, m_price = n_price msg, m_open = unat r\<rparr>"
      by (simp add: maker_of_def store_simps)
    ultimately show ?thesis
      using e'(1-3) room False r(1) lim by (auto simp: rest_remainder_def unat_gt_0)
  qed
qed


section \<open>Messages\<close>

lemma clear_fills [simp]:
  "engine_rep n (e\<lparr>e_fills := fs\<rparr>) Q fl \<longleftrightarrow> engine_rep n e Q fl" "lob_of (e\<lparr>e_fills := fs\<rparr>) Q = lob_of e Q"
  "side_makers (e\<lparr>e_fills := fs\<rparr>) Q sd = side_makers e Q sd"
  by (simp_all add: engine_rep_def lob_of_def side_makers_def)

lemma process_new_order_rep:
  assumes rep: "engine_rep n e Q fl"
  shows "\<exists>e' Q' fl'. process_new_order msg e = Some e' \<and> engine_rep n e' Q' fl' \<and>
    lob_new n msg (lob_of e Q) = (e_fills e', lob_of e' Q')"
proof (cases "rejected msg")
  case True
  then have "process_new_order msg e = Some (e\<lparr>e_fills := []\<rparr>)"
    by (auto simp: process_new_order_def rejected_def is_limit_def Let_def)
  then show ?thesis
    using rep True by (intro exI [of _ "e\<lparr>e_fills := []\<rparr>"] exI [of _ Q] exI [of _ fl]) (simp add: lob_new_def)
next
  case False
  let ?e0 = "e\<lparr>e_fills := []\<rparr>" and ?sd = "opposite (n_side msg)"
  have q: "n_quantity msg \<noteq> 0" and p: "n_type msg = Limit \<Longrightarrow> 0 \<le> n_price msg \<and> n_price msg < MAX_PRICE_TICKS"
    using False by (auto simp: rejected_def)
  obtain e1 r1 Q1 fl1 ex where m: "matching msg ?e0 (n_quantity msg) = Some (e1, r1)" "engine_rep n e1 Q1 fl1"
      "sweep (accepts msg) (unat (n_quantity msg)) (side_makers e Q ?sd) = (ex, unat r1, side_makers e1 Q1 ?sd)"
      "side_makers e1 Q1 (n_side msg) = side_makers e Q (n_side msg)" "e_fills e1 = map (to_fill msg) ex"
      "r1 = 0 \<or> side_set (heap_of e1) Q1 ?sd = {} \<or> \<not> accepts msg (best_of ?sd (e_book e1))"
    using matching_rep [of n ?e0 Q fl msg "n_quantity msg"] rep by auto
  have lob: "set_lob_side ?sd (side_makers e1 Q1 ?sd) (lob_of e Q) = lob_of e1 Q1"
    using m(4) by (intro lob_eqI) (metis (full_types) Side.exhaust lob_side_of lob_side_set opposite_simps(1,2))
  have spec: "lob_new n msg (lob_of e Q) = (map (to_fill msg) ex, rest_remainder n msg (unat r1) (lob_of e1 Q1))"
    using False m(3) lob by (simp add: lob_new_def)
  have code: "process_new_order msg e = (if r1 > 0 \<and> is_limit msg then rest_order msg r1 e1 else Some e1)"
    using False m(1) by (auto simp: process_new_order_def rejected_def is_limit_def matching_def Let_def)
  show ?thesis
  proof (cases "r1 \<noteq> 0 \<and> n_type msg = Limit")
    case True
    have "r1 \<le> n_quantity msg" using sweep_le [OF m(3)] by (simp add: word_le_nat_alt)
    then obtain e2 Q2 fl2 where "rest_order msg r1 e1 = Some e2" "engine_rep n e2 Q2 fl2" "e_fills e2 = e_fills e1"
        "lob_of e2 Q2 = rest_remainder n msg (unat r1) (lob_of e1 Q1)"
      using rest_order_rep [OF m(2), of r1 msg] True m(6) p by blast
    then show ?thesis using True code spec m(5) by (auto simp: is_limit_def word_greater_zero_iff)
  next
    case False
    then have "rest_remainder n msg (unat r1) (lob_of e1 Q1) = lob_of e1 Q1"
      by (auto simp: rest_remainder_def)
    then show ?thesis using False code spec m(2,5) by (auto simp: is_limit_def word_greater_zero_iff)
  qed
qed

lemma cancel_absent:
  assumes "i \<notin> lob_ids s"
  shows "lob_cancel i s = s"
proof -
  have "filter (\<lambda>m. m_id m \<noteq> i) (lob_bids s) = lob_bids s" "filter (\<lambda>m. m_id m \<noteq> i) (lob_asks s) = lob_asks s"
    using assms by (auto simp: lob_ids_def intro!: filter_True)
  then show ?thesis by (simp add: lob_cancel_def)
qed

lemma lob_side_cancel [simp]: "lob_side sd (lob_cancel i s) = filter (\<lambda>m. m_id m \<noteq> i) (lob_side sd s)"
  by (cases sd) (simp_all add: lob_cancel_def)

text \<open>Identifiers in the book are unique, so removing by slot is removing by identifier.\<close>

lemma resting_id_unique:
  assumes "engine_rep n e Q fl" "a \<in> resting Q" "c \<in> resting Q" "o_id (obj (heap_of e) a) = o_id (obj (heap_of e) c)"
  shows "a = c"
  using get_order_rep [OF engine_repD(2) [OF assms(1)]] assms(2-4) by (metis option.inject)

lemma process_cancel_rep:
  assumes rep: "engine_rep n e Q fl"
  shows "\<exists>e' Q' fl'. process_cancel msg e = Some (c_id msg \<in> lob_ids (lob_of e Q), e') \<and> engine_rep n e' Q' fl' \<and>
    e_fills e' = e_fills e \<and> lob_of e' Q' = lob_cancel (c_id msg) (lob_of e Q)"
proof (cases "get_order (e_book e) (c_id msg)")
  case None
  then have "c_id msg \<notin> lob_ids (lob_of e Q)"
    by (auto simp: lob_ids_rep [OF rep] get_order_None_rep [OF engine_repD(2) [OF rep]])
  then show ?thesis using None rep by (auto simp: process_cancel_def cancel_absent)
next
  case (Some a)
  let ?h = "heap_of e"
  note bl = engine_repD(2) [OF rep]
  have a: "a \<in> resting Q" and i: "o_id (obj ?h a) = c_id msg" using Some get_order_rep [OF bl] by auto
  define Q' where "Q' = Q(o_price (obj ?h a) := remove1 a (Q (o_price (obj ?h a))))"
  obtain h2 b2 e' where c: "cancel_order ?h (e_book e) (c_id msg) = Some (True, h2, b2)"
      "e' = release a ((set_heap h2 e)\<lparr>e_book := b2\<rparr>)" "book_rep (heap_of e') (e_book e') Q'"
      "pool_rep n (e_pool e') (a # fl)" "e_fills e' = e_fills e" and rest: "resting Q' = resting Q - {a}"
    and pay: "\<And>d. d \<in> resting Q - {a} \<Longrightarrow> payload (obj (heap_of e') d) = payload (obj ?h d)"
    using cancel_release_rep [OF engine_repD(1,3,4,5) [OF rep] a] i by (auto simp: Q'_def)
  have "engine_rep n e' Q' (a # fl)"
    using c(3,4) engine_repD(4-7) [OF rep] rest a payload_eqD(9) [OF pay] by (auto simp: engine_rep_def)
  moreover have "lob_of e' Q' = lob_cancel (c_id msg) (lob_of e Q)"
  proof (rule lob_eqI)
    fix sd
    have "side_makers e' Q' sd = map (maker_of ?h) (priority ?h Q' sd)"
      unfolding side_makers_def using pay rest by (intro map_maker_cong) blast
    also have "priority ?h Q' sd = filter (\<lambda>x. x \<noteq> a) (priority ?h Q sd)"
      using side_list_remove [OF bl a] by (simp add: priority_price_order Q'_def)
    also have "\<dots> = filter (\<lambda>x. m_id (maker_of ?h x) \<noteq> c_id msg) (priority ?h Q sd)"
      using resting_id_unique [OF rep a] i side_list_price(3) [OF bl]
      by (intro filter_cong) (simp_all add: maker_of_def priority_price_order, metis)
    finally show "lob_side sd (lob_of e' Q') = lob_side sd (lob_cancel (c_id msg) (lob_of e Q))"
      by (simp add: side_makers_def filter_map o_def)
  qed
  moreover have "c_id msg \<in> lob_ids (lob_of e Q)" using a i unfolding lob_ids_rep [OF rep] by force
  ultimately show ?thesis using c(1,2,5) Some by (auto simp: process_cancel_def)
qed

lemma process_rep:
  assumes rep: "engine_rep n e Q fl"
  shows "\<exists>e' Q' fl'. process msg e = Some e' \<and> engine_rep n e' Q' fl' \<and>
    lob_process n msg (lob_of e Q) = (e_fills e', lob_of e' Q')"
proof (cases msg)
  case (NewOrder m)
  then show ?thesis using process_new_order_rep [OF rep, of m] by simp
next
  case (Cancel m)
  have "engine_rep n (e\<lparr>e_fills := []\<rparr>) Q fl" using rep by simp
  from process_cancel_rep [OF this, of m] obtain e' Q' fl' where
    "process msg e = Some e'" "engine_rep n e' Q' fl'" "e_fills e' = []" "lob_of e' Q' = lob_cancel (c_id m) (lob_of e Q)"
    using Cancel by auto
  then show ?thesis using Cancel by (intro exI [of _ e'] exI [of _ Q'] exI [of _ fl']) simp
qed

text \<open>A fresh engine represents the empty book.\<close>

lemma new_engine_rep:
  assumes "n < 2 ^ 32"
  shows "engine_rep n (new_engine n) (\<lambda>_. []) [0..<n]" "lob_of (new_engine n) (\<lambda>_. []) = empty_lob"
proof -
  have "resting (\<lambda>_. []) = {}" by (simp add: resting_def)
  then show "engine_rep n (new_engine n) (\<lambda>_. []) [0..<n]"
    using assms new_pool_rep [of n] new_book_rep by (auto simp: engine_rep_def new_engine_def)
  show "lob_of (new_engine n) (\<lambda>_. []) = empty_lob"
    by (simp add: lob_of_def empty_lob_def priority_price_order side_list_def)
qed

lemma run_messages_rep:
  assumes "engine_rep n e Q fl"
  shows "\<exists>fss e' Q' fl'. run_messages msgs e = Some (fss, e') \<and> engine_rep n e' Q' fl' \<and>
    lob_run n msgs (lob_of e Q) = (fss, lob_of e' Q')"
  using assms
proof (induction msgs arbitrary: e Q fl)
  case (Cons m msgs)
  obtain e1 Q1 fl1 where s: "process m e = Some e1" "engine_rep n e1 Q1 fl1"
      "lob_process n m (lob_of e Q) = (e_fills e1, lob_of e1 Q1)"
    using process_rep [OF Cons.prems] by blast
  obtain fss e' Q' fl' where "run_messages msgs e1 = Some (fss, e')" "engine_rep n e' Q' fl'"
      "lob_run n msgs (lob_of e1 Q1) = (fss, lob_of e' Q')"
    using Cons.IH [OF s(2)] by blast
  then show ?case
    using s(1,3) by (intro exI [of _ "e_fills e1 # fss"] exI [of _ e'] exI [of _ Q'] exI [of _ fl']) simp
qed auto

end
