(* ===== verification/Engine_Contract.thy ===== *)
theory Engine_Contract
  imports Engine_Run
begin

text \<open>
  What a client of the engine may rely on.  \<open>implements n e s\<close> relates an engine with
  \<open>n\<close> pool slots to the abstract book \<open>s\<close> it represents; \<open>engine_reachable\<close> are the
  states a fresh engine gets into by processing messages.  The locale
  \<open>message_processor\<close> is the contract the engine thread uses; it is interpreted on
  \<open>process\<close> and the specification.
\<close>

section \<open>The simulation relation\<close>

definition implements :: "nat \<Rightarrow> engine \<Rightarrow> lob \<Rightarrow> bool" where
  "implements n e s \<longleftrightarrow> (\<exists>Q fl. engine_rep n e Q fl \<and> lob_of e Q = s)"

inductive engine_reachable :: "nat \<Rightarrow> engine \<Rightarrow> bool" for n where
  start: "engine_reachable n (new_engine n)"
| step: "engine_reachable n e \<Longrightarrow> process msg e = Some e' \<Longrightarrow> engine_reachable n e'"

text \<open>The invariant of the abstract book.\<close>

definition by_priority :: "Side \<Rightarrow> maker list \<Rightarrow> bool" where
  "by_priority sd ms \<longleftrightarrow> sorted_wrt (\<lambda>x y. \<not> better sd (m_price y) (m_price x)) ms"

definition lob_ok :: "nat \<Rightarrow> lob \<Rightarrow> bool" where
  "lob_ok n s \<longleftrightarrow> by_priority Bid (lob_bids s) \<and> by_priority Ask (lob_asks s) \<and>
     (\<forall>x\<in>set (lob_bids s). \<forall>y\<in>set (lob_asks s). m_price x < m_price y) \<and>
     distinct (map m_id (lob_bids s @ lob_asks s)) \<and>
     (\<forall>m\<in>set (lob_bids s @ lob_asks s). 0 < m_open m \<and> m_open m < 2 ^ 32 \<and>
        0 \<le> m_price m \<and> m_price m < MAX_PRICE_TICKS) \<and>
     lob_size s \<le> n"

section \<open>Reading the abstract book off the engine\<close>

lemma lob_of_sides [simp]:
  "lob_bids (lob_of e Q) = side_makers e Q Bid" "lob_asks (lob_of e Q) = side_makers e Q Ask"
  by (simp_all add: lob_of_def side_makers_def)

lemma by_priority_side_list:
  assumes "book_links h b Q" "sorted_wrt (better sd) ps"
  shows "by_priority sd (map (maker_of h) (side_list h Q sd ps))"
  using assms(2)
proof (induction ps)
  case (Cons p ps)
  let ?f = "filter (\<lambda>a. o_side (obj h a) = sd) (Q p)"
  have "by_priority sd (map (maker_of h) xs)" if "set xs \<subseteq> set (Q p)" for xs
    using that book_linksD(3) [OF assms(1)]
    by (induction xs) (auto simp: by_priority_def maker_of_def)
  then have "by_priority sd (map (maker_of h) ?f)" by auto
  moreover have "\<not> better sd (m_price (maker_of h y)) (m_price (maker_of h x))"
    if "x \<in> set ?f" "y \<in> set (side_list h Q sd ps)" for x y
    using that Cons.prems book_linksD(3) [OF assms(1), of x p] side_list_price(1) [OF assms(1) that(2)] better_antisym
    by (auto simp: maker_of_def)
  ultimately show ?case
    using Cons by (auto simp: by_priority_def sorted_wrt_append)
qed (simp add: side_list_def by_priority_def)

lemma engine_rep_lob_ok:
  assumes rep: "engine_rep n e Q fl"
  shows "lob_ok n (lob_of e Q)"
proof -
  let ?h = "heap_of e"
  note bl = engine_repD(2) [OF rep] and sp = set_priority [OF engine_repD(2) [OF rep]]
  have mem: "\<exists>a\<in>side_set ?h Q sd. m = maker_of ?h a" if "m \<in> set (lob_side sd (lob_of e Q))" for m sd
    using that sp [of sd] by (auto simp: side_makers_def)
  have pr: "by_priority sd (lob_side sd (lob_of e Q))" for sd
    using by_priority_side_list [OF bl sorted_price_order] by (simp add: side_makers_def priority_price_order)
  have uc: "m_price x < m_price y" if "x \<in> set (lob_bids (lob_of e Q))" "y \<in> set (lob_asks (lob_of e Q))" for x y
    using mem [of x Bid] mem [of y Ask] that engine_repD(1) [OF rep]
    by (auto simp: book_rep_def uncrossed_def prices_def maker_of_def)
  have inj: "inj_on (\<lambda>a. o_id (obj ?h a)) (resting Q)"
    using resting_id_unique [OF rep] by (auto simp: inj_on_def)
  have "distinct (priority ?h Q Bid @ priority ?h Q Ask)"
    using distinct_side_list [OF bl, of "price_order _"] sp [of Bid] sp [of Ask] resting_sides(2) [of ?h Q]
    by (simp add: priority_price_order)
  moreover have "set (priority ?h Q Bid @ priority ?h Q Ask) = resting Q"
    using sp [of Bid] sp [of Ask] resting_sides(1) [where Q = Q and h = ?h] by simp
  ultimately have "distinct (map (\<lambda>a. o_id (obj ?h a)) (priority ?h Q Bid @ priority ?h Q Ask))"
    using inj by (simp only: distinct_map)
  then have ids: "distinct (map m_id (lob_bids (lob_of e Q) @ lob_asks (lob_of e Q)))"
    by (simp add: side_makers_def o_def maker_of_def)
  have makers: "0 < m_open m \<and> m_open m < 2 ^ 32 \<and> 0 \<le> m_price m \<and> m_price m < MAX_PRICE_TICKS"
    if m: "m \<in> set (lob_side sd (lob_of e Q))" for m sd
  proof -
    obtain a where a: "a \<in> resting Q" "m = maker_of ?h a" using mem [OF m] side_set_resting by blast
    then show ?thesis
      using maker_open_pos [OF rep a(1)] resting_queue(2,3) [OF bl a(1)] unsigned_less [of "remaining_quantity (obj ?h a)"]
      by (simp add: maker_of_def)
  qed
  have "lob_size (lob_of e Q) \<le> n" using lob_size_rep(2) [OF rep] by simp
  then show ?thesis
    using pr [of Bid] pr [of Ask] uc ids makers [of _ Bid] makers [of _ Ask]
    unfolding lob_ok_def by auto
qed

lemma engine_rep_best:
  assumes "engine_rep n e Q fl"
  shows "best_bid (e_book e) = (case lob_bids (lob_of e Q) of [] \<Rightarrow> 0 | m # _ \<Rightarrow> m_price m)"
    and "best_ask (e_book e) = (case lob_asks (lob_of e Q) of [] \<Rightarrow> MAX_PRICE_TICKS - 1 | m # _ \<Rightarrow> m_price m)"
proof -
  note empty = side_makers_empty [OF assms]
  show "best_bid (e_book e) = (case lob_bids (lob_of e Q) of [] \<Rightarrow> 0 | m # _ \<Rightarrow> m_price m)"
  proof (cases "side_set (heap_of e) Q Bid = {}")
    case True
    then show ?thesis using empty [of Bid] engine_repD(1) [OF assms]
      by (simp add: book_rep_def best_prices_def best_bid_def)
  next
    case False
    show ?thesis by (rule side_makers_best [OF assms False]) (simp add: best_of_def)
  qed
  show "best_ask (e_book e) = (case lob_asks (lob_of e Q) of [] \<Rightarrow> MAX_PRICE_TICKS - 1 | m # _ \<Rightarrow> m_price m)"
  proof (cases "side_set (heap_of e) Q Ask = {}")
    case True
    then show ?thesis using empty [of Ask] engine_repD(1) [OF assms]
      by (simp add: book_rep_def best_prices_def best_ask_def)
  next
    case False
    show ?thesis by (rule side_makers_best [OF assms False]) (simp add: best_of_def)
  qed
qed

text \<open>What the abstract book says about the accessors of the engine.\<close>

lemma implements_view:
  assumes "implements n e s"
  shows "lob_ok n s"
    and "has_bids (e_book e) \<longleftrightarrow> lob_bids s \<noteq> []" "has_asks (e_book e) \<longleftrightarrow> lob_asks s \<noteq> []"
    and "best_bid (e_book e) = (case lob_bids s of [] \<Rightarrow> 0 | m # _ \<Rightarrow> m_price m)"
    and "best_ask (e_book e) = (case lob_asks s of [] \<Rightarrow> MAX_PRICE_TICKS - 1 | m # _ \<Rightarrow> m_price m)"
    and "get_order (e_book e) i \<noteq> None \<longleftrightarrow> i \<in> lob_ids s"
    and "pool_available e = of_nat (n - lob_size s)"
    and "bid_count (e_book e) = of_nat (length (lob_bids s))" "ask_count (e_book e) = of_nat (length (lob_asks s))"
    and "card (dom (ob_order_map (e_book e))) = lob_size s"
    and "n < 2 ^ 32"
proof -
  obtain Q fl where rep: "engine_rep n e Q fl" and s: "lob_of e Q = s" using assms by (auto simp: implements_def)
  let ?h = "heap_of e"
  note bl = engine_repD(2) [OF rep]
  have sm: "side_makers e Q sd = lob_side sd s" for sd using s by auto
  show "lob_ok n s" using engine_rep_lob_ok [OF rep] s by simp
  show "has_bids (e_book e) \<longleftrightarrow> lob_bids s \<noteq> []" "has_asks (e_book e) \<longleftrightarrow> lob_asks s \<noteq> []"
    using side_makers_empty [OF rep, of Bid] side_makers_empty [OF rep, of Ask] has_bids_rep [OF bl] has_asks_rep [OF bl]
    by (simp_all add: sm)
  show "best_bid (e_book e) = (case lob_bids s of [] \<Rightarrow> 0 | m # _ \<Rightarrow> m_price m)"
    "best_ask (e_book e) = (case lob_asks s of [] \<Rightarrow> MAX_PRICE_TICKS - 1 | m # _ \<Rightarrow> m_price m)"
    using engine_rep_best [OF rep] s by simp_all
  show "get_order (e_book e) i \<noteq> None \<longleftrightarrow> i \<in> lob_ids s"
    using get_order_None_rep [OF bl, of i] lob_ids_rep [OF rep] s by auto
  show "pool_available e = of_nat (n - lob_size s)"
    using available_rep [OF engine_repD(3) [OF rep]] lob_size_rep(2) [OF rep] s by (auto simp: pool_available_def)
  show "bid_count (e_book e) = of_nat (length (lob_bids s))" "ask_count (e_book e) = of_nat (length (lob_asks s))"
    using book_linksD(7,8) [OF bl] length_priority [OF bl] s by (auto simp: bid_count_def ask_count_def side_makers_def)
  have "dom (ob_order_map (e_book e)) = (\<lambda>a. o_id (obj ?h a)) ` resting Q"
    using book_linksD(4) [OF bl] by (force simp: dom_def)
  moreover have "inj_on (\<lambda>a. o_id (obj ?h a)) (resting Q)"
    using resting_id_unique [OF rep] by (auto simp: inj_on_def)
  ultimately show "card (dom (ob_order_map (e_book e))) = lob_size s"
    using lob_size_rep(1) [OF rep] s by (simp add: card_image)
  show "n < 2 ^ 32" by (rule engine_repD(6) [OF rep])
qed


section \<open>The contract of a message processor\<close>

text \<open>
  A client that feeds messages to a processor and reads its output after each of them
  needs one law: a step from a related pair of states succeeds, outputs what the
  specification outputs, and ends in a related pair.
\<close>

locale message_processor =
  fixes step :: "'m \<Rightarrow> 'c \<Rightarrow> 'c option"
    and out :: "'c \<Rightarrow> 'o"
    and astep :: "'m \<Rightarrow> 'a \<Rightarrow> 'o \<times> 'a"
    and R :: "'c \<Rightarrow> 'a \<Rightarrow> bool"
  assumes step_sim: "R c a \<Longrightarrow> \<exists>c'. step m c = Some c' \<and> out c' = fst (astep m a) \<and> R c' (snd (astep m a))"
begin

fun run :: "'m list \<Rightarrow> 'c \<Rightarrow> ('o list \<times> 'c) option" where
  "run [] c = Some ([], c)"
| "run (m # ms) c = do { c' \<leftarrow> step m c; (os, c'') \<leftarrow> run ms c'; Some (out c' # os, c'') }"

fun arun :: "'m list \<Rightarrow> 'a \<Rightarrow> 'o list \<times> 'a" where
  "arun [] a = ([], a)"
| "arun (m # ms) a = (let (o1, a') = astep m a; (os, a'') = arun ms a' in (o1 # os, a''))"

lemma run_sim:
  assumes "R c a"
  shows "\<exists>c'. run ms c = Some (fst (arun ms a), c') \<and> R c' (snd (arun ms a))"
  using assms
proof (induction ms arbitrary: c a)
  case (Cons m ms)
  obtain c1 where s: "step m c = Some c1" "out c1 = fst (astep m a)" "R c1 (snd (astep m a))"
    using step_sim [OF Cons.prems] by blast
  from Cons.IH [OF s(3)] obtain c2 where
    "run ms c1 = Some (fst (arun ms (snd (astep m a))), c2)" "R c2 (snd (arun ms (snd (astep m a))))" by blast
  then show ?case using s(1,2) by (auto simp: case_prod_unfold Let_def)
qed auto

lemma run_append:
  "run (ms @ ns) c = do { (os, c') \<leftarrow> run ms c; (ps, c'') \<leftarrow> run ns c'; Some (os @ ps, c'') }"
  by (induction ms arbitrary: c) (auto simp: case_prod_unfold split: Option.bind_split)

lemma step_det: "R c a \<Longrightarrow> step m c = Some c' \<Longrightarrow> out c' = fst (astep m a) \<and> R c' (snd (astep m a))"
  using step_sim [of c a m] by auto

end

lemma process_implements:
  assumes "implements n e s"
  shows "\<exists>e'. process msg e = Some e' \<and> e_fills e' = fst (lob_process n msg s) \<and>
    implements n e' (snd (lob_process n msg s))"
proof -
  obtain Q fl where rep: "engine_rep n e Q fl" "lob_of e Q = s" using assms by (auto simp: implements_def)
  obtain e' Q' fl' where "process msg e = Some e'" "engine_rep n e' Q' fl'"
      "lob_process n msg s = (e_fills e', lob_of e' Q')"
    using process_rep [OF rep(1), of msg] rep(2) by blast
  then show ?thesis by (auto simp: implements_def)
qed

interpretation eng: message_processor process e_fills "lob_process n" "implements n" for n
  by unfold_locales (rule process_implements)

lemma run_messages_eng: "run_messages msgs e = eng.run msgs e"
  by (induction msgs arbitrary: e) simp_all

lemma lob_run_eng: "lob_run n msgs s = eng.arun n msgs s"
  by (induction msgs arbitrary: s) simp_all

lemma new_engine_implements: "n < 2 ^ 32 \<Longrightarrow> implements n (new_engine n) empty_lob"
  using new_engine_rep by (auto simp: implements_def)

lemma reachable_implements:
  assumes "engine_reachable n e" "n < 2 ^ 32"
  shows "\<exists>s. implements n e s"
  using assms(1)
proof induction
  case start
  then show ?case using new_engine_implements [OF assms(2)] by blast
next
  case (step e msg e')
  then show ?case using eng.step_det by blast
qed

lemma reachable_run:
  "engine_reachable n e \<Longrightarrow> run_messages msgs e = Some (fss, e') \<Longrightarrow> engine_reachable n e'"
proof (induction msgs arbitrary: e fss)
  case (Cons m msgs)
  then show ?case by (auto split: Option.bind_splits intro: engine_reachable.step)
qed simp

end
