(* ===== verification/Text_Format.thy ===== *)
theory Text_Format
  imports Prelude
begin

text \<open>
  Numbers as text, as the stream operators and the \<^verbatim>\<open>printf\<close> conversions of the program
  print them: decimal without leading zeros, and right-aligned in a minimum width.
\<close>

fun dec :: "nat \<Rightarrow> string" where
  "dec n = (if n < 10 then [char_of (48 + n)] else dec (n div 10) @ [char_of (48 + n mod 10)])"

declare dec.simps [simp del]

definition decu :: "'a::len word \<Rightarrow> string" where
  "decu w = dec (unat w)"

definition deci :: "int \<Rightarrow> string" where
  "deci i = (if i < 0 then ''-'' @ dec (nat (- i)) else dec (nat i))"

text \<open>\<^verbatim>\<open>std::setw\<close>: blanks on the left up to the width; longer text is not cut.\<close>

definition setw :: "nat \<Rightarrow> string \<Rightarrow> string" where
  "setw n s = replicate (n - length s) (CHR '' '') @ s"

end
