(* ===== verification/Dashboard_Hub.thy ===== *)
theory Dashboard_Hub
  imports Order_Book Text_Format
begin

text \<open>
  \<^verbatim>\<open>server/dashboard_hub.h\<close>: the snapshot state shared by the pipeline threads and the
  dashboard server.  Every operation runs under the hub's mutex, so an operation is one
  step; \<^verbatim>\<open>publish_book\<close> only tries the lock, and whether it got it is an argument.  Array
  indices and counts are natural numbers: they stay below the array sizes, so the
  \<^verbatim>\<open>size_t\<close> never wraps.
\<close>

definition BOOK_DEPTH :: nat where "BOOK_DEPTH = 15"
definition FILL_KEEP :: nat where "FILL_KEEP = 48"
definition SCAN_LIMIT :: Price where "SCAN_LIMIT = 100000"

record hub_level =
  hl_price :: Price
  hl_qty :: "64 word"
  hl_orders :: "32 word"

record fill_row =
  fr_seq :: "64 word"
  fr_ts_ms :: "64 word"
  fr_price :: Price
  fr_qty :: Quantity
  fr_taker_is_bid :: bool

record hub_stats =
  hs_match_p50 :: "64 word"
  hs_match_p95 :: "64 word"
  hs_match_p99 :: "64 word"
  hs_order_p50 :: "64 word"
  hs_order_p99 :: "64 word"
  hs_processed :: "64 word"
  hs_fills :: "64 word"
  hs_pool_free :: "64 word"
  hs_pool_capacity :: "64 word"
  hs_dropped :: "64 word"
  hs_clients :: "64 word"

record hub =
  hub_book_wanted :: bool
  hub_mode :: string
  hub_product :: string
  hub_bids :: "hub_level list"
  hub_asks :: "hub_level list"
  hub_bid_count :: nat
  hub_ask_count :: nat
  hub_total_bids :: "64 word"
  hub_total_asks :: "64 word"
  hub_fills :: "fill_row list"
  hub_fill_head :: nat
  hub_fill_count :: nat
  hub_stats :: hub_stats

definition no_level :: hub_level where
  "no_level = \<lparr>hl_price = 0, hl_qty = 0, hl_orders = 0\<rparr>"

definition no_fill :: fill_row where
  "no_fill = \<lparr>fr_seq = 0, fr_ts_ms = 0, fr_price = 0, fr_qty = 0, fr_taker_is_bid = False\<rparr>"

definition no_stats :: hub_stats where
  "no_stats = \<lparr>hs_match_p50 = 0, hs_match_p95 = 0, hs_match_p99 = 0, hs_order_p50 = 0, hs_order_p99 = 0,
     hs_processed = 0, hs_fills = 0, hs_pool_free = 0, hs_pool_capacity = 0, hs_dropped = 0, hs_clients = 0\<rparr>"

definition new_hub :: hub where
  "new_hub = \<lparr>hub_book_wanted = False, hub_mode = ''synthetic'', hub_product = ''SYNTH'',
     hub_bids = replicate BOOK_DEPTH no_level, hub_asks = replicate BOOK_DEPTH no_level,
     hub_bid_count = 0, hub_ask_count = 0, hub_total_bids = 0, hub_total_asks = 0,
     hub_fills = replicate FILL_KEEP no_fill, hub_fill_head = 0, hub_fill_count = 0, hub_stats = no_stats\<rparr>"

definition configure :: "string \<Rightarrow> string \<Rightarrow> hub \<Rightarrow> hub" where
  "configure mode product h = h\<lparr>hub_mode := mode, hub_product := product\<rparr>"

definition request_book :: "hub \<Rightarrow> hub" where
  "request_book h = h\<lparr>hub_book_wanted := True\<rparr>"

definition book_wanted :: "hub \<Rightarrow> bool" where
  "book_wanted h \<longleftrightarrow> hub_book_wanted h"

section \<open>The book walk\<close>

definition level_row :: "Price \<Rightarrow> price_level \<Rightarrow> hub_level" where
  "level_row p lvl = \<lparr>hl_price = p, hl_qty = ucast (total_quantity lvl), hl_orders = order_count lvl\<rparr>"

text \<open>The two loops over the grid; the accumulator is the count and the array.\<close>

function walk_bids :: "order_book \<Rightarrow> Price \<Rightarrow> Price \<Rightarrow> nat \<times> hub_level list \<Rightarrow> (nat \<times> hub_level list) option" where
  "walk_bids b floor p (n, rows) =
     (if p \<ge> floor \<and> n < BOOK_DEPTH then do {
        lvl \<leftarrow> get_level b p;
        walk_bids b floor (p - 1) (if \<not> level_empty lvl then (n + 1, rows[n := level_row p lvl]) else (n, rows)) }
      else Some (n, rows))"
  by pat_completeness auto
termination by (relation "measure (\<lambda>(b, floor, p, _). nat (p + 1 - floor))") auto

function walk_asks :: "order_book \<Rightarrow> Price \<Rightarrow> Price \<Rightarrow> nat \<times> hub_level list \<Rightarrow> (nat \<times> hub_level list) option" where
  "walk_asks b cap p (n, rows) =
     (if p \<le> cap \<and> n < BOOK_DEPTH then do {
        lvl \<leftarrow> get_level b p;
        walk_asks b cap (p + 1) (if \<not> level_empty lvl then (n + 1, rows[n := level_row p lvl]) else (n, rows)) }
      else Some (n, rows))"
  by pat_completeness auto
termination by (relation "measure (\<lambda>(b, cap, p, _). nat (cap + 1 - p))") auto

declare walk_bids.simps [simp del] walk_asks.simps [simp del]

definition bid_floor :: "Price \<Rightarrow> Price" where
  "bid_floor best = (if best > SCAN_LIMIT then best - SCAN_LIMIT else 0)"

definition ask_cap :: "Price \<Rightarrow> Price" where
  "ask_cap best = (if best < MAX_PRICE_TICKS - SCAN_LIMIT then best + SCAN_LIMIT else MAX_PRICE_TICKS - 1)"

definition publish_book :: "bool \<Rightarrow> order_book \<Rightarrow> hub \<Rightarrow> hub option" where
  "publish_book owns_lock book h =
     (if \<not> owns_lock then Some h
      else do {
        (n, bids) \<leftarrow> (if has_bids book then walk_bids book (bid_floor (best_bid book)) (best_bid book) (0, hub_bids h)
                     else Some (0, hub_bids h));
        (m, asks) \<leftarrow> (if has_asks book then walk_asks book (ask_cap (best_ask book)) (best_ask book) (0, hub_asks h)
                     else Some (0, hub_asks h));
        Some (h\<lparr>hub_book_wanted := False, hub_bid_count := n, hub_bids := bids, hub_ask_count := m, hub_asks := asks,
          hub_total_bids := bid_count book, hub_total_asks := ask_count book\<rparr>) })"

section \<open>The fill tape\<close>

definition push_fill_row :: "fill_row \<Rightarrow> hub \<Rightarrow> hub" where
  "push_fill_row row h = h\<lparr>hub_fills := (hub_fills h)[hub_fill_head h := row],
     hub_fill_head := (hub_fill_head h + 1) mod FILL_KEEP,
     hub_fill_count := (if hub_fill_count h < FILL_KEEP then hub_fill_count h + 1 else hub_fill_count h)\<rparr>"

definition publish_output :: "hub_stats \<Rightarrow> fill_row list \<Rightarrow> hub \<Rightarrow> hub" where
  "publish_output stats rows h = fold push_fill_row rows (h\<lparr>hub_stats := stats\<rparr>)"

text \<open>The rows in the order the serialiser reads them.\<close>

definition fill_at :: "hub \<Rightarrow> nat \<Rightarrow> fill_row" where
  "fill_at h i = hub_fills h ! ((hub_fill_head h + FILL_KEEP - hub_fill_count h + i) mod FILL_KEEP)"

definition tape :: "hub \<Rightarrow> fill_row list" where
  "tape h = map (fill_at h) [0..<hub_fill_count h]"

section \<open>Serialisation\<close>

text \<open>
  \<^verbatim>\<open>snprintf\<close> writes at most 159 characters and the terminating zero into the buffer of
  160, and the buffer is appended to the frame.
\<close>

definition buffered :: "string \<Rightarrow> string" where
  "buffered s = take 159 s"

definition comma :: "nat \<Rightarrow> string" where
  "comma i = (if i \<noteq> 0 then '','' else [])"

definition json_level :: "nat \<Rightarrow> hub_level \<Rightarrow> string" where
  "json_level i l = buffered (comma i @ ''['' @ deci (hl_price l) @ '','' @ decu (hl_qty l) @ '','' @ decu (hl_orders l) @ '']'')"

definition json_fill :: "nat \<Rightarrow> fill_row \<Rightarrow> string" where
  "json_fill i f = buffered (comma i @ ''['' @ decu (fr_seq f) @ '','' @ decu (fr_ts_ms f) @ '','' @ deci (fr_price f) @ '','' @
     decu (fr_qty f) @ '','' @ (if fr_taker_is_bid f then ''1'' else ''0'') @ '']'')"

definition json_head :: "64 word \<Rightarrow> hub \<Rightarrow> string" where
  \<open>json_head now_ms h = buffered (''{"t":'' @ decu now_ms @ '',"mode":"'' @ hub_mode h @ ''","product":"'' @ hub_product h @ ''","bids":['')\<close>

definition json_latency :: "hub_stats \<Rightarrow> string" where
  \<open>json_latency s = buffered (''],"stats":{"match_p50":'' @ decu (hs_match_p50 s) @ '',"match_p95":'' @ decu (hs_match_p95 s) @
     '',"match_p99":'' @ decu (hs_match_p99 s) @ '',"order_p50":'' @ decu (hs_order_p50 s) @ '',"order_p99":'' @ decu (hs_order_p99 s) @ '','')\<close>

definition json_counts :: "hub \<Rightarrow> string" where
  \<open>json_counts h = buffered (''"processed":'' @ decu (hs_processed (hub_stats h)) @ '',"fills":'' @ decu (hs_fills (hub_stats h)) @
     '',"pool_free":'' @ decu (hs_pool_free (hub_stats h)) @ '',"pool_capacity":'' @ decu (hs_pool_capacity (hub_stats h)) @
     '',"dropped":'' @ decu (hs_dropped (hub_stats h)) @ '',"clients":'' @ decu (hs_clients (hub_stats h)) @
     '',"book_bids":'' @ decu (hub_total_bids h) @ '',"book_asks":'' @ decu (hub_total_asks h) @ ''}}'')\<close>

definition snapshot_json :: "64 word \<Rightarrow> hub \<Rightarrow> string" where
  \<open>snapshot_json now_ms h =
     json_head now_ms h @
     concat (map (\<lambda>i. json_level i (hub_bids h ! i)) [0..<hub_bid_count h]) @
     ''],"asks":['' @
     concat (map (\<lambda>i. json_level i (hub_asks h ! i)) [0..<hub_ask_count h]) @
     ''],"fills":['' @
     concat (map (\<lambda>i. json_fill i (fill_at h i)) [0..<hub_fill_count h]) @
     json_latency (hub_stats h) @ json_counts h\<close>

end
