(* ===== verification/Dashboard_Properties.thy ===== *)
theory Dashboard_Properties
  imports Dashboard_Hub Engine_Contract "HOL-Library.Sublist"
begin

text \<open>
  Properties of the dashboard hub: the fill tape keeps the newest rows in order, a
  published book is the top of the engine's book, and the frame is complete as long as
  its counters are short enough for the line buffer.
\<close>

section \<open>The fill tape\<close>

definition last_n :: "nat \<Rightarrow> 'a list \<Rightarrow> 'a list" where
  "last_n k xs = drop (length xs - k) xs"

lemma last_n_id [simp]: "length xs \<le> k \<Longrightarrow> last_n k xs = xs"
  by (simp add: last_n_def)

lemma length_last_n [simp]: "length (last_n k xs) = min k (length xs)"
  by (simp add: last_n_def)

lemma last_n_append: "last_n k (last_n k xs @ ys) = last_n k (xs @ ys)"
proof (cases "length xs \<le> k")
  case False
  then have "length xs + length ys - k = (length xs - k) + length ys" by simp
  then show ?thesis using False by (simp add: last_n_def drop_append add.commute)
qed simp

definition hub_ok :: "hub \<Rightarrow> bool" where
  "hub_ok h \<longleftrightarrow> length (hub_bids h) = BOOK_DEPTH \<and> length (hub_asks h) = BOOK_DEPTH \<and>
     hub_bid_count h \<le> BOOK_DEPTH \<and> hub_ask_count h \<le> BOOK_DEPTH \<and>
     length (hub_fills h) = FILL_KEEP \<and> hub_fill_head h < FILL_KEEP \<and> hub_fill_count h \<le> FILL_KEEP"

lemma new_hub_ok: "hub_ok new_hub" "tape new_hub = []"
  by (simp_all add: hub_ok_def new_hub_def tape_def FILL_KEEP_def)

lemma mod_keep: "x < 96 \<Longrightarrow> x mod 48 = (if x < 48 then x else x - 48 :: nat)"
  by (simp add: mod_if)

lemma push_fill_row_tape:
  assumes "hub_ok h"
  shows "hub_ok (push_fill_row r h)" "tape (push_fill_row r h) = last_n FILL_KEEP (tape h @ [r])"
proof -
  let ?c = "hub_fill_count h" and ?d = "hub_fill_head h"
  have ok: "length (hub_fills h) = 48" "?d < 48" "?c \<le> 48" using assms by (simp_all add: hub_ok_def FILL_KEEP_def)
  show "hub_ok (push_fill_row r h)" using assms by (auto simp: hub_ok_def push_fill_row_def FILL_KEEP_def)
  have idx: "((?d + 1) mod 48 + 48 - (?c + 1) + i) mod 48 = (?d + 48 - ?c + i) mod 48" if "?c < 48" "i \<le> ?c" for i
    using that ok(2) by (cases "?d = 47") (simp_all add: mod_keep add.commute)
  have hit: "(?d + 48 - ?c + i) mod 48 = ?d \<longleftrightarrow> i = ?c" if "?c < 48" "i \<le> ?c" for i
    using that ok(2) by (auto simp: mod_keep)
  have idx': "((?d + 1) mod 48 + 48 - 48 + i) mod 48 = (?d + Suc i) mod 48" for i by (simp add: mod_simps)
  have hit': "(?d + Suc i) mod 48 = ?d \<longleftrightarrow> i = 47" if "i < 48" for i using that ok(2) by (auto simp: mod_keep)
  show "tape (push_fill_row r h) = last_n FILL_KEEP (tape h @ [r])"
  proof (cases "?c < 48")
    case True
    have "tape (push_fill_row r h) ! i = (tape h @ [r]) ! i" if "i \<le> ?c" for i
      using that True ok idx [OF True that] hit [OF True that]
      by (auto simp: tape_def fill_at_def push_fill_row_def FILL_KEEP_def nth_append nth_list_update simp del: upt_Suc)
    then have "tape (push_fill_row r h) = tape h @ [r]"
      using True by (intro nth_equalityI) (simp_all add: tape_def push_fill_row_def FILL_KEEP_def)
    then show ?thesis using True by (simp add: tape_def FILL_KEEP_def)
  next
    case False
    then have c: "?c = 48" using ok(3) by simp
    have "tape (push_fill_row r h) ! i = drop 1 (tape h @ [r]) ! i" if "i < 48" for i
      using that c ok idx' [of i] hit' [OF that]
      by (auto simp: tape_def fill_at_def push_fill_row_def FILL_KEEP_def nth_append nth_list_update simp del: upt_Suc)
    then have "tape (push_fill_row r h) = drop 1 (tape h @ [r])"
      using c by (intro nth_equalityI) (simp_all add: tape_def push_fill_row_def FILL_KEEP_def)
    then show ?thesis using c by (simp add: last_n_def tape_def FILL_KEEP_def)
  qed
qed

lemma push_rows_tape:
  assumes "hub_ok h"
  shows "hub_ok (fold push_fill_row rows h) \<and> tape (fold push_fill_row rows h) = last_n FILL_KEEP (tape h @ rows)"
  using assms
proof (induction rows arbitrary: h)
  case Nil
  then show ?case by (simp add: tape_def hub_ok_def)
next
  case (Cons r rows)
  show ?case using Cons.IH [OF push_fill_row_tape(1) [OF Cons.prems, of r]] push_fill_row_tape(2) [OF Cons.prems, of r]
    by (simp add: last_n_append)
qed

lemma publish_output_tape:
  assumes "hub_ok h"
  shows "hub_ok (publish_output s rows h)" "tape (publish_output s rows h) = last_n FILL_KEEP (tape h @ rows)"
proof -
  have "hub_ok (h\<lparr>hub_stats := s\<rparr>)" "tape (h\<lparr>hub_stats := s\<rparr>) = tape h"
    using assms by (simp_all add: hub_ok_def tape_def fill_at_def)
  then show "hub_ok (publish_output s rows h)" "tape (publish_output s rows h) = last_n FILL_KEEP (tape h @ rows)"
    using push_rows_tape [of "h\<lparr>hub_stats := s\<rparr>" rows] by (simp_all add: publish_output_def)
qed

section \<open>The published book\<close>

definition shown :: "order_book \<Rightarrow> Price list \<Rightarrow> hub_level list" where
  "shown b ps = map (\<lambda>p. level_row p (ob_levels b p)) (filter (\<lambda>p. \<not> level_empty (ob_levels b p)) ps)"

lemma shown_Cons: "shown b (p # ps) = (if level_empty (ob_levels b p) then shown b ps else level_row p (ob_levels b p) # shown b ps)"
  by (simp add: shown_def)

lemma rev_upto_Cons: "floor \<le> p \<Longrightarrow> rev [floor..p] = p # rev [floor..p - 1]"
  by (simp add: upto_rec2)

text \<open>What a finished walk leaves: the rows so far and the new ones, cut at the depth.\<close>

definition walked :: "nat \<Rightarrow> hub_level list \<Rightarrow> hub_level list \<Rightarrow> nat \<times> hub_level list \<Rightarrow> bool" where
  "walked n rows new res \<longleftrightarrow> length (snd res) = BOOK_DEPTH \<and>
     take (fst res) (snd res) = take BOOK_DEPTH (take n rows @ new) \<and>
     fst res = min BOOK_DEPTH (n + length new)"

lemma walked_row:
  assumes "n < BOOK_DEPTH" "length rows = BOOK_DEPTH" "walked (n + 1) (rows[n := r]) new res"
  shows "walked n rows (r # new) res"
  using assms by (cases res) (simp add: walked_def take_Suc_conv_app_nth)

lemma walked_stop: "n \<le> BOOK_DEPTH \<Longrightarrow> length rows = BOOK_DEPTH \<Longrightarrow> n = BOOK_DEPTH \<or> new = [] \<Longrightarrow> walked n rows new (n, rows)"
  by (auto simp: walked_def)

lemma walk_bids_walked:
  assumes "0 \<le> floor" "p < MAX_PRICE_TICKS" "n \<le> BOOK_DEPTH" "length rows = BOOK_DEPTH"
  shows "\<exists>res. walk_bids b floor p (n, rows) = Some res \<and> walked n rows (shown b (rev [floor..p])) res"
  using assms
proof (induction b floor p "(n, rows)" arbitrary: n rows rule: walk_bids.induct)
  case (1 b floor p n rows)
  show ?case
  proof (cases "p \<ge> floor \<and> n < BOOK_DEPTH")
    case go: True
    let ?lvl = "ob_levels b p"
    have lvl: "get_level b p = Some ?lvl" using 1(2,3) go by (simp add: get_level_def)
    show ?thesis
    proof (cases "level_empty ?lvl")
      case True
      have "\<exists>res. walk_bids b floor (p - 1) (n, rows) = Some res \<and> walked n rows (shown b (rev [floor..p - 1])) res"
        by (rule 1(1) [OF go lvl]) (use True 1(2-5) in simp_all)
      then show ?thesis using go lvl True rev_upto_Cons [of floor p] by (simp add: walk_bids.simps [of b floor p] shown_Cons)
    next
      case False
      have "\<exists>res. walk_bids b floor (p - 1) (n + 1, rows[n := level_row p ?lvl]) = Some res \<and>
          walked (n + 1) (rows[n := level_row p ?lvl]) (shown b (rev [floor..p - 1])) res"
        by (rule 1(1) [OF go lvl]) (use False go 1(2-5) in simp_all)
      then show ?thesis using go lvl False rev_upto_Cons [of floor p] walked_row [OF _ 1(5)]
        by (auto simp: walk_bids.simps [of b floor p] shown_Cons)
    qed
  next
    case False
    then show ?thesis using 1(4,5) walked_stop [of n rows "shown b (rev [floor..p])"] by (auto simp: walk_bids.simps [of b floor p] shown_def)
  qed
qed

lemma walk_asks_walked:
  assumes "0 \<le> p" "cap < MAX_PRICE_TICKS" "n \<le> BOOK_DEPTH" "length rows = BOOK_DEPTH"
  shows "\<exists>res. walk_asks b cap p (n, rows) = Some res \<and> walked n rows (shown b [p..cap]) res"
  using assms
proof (induction b cap p "(n, rows)" arbitrary: n rows rule: walk_asks.induct)
  case (1 b cap p n rows)
  show ?case
  proof (cases "p \<le> cap \<and> n < BOOK_DEPTH")
    case go: True
    let ?lvl = "ob_levels b p"
    have lvl: "get_level b p = Some ?lvl" using 1(2,3) go by (simp add: get_level_def)
    have up: "[p..cap] = p # [p + 1..cap]" using go by (simp add: upto_rec1)
    show ?thesis
    proof (cases "level_empty ?lvl")
      case True
      have "\<exists>res. walk_asks b cap (p + 1) (n, rows) = Some res \<and> walked n rows (shown b [p + 1..cap]) res"
        by (rule 1(1) [OF go lvl]) (use True 1(2-5) in simp_all)
      then show ?thesis using go lvl True up by (simp add: walk_asks.simps [of b cap p] shown_Cons)
    next
      case False
      have "\<exists>res. walk_asks b cap (p + 1) (n + 1, rows[n := level_row p ?lvl]) = Some res \<and>
          walked (n + 1) (rows[n := level_row p ?lvl]) (shown b [p + 1..cap]) res"
        by (rule 1(1) [OF go lvl]) (use False go 1(2-5) in simp_all)
      then show ?thesis using go lvl False up walked_row [OF _ 1(5)]
        by (auto simp: walk_asks.simps [of b cap p] shown_Cons)
    qed
  next
    case False
    then show ?thesis using 1(4,5) walked_stop [of n rows "shown b [p..cap]"] by (auto simp: walk_asks.simps [of b cap p] shown_def)
  qed
qed

lemma reachable_prices:
  assumes "engine_reachable n e" "n < 2 ^ 32"
  shows "0 \<le> best_bid (e_book e)" "best_bid (e_book e) < MAX_PRICE_TICKS" "0 \<le> best_ask (e_book e)" "best_ask (e_book e) < MAX_PRICE_TICKS"
proof -
  obtain s where s: "implements n e s" using reachable_implements [OF assms] by blast
  note v = implements_view [OF s]
  show "0 \<le> best_bid (e_book e)" "best_bid (e_book e) < MAX_PRICE_TICKS" "0 \<le> best_ask (e_book e)" "best_ask (e_book e) < MAX_PRICE_TICKS"
    using v(1,4,5) by (auto simp: lob_ok_def MAX_PRICE_TICKS_def split: list.splits)
qed

lemma publish_book_shown:
  assumes "engine_reachable n e" "n < 2 ^ 32" "hub_ok h"
  shows "\<exists>h'. publish_book True (e_book e) h = Some h' \<and> hub_ok h' \<and> \<not> book_wanted h' \<and> tape h' = tape h \<and>
    take (hub_bid_count h') (hub_bids h') = (if has_bids (e_book e)
      then take BOOK_DEPTH (shown (e_book e) (rev [bid_floor (best_bid (e_book e))..best_bid (e_book e)])) else []) \<and>
    take (hub_ask_count h') (hub_asks h') = (if has_asks (e_book e)
      then take BOOK_DEPTH (shown (e_book e) [best_ask (e_book e)..ask_cap (best_ask (e_book e))]) else []) \<and>
    (\<exists>b. implements n e b \<and> hub_total_bids h' = of_nat (length (lob_bids b)) \<and> hub_total_asks h' = of_nat (length (lob_asks b)))"
proof -
  let ?b = "e_book e"
  note p = reachable_prices [OF assms(1,2)]
  have len: "length (hub_bids h) = BOOK_DEPTH" "length (hub_asks h) = BOOK_DEPTH" using assms(3) by (simp_all add: hub_ok_def)
  have fl: "0 \<le> bid_floor (best_bid ?b)" by (simp add: bid_floor_def SCAN_LIMIT_def)
  have cap: "ask_cap (best_ask ?b) < MAX_PRICE_TICKS" by (simp add: ask_cap_def SCAN_LIMIT_def)
  obtain nb bids where bids: "(if has_bids ?b then walk_bids ?b (bid_floor (best_bid ?b)) (best_bid ?b) (0, hub_bids h) else Some (0, hub_bids h)) = Some (nb, bids)"
      "walked 0 (hub_bids h) (if has_bids ?b then shown ?b (rev [bid_floor (best_bid ?b)..best_bid ?b]) else []) (nb, bids)"
    using walk_bids_walked [OF fl p(2) _ len(1), of 0 ?b] walked_stop [of 0 "hub_bids h" "[]"] len(1) by (cases "has_bids ?b") auto
  obtain na asks where asks: "(if has_asks ?b then walk_asks ?b (ask_cap (best_ask ?b)) (best_ask ?b) (0, hub_asks h) else Some (0, hub_asks h)) = Some (na, asks)"
      "walked 0 (hub_asks h) (if has_asks ?b then shown ?b [best_ask ?b..ask_cap (best_ask ?b)] else []) (na, asks)"
    using walk_asks_walked [OF p(3) cap _ len(2), of 0 ?b] walked_stop [of 0 "hub_asks h" "[]"] len(2) by (cases "has_asks ?b") auto
  obtain b where b: "implements n e b" using reachable_implements [OF assms(1,2)] by blast
  show ?thesis using bids asks assms(3) exI [of "\<lambda>b. implements n e b \<and> bid_count ?b = of_nat (length (lob_bids b)) \<and> ask_count ?b = of_nat (length (lob_asks b))" b]
      b implements_view(8,9) [OF b]
    by (simp add: publish_book_def walked_def hub_ok_def book_wanted_def tape_def fill_at_def) (simp split: if_splits)
qed

text \<open>
  C27: A published book is the top of the engine's book.  Whatever was published before,
  \<^verbatim>\<open>publish_book\<close> on a reachable engine returns without leaving the arrays or the grid,
  lowers the request flag, and the rows the serialiser shows are the first 15 non-empty
  levels at or below the best bid (at or above the best ask), best first, no further than
  100000 ticks from it; the total counts it carries are the numbers of resting bids and asks.
\<close>

theorem published_book:
  assumes "engine_reachable n e" "n < 2 ^ 32" "hub_ok h"
  shows "\<exists>h'. publish_book True (e_book e) h = Some h' \<and> hub_ok h' \<and> \<not> book_wanted h' \<and> tape h' = tape h \<and>
    take (hub_bid_count h') (hub_bids h') = (if has_bids (e_book e)
      then take BOOK_DEPTH (shown (e_book e) (rev [bid_floor (best_bid (e_book e))..best_bid (e_book e)])) else []) \<and>
    take (hub_ask_count h') (hub_asks h') = (if has_asks (e_book e)
      then take BOOK_DEPTH (shown (e_book e) [best_ask (e_book e)..ask_cap (best_ask (e_book e))]) else []) \<and>
    (\<exists>b. implements n e b \<and> hub_total_bids h' = of_nat (length (lob_bids b)) \<and> hub_total_asks h' = of_nat (length (lob_asks b)))"
  using assms by (rule publish_book_shown)

theorem published_book_witness:
  "\<exists>h'. publish_book True (e_book (new_engine 4)) (request_book new_hub) = Some h' \<and> hub_ok h' \<and> \<not> book_wanted h'"
proof -
  have "hub_ok (request_book new_hub)" using new_hub_ok(1) by (simp add: hub_ok_def request_book_def)
  from published_book [OF engine_reachable.start _ this, of 4] show ?thesis by auto
qed

text \<open>
  The fill tape shows the newest fills: after any number of publications the rows
  the serialiser reads, oldest first, are the last 48 of all rows that were published.
\<close>

lemma tape_newest:
  "tape (fold (\<lambda>(s, rows). publish_output s rows) pubs new_hub) = last_n FILL_KEEP (concat (map snd pubs))"
proof -
  have "tape (fold (\<lambda>(s, rows). publish_output s rows) pubs h) = last_n FILL_KEEP (tape h @ concat (map snd pubs))" if "hub_ok h" for h
    using that
  proof (induction pubs arbitrary: h)
    case Nil
    then show ?case by (simp add: tape_def hub_ok_def)
  next
    case (Cons pub pubs)
    obtain s rows where pub: "pub = (s, rows)" by (cases pub)
    show ?case using Cons.IH [OF publish_output_tape(1) [OF Cons.prems, of s rows]] publish_output_tape(2) [OF Cons.prems, of s rows]
      by (simp add: pub last_n_append)
  qed
  from this [OF new_hub_ok(1)] show ?thesis by (simp add: new_hub_ok(2))
qed

section \<open>Frames\<close>

lemma dec_digits: "c \<in> set (dec n) \<Longrightarrow> c \<noteq> CHR ''}''"
proof (induction n rule: dec.induct)
  case (1 n)
  have digit: "char_of (48 + m) \<noteq> CHR ''}''" if "m < 10" for m :: nat
  proof
    assume "char_of (48 + m) = CHR ''}''"
    then have "of_char (char_of (48 + m) :: char) = (of_char (CHR ''}'') :: nat)" by simp
    then show False using that by (simp add: of_char_of)
  qed
  note d = digit [of n] digit [of "n mod 10"]
  have "set (dec n) = (if n < 10 then {char_of (48 + n)} else insert (char_of (48 + n mod 10)) (set (dec (n div 10))))"
    by (subst dec.simps) simp
  then show ?case using 1 d by (auto split: if_splits)
qed

text \<open>The number of characters the eight counters of the last line take.\<close>

definition counter_width :: "hub \<Rightarrow> nat" where
  "counter_width h = (\<Sum>w\<leftarrow>[hs_processed (hub_stats h), hs_fills (hub_stats h), hs_pool_free (hub_stats h), hs_pool_capacity (hub_stats h),
     hs_dropped (hub_stats h), hs_clients (hub_stats h), hub_total_bids h, hub_total_asks h]. length (decu w))"

lemma suffix_take:
  assumes "CHR ''}'' \<notin> set s"
  shows "suffix ''}}'' (xs @ take 159 (s @ ''}}'')) \<longleftrightarrow> length s \<le> 157"
proof (cases "length s \<le> 157")
  case True
  then show ?thesis by (simp add: suffix_appendI)
next
  case False
  then have "take 159 (s @ ''}}'') \<noteq> []" "take 159 (s @ ''}}'') = take 159 s @ take (159 - length s) ''}}''" by auto
  moreover have "length (take 159 s) \<ge> 158" using False by simp
  moreover have "take (159 - length s) ''}}'' = [] \<or> length s = 158 \<and> take (159 - length s) ''}}'' = ''}''" using False
    by (cases "length s = 158") auto
  moreover have "\<not> suffix ''}}'' (xs @ take 159 s @ t)" if "t = [] \<or> t = ''}''" for t
  proof
    assume "suffix ''}}'' (xs @ take 159 s @ t)"
    then obtain u where u: "xs @ take 159 s @ t = u @ ''}}''" by (auto simp: suffix_def)
    have ne: "take 159 s \<noteq> []" using False by auto
    have "last (take 159 s) = CHR ''}''"
    proof (cases "t = []")
      case True
      then have "last (xs @ take 159 s @ t) = last (take 159 s)" using ne by simp
      then show ?thesis using u by simp
    next
      case False
      then have "xs @ take 159 s = u @ ''}''" using u that by (auto simp: append_eq_append_conv2)
      then have "last (xs @ take 159 s) = CHR ''}''" by simp
      then show ?thesis using ne by simp
    qed
    then have "CHR ''}'' \<in> set s" using ne by (metis in_set_takeD last_in_set)
    then show False using assms by simp
  qed
  ultimately have "\<not> suffix ''}}'' (xs @ take 159 (s @ ''}}''))" by metis
  then show ?thesis using False by simp
qed

text \<open>
  C28: The frame is complete, with the braces that close the JSON document, exactly when
  the eight counters of its last line together take at most 58 characters; beyond that
  the line buffer cuts the frame and the document is not closed.
\<close>

theorem frame_complete_iff: "suffix ''}}'' (snapshot_json now_ms h) \<longleftrightarrow> counter_width h \<le> 58"
proof -
  define s where \<open>s = ''"processed":'' @ decu (hs_processed (hub_stats h)) @ '',"fills":'' @ decu (hs_fills (hub_stats h)) @
     '',"pool_free":'' @ decu (hs_pool_free (hub_stats h)) @ '',"pool_capacity":'' @ decu (hs_pool_capacity (hub_stats h)) @
     '',"dropped":'' @ decu (hs_dropped (hub_stats h)) @ '',"clients":'' @ decu (hs_clients (hub_stats h)) @
     '',"book_bids":'' @ decu (hub_total_bids h) @ '',"book_asks":'' @ decu (hub_total_asks h)\<close>
  have c: "json_counts h = take 159 (s @ ''}}'')" by (simp only: json_counts_def buffered_def s_def append.assoc)
  have "CHR ''}'' \<notin> set (decu w)" for w :: "64 word" using dec_digits by (auto simp: decu_def)
  then have "CHR ''}'' \<notin> set s" by (simp add: s_def)
  then have "suffix ''}}'' (snapshot_json now_ms h) \<longleftrightarrow> length s \<le> 157"
    unfolding snapshot_json_def c append.assoc [symmetric] by (rule suffix_take)
  moreover have "length s = 99 + counter_width h" by (simp add: s_def counter_width_def)
  ultimately show ?thesis by simp
qed

end
