(* ===== verification/Latency_Tracker.thy ===== *)
theory Latency_Tracker
  imports Ieee_Double
begin

text \<open>
  \<^verbatim>\<open>metrics/latency_tracker.h\<close>: the log-linear latency histogram.  Samples, counters and
  bucket numbers are 64-bit words; the rank of a percentile is computed in double
  arithmetic (\<open>Ieee_Double\<close>).
\<close>

definition SUB_BITS :: nat where "SUB_BITS = 6"
definition SUB_COUNT :: "64 word" where "SUB_COUNT = push_bit SUB_BITS 1"
definition MAX_BITS :: nat where "MAX_BITS = 42"
definition NUM_BINS :: nat where "NUM_BINS = unat SUB_COUNT + (MAX_BITS - SUB_BITS) * unat SUB_COUNT"

record latency_tracker =
  lt_bins :: "64 word list"
  lt_count :: "64 word"
  lt_sum :: "64 word"
  lt_max :: "64 word"
  lt_min :: "64 word"

definition new_tracker :: latency_tracker where
  "new_tracker = \<lparr>lt_bins = replicate NUM_BINS 0, lt_count = 0, lt_sum = 0, lt_max = 0, lt_min = - 1\<rparr>"

text \<open>\<^verbatim>\<open>std::bit_width\<close>.\<close>

definition bit_width :: "64 word \<Rightarrow> nat" where
  "bit_width v = floorlog 2 (unat v)"

definition bucket_index :: "64 word \<Rightarrow> 64 word" where
  "bucket_index v = (if v < SUB_COUNT then v
     else let msb = (of_nat (bit_width v) :: 32 word) - 1;
              shift = msb - of_nat SUB_BITS;
              sub = drop_bit (unat shift) v - SUB_COUNT
          in SUB_COUNT * ucast (shift + 1) + sub)"

definition bucket_upper :: "64 word \<Rightarrow> 64 word" where
  "bucket_upper idx = (if idx < SUB_COUNT then idx
     else let oct = idx div SUB_COUNT - 1; sub = idx mod SUB_COUNT
          in push_bit (unat oct) (SUB_COUNT + sub + 1) - 1)"

definition clamp_index :: "64 word \<Rightarrow> nat" where
  "clamp_index idx = (if unat idx \<ge> NUM_BINS then NUM_BINS - 1 else unat idx)"

definition lt_record :: "64 word \<Rightarrow> latency_tracker \<Rightarrow> latency_tracker" where
  "lt_record ns t = (let i = clamp_index (bucket_index ns) in
     t\<lparr>lt_bins := (lt_bins t)[i := lt_bins t ! i + 1],
       lt_count := lt_count t + 1, lt_sum := lt_sum t + ns,
       lt_max := (if ns > lt_max t then ns else lt_max t),
       lt_min := (if ns < lt_min t then ns else lt_min t)\<rparr>)"

text \<open>
  The rank \<^verbatim>\<open>(pct / 100.0) * count + 0.5\<close> truncated to an integer.  A result that is not
  a finite double in the range of the integer type is undefined in the source.
\<close>

definition percentile_target :: "dbl \<Rightarrow> 64 word \<Rightarrow> 64 word option" where
  "percentile_target pct count =
     (case dadd (dmul (ddiv pct (Fin 100)) (dbl_of_int (uint count))) (Fin (1 / 2)) of
        Fin x \<Rightarrow> let t = trunc_int x in if 0 \<le> t \<and> t < 2 ^ 64 then Some (of_int t) else None
      | _ \<Rightarrow> None)"

fun percentile_scan :: "64 word list \<Rightarrow> nat \<Rightarrow> 64 word \<Rightarrow> 64 word \<Rightarrow> 64 word option" where
  "percentile_scan [] i cumulative target = None"
| "percentile_scan (b # bs) i cumulative target =
     (let c = cumulative + b in if c \<ge> target then Some (bucket_upper (of_nat i)) else percentile_scan bs (Suc i) c target)"

definition percentile :: "dbl \<Rightarrow> latency_tracker \<Rightarrow> 64 word option" where
  "percentile pct t = (if lt_count t = 0 then Some 0
     else do {
       target \<leftarrow> percentile_target pct (lt_count t);
       Some (case percentile_scan (lt_bins t) 0 0 target of Some v \<Rightarrow> v | None \<Rightarrow> lt_max t) })"

definition p50 :: "latency_tracker \<Rightarrow> 64 word option" where "p50 = percentile (Fin 50)"
definition p95 :: "latency_tracker \<Rightarrow> 64 word option" where "p95 = percentile (Fin 95)"
definition p99 :: "latency_tracker \<Rightarrow> 64 word option" where "p99 = percentile (Fin 99)"
definition p999 :: "latency_tracker \<Rightarrow> 64 word option" where "p999 = percentile (round_dbl (999 / 10))"

definition lt_maximum :: "latency_tracker \<Rightarrow> 64 word" where "lt_maximum t = lt_max t"
definition lt_minimum :: "latency_tracker \<Rightarrow> 64 word" where "lt_minimum t = (if lt_count t \<noteq> 0 then lt_min t else 0)"
definition lt_samples :: "latency_tracker \<Rightarrow> 64 word" where "lt_samples t = lt_count t"
definition lt_mean :: "latency_tracker \<Rightarrow> 64 word" where
  "lt_mean t = (if lt_count t \<noteq> 0 then lt_sum t div lt_count t else 0)"

definition lt_reset :: "latency_tracker \<Rightarrow> latency_tracker" where
  "lt_reset t = \<lparr>lt_bins = replicate (length (lt_bins t)) 0, lt_count = 0, lt_sum = 0, lt_max = 0, lt_min = - 1\<rparr>"

section \<open>Buckets\<close>

lemma sub_count_unat [simp]: "unat SUB_COUNT = 64" "SUB_COUNT = 64"
  by (simp_all add: SUB_COUNT_def SUB_BITS_def)

lemma num_bins [simp]: "NUM_BINS = 2368"
  by (simp add: NUM_BINS_def MAX_BITS_def SUB_BITS_def)

lemma word_of_unat: "unat w = n \<Longrightarrow> w = of_nat n"
  by auto

lemma bit_width_bounds:
  assumes "v \<noteq> 0"
  shows "2 ^ (bit_width v - 1) \<le> unat v" "unat v < 2 ^ bit_width v" "1 \<le> bit_width v" "bit_width v \<le> 64"
proof -
  have v: "0 < unat v" using assms by (simp add: unat_gt_0)
  show "2 ^ (bit_width v - 1) \<le> unat v" "unat v < 2 ^ bit_width v"
    using floorlog_bounds [OF v, of 2] by (auto simp: bit_width_def)
  show "1 \<le> bit_width v" using v by (simp add: bit_width_def floorlog_def)
  have "unat v < 2 ^ 64" using unsigned_less [of v, where ?'a = nat] by simp
  then show "bit_width v \<le> 64" unfolding bit_width_def by (intro floorlog_leI) simp_all
qed

text \<open>
  The bucket of a value of at least 64: with \<open>s\<close> = number of low bits dropped, the value
  lies in \<open>[(64 + j) * 2 ^ s, (64 + j + 1) * 2 ^ s)\<close> for the sub-bucket \<open>j < 64\<close>.
\<close>

lemma bucket_index_large:
  assumes "64 \<le> unat v"
  defines "s \<equiv> bit_width v - 7"
  shows "unat (bucket_index v) = 64 * (s + 1) + (unat v div 2 ^ s - 64)"
    and "64 \<le> unat v div 2 ^ s" "unat v div 2 ^ s < 128" "s \<le> 57" "bit_width v = s + 7"
proof -
  have v: "v \<noteq> 0" using assms(1) by auto
  note bw = bit_width_bounds [OF v]
  have "\<not> bit_width v \<le> 6"
  proof
    assume "bit_width v \<le> 6"
    then have "(2::nat) ^ bit_width v \<le> 2 ^ 6" by (intro power_increasing) simp_all
    then show False using bw(2) assms(1) by simp
  qed
  then show w: "bit_width v = s + 7" by (simp add: s_def)
  show s57: "s \<le> 57" using w bw(4) by simp
  have "64 * 2 ^ s \<le> unat v" using bw(1) w by (simp add: power_add)
  then show lo: "64 \<le> unat v div 2 ^ s" by (simp add: less_eq_div_iff_mult_less_eq)
  have "unat v < 128 * 2 ^ s" using bw(2) w by (simp add: power_add)
  then show hi: "unat v div 2 ^ s < 128" by (simp add: div_less_iff_less_mult)
  have sh: "(of_nat (bit_width v) :: 32 word) - 1 - of_nat SUB_BITS = of_nat s"
    by (simp add: w SUB_BITS_def)
  have us: "unat (of_nat s :: 32 word) = s" using s57 by (intro unat_of_nat_small) simp
  have uc: "ucast ((of_nat s :: 32 word) + 1) = (of_nat (s + 1) :: 64 word)"
  proof -
    have "(of_nat s :: 32 word) + 1 = of_nat (s + 1)" by simp
    moreover have "unat (of_nat (s + 1) :: 32 word) = s + 1" using s57 by (intro unat_of_nat_small) simp
    ultimately have "unat ((of_nat s :: 32 word) + 1) = s + 1" by (simp only:)
    moreover have "ucast w = (of_nat (unat w) :: 64 word)" for w :: "32 word" by simp
    ultimately show ?thesis by (simp only:)
  qed
  have drop: "unat (drop_bit s v) = unat v div 2 ^ s" 
  proof -
    have "take_bit 64 (unat v) = unat v" using unsigned_less [of v, where ?'a = nat] by (intro take_bit_nat_eq_self) simp
    then show ?thesis by (subst unsigned_drop_bit_eq) (simp add: drop_bit_eq_div)
  qed
  have "unat (drop_bit s v - 64) = unat v div 2 ^ s - 64"
    using lo drop by (subst unat_sub) (simp_all add: word_le_nat_alt)
  then have sub: "drop_bit s v - 64 = of_nat (unat v div 2 ^ s - 64)" by (rule word_of_unat)
  have "\<not> v < SUB_COUNT" using assms(1) by (simp add: word_less_nat_alt)
  then have "bucket_index v = of_nat (64 * (s + 1) + (unat v div 2 ^ s - 64))"
    unfolding bucket_index_def Let_def sh us uc using sub by simp
  then show "unat (bucket_index v) = 64 * (s + 1) + (unat v div 2 ^ s - 64)"
    using s57 hi by (simp only:) (rule unat_of_nat_small, simp)
qed


lemma unat_numeral_64: "unat (64 :: 64 word) = 64"
  by simp

lemma bucket_index_small: "unat v < 64 \<Longrightarrow> bucket_index v = v"
  by (simp add: bucket_index_def word_less_nat_alt)

lemma bucket_upper_large:
  assumes "s \<le> 35" "j < 64"
  shows "unat (bucket_upper (of_nat (64 * (s + 1) + j))) = (64 + j + 1) * 2 ^ s - 1"
proof -
  let ?i = "64 * (s + 1) + j"
  let ?w = "of_nat ?i :: 64 word"
  have i: "unat ?w = ?i" using assms by (intro unat_of_nat_small) simp
  have dm: "?w div 64 = of_nat (s + 1)" "?w mod 64 = of_nat j"
  proof -
    have "?i div 64 = s + 1" using assms(2) by simp
    moreover have "?i mod 64 = j" using assms(2) by (simp only: mod_mult_self4 mod_less)
    ultimately have "?i div 64 = s + 1" "?i mod 64 = j" .
    then have "unat (?w div 64) = s + 1" "unat (?w mod 64) = j" by (simp_all only: unat_div unat_mod i unat_numeral_64)
    from this [THEN word_of_unat] show "?w div 64 = of_nat (s + 1)" "?w mod 64 = of_nat j" .
  qed
  have "\<not> ?w < SUB_COUNT" using i by (simp add: word_less_nat_alt del: of_nat_add of_nat_mult)
  then have "bucket_upper ?w = push_bit (unat (?w div 64 - 1)) (64 + ?w mod 64 + 1) - 1"
    by (simp only: bucket_upper_def Let_def sub_count_unat(2) if_False)
  moreover have "?w div 64 - 1 = of_nat s" "64 + ?w mod 64 + 1 = of_nat (64 + j + 1)"
    unfolding dm by simp_all
  moreover have "unat (of_nat s :: 64 word) = s" using assms(1) by (intro unat_of_nat_small) simp
  ultimately have u: "bucket_upper ?w = push_bit s (of_nat (64 + j + 1)) - 1" by (simp only:)
  have lt: "(64 + j + 1) * 2 ^ s \<le> 2 ^ 42"
  proof -
    have "(64 + j + 1) * 2 ^ s \<le> 128 * 2 ^ (35::nat)" using assms by (intro mult_mono power_increasing) simp_all
    then show ?thesis by simp
  qed
  have "push_bit s (of_nat (64 + j + 1) :: 64 word) = of_nat ((64 + j + 1) * 2 ^ s)"
    by (simp add: push_bit_eq_mult)
  moreover have "unat (of_nat ((64 + j + 1) * 2 ^ s) :: 64 word) = (64 + j + 1) * 2 ^ s"
    using lt by (intro unat_of_nat_small) simp
  ultimately have p: "unat (push_bit s (of_nat (64 + j + 1) :: 64 word)) = (64 + j + 1) * 2 ^ s" by simp
  then have "1 \<le> push_bit s (of_nat (64 + j + 1) :: 64 word)" by (simp add: word_le_nat_alt)
  then show ?thesis unfolding u using p by (simp add: unat_sub)
qed


lemma bit_width_mono: "unat v \<le> unat w \<Longrightarrow> bit_width v \<le> bit_width w"
  by (simp add: bit_width_def floorlog_mono)

lemma bucket_index_mono:
  assumes "unat v \<le> unat w"
  shows "unat (bucket_index v) \<le> unat (bucket_index w)"
proof -
  consider "unat w < 64" | "unat v < 64" "64 \<le> unat w" | "64 \<le> unat v" "64 \<le> unat w" using assms by linarith
  then show ?thesis
  proof cases
    case 1
    then show ?thesis using assms by (simp add: bucket_index_small)
  next
    case 2
    then show ?thesis using bucket_index_large(1) [OF 2(2)] by (simp add: bucket_index_small)
  next
    case 3
    note bv = bucket_index_large [OF 3(1)] and bw = bucket_index_large [OF 3(2)]
    let ?s = "bit_width v - 7" and ?t = "bit_width w - 7"
    have "?s \<le> ?t" using bit_width_mono [OF assms] by simp
    then consider "?s = ?t" | "?s + 1 \<le> ?t" by linarith
    then show ?thesis
    proof cases
      case 1
      then have "unat v div 2 ^ ?s \<le> unat w div 2 ^ ?t" using assms by (simp add: div_le_mono)
      then show ?thesis unfolding bv(1) bw(1) using 1 by (simp add: diff_le_mono)
    next
      case 2
      then have "64 * (?s + 1) + 64 \<le> 64 * (?t + 1)" by simp
      then show ?thesis unfolding bv(1) bw(1) using bv(3) by linarith
    qed
  qed
qed

text \<open>The tracked range: values below \<open>2 ^ 42\<close> get a bucket of their own, all others the last one.\<close>

lemma octave_bound:
  assumes "64 \<le> q" "q < 128"
  shows "s \<le> 35 \<longleftrightarrow> 64 * (s + 1) + (q - 64) < (2368::nat)"
proof -
  have "q - 64 < 64" using assms by simp
  then show ?thesis by (intro iffI) simp_all
qed

lemma bucket_index_range: "unat (bucket_index v) < NUM_BINS \<longleftrightarrow> unat v < 2 ^ 42"
proof (cases "unat v < 64")
  case True
  then show ?thesis by (simp add: bucket_index_small)
next
  case False
  then have v: "64 \<le> unat v" by simp
  note b = bucket_index_large [OF v]
  have nz: "v \<noteq> 0" using v by auto
  have "unat v < 2 ^ 42 \<longleftrightarrow> bit_width v \<le> 42"
    by (simp add: bit_width_def floorlog_le_iff)
  also have "\<dots> \<longleftrightarrow> bit_width v - 7 \<le> 35" using b(5) by linarith
  also have "\<dots> \<longleftrightarrow> unat (bucket_index v) < NUM_BINS" unfolding b(1) num_bins by (rule octave_bound [OF b(2,3)])
  finally show ?thesis by simp
qed

lemma bucket_upper_exact: "m < 64 \<Longrightarrow> unat (bucket_upper (of_nat m)) = m"
proof -
  assume m: "m < 64"
  then have "unat (of_nat m :: 64 word) = m" by (intro unat_of_nat_small) simp
  then show ?thesis using m by (simp add: bucket_upper_def word_less_nat_alt)
qed

lemma bucket_upper_split:
  assumes "64 \<le> m" "m < NUM_BINS"
  obtains s j where "m = 64 * (s + 1) + j" "j < 64" "unat (bucket_upper (of_nat m)) = (64 + j + 1) * 2 ^ s - 1"
proof -
  define s j where "s = m div 64 - 1" and "j = m mod 64"
  have "1 \<le> m div 64" "m div 64 < 37" using assms by simp_all
  then have m: "m = 64 * (s + 1) + j" "s \<le> 35" "j < 64"
    using div_mult_mod_eq [of m 64] by (simp_all add: s_def j_def)
  then show thesis using bucket_upper_large [OF m(2,3)] by (intro that [of s j]) simp_all
qed

lemma bucket_bound_mono:
  assumes "64 * (s + 1) + j \<le> 64 * (s' + 1) + j'" "j < 64" "j' < 64"
  shows "(64 + j + 1) * 2 ^ s \<le> (64 + j' + 1) * (2::nat) ^ s'"
proof (cases "s = s'")
  case False
  then have "s + 1 \<le> s'" using assms by arith
  then have "(2::nat) ^ (s + 1) \<le> 2 ^ s'" by (intro power_increasing) simp_all
  then have "128 * 2 ^ s \<le> 64 * (2::nat) ^ s'" by simp
  moreover have "(64 + j + 1) * 2 ^ s \<le> 128 * (2::nat) ^ s" using assms(2) by (intro mult_right_mono) simp_all
  moreover have "64 * 2 ^ s' \<le> (64 + j' + 1) * (2::nat) ^ s'" by (intro mult_right_mono) simp_all
  ultimately show ?thesis by linarith
qed (use assms in simp)

lemma bucket_upper_mono:
  assumes "i \<le> k" "k < NUM_BINS"
  shows "unat (bucket_upper (of_nat i)) \<le> unat (bucket_upper (of_nat k))"
proof (cases "k < 64")
  case k: False
  obtain s' j' where k': "k = 64 * (s' + 1) + j'" "j' < 64" "unat (bucket_upper (of_nat k)) = (64 + j' + 1) * 2 ^ s' - 1"
    by (rule bucket_upper_split [of k]) (use k assms in auto)
  show ?thesis
  proof (cases "i < 64")
    case True
    have "65 * 1 \<le> (64 + j' + 1) * (2::nat) ^ s'" by (intro mult_mono) simp_all
    then show ?thesis using True k'(3) by (simp add: bucket_upper_exact)
  next
    case False
    then have large: "64 \<le> i" "i < NUM_BINS" using assms by simp_all
    obtain s j where "i = 64 * (s + 1) + j" "j < 64" "unat (bucket_upper (of_nat i)) = (64 + j + 1) * 2 ^ s - 1"
      by (rule bucket_upper_split [OF large])
    then show ?thesis using bucket_bound_mono [of s j s' j'] assms(1) k' by (simp add: diff_le_mono)
  qed
qed (use assms in \<open>simp add: bucket_upper_exact\<close>)

section \<open>The histogram of a list of samples\<close>

definition bin_of :: "64 word \<Rightarrow> nat" where
  "bin_of ns = clamp_index (bucket_index ns)"

definition recorded :: "64 word list \<Rightarrow> latency_tracker" where
  "recorded xs = fold lt_record xs new_tracker"

definition bin_count :: "64 word list \<Rightarrow> nat \<Rightarrow> nat" where
  "bin_count xs i = length (filter (\<lambda>x. bin_of x = i) xs)"

definition tracker_rep :: "latency_tracker \<Rightarrow> 64 word list \<Rightarrow> bool" where
  "tracker_rep t xs \<longleftrightarrow> lt_bins t = map (\<lambda>i. of_nat (bin_count xs i)) [0..<NUM_BINS] \<and>
     lt_count t = of_nat (length xs) \<and> lt_sum t = sum_list xs \<and>
     lt_max t = fold max xs 0 \<and> lt_min t = fold min xs (- 1)"

lemma bin_of_less: "bin_of ns < NUM_BINS"
  by (simp add: bin_of_def clamp_index_def)

lemma new_tracker_rep: "tracker_rep new_tracker []"
  by (simp add: tracker_rep_def new_tracker_def bin_count_def map_replicate_const)

lemma lt_record_rep:
  assumes "tracker_rep t xs"
  shows "tracker_rep (lt_record x t) (xs @ [x])"
proof -
  have b: "lt_bins t = map (\<lambda>i. of_nat (bin_count xs i)) [0..<NUM_BINS]" using assms by (simp only: tracker_rep_def)
  have "(lt_bins t)[bin_of x := lt_bins t ! bin_of x + 1] = map (\<lambda>i. of_nat (bin_count (xs @ [x]) i)) [0..<NUM_BINS]"
    unfolding b using bin_of_less [of x]
    by (intro nth_equalityI) (auto simp: nth_list_update bin_count_def simp del: num_bins)
  moreover have "(if x > lt_max t then x else lt_max t) = max x (lt_max t)"
    "(if x < lt_min t then x else lt_min t) = min x (lt_min t)" by (auto simp: max_def min_def)
  ultimately show ?thesis
    using assms by (simp add: tracker_rep_def lt_record_def Let_def bin_of_def)
qed

lemma recorded_rep: "tracker_rep (recorded xs) xs"
proof (induction xs rule: rev_induct)
  case Nil
  then show ?case by (simp add: recorded_def new_tracker_rep)
next
  case (snoc x xs)
  then show ?case using lt_record_rep [OF snoc] by (simp add: recorded_def)
qed

text \<open>Cumulative counts.\<close>

lemma bin_count_sum: "sum_list (map (bin_count xs) [0..<m]) = length (filter (\<lambda>x. bin_of x < m) xs)"
proof (induction m)
  case (Suc m)
  have "length (filter (\<lambda>x. bin_of x < Suc m) xs) = length (filter (\<lambda>x. bin_of x < m) xs) + bin_count xs m"
    by (induction xs) (auto simp: bin_count_def less_Suc_eq)
  then show ?case using Suc by simp
qed simp

lemma percentile_scan_finds:
  assumes "ns \<noteq> []" "C + sum_list ns < 2 ^ 64" "unat T \<le> C + sum_list ns"
  shows "\<exists>k < length ns. percentile_scan (map of_nat ns) i (of_nat C) T = Some (bucket_upper (of_nat (i + k))) \<and>
    unat T \<le> C + sum_list (take (Suc k) ns) \<and> (k = 0 \<or> C + sum_list (take k ns) < unat T)"
  using assms
proof (induction ns arbitrary: C i)
  case (Cons b ns)
  have c: "unat (of_nat (C + b) :: 64 word) = C + b" using Cons.prems(2) by (intro unat_of_nat_small) simp
  have sum: "(of_nat C :: 64 word) + of_nat b = of_nat (C + b)" by simp
  show ?case
  proof (cases "unat T \<le> C + b")
    case True
    then have "T \<le> of_nat (C + b)" using c by (simp add: word_le_nat_alt del: of_nat_add)
    then show ?thesis using True by (intro exI [of _ 0]) (simp add: Let_def)
  next
    case False
    then have le: "\<not> T \<le> of_nat (C + b)" using c by (simp add: word_le_nat_alt del: of_nat_add)
    have "ns \<noteq> []" using False Cons.prems(3) by auto
    then obtain k where k: "k < length ns" "percentile_scan (map of_nat ns) (Suc i) (of_nat (C + b)) T = Some (bucket_upper (of_nat (Suc i + k)))"
        "unat T \<le> C + b + sum_list (take (Suc k) ns)" "k = 0 \<or> C + b + sum_list (take k ns) < unat T"
      using Cons.IH [of "C + b" "Suc i"] Cons.prems by auto
    have "percentile_scan (map of_nat (b # ns)) i (of_nat C) T = percentile_scan (map of_nat ns) (Suc i) (of_nat (C + b)) T"
      using le by (simp only: list.map percentile_scan.simps Let_def sum if_False)
    moreover have "C + sum_list (take (Suc k) (b # ns)) < unat T"
      using k(4) False by (cases "k = 0") (simp_all add: add.assoc)
    moreover have "Suc k < length (b # ns)" "unat T \<le> C + sum_list (take (Suc (Suc k)) (b # ns))" "Suc i + k = i + Suc k"
      using k(1,3) by (simp_all add: add.assoc)
    ultimately show ?thesis using k(2) by (intro exI [of _ "Suc k"] conjI disjI2) (simp_all only:)
  qed
qed simp

lemma bucket_upper_bound:
  assumes "unat v < 2 ^ 42"
  shows "unat v \<le> unat (bucket_upper (bucket_index v)) \<and>
    64 * (unat (bucket_upper (bucket_index v)) - unat v) \<le> unat v \<and>
    (unat v < 64 \<longrightarrow> bucket_upper (bucket_index v) = v) \<and> unat (bucket_index v) < NUM_BINS"
proof (cases "unat v < 64")
  case True
  then show ?thesis by (simp add: bucket_index_small bucket_upper_def word_less_nat_alt)
next
  case False
  then have v: "64 \<le> unat v" by simp
  define s where "s = bit_width v - 7"
  define j where "j = unat v div 2 ^ s - 64"
  note b = bucket_index_large [OF v, folded s_def]
  have s35: "s \<le> 35" using bucket_index_range [of v] assms b(1) by simp
  have j: "j < 64" "unat v div 2 ^ s = 64 + j" using b(2,3) by (auto simp: j_def)
  have "bucket_index v = of_nat (64 * (s + 1) + j)" using b(1) by (intro word_of_unat) (simp add: j_def)
  then have u: "unat (bucket_upper (bucket_index v)) = (64 + j + 1) * 2 ^ s - 1"
    using bucket_upper_large [OF s35 j(1)] by (simp only:)
  have split: "unat v = (64 + j) * 2 ^ s + unat v mod 2 ^ s" using div_mult_mod_eq [of "unat v" "2 ^ s"] j(2) by simp
  have r: "unat v mod 2 ^ s < 2 ^ s" by simp
  have up: "(64 + j + 1) * 2 ^ s = (64 + j) * 2 ^ s + 2 ^ s" by (simp add: algebra_simps)
  have "unat v < (64 + j + 1) * 2 ^ s" using split r up by linarith
  then have le: "unat v \<le> (64 + j + 1) * 2 ^ s - 1" by simp
  have "(64 + j + 1) * 2 ^ s - 1 - unat v \<le> 2 ^ s" using split up by linarith
  then have "64 * ((64 + j + 1) * 2 ^ s - 1 - unat v) \<le> 64 * 2 ^ s" by simp
  also have "\<dots> \<le> unat v" using split by (simp add: algebra_simps)
  finally show ?thesis using le u False bucket_index_range [of v] assms by simp
qed

section \<open>Ranks\<close>

text \<open>The rank computed in double arithmetic is the exact rank \<open>p * n / 100\<close> to within one.\<close>

text \<open>
  The rank is computed with three roundings, each off by at most \<open>2 ^ -13\<close>; then the sum is
  truncated.
\<close>

lemma percentile_rank_rounded:
  assumes "0 \<le> p" "p \<le> 100" "n < 2 ^ 40"
  obtains a b y where "round_dbl (p / 100) = Fin a" "round_dbl (a * of_nat n) = Fin b" "round_dbl (b + 1 / 2) = Fin y"
    "\<bar>y - (p / 100 * of_nat n + 1 / 2)\<bar> \<le> 3 / 8192" "0 \<le> p / 100 * of_nat n" "p / 100 * of_nat n \<le> of_nat n"
proof -
  let ?n = "of_nat n :: rat"
  have n: "0 \<le> ?n" "?n < 2 ^ 40" using assms(3) of_nat_less_iff [of n "2 ^ 40", where ?'a = rat] by simp_all
  obtain a where a: "round_dbl (p / 100) = Fin a" "\<bar>a - p / 100\<bar> \<le> 2 ^ 1 / 2 ^ 54"
    by (rule dbl_fin_error [where k = 1 and x = "p / 100"]) (use assms in simp_all)
  have "\<bar>a * ?n - p / 100 * ?n\<bar> = \<bar>a - p / 100\<bar> * ?n" 
    using n(1) by (simp only: abs_mult left_diff_distrib [symmetric] abs_of_nonneg)
  also have "\<dots> \<le> 2 ^ 1 / 2 ^ 54 * 2 ^ 40" using a(2) n by (intro mult_mono) simp_all
  finally have an: "\<bar>a * ?n - p / 100 * ?n\<bar> \<le> 1 / 8192" by simp
  have pn: "0 \<le> p / 100 * ?n" "p / 100 * ?n \<le> ?n" 
    using assms(1,2) n(1) mult_right_mono [of p 100 ?n] by (simp_all add: mult.commute)
  have n': "?n < 1099511627776" using n(2) by simp
  have "\<bar>a * ?n\<bar> < 2199023255552" using an pn n' unfolding abs_le_iff abs_less_iff by linarith
  then have "\<bar>a * ?n\<bar> < 2 ^ 41" by simp
  then obtain b where b: "round_dbl (a * ?n) = Fin b" "\<bar>b - a * ?n\<bar> \<le> 2 ^ 41 / 2 ^ 54"
    by (rule dbl_fin_error) simp_all
  then have b': "\<bar>b - a * ?n\<bar> \<le> 1 / 8192" by simp
  have "\<bar>b + 1 / 2\<bar> < 2199023255552" using an pn n' b' unfolding abs_le_iff abs_less_iff by linarith
  then have "\<bar>b + 1 / 2\<bar> < 2 ^ 41" by simp
  then obtain y where y: "round_dbl (b + 1 / 2) = Fin y" "\<bar>y - (b + 1 / 2)\<bar> \<le> 2 ^ 41 / 2 ^ 54"
    by (rule dbl_fin_error) simp_all
  then have y': "\<bar>y - (b + 1 / 2)\<bar> \<le> 1 / 8192" by simp
  have "\<bar>y - (p / 100 * ?n + 1 / 2)\<bar> \<le> 3 / 8192" using an b' y' unfolding abs_le_iff by linarith
  then show thesis using that a(1) b(1) y(1) pn by blast
qed

lemma percentile_target_near:
  assumes "0 \<le> p" "p \<le> 100" "n < 2 ^ 40"
  obtains t where "percentile_target (Fin p) (of_nat n) = Some t" "unat t \<le> n"
    "\<bar>of_nat (unat t) - p * of_nat n / 100\<bar> < 1"
proof -
  let ?n = "of_nat n :: rat"
  have un: "uint (of_nat n :: 64 word) = int n" using assms(3) by (simp add: uint_nat unat_of_nat_small)
  have dn: "dbl_of_int (int n) = Fin ?n" using assms(3) by (subst dbl_of_int_exact) simp_all
  obtain a b y where r: "round_dbl (p / 100) = Fin a" "round_dbl (a * ?n) = Fin b" "round_dbl (b + 1 / 2) = Fin y"
    and near: "\<bar>y - (p / 100 * ?n + 1 / 2)\<bar> \<le> 3 / 8192" and pn: "0 \<le> p / 100 * ?n" "p / 100 * ?n \<le> ?n"
    by (rule percentile_rank_rounded [OF assms])
  have f: "trunc_int y = \<lfloor>y\<rfloor>" "0 \<le> \<lfloor>y\<rfloor>" 
    using near pn(1) unfolding abs_le_iff by (simp_all add: trunc_int_def)
  have "y < ?n + 1" using near pn(2) unfolding abs_le_iff by linarith
  then have "\<lfloor>y\<rfloor> < int n + 1" by (simp only: floor_less_iff of_int_add of_int_of_nat_eq of_int_1)
  then have le: "\<lfloor>y\<rfloor> \<le> int n" by simp
  define t where "t = (of_int \<lfloor>y\<rfloor> :: 64 word)"
  have "int n < 2 ^ 64" using assms(3) by simp
  with le have lt: "\<lfloor>y\<rfloor> < 2 ^ 64" by (rule le_less_trans)
  then have "nat \<lfloor>y\<rfloor> < 2 ^ 64" using f(2) by (simp only: nat_less_iff) simp
  then have "unat (of_nat (nat \<lfloor>y\<rfloor>) :: 64 word) = nat \<lfloor>y\<rfloor>" by (intro unat_of_nat_small) simp
  moreover have "t = of_nat (nat \<lfloor>y\<rfloor>)" using f(2) by (simp add: t_def)
  ultimately have ut: "unat t = nat \<lfloor>y\<rfloor>" by simp
  show ?thesis
  proof (rule that)
    show "percentile_target (Fin p) (of_nat n) = Some t"
      using lt r f by (simp add: percentile_target_def un dn t_def)
    show "unat t \<le> n" using ut le by simp
    have "(of_nat (unat t) :: rat) = of_int \<lfloor>y\<rfloor>" using ut f(2) by simp
    then show "\<bar>of_nat (unat t) - p * ?n / 100\<bar> < 1"
      using near floor_correct [of y] unfolding abs_le_iff abs_less_iff by linarith
  qed
qed

text \<open>The rank is defined for any number of samples, as long as the percentile stays below 100.\<close>

lemma percentile_target_defined:
  assumes "0 \<le> p" "p \<le> 9995 / 100"
  shows "\<exists>t. percentile_target (Fin p) n = Some t"
proof -
  define N :: rat where "N = of_int (uint n)"
  have n: "0 \<le> uint n" "uint n < 2 ^ 64" using uint_lt2p [of n] by simp_all
  have N: "0 \<le> N" "N < 2 ^ 64"
    unfolding N_def using n of_int_0_le_iff [of "uint n", where ?'a = rat] of_int_less_iff [of "uint n" "2 ^ 64", where ?'a = rat]
    by (simp_all del: of_int_0_le_iff)
  obtain a where a: "round_dbl (p / 100) = Fin a" "0 \<le> a" "a \<le> p / 100 + 2 ^ 1 / 2 ^ 54"
    by (rule dbl_fin_nonneg [of "p / 100" 1]) (use assms in simp_all)
  obtain m where m: "round_dbl N = Fin m" "0 \<le> m" "m \<le> N + 2 ^ 64 / 2 ^ 54"
    by (rule dbl_fin_nonneg [of N 64]) (use N in simp_all)
  have "a \<le> 9996 / 10000" using a(3) assms(2) by simp
  then have "a * m \<le> 9996 / 10000 * (2 ^ 64 + 2 ^ 10)" using a(2) m(2,3) N(2) by (intro mult_mono) simp_all
  then have am: "0 \<le> a * m" "a * m < 2 ^ 64 - 2 ^ 12" using a(2) m(2) by simp_all
  obtain b where b: "round_dbl (a * m) = Fin b" "0 \<le> b" "b \<le> a * m + 2 ^ 64 / 2 ^ 54"
    by (rule dbl_fin_nonneg [of "a * m" 64]) (use am in simp_all)
  obtain y where y: "round_dbl (b + 1 / 2) = Fin y" "0 \<le> y" "y \<le> b + 1 / 2 + 2 ^ 64 / 2 ^ 54"
    by (rule dbl_fin_nonneg [of "b + 1 / 2" 64]) (use am b in simp_all)
  have "y < 2 ^ 64" using y(3) b(3) am(2) by simp
  then have "\<lfloor>y\<rfloor> < 2 ^ 64" by (simp add: floor_less_iff)
  moreover have "dbl_of_int (uint n) = Fin m" using m(1) by (simp only: dbl_of_int_def N_def)
  ultimately show ?thesis using y(1,2) a(1) b(1) by (simp add: percentile_target_def trunc_int_def)
qed

lemma length_filter_mono: "(\<And>x. x \<in> set xs \<Longrightarrow> P x \<Longrightarrow> Q x) \<Longrightarrow> length (filter P xs) \<le> length (filter Q xs)"
  by (induction xs) auto

lemma tracked_bin:
  assumes "unat x < 2 ^ 42"
  shows "bucket_index x = of_nat (bin_of x)" "x \<le> bucket_upper (of_nat (bin_of x))"
proof -
  have "bin_of x = unat (bucket_index x)" using bucket_upper_bound [OF assms] by (simp add: bin_of_def clamp_index_def)
  then show b: "bucket_index x = of_nat (bin_of x)" by simp
  show "x \<le> bucket_upper (of_nat (bin_of x))"
    using bucket_upper_bound [OF assms] unfolding b [symmetric] by (simp add: word_le_nat_alt)
qed

lemma percentile_bucket:
  assumes "length xs < 2 ^ 64" "unat T \<le> length xs"
  obtains k where "k < NUM_BINS" "percentile_scan (lt_bins (recorded xs)) 0 0 T = Some (bucket_upper (of_nat k))"
    "unat T \<le> length (filter (\<lambda>x. bin_of x \<le> k) xs)" "length (filter (\<lambda>x. bin_of x < k) xs) < max (unat T) 1"
proof -
  let ?ns = "map (bin_count xs) [0..<NUM_BINS]"
  have total: "sum_list ?ns = length xs" using bin_of_less by (simp add: bin_count_sum)
  have bins: "lt_bins (recorded xs) = map of_nat ?ns" using recorded_rep [of xs] by (simp add: tracker_rep_def)
  obtain k where k: "k < length ?ns" "percentile_scan (map of_nat ?ns) 0 (of_nat 0) T = Some (bucket_upper (of_nat (0 + k)))"
    "unat T \<le> 0 + sum_list (take (Suc k) ?ns)" "k = 0 \<or> 0 + sum_list (take k ?ns) < unat T"
    using percentile_scan_finds [of ?ns 0 T 0] assms total by (auto simp del: of_nat_0)
  have t: "sum_list (take m ?ns) = length (filter (\<lambda>x. bin_of x < m) xs)" if "m \<le> NUM_BINS" for m
    using that by (simp add: take_map bin_count_sum)
  show ?thesis
  proof (rule that)
    show "k < NUM_BINS" using k(1) by simp
    show "percentile_scan (lt_bins (recorded xs)) 0 0 T = Some (bucket_upper (of_nat k))" using k(2) bins by simp
    show "unat T \<le> length (filter (\<lambda>x. bin_of x \<le> k) xs)" using k(1,3) t [of "Suc k"] by (simp add: less_Suc_eq_le)
    show "length (filter (\<lambda>x. bin_of x < k) xs) < max (unat T) 1" using k(1,4) t [of k] by auto
  qed
qed

text \<open>A sample beyond the tracked range lands in the last bucket, whose upper bound is below it.\<close>

lemma overflow_bucket_below:
  assumes "2 ^ 42 \<le> unat v"
  shows "clamp_index (bucket_index v) = NUM_BINS - 1 \<and>
    unat (bucket_upper (of_nat (clamp_index (bucket_index v)))) = 2 ^ 42 - 1 \<and>
    unat (bucket_upper (of_nat (clamp_index (bucket_index v)))) < unat v"
proof -
  have c: "clamp_index (bucket_index v) = NUM_BINS - 1" using bucket_index_range [of v] assms by (simp add: clamp_index_def)
  have "unat (bucket_upper (of_nat (64 * (35 + 1) + 63))) = (64 + 63 + 1) * 2 ^ 35 - 1" by (rule bucket_upper_large) simp_all
  then show ?thesis using c assms by simp
qed

text \<open>
  C21: The histogram has a constant relative error on tracked values, those below
  \<open>2 ^ 42\<close>: the upper bound of the bucket of a value is not below the value and exceeds it by
  at most one 64th of it (values below 64 are exact), and the bucket number is inside the
  array.  A larger sample is counted in the last bucket, whose upper bound \<open>2 ^ 42 - 1\<close> is
  below the sample, although the comment of \<^verbatim>\<open>percentile\<close> promises an upper bound.
\<close>

theorem bucket_precision:
  "let b = unat (bucket_upper (of_nat (clamp_index (bucket_index v)))) in
   clamp_index (bucket_index v) < NUM_BINS \<and>
   (if unat v < 2 ^ 42 then unat v \<le> b \<and> 64 * (b - unat v) \<le> unat v \<and> (unat v < 64 \<longrightarrow> b = unat v)
    else clamp_index (bucket_index v) = NUM_BINS - 1 \<and> b = 2 ^ 42 - 1 \<and> b < unat v)"
proof (cases "unat v < 2 ^ 42")
  case True
  note b = bucket_upper_bound [OF True]
  have "clamp_index (bucket_index v) = unat (bucket_index v)" using b by (simp add: clamp_index_def)
  then show ?thesis using b True by (auto simp: Let_def)
next
  case False
  then show ?thesis using overflow_bucket_below [of v] by (auto simp: Let_def not_less)
qed

theorem bucket_precision_witness:
  "(1000 :: nat) \<le> unat (bucket_upper (of_nat (clamp_index (bucket_index 1000))))"
  using bucket_precision [of 1000] by (simp add: Let_def)

text \<open>
  C22: After recording any samples below \<open>2 ^ 42\<close> (up to \<open>2 ^ 40\<close> of them), the percentile
  query for \<open>0 \<le> p \<le> 100\<close> returns; its rank is the exact rank \<open>p / 100\<close> of the number of
  samples to within one, despite the double arithmetic; at least that many samples are not
  above the reported value, and fewer than that many (but at least one) are in lower buckets.
\<close>

theorem percentile_sound:
  assumes "xs \<noteq> []" "length xs < 2 ^ 40" "list_all (\<lambda>x. unat x < 2 ^ 42) xs" "0 \<le> p" "p \<le> 100"
  shows "\<exists>t v. percentile_target (Fin p) (of_nat (length xs)) = Some t \<and> percentile (Fin p) (recorded xs) = Some v \<and>
    \<bar>of_nat (unat t) - p * of_nat (length xs) / 100\<bar> < 1 \<and>
    unat t \<le> length (filter (\<lambda>x. x \<le> v) xs) \<and>
    length (filter (\<lambda>x. bucket_upper (bucket_index x) < v) xs) < max (unat t) 1"
proof -
  obtain t where t: "percentile_target (Fin p) (of_nat (length xs)) = Some t" "unat t \<le> length xs"
    "\<bar>of_nat (unat t) - p * of_nat (length xs) / 100\<bar> < 1"
    using percentile_target_near [OF assms(4,5,2)] .
  have len: "length xs < 2 ^ 64" using assms(2) by simp
  obtain k where k: "k < NUM_BINS" "percentile_scan (lt_bins (recorded xs)) 0 0 t = Some (bucket_upper (of_nat k))"
    "unat t \<le> length (filter (\<lambda>x. bin_of x \<le> k) xs)" "length (filter (\<lambda>x. bin_of x < k) xs) < max (unat t) 1"
    using percentile_bucket [OF len t(2)] .
  have small: "unat x < 2 ^ 42" if "x \<in> set xs" for x using that assms(3) by (simp add: list_all_iff)
  have "length (filter (\<lambda>x. bin_of x \<le> k) xs) \<le> length (filter (\<lambda>x. x \<le> bucket_upper (of_nat k)) xs)"
    by (rule length_filter_mono) (use tracked_bin(2) small bucket_upper_mono k(1) in \<open>meson order_trans word_le_nat_alt\<close>)
  moreover have "length (filter (\<lambda>x. bucket_upper (bucket_index x) < bucket_upper (of_nat k)) xs) \<le> length (filter (\<lambda>x. bin_of x < k) xs)"
    by (rule length_filter_mono)
      (use tracked_bin(1) small bucket_upper_mono [of k] bin_of_less in \<open>metis not_le word_le_nat_alt\<close>)
  moreover have "lt_count (recorded xs) = of_nat (length xs)" using recorded_rep [of xs] by (simp add: tracker_rep_def)
  moreover have "(of_nat (length xs) :: 64 word) \<noteq> 0"
  proof
    assume "(of_nat (length xs) :: 64 word) = 0"
    moreover have "unat (of_nat (length xs) :: 64 word) = length xs" using len by (intro unat_of_nat_small) simp
    ultimately show False using assms(1) by simp
  qed
  ultimately show ?thesis using t k by (intro exI [of _ t] exI [of _ "bucket_upper (of_nat k)"]) (simp add: percentile_def)
qed

theorem percentile_sound_witness:
  "\<exists>t v. percentile_target (Fin 50) (of_nat (length [10, 1000, 70 :: 64 word])) = Some t \<and>
    percentile (Fin 50) (recorded [10, 1000, 70]) = Some v \<and>
    unat t \<le> length (filter (\<lambda>x. x \<le> v) [10, 1000, 70])"
proof -
  have "list_all (\<lambda>x. unat x < 2 ^ 42) [10, 1000, 70 :: 64 word]" "length [10, 1000, 70 :: 64 word] < 2 ^ 40" by simp_all
  from percentile_sound [OF list.distinct(2) this(2,1), of 50] obtain t v where
    "percentile_target (Fin 50) (of_nat (length [10, 1000, 70 :: 64 word])) = Some t"
    "percentile (Fin 50) (recorded [10, 1000, 70]) = Some v"
    "unat t \<le> length (filter (\<lambda>x. x \<le> v) [10, 1000, 70])" by auto
  then show ?thesis by (intro exI conjI)
qed

end
