(* ===== verification/Metrics_Collector.thy ===== *)
theory Metrics_Collector
  imports Latency_Tracker Text_Format
begin

text \<open>
  \<^verbatim>\<open>metrics/metrics_collector.h\<close> and \<^verbatim>\<open>.cpp\<close>: two latency histograms and three counters,
  and the report printed at the end of a run.  A percentile whose rank computation is
  undefined makes the report undefined.
\<close>

record metrics =
  mc_match_latency :: latency_tracker
  mc_order_latency :: latency_tracker
  mc_total_orders :: "64 word"
  mc_total_matches :: "64 word"
  mc_dropped_samples :: "64 word"

definition new_metrics :: metrics where
  "new_metrics = \<lparr>mc_match_latency = new_tracker, mc_order_latency = new_tracker, mc_total_orders = 0,
     mc_total_matches = 0, mc_dropped_samples = 0\<rparr>"

definition record_match_latency :: "64 word \<Rightarrow> metrics \<Rightarrow> metrics" where
  "record_match_latency ns m = m\<lparr>mc_match_latency := lt_record ns (mc_match_latency m)\<rparr>"

definition record_order_latency :: "64 word \<Rightarrow> metrics \<Rightarrow> metrics" where
  "record_order_latency ns m = m\<lparr>mc_order_latency := lt_record ns (mc_order_latency m)\<rparr>"

definition increment_orders :: "metrics \<Rightarrow> metrics" where
  "increment_orders m = m\<lparr>mc_total_orders := mc_total_orders m + 1\<rparr>"

definition increment_matches :: "metrics \<Rightarrow> metrics" where
  "increment_matches m = m\<lparr>mc_total_matches := mc_total_matches m + 1\<rparr>"

definition note_dropped_samples :: "64 word \<Rightarrow> metrics \<Rightarrow> metrics" where
  "note_dropped_samples n m = m\<lparr>mc_dropped_samples := mc_dropped_samples m + n\<rparr>"

definition reset_metrics :: "metrics \<Rightarrow> metrics" where
  "reset_metrics m = \<lparr>mc_match_latency = lt_reset (mc_match_latency m), mc_order_latency = lt_reset (mc_order_latency m),
     mc_total_orders = 0, mc_total_matches = 0, mc_dropped_samples = 0\<rparr>"

definition match_latency :: "metrics \<Rightarrow> latency_tracker" where
  "match_latency m = mc_match_latency m"

definition order_latency :: "metrics \<Rightarrow> latency_tracker" where
  "order_latency m = mc_order_latency m"

definition total_orders :: "metrics \<Rightarrow> 64 word" where
  "total_orders m = mc_total_orders m"

definition total_matches :: "metrics \<Rightarrow> 64 word" where
  "total_matches m = mc_total_matches m"

definition dropped_samples :: "metrics \<Rightarrow> 64 word" where
  "dropped_samples m = mc_dropped_samples m"

section \<open>The report\<close>

definition line :: "string \<Rightarrow> string \<Rightarrow> string" where
  "line label value = label @ value @ ''\<newline>''"

definition print_tracker :: "string \<Rightarrow> latency_tracker \<Rightarrow> string option" where
  "print_tracker title t =
     (let head = line (''--- '' @ title) '' (ns) ---'' @ line ''  samples: '' (decu (lt_samples t)) in
      if lt_samples t = 0 then Some head
      else do {
        v50 \<leftarrow> p50 t; v95 \<leftarrow> p95 t; v99 \<leftarrow> p99 t; v999 \<leftarrow> p999 t;
        Some (head @
          line ''  min:     '' (setw 10 (decu (lt_minimum t))) @
          line ''  mean:    '' (setw 10 (decu (lt_mean t))) @
          line ''  p50:     '' (setw 10 (decu v50)) @
          line ''  p95:     '' (setw 10 (decu v95)) @
          line ''  p99:     '' (setw 10 (decu v99)) @
          line ''  p99.9:   '' (setw 10 (decu v999)) @
          line ''  max:     '' (setw 10 (decu (lt_maximum t)))) })"

definition summary :: "metrics \<Rightarrow> string option" where
  "summary m = do {
     match \<leftarrow> print_tracker ''Match latency: inside process()'' (mc_match_latency m);
     order \<leftarrow> print_tracker ''Order latency: ingest -> engine done'' (mc_order_latency m);
     Some (line ''========== Engine Metrics =========='' [] @
       line ''orders processed: '' (decu (mc_total_orders m)) @
       line ''fills generated:  '' (decu (mc_total_matches m)) @
       (if mc_dropped_samples m > 0 then line ''telemetry samples dropped (ring full): '' (decu (mc_dropped_samples m)) else []) @
       line [] [] @ match @ line [] [] @ order @
       line ''===================================='' []) }"

section \<open>Facts\<close>

lemma percentile_defined: "0 \<le> p \<Longrightarrow> p \<le> 9995 / 100 \<Longrightarrow> \<exists>v. percentile (Fin p) t = Some v"
  using percentile_target_defined [of p "lt_count t"] by (auto simp: percentile_def)

lemma p999_argument: "\<exists>p. round_dbl (999 / 10) = Fin p \<and> 0 \<le> p \<and> p \<le> 9995 / 100"
proof -
  have "\<bar>999 / 10 :: rat\<bar> < 2 ^ 7" by simp
  then obtain p where p: "round_dbl (999 / 10) = Fin p" "\<bar>p - 999 / 10\<bar> \<le> 2 ^ 7 / 2 ^ 54" by (rule dbl_fin_error) simp_all
  have "\<bar>p - 999 / 10\<bar> \<le> 1 / 100" using p(2) by (rule order_trans) simp
  then have "p - 999 / 10 \<le> 1 / 100" "999 / 10 - p \<le> 1 / 100" by linarith+
  then have "0 \<le> p" "p \<le> 9995 / 100" by simp_all
  then show ?thesis using p(1) by blast
qed

text \<open>The queries the program makes are defined in every state of a tracker, and so is the report.\<close>

lemma percentiles_defined [simp]:
  "\<exists>v. p50 t = Some v" "\<exists>v. p95 t = Some v" "\<exists>v. p99 t = Some v" "\<exists>v. p999 t = Some v"
  using p999_argument by (auto simp: p50_def p95_def p99_def p999_def percentile_defined)

lemma print_tracker_defined: "\<exists>s. print_tracker title t = Some s"
proof -
  obtain v50 v95 v99 v999 where "p50 t = Some v50" "p95 t = Some v95" "p99 t = Some v99" "p999 t = Some v999"
    using percentiles_defined by metis
  then show ?thesis by (simp add: print_tracker_def Let_def)
qed

lemma summary_defined: "\<exists>s. summary m = Some s"
  using print_tracker_defined [of "''Match latency: inside process()''" "mc_match_latency m"]
    print_tracker_defined [of "''Order latency: ingest -> engine done''" "mc_order_latency m"]
  by (auto simp: summary_def)

end
