(* ===== verification/Wire_Format.thy ===== *)
theory Wire_Format
  imports Core_Types
begin

text \<open>
  The object representation of the message structures, as the trade logger, the
  synthetic generator and the replay tool write and read it: little-endian fields at
  their natural alignment (the x86-64 ABI).  Padding bytes have unspecified contents;
  they are a parameter \<open>pad\<close>, a function of the offset.  A price is stored as a 64-bit
  two's complement number.
\<close>

type_synonym byte = "8 word"

fun bytes_le :: "nat \<Rightarrow> nat \<Rightarrow> byte list" where
  "bytes_le 0 n = []"
| "bytes_le (Suc k) n = of_nat (n mod 256) # bytes_le k (n div 256)"

fun le_nat :: "byte list \<Rightarrow> nat" where
  "le_nat [] = 0"
| "le_nat (b # bs) = unat b + 256 * le_nat bs"

definition price_bytes :: "Price \<Rightarrow> byte list" where
  "price_bytes p = bytes_le 8 (nat (p mod 2 ^ 64))"

definition price_of :: "byte list \<Rightarrow> Price" where
  "price_of bs = (let n = int (le_nat bs) in if n < 2 ^ 63 then n else n - 2 ^ 64)"

definition side_byte :: "Side \<Rightarrow> byte" where
  "side_byte sd = (case sd of Bid \<Rightarrow> 0 | Ask \<Rightarrow> 1)"

definition type_byte :: "OrderType \<Rightarrow> byte" where
  "type_byte t = (case t of Limit \<Rightarrow> 0 | Market \<Rightarrow> 1)"

text \<open>Reading a byte that is not the value of an enumerator gives no named value.\<close>

definition byte_side :: "byte \<Rightarrow> Side option" where
  "byte_side b = (if b = 0 then Some Bid else if b = 1 then Some Ask else None)"

definition byte_type :: "byte \<Rightarrow> OrderType option" where
  "byte_type b = (if b = 0 then Some Limit else if b = 1 then Some Market else None)"

definition word_at :: "nat \<Rightarrow> nat \<Rightarrow> byte list \<Rightarrow> 'a::len word" where
  "word_at off k bs = of_nat (le_nat (take k (drop off bs)))"

definition padding :: "(nat \<Rightarrow> byte) \<Rightarrow> nat \<Rightarrow> nat \<Rightarrow> byte list" where
  "padding pad first stop = map pad [first..<stop]"

section \<open>Layouts\<close>

definition fill_bytes :: "(nat \<Rightarrow> byte) \<Rightarrow> fill_message \<Rightarrow> byte list" where
  "fill_bytes pad f = bytes_le 8 (unat (f_aggressive_id f)) @ bytes_le 8 (unat (f_passive_id f)) @ price_bytes (f_price f) @
     bytes_le 4 (unat (f_quantity f)) @ padding pad 28 32 @ bytes_le 8 (unat (f_timestamp f)) @
     [side_byte (f_aggressor_side f)] @ padding pad 41 48"

definition bytes_fill :: "byte list \<Rightarrow> fill_message option" where
  "bytes_fill bs = (if length bs = 48 then do {
       sd \<leftarrow> byte_side (bs ! 40);
       Some \<lparr>f_aggressive_id = word_at 0 8 bs, f_passive_id = word_at 8 8 bs, f_price = price_of (take 8 (drop 16 bs)),
         f_quantity = word_at 24 4 bs, f_timestamp = word_at 32 8 bs, f_aggressor_side = sd\<rparr> }
     else None)"

definition new_order_bytes :: "(nat \<Rightarrow> byte) \<Rightarrow> new_order_message \<Rightarrow> byte list" where
  "new_order_bytes pad m = bytes_le 8 (unat (n_id m)) @ [side_byte (n_side m), type_byte (n_type m)] @ padding pad 10 16 @
     price_bytes (n_price m) @ bytes_le 4 (unat (n_quantity m)) @ padding pad 28 32 @ bytes_le 8 (unat (n_timestamp m))"

definition bytes_new_order :: "byte list \<Rightarrow> new_order_message option" where
  "bytes_new_order bs = (if length bs = 40 then do {
       sd \<leftarrow> byte_side (bs ! 8);
       t \<leftarrow> byte_type (bs ! 9);
       Some \<lparr>n_id = word_at 0 8 bs, n_side = sd, n_type = t, n_price = price_of (take 8 (drop 16 bs)),
         n_quantity = word_at 24 4 bs, n_timestamp = word_at 32 8 bs\<rparr> }
     else None)"

definition cancel_bytes :: "cancel_message \<Rightarrow> byte list" where
  "cancel_bytes m = bytes_le 8 (unat (c_id m)) @ bytes_le 8 (unat (c_timestamp m))"

definition bytes_cancel :: "byte list \<Rightarrow> cancel_message option" where
  "bytes_cancel bs = (if length bs = 16 then Some \<lparr>c_id = word_at 0 8 bs, c_timestamp = word_at 8 8 bs\<rparr> else None)"

section \<open>Round trips\<close>

lemma length_bytes_le [simp]: "length (bytes_le k n) = k"
  by (induction k n rule: bytes_le.induct) simp_all

lemma length_padding [simp]: "length (padding pad a b) = b - a"
  by (simp add: padding_def)

lemma length_price_bytes [simp]: "length (price_bytes p) = 8"
  by (simp add: price_bytes_def)

lemma le_nat_bytes_le: "le_nat (bytes_le k n) = n mod 256 ^ k"
proof (induction k n rule: bytes_le.induct)
  case (2 k n)
  have "unat (of_nat (n mod 256) :: byte) = n mod 256" by (intro unat_of_nat_small) simp
  then show ?case using 2 by (simp add: mod_mult2_eq)
qed simp

lemma word_bytes [simp]:
  "of_nat (le_nat (bytes_le 8 (unat (w :: 64 word)))) = w" "of_nat (le_nat (bytes_le 4 (unat (q :: 32 word)))) = q"
proof -
  have "unat w < 256 ^ 8" "unat q < 256 ^ 4" using unsigned_less [of w, where ?'a = nat] unsigned_less [of q, where ?'a = nat] by simp_all
  then show "of_nat (le_nat (bytes_le 8 (unat w))) = w" "of_nat (le_nat (bytes_le 4 (unat q))) = q"
    by (simp_all only: le_nat_bytes_le mod_less) simp_all
qed

lemma price_of_bytes [simp]:
  assumes "- (2 ^ 63) \<le> p" "p < 2 ^ 63"
  shows "price_of (price_bytes p) = p"
proof -
  have "nat (p mod 2 ^ 64) < 256 ^ 8" by (simp add: nat_less_iff)
  then have "int (le_nat (price_bytes p)) = p mod 2 ^ 64" by (simp add: price_bytes_def le_nat_bytes_le)
  moreover have "p mod 2 ^ 64 = (if 0 \<le> p then p else p + 2 ^ 64)"
  proof (cases "0 \<le> p")
    case False
    then have "(p + 2 ^ 64) mod 2 ^ 64 = p + 2 ^ 64" using assms by (intro mod_pos_pos_trivial) simp_all
    then show ?thesis using False by simp
  qed (use assms in simp)
  ultimately show ?thesis using assms by (simp add: price_of_def Let_def)
qed

lemma enum_bytes [simp]: "byte_side (side_byte sd) = Some sd" "byte_type (type_byte t) = Some t"
  by (cases sd; simp add: byte_side_def side_byte_def) (cases t; simp add: byte_type_def type_byte_def)

lemma drop_append_len: "length xs = n \<Longrightarrow> drop n (xs @ ys) = ys" "length xs = n \<Longrightarrow> take n (xs @ ys) = xs"
  by simp_all

lemma fill_round_trip:
  assumes "- (2 ^ 63) \<le> f_price f" "f_price f < 2 ^ 63"
  shows "bytes_fill (fill_bytes pad f) = Some f" "length (fill_bytes pad f) = 48"
  using assms by (simp_all add: bytes_fill_def fill_bytes_def word_at_def nth_append)

lemma new_order_round_trip:
  assumes "- (2 ^ 63) \<le> n_price m" "n_price m < 2 ^ 63"
  shows "bytes_new_order (new_order_bytes pad m) = Some m" "length (new_order_bytes pad m) = 40"
  using assms by (simp_all add: bytes_new_order_def new_order_bytes_def word_at_def nth_append)

lemma cancel_round_trip: "bytes_cancel (cancel_bytes m) = Some m" "length (cancel_bytes m) = 16"
  by (simp_all add: bytes_cancel_def cancel_bytes_def word_at_def)

end
