(* ===== verification/Trade_Logger.thy ===== *)
theory Trade_Logger
  imports Wire_Format
begin

text \<open>
  \<^verbatim>\<open>metrics/trade_logger.cpp\<close>: the binary log of fills.  The state is what the file holds
  on disk and, while the logger is open, the bytes in the stdio buffer.  Whether
  \<^verbatim>\<open>fopen\<close> succeeds and how many bytes a \<^verbatim>\<open>fwrite\<close> manages to write are arguments.  The
  buffer is also written out when it fills up; that changes when bytes reach the disk,
  not which.
\<close>

record trade_logger =
  tl_file :: "byte list option"
  tl_disk :: "byte list"
  tl_total_logged :: "64 word"

definition FILL_SIZE :: nat where
  "FILL_SIZE = 48"

definition new_logger :: trade_logger where
  "new_logger = \<lparr>tl_file = None, tl_disk = [], tl_total_logged = 0\<rparr>"

definition log_header :: "byte list" where
  "log_header = map of_char ''FILL'' @ bytes_le 4 1 @ bytes_le 4 FILL_SIZE"

definition tl_open :: "bool \<Rightarrow> trade_logger \<Rightarrow> bool \<times> trade_logger" where
  "tl_open opened t = (if \<not> opened then (False, t\<lparr>tl_file := None\<rparr>)
     else (True, t\<lparr>tl_file := Some log_header, tl_disk := [], tl_total_logged := 0\<rparr>))"

text \<open>\<open>written\<close> is the number of bytes the call to \<^verbatim>\<open>fwrite\<close> gets into the stream.\<close>

definition tl_log :: "(nat \<Rightarrow> byte) \<Rightarrow> nat \<Rightarrow> fill_message \<Rightarrow> trade_logger \<Rightarrow> trade_logger" where
  "tl_log pad written fill t = (case tl_file t of
      None \<Rightarrow> t
    | Some buf \<Rightarrow>
        if FILL_SIZE \<le> written
        then t\<lparr>tl_file := Some (buf @ fill_bytes pad fill), tl_total_logged := tl_total_logged t + 1\<rparr>
        else t\<lparr>tl_file := Some (buf @ take written (fill_bytes pad fill))\<rparr>)"

definition tl_flush :: "trade_logger \<Rightarrow> trade_logger" where
  "tl_flush t = (case tl_file t of None \<Rightarrow> t | Some buf \<Rightarrow> t\<lparr>tl_file := Some [], tl_disk := tl_disk t @ buf\<rparr>)"

definition tl_close :: "trade_logger \<Rightarrow> trade_logger" where
  "tl_close t = (case tl_file t of None \<Rightarrow> t | Some buf \<Rightarrow> (tl_flush t)\<lparr>tl_file := None\<rparr>)"

definition total_logged :: "trade_logger \<Rightarrow> 64 word" where
  "total_logged t = tl_total_logged t"

section \<open>Reading a log\<close>

text \<open>What the header is for: a reader checks it and splits the rest into records.\<close>

fun read_records :: "nat \<Rightarrow> byte list \<Rightarrow> fill_message list option" where
  "read_records 0 bs = (if bs = [] then Some [] else None)"
| "read_records (Suc n) bs = (if bs = [] then Some []
     else do { f \<leftarrow> bytes_fill (take FILL_SIZE bs); fs \<leftarrow> read_records n (drop FILL_SIZE bs); Some (f # fs) })"

definition read_log :: "byte list \<Rightarrow> fill_message list option" where
  "read_log bs = (if take 12 bs = log_header then read_records (length bs) (drop 12 bs) else None)"

text \<open>Operations on an open logger: fills with their padding, and flushes in between.\<close>

datatype log_op = LogFill "nat \<Rightarrow> byte" fill_message | LogFlush

fun apply_log_op :: "log_op \<Rightarrow> trade_logger \<Rightarrow> trade_logger" where
  "apply_log_op (LogFill pad f) t = tl_log pad FILL_SIZE f t"
| "apply_log_op LogFlush t = tl_flush t"

fun op_fills :: "log_op list \<Rightarrow> fill_message list" where
  "op_fills [] = []"
| "op_fills (LogFill pad f # ops) = f # op_fills ops"
| "op_fills (LogFlush # ops) = op_fills ops"

lemma length_fill_bytes [simp]: "length (fill_bytes pad f) = FILL_SIZE"
  by (simp add: fill_bytes_def FILL_SIZE_def)

lemma length_log_header [simp]: "length log_header = 12"
  by (simp add: log_header_def)

fun op_bytes :: "log_op list \<Rightarrow> byte list" where
  "op_bytes [] = []"
| "op_bytes (LogFill pad f # ops) = fill_bytes pad f @ op_bytes ops"
| "op_bytes (LogFlush # ops) = op_bytes ops"

lemma apply_log_ops:
  assumes "tl_file t = Some buf"
  shows "\<exists>buf'. tl_file (fold apply_log_op ops t) = Some buf' \<and>
    tl_disk (fold apply_log_op ops t) @ buf' = tl_disk t @ buf @ op_bytes ops \<and>
    tl_total_logged (fold apply_log_op ops t) = tl_total_logged t + of_nat (length (op_fills ops))"
  using assms
proof (induction ops arbitrary: t buf rule: op_bytes.induct)
  case (2 pad f ops)
  then show ?case using 2(1) [of "tl_log pad FILL_SIZE f t" "buf @ fill_bytes pad f"] by (simp add: tl_log_def add.assoc)
next
  case (3 ops)
  then show ?case using 3(1) [of "tl_flush t" "[]"] by (simp add: tl_flush_def)
qed simp

lemma read_op_bytes:
  assumes "list_all (\<lambda>f. - (2 ^ 63) \<le> f_price f \<and> f_price f < 2 ^ 63) (op_fills ops)" "length (op_bytes ops) \<le> n"
  shows "read_records n (op_bytes ops) = Some (op_fills ops)"
  using assms
proof (induction ops arbitrary: n rule: op_bytes.induct)
  case 1
  then show ?case by (cases n) simp_all
next
  case (2 pad f ops)
  then obtain m where m: "n = Suc m" by (cases n) (simp_all add: FILL_SIZE_def)
  have "fill_bytes pad f \<noteq> []" using length_fill_bytes [of pad f] by (metis FILL_SIZE_def list.size(3) zero_neq_numeral)
  moreover have "bytes_fill (fill_bytes pad f) = Some f" using 2(2) by (intro fill_round_trip) simp_all
  moreover have "read_records m (op_bytes ops) = Some (op_fills ops)" using 2(2,3) m by (intro 2(1)) (simp_all add: FILL_SIZE_def)
  ultimately show ?case by (simp add: m)
qed simp

text \<open>
  C29: What is logged can be read back: after opening the file, any sequence of fills and
  flushes and closing it, the bytes on disk are a header a reader accepts and exactly the
  logged fills in order, whatever the padding bytes contain, and \<^verbatim>\<open>total_logged\<close> is their
  number.
\<close>

theorem log_round_trip:
  assumes "list_all (\<lambda>f. - (2 ^ 63) \<le> f_price f \<and> f_price f < 2 ^ 63) (op_fills ops)"
  defines "t \<equiv> tl_close (fold apply_log_op ops (snd (tl_open True new_logger)))"
  shows "read_log (tl_disk t) = Some (op_fills ops) \<and> total_logged t = of_nat (length (op_fills ops)) \<and> tl_file t = None"
proof -
  let ?t0 = "snd (tl_open True new_logger)"
  have t0: "tl_file ?t0 = Some log_header" "tl_disk ?t0 = []" "tl_total_logged ?t0 = 0" by (simp_all add: tl_open_def)
  obtain buf where buf: "tl_file (fold apply_log_op ops ?t0) = Some buf" "tl_disk (fold apply_log_op ops ?t0) @ buf = log_header @ op_bytes ops"
      "tl_total_logged (fold apply_log_op ops ?t0) = of_nat (length (op_fills ops))"
    using apply_log_ops [OF t0(1), of ops] t0(2,3) by auto
  then have "tl_disk t = log_header @ op_bytes ops" "tl_file t = None" "total_logged t = of_nat (length (op_fills ops))"
    by (simp_all add: t_def tl_close_def tl_flush_def total_logged_def)
  then show ?thesis using read_op_bytes [OF assms(1), of "length (log_header @ op_bytes ops)"] by (simp add: read_log_def)
qed

theorem log_round_trip_witness:
  "read_log (tl_disk (tl_close (fold apply_log_op
     [LogFill (\<lambda>_. 7) \<lparr>f_aggressive_id = 2, f_passive_id = 1, f_price = 10000, f_quantity = 5, f_timestamp = 9, f_aggressor_side = Ask\<rparr>, LogFlush]
     (snd (tl_open True new_logger))))) =
   Some [\<lparr>f_aggressive_id = 2, f_passive_id = 1, f_price = 10000, f_quantity = 5, f_timestamp = 9, f_aggressor_side = Ask\<rparr>]"
  using log_round_trip [of "[LogFill (\<lambda>_. 7) \<lparr>f_aggressive_id = 2, f_passive_id = 1, f_price = 10000, f_quantity = 5,
     f_timestamp = 9, f_aggressor_side = Ask\<rparr>, LogFlush]"] by simp

end
