(* ===== verification/Pipeline.thy ===== *)
theory Pipeline
  imports Coinbase_Feed Engine_Contract Dashboard_Properties Metrics_Collector Trade_Logger
begin

text \<open>
  \<^verbatim>\<open>main.cpp\<close>: the command line, the loops of the engine and output threads, and the staged
  shutdown.  The operations below are the accesses of a thread to the state it shares with others, one access
  each: an operation on a queue, an update of a counter, a store, the publication of the book
  under the lock of the hub.  \<open>Pipeline_System\<close> runs them as separate steps.  The work of the output
  thread on its two timers is one operation; there it reads the counters one after another, and the
  model takes them together, which matters for the printed numbers only.

  An operation on a queue is atomic.  Its effect is the publishing store of \<open>Spsc_Concurrent\<close>, and as
  there a thread may work with an old index of the other side: the argument \<open>miss\<close> says that an
  operation sees no room or no item because of that, and is refused on a queue that is not full or
  not empty.

  Clock readings, whether the hub's lock is free, the number of dashboard clients and the count
  of ingested messages are arguments.  Of the console output the banner, the sampled fill
  tape, the statistics lines and the final report are modelled; thread pinning and
  priorities are not.
\<close>

section \<open>Command line\<close>

record config =
  cfg_live :: bool
  cfg_product :: string
  cfg_duration_s :: "32 word"
  cfg_log_path :: string
  cfg_dash_port :: "16 word"

definition default_config :: config where
  "default_config = \<lparr>cfg_live = True, cfg_product = ''BTC-USD'', cfg_duration_s = 0, cfg_log_path = ''trades.bin'', cfg_dash_port = 0\<rparr>"

text \<open>\<^verbatim>\<open>std::atoi\<close>: blanks, a sign, digits; undefined when the value does not fit an \<^verbatim>\<open>int\<close>.\<close>

definition is_blank :: "char \<Rightarrow> bool" where
  "is_blank c \<longleftrightarrow> c = CHR '' '' \<or> 9 \<le> (of_char c :: nat) \<and> (of_char c :: nat) \<le> 13"

definition atoi :: "string \<Rightarrow> int option" where
  "atoi s = (let s1 = dropWhile is_blank s;
       neg = (case s1 of c # _ \<Rightarrow> c = CHR ''-'' | [] \<Rightarrow> False);
       s2 = (case s1 of c # r \<Rightarrow> if c = CHR ''-'' \<or> c = CHR ''+'' then r else s1 | [] \<Rightarrow> []);
       n = (if neg then - 1 else 1) * int (nat_of_digits (takeWhile is_digit s2))
     in if - (2 ^ 31) \<le> n \<and> n < 2 ^ 31 then Some n else None)"

datatype args_result = Parsed config | ExitHelp | ExitUnknown string

function parse_args :: "string list \<Rightarrow> config \<Rightarrow> args_result option" where
  "parse_args [] cfg = Some (Parsed cfg)"
| "parse_args (arg # rest) cfg =
     (if arg = ''--live'' \<or> arg = ''-l'' then parse_args rest (cfg\<lparr>cfg_live := True\<rparr>)
      else if arg = ''--synthetic'' \<or> arg = ''-s'' then parse_args rest (cfg\<lparr>cfg_live := False\<rparr>)
      else if arg = ''--product'' \<and> rest \<noteq> [] then parse_args (tl rest) (cfg\<lparr>cfg_product := hd rest\<rparr>)
      else if arg = ''--duration'' \<and> rest \<noteq> [] then do {
        n \<leftarrow> atoi (hd rest); parse_args (tl rest) (cfg\<lparr>cfg_duration_s := of_int n\<rparr>) }
      else if arg = ''--log'' \<and> rest \<noteq> [] then parse_args (tl rest) (cfg\<lparr>cfg_log_path := hd rest\<rparr>)
      else if arg = ''--no-log'' then parse_args rest (cfg\<lparr>cfg_log_path := []\<rparr>)
      else if arg = ''--dashboard'' then parse_args rest (cfg\<lparr>cfg_dash_port := 9100\<rparr>)
      else if arg = ''--dashboard-port'' \<and> rest \<noteq> [] then do {
        n \<leftarrow> atoi (hd rest); parse_args (tl rest) (cfg\<lparr>cfg_dash_port := of_int n\<rparr>) }
      else if arg = ''--help'' \<or> arg = ''-h'' then Some ExitHelp
      else Some (ExitUnknown arg))"
  by pat_completeness auto
termination by (relation "measure (\<lambda>(args, _). length args)") auto

section \<open>Shared state\<close>

record counters =
  ct_ingested :: "64 word"
  ct_processed :: "64 word"
  ct_fills :: "64 word"
  ct_out_dropped :: "64 word"
  ct_lat_dropped :: "64 word"
  ct_pool_free :: "64 word"

datatype sample_kind = MatchSample | OrderSample

record latency_sample =
  ls_kind :: sample_kind
  ls_ns :: "64 word"

definition LATENCY_QUEUE_SIZE :: "64 word" where
  "LATENCY_QUEUE_SIZE = push_bit 16 1"

record wires =
  w_in :: "engine_message spsc"
  w_out :: "output_message spsc"
  w_lat :: "latency_sample spsc"
  w_counters :: counters
  w_hub :: "hub option"

definition attempt_push :: "64 word \<Rightarrow> bool \<Rightarrow> 'a \<Rightarrow> 'a spsc \<Rightarrow> (bool \<times> 'a spsc) option" where
  "attempt_push cap miss x q = (if miss then Some (False, q) else try_push cap x q)"

definition attempt_pop :: "64 word \<Rightarrow> bool \<Rightarrow> 'a spsc \<Rightarrow> ('a option \<times> 'a spsc) option" where
  "attempt_pop cap miss q = (if miss then Some (None, q) else try_pop cap q)"

section \<open>The engine thread\<close>

record engine_thread =
  et_engine :: engine
  et_since_publish :: "64 word"
  et_lat_dropped :: "64 word"

definition start_engine :: "nat \<Rightarrow> wires \<Rightarrow> engine_thread \<times> wires" where
  "start_engine pool_size w = (let e = new_engine pool_size in
     (\<lparr>et_engine = e, et_since_publish = 0, et_lat_dropped = 0\<rparr>,
      w\<lparr>w_counters := (w_counters w)\<lparr>ct_pool_free := pool_available e\<rparr>\<rparr>))"

fun msg_timestamp :: "engine_message \<Rightarrow> Timestamp" where
  "msg_timestamp (NewOrder m) = n_timestamp m"
| "msg_timestamp (Cancel m) = c_timestamp m"

text \<open>The samples of a message that was processed between the readings \<open>t0\<close> and \<open>t1\<close>.\<close>

definition message_samples :: "64 word \<Rightarrow> 64 word \<Rightarrow> engine_message \<Rightarrow> latency_sample list" where
  "message_samples t0 t1 msg = (let ingest_ts = msg_timestamp msg in
     \<lparr>ls_kind = MatchSample, ls_ns = t1 - t0\<rparr> #
     (if ingest_ts \<noteq> 0 \<and> t1 > ingest_ts then [\<lparr>ls_kind = OrderSample, ls_ns = t1 - ingest_ts\<rparr>] else []))"

definition emit :: "bool \<Rightarrow> latency_sample \<Rightarrow> engine_thread \<times> wires \<Rightarrow> (engine_thread \<times> wires) option" where
  "emit miss s st = (let (th, w) = st in do {
     (ok, lat) \<leftarrow> attempt_push LATENCY_QUEUE_SIZE miss s (w_lat w);
     Some (if ok then th else th\<lparr>et_lat_dropped := et_lat_dropped th + 1\<rparr>, w\<lparr>w_lat := lat\<rparr>) })"

definition push_fill :: "bool \<Rightarrow> fill_message \<Rightarrow> wires \<Rightarrow> (bool \<times> wires) option" where
  "push_fill miss f w = do {
     (ok, out) \<leftarrow> attempt_push FEED_QUEUE_SIZE miss (FillOut f) (w_out w);
     Some (ok, w\<lparr>w_out := out\<rparr>) }"

definition count_fill :: "bool \<Rightarrow> wires \<Rightarrow> wires" where
  "count_fill ok w = (let c = w_counters w in
     w\<lparr>w_counters := (if ok then c\<lparr>ct_fills := ct_fills c + 1\<rparr> else c\<lparr>ct_out_dropped := ct_out_dropped c + 1\<rparr>)\<rparr>)"

definition count_processed :: "wires \<Rightarrow> wires" where
  "count_processed w = w\<lparr>w_counters := (w_counters w)\<lparr>ct_processed := ct_processed (w_counters w) + 1\<rparr>\<rparr>"

definition store_pool_free :: "engine_thread \<Rightarrow> wires \<Rightarrow> wires" where
  "store_pool_free th w = w\<lparr>w_counters := (w_counters w)\<lparr>ct_pool_free := pool_available (et_engine th)\<rparr>\<rparr>"

definition publish_pool :: "engine_thread \<times> wires \<Rightarrow> engine_thread \<times> wires" where
  "publish_pool st = (let (th, w) = st; n = et_since_publish th + 1 in
     if n \<ge> 1024 then (th\<lparr>et_since_publish := 0\<rparr>, store_pool_free th w) else (th\<lparr>et_since_publish := n\<rparr>, w))"

definition book_requested :: "wires \<Rightarrow> bool" where
  "book_requested w = (case w_hub w of None \<Rightarrow> False | Some h \<Rightarrow> book_wanted h)"

definition serve_book :: "bool \<Rightarrow> engine_thread \<Rightarrow> wires \<Rightarrow> wires option" where
  "serve_book owns_lock th w = (case w_hub w of None \<Rightarrow> Some w
     | Some h \<Rightarrow> do { h1 \<leftarrow> publish_book owns_lock (e_book (et_engine th)) h; Some (w\<lparr>w_hub := Some h1\<rparr>) })"

definition store_lat_dropped :: "engine_thread \<Rightarrow> wires \<Rightarrow> wires" where
  "store_lat_dropped th w = w\<lparr>w_counters := (w_counters w)\<lparr>ct_lat_dropped := et_lat_dropped th\<rparr>\<rparr>"

section \<open>The output thread\<close>

text \<open>
  One line of the tape on the console.  The price is kept as the double that is printed;
  its rendering by the stream is not modelled.
\<close>

record tape_line =
  tp_number :: "64 word"
  tp_taker :: OrderId
  tp_maker :: OrderId
  tp_px :: dbl
  tp_qty :: Quantity

record output_thread =
  ot_pending :: "fill_row list"
  ot_pending_head :: nat
  ot_fill_seq :: "64 word"
  ot_tape_printed :: "64 word"
  ot_tape :: "tape_line list"
  ot_iter :: "64 word"
  ot_start :: int
  ot_next_stat :: int
  ot_next_pub :: int
  ot_last_ingested :: "64 word"
  ot_stats_printed :: "string list"
  ot_metrics :: metrics
  ot_logger :: trade_logger

text \<open>Readings of the steady clock are in nanoseconds.\<close>

definition new_output_thread :: "int \<Rightarrow> trade_logger \<Rightarrow> output_thread" where
  "new_output_thread start logger = \<lparr>ot_pending = [], ot_pending_head = 0, ot_fill_seq = 0, ot_tape_printed = 0, ot_tape = [], ot_iter = 0,
     ot_start = start, ot_next_stat = start + 5000000000, ot_next_pub = start + 100000000, ot_last_ingested = 0,
     ot_stats_printed = [], ot_metrics = new_metrics, ot_logger = logger\<rparr>"

definition record_sample :: "latency_sample \<Rightarrow> metrics \<Rightarrow> metrics" where
  "record_sample s m = (case ls_kind s of
      MatchSample \<Rightarrow> increment_orders (record_match_latency (ls_ns s) m)
    | OrderSample \<Rightarrow> record_order_latency (ls_ns s) m)"

definition fill_row_of :: "64 word \<Rightarrow> 64 word \<Rightarrow> fill_message \<Rightarrow> fill_row" where
  "fill_row_of seq now_ms f = \<lparr>fr_seq = seq, fr_ts_ms = now_ms, fr_price = f_price f, fr_qty = f_quantity f,
     fr_taker_is_bid = (f_aggressor_side f = Bid)\<rparr>"

definition hold_row :: "fill_row \<Rightarrow> output_thread \<Rightarrow> output_thread" where
  "hold_row row t = (if length (ot_pending t) < FILL_KEEP then t\<lparr>ot_pending := ot_pending t @ [row]\<rparr>
     else t\<lparr>ot_pending := (ot_pending t)[ot_pending_head t := row], ot_pending_head := (ot_pending_head t + 1) mod FILL_KEEP\<rparr>)"

definition on_tape :: "64 word \<Rightarrow> bool" where
  "on_tape tape_printed \<longleftrightarrow> tape_printed < 5 \<or> and tape_printed (push_bit 20 1 - 1) = 0"

definition tape_line_of :: "64 word \<Rightarrow> fill_message \<Rightarrow> tape_line" where
  "tape_line_of tape_printed f = \<lparr>tp_number = tape_printed + 1, tp_taker = f_aggressive_id f, tp_maker = f_passive_id f,
     tp_px = ticks_to_dollars (f_price f), tp_qty = f_quantity f\<rparr>"

definition print_tape :: "fill_message \<Rightarrow> output_thread \<Rightarrow> output_thread" where
  "print_tape f t = t\<lparr>ot_tape := (if on_tape (ot_tape_printed t) then ot_tape t @ [tape_line_of (ot_tape_printed t) f] else ot_tape t),
     ot_tape_printed := ot_tape_printed t + 1\<rparr>"

definition handle_fill :: "(nat \<Rightarrow> byte) \<Rightarrow> nat \<Rightarrow> 64 word \<Rightarrow> bool \<Rightarrow> fill_message \<Rightarrow> output_thread \<Rightarrow> output_thread" where
  "handle_fill pad written now_ms has_hub f t =
     (let t1 = t\<lparr>ot_logger := tl_log pad written f (ot_logger t), ot_metrics := increment_matches (ot_metrics t)\<rparr>;
          t2 = (if has_hub then hold_row (fill_row_of (ot_fill_seq t1 + 1) now_ms f) (t1\<lparr>ot_fill_seq := ot_fill_seq t1 + 1\<rparr>) else t1)
      in print_tape f t2)"

definition rotated :: "output_thread \<Rightarrow> fill_row list" where
  "rotated t = (if ot_pending_head t \<noteq> 0 \<and> length (ot_pending t) = FILL_KEEP then rotate (ot_pending_head t) (ot_pending t) else ot_pending t)"

definition dashboard_stats :: "64 word \<Rightarrow> output_thread \<Rightarrow> counters \<Rightarrow> hub_stats option" where
  "dashboard_stats clients t c = (let ml = match_latency (ot_metrics t); ol = order_latency (ot_metrics t) in do {
     m50 \<leftarrow> p50 ml; m95 \<leftarrow> p95 ml; m99 \<leftarrow> p99 ml; o50 \<leftarrow> p50 ol; o99 \<leftarrow> p99 ol;
     Some \<lparr>hs_match_p50 = m50, hs_match_p95 = m95, hs_match_p99 = m99, hs_order_p50 = o50, hs_order_p99 = o99,
       hs_processed = ct_processed c, hs_fills = ct_fills c, hs_pool_free = ct_pool_free c,
       hs_pool_capacity = of_nat ORDER_POOL_SIZE, hs_dropped = ct_out_dropped c, hs_clients = clients\<rparr> })"

definition publish_dashboard :: "64 word \<Rightarrow> output_thread \<times> wires \<Rightarrow> (output_thread \<times> wires) option" where
  "publish_dashboard clients st = (let (t, w) = st in
     case w_hub w of None \<Rightarrow> Some (t, w)
     | Some h \<Rightarrow> do {
         s \<leftarrow> dashboard_stats clients t (w_counters w);
         Some (t\<lparr>ot_pending := [], ot_pending_head := 0\<rparr>, w\<lparr>w_hub := Some (publish_output s (rotated t) h)\<rparr>) })"

definition print_stats :: "int \<Rightarrow> 64 word \<Rightarrow> counters \<Rightarrow> output_thread \<Rightarrow> output_thread option" where
  "print_stats now ing c t = (let
       secs = (now - ot_start t) div 1000000000;
       rate = (ing - ot_last_ingested t) div 5;
       ml = match_latency (ot_metrics t) in do {
     v50 \<leftarrow> p50 ml; v99 \<leftarrow> p99 ml;
     Some (t\<lparr>ot_last_ingested := ing, ot_stats_printed := ot_stats_printed t @
       [''[stats t='' @ deci secs @ ''s] ingested='' @ decu ing @ '' ('' @ decu rate @ ''/s) processed='' @ decu (ct_processed c) @
        '' fills='' @ decu (ct_fills c) @ '' match_p50='' @ decu v50 @ ''ns p99='' @ decu v99 @ ''ns dropped_out='' @
        decu (ct_out_dropped c) @ '' pool_free='' @ decu (ct_pool_free c) @ ''\<newline>'']\<rparr>) })"

text \<open>
  One iteration of the loop: the samples, at most 4096 of them and one pop at a time (\<open>i\<close> is the
  loop variable, and the result tells whether the loop goes on), one message, and the timers, which
  are looked at when there was no work and otherwise every 256 iterations.  Only when the iteration
  did no work is the stop flag looked at.
\<close>

definition output_sample :: "bool \<Rightarrow> nat \<Rightarrow> output_thread \<times> wires \<Rightarrow> (bool \<times> output_thread \<times> wires) option" where
  "output_sample miss i st = (let (t, w) = st in
     if i < 4096 then do {
       (r, lat) \<leftarrow> attempt_pop LATENCY_QUEUE_SIZE miss (w_lat w);
       Some (case r of
           None \<Rightarrow> (False, t, w\<lparr>w_lat := lat\<rparr>)
         | Some s \<Rightarrow> (True, t\<lparr>ot_metrics := record_sample s (ot_metrics t)\<rparr>, w\<lparr>w_lat := lat\<rparr>)) }
     else Some (False, t, w))"

definition output_message_step ::
  "bool \<Rightarrow> (nat \<Rightarrow> byte) \<Rightarrow> nat \<Rightarrow> 64 word \<Rightarrow> bool \<Rightarrow> output_thread \<times> wires \<Rightarrow> (bool \<times> output_thread \<times> wires) option" where
  "output_message_step miss pad written now_ms did st = (let (t, w) = st in do {
     (r, out) \<leftarrow> attempt_pop FEED_QUEUE_SIZE miss (w_out w);
     Some (case r of
         None \<Rightarrow> (did, t, w\<lparr>w_out := out\<rparr>)
       | Some (FillOut f) \<Rightarrow> (True, handle_fill pad written now_ms (w_hub w \<noteq> None) f t, w\<lparr>w_out := out\<rparr>)
       | Some (BookUpdate _) \<Rightarrow> (True, t, w\<lparr>w_out := out\<rparr>)) })"

definition publish_timer :: "64 word \<Rightarrow> int \<Rightarrow> output_thread \<times> wires \<Rightarrow> (output_thread \<times> wires) option" where
  "publish_timer clients now st =
     (if ot_next_pub (fst st) \<le> now then do {
        (t, w) \<leftarrow> publish_dashboard clients st;
        let next_pub = ot_next_pub t + 100000000;
        Some (t\<lparr>ot_next_pub := (if next_pub < now then now else next_pub)\<rparr>, w) }
      else Some st)"

definition stats_timer :: "int \<Rightarrow> int \<Rightarrow> 64 word \<Rightarrow> output_thread \<times> wires \<Rightarrow> (output_thread \<times> wires) option" where
  "stats_timer now print_now ing st =
     (if ot_next_stat (fst st) \<le> now then do {
        t \<leftarrow> print_stats print_now ing (w_counters (snd st)) (fst st);
        Some (t\<lparr>ot_next_stat := ot_next_stat t + 5000000000\<rparr>, snd st) }
      else Some st)"

definition output_timers ::
  "64 word \<Rightarrow> int \<Rightarrow> int \<Rightarrow> 64 word \<Rightarrow> bool \<Rightarrow> output_thread \<times> wires \<Rightarrow> (output_thread \<times> wires) option" where
  "output_timers clients now print_now ing did st = (let (t, w) = st;
       t1 = (if did then t\<lparr>ot_iter := ot_iter t + 1\<rparr> else t) in
     if \<not> did \<or> and (ot_iter t1) 0xFF = 0
     then do { st1 \<leftarrow> publish_timer clients now (t1, w); stats_timer now print_now ing st1 }
     else Some (t1, w))"

definition finish_output :: "int \<Rightarrow> 64 word \<Rightarrow> output_thread \<times> wires \<Rightarrow> (output_thread \<times> wires) option" where
  "finish_output now ing st = (let (t, w) = st in do {
     t1 \<leftarrow> print_stats now ing (w_counters w) t;
     Some (t1\<lparr>ot_metrics := note_dropped_samples (ct_lat_dropped (w_counters w)) (ot_metrics t1)\<rparr>, w) })"

section \<open>The main thread\<close>

definition banner :: "config \<Rightarrow> string" where
  "banner cfg = ''matching-engine v0.1.0 | mode='' @ (if cfg_live cfg then ''live'' else ''synthetic'') @
     (if cfg_live cfg then '' product='' @ cfg_product cfg else []) @
     (if cfg_duration_s cfg \<noteq> 0 then '' duration='' @ decu (cfg_duration_s cfg) @ ''s'' else '' (Ctrl+C to stop)'') @ ''\<newline>''"

text \<open>
  Setting up the log and the dashboard, in a build with dashboard support; \<open>opened\<close> and
  \<open>started\<close> say what the system allowed.
\<close>

definition init_logger :: "config \<Rightarrow> bool \<Rightarrow> trade_logger" where
  "init_logger cfg opened = (if cfg_log_path cfg = [] then new_logger else snd (tl_open opened new_logger))"

definition init_hub :: "config \<Rightarrow> bool \<Rightarrow> hub option" where
  "init_hub cfg started = (if cfg_dash_port cfg \<noteq> 0 \<and> started
     then Some (configure (if cfg_live cfg then ''live'' else ''synthetic'') (if cfg_live cfg then cfg_product cfg else ''SYNTH'') new_hub)
     else None)"

definition broadcast_tick :: "64 word \<Rightarrow> hub \<Rightarrow> string \<times> hub" where
  "broadcast_tick now_ms h = (let h1 = request_book h in (snapshot_json now_ms h1, h1))"

definition deadline_passed :: "config \<Rightarrow> int \<Rightarrow> int \<Rightarrow> bool" where
  "deadline_passed cfg start now \<longleftrightarrow> cfg_duration_s cfg \<noteq> 0 \<and> start + uint (cfg_duration_s cfg) * 1000000000 \<le> now"

text \<open>
  The wait for a signal or the deadline: one iteration takes the value its load of the
  flag sees and a clock reading.  The result tells whether the main thread itself set the
  flag; \<open>None\<close> means that it still waits.
\<close>

fun await_shutdown :: "config \<Rightarrow> int \<Rightarrow> (bool \<times> int) list \<Rightarrow> bool option" where
  "await_shutdown cfg start [] = None"
| "await_shutdown cfg start ((seen, now) # rs) =
     (if seen then Some False else if deadline_passed cfg start now then Some True else await_shutdown cfg start rs)"

definition final_report :: "config \<Rightarrow> coinbase_feed \<Rightarrow> output_thread \<Rightarrow> string option" where
  "final_report cfg feed t = do {
     s \<leftarrow> summary (ot_metrics t);
     Some ((if cfg_live cfg then
         ''[shutdown] feed: live_levels='' @ dec (live_levels (cf_handler feed)) @
         '' malformed='' @ decu (malformed_count (cf_handler feed)) @ '' skipped='' @ decu (skipped_count (cf_handler feed)) @
         '' seq_gaps='' @ decu (sequence_gaps (cf_handler feed)) @ '' feed_dropped='' @ decu (cf_dropped feed) @ ''\<newline>'' else []) @
       (if total_logged (ot_logger t) > 0 then
         ''[shutdown] '' @ decu (total_logged (ot_logger t)) @ '' fills logged to '' @ cfg_log_path cfg @ ''\<newline>'' else []) @
       ''\<newline>'' @ s @ ''[shutdown] clean exit\<newline>'') }"

section \<open>Facts\<close>

lemma handle_fill_tape:
  "ot_tape (handle_fill pad written now_ms has_hub f t) =
     (if on_tape (ot_tape_printed t) then ot_tape t @ [tape_line_of (ot_tape_printed t) f] else ot_tape t)"
  "ot_tape_printed (handle_fill pad written now_ms has_hub f t) = ot_tape_printed t + 1"
  by (simp_all add: handle_fill_def hold_row_def print_tape_def Let_def)

text \<open>
  The fills are numbered from 1 in the order they are handled; the first five are printed,
  and after them each one that follows a multiple of \<open>2 ^ 20\<close>.
\<close>

lemma on_tape_multiple:
  assumes "k < 2 ^ 64"
  shows "on_tape (of_nat k) \<longleftrightarrow> k < 5 \<or> 2 ^ 20 dvd k"
proof -
  have u: "unat (of_nat k :: 64 word) = k" using unat_of_nat_small [where ?'a = 64, of k] assms by simp
  have m: "and (of_nat k :: 64 word) (push_bit 20 1 - 1) = take_bit 20 (of_nat k)"
    by (simp add: take_bit_eq_mask mask_eq_exp_minus_1 push_bit_eq_mult)
  have "take_bit 20 (of_nat k :: 64 word) = 0 \<longleftrightarrow> unat (take_bit 20 (of_nat k :: 64 word)) = 0" by (rule unsigned_eq_0_iff [symmetric])
  also have "unat (take_bit 20 (of_nat k :: 64 word)) = k mod 2 ^ 20" by (simp only: unsigned_take_bit_eq u) (simp add: take_bit_eq_mod)
  finally have "take_bit 20 (of_nat k :: 64 word) = 0 \<longleftrightarrow> 2 ^ 20 dvd k" by (simp add: dvd_eq_mod_eq_0)
  moreover have "(of_nat k :: 64 word) < 5 \<longleftrightarrow> k < 5" by (simp add: word_less_nat_alt u)
  ultimately show ?thesis unfolding on_tape_def m by blast
qed

lemma tape_of_fills:
  assumes "length fs < 2 ^ 64" "ot_tape_printed t = 0" "ot_tape t = []"
  shows "ot_tape (fold (\<lambda>f. handle_fill pad written now_ms has_hub f) fs t) =
      map (\<lambda>k. tape_line_of (of_nat k) (fs ! k)) (filter (\<lambda>k. k < 5 \<or> 2 ^ 20 dvd k) [0..<length fs]) \<and>
    ot_tape_printed (fold (\<lambda>f. handle_fill pad written now_ms has_hub f) fs t) = of_nat (length fs)"
  using assms(1)
proof (induction fs rule: rev_induct)
  case (snoc f fs)
  have "map (\<lambda>k. tape_line_of (of_nat k) ((fs @ [f]) ! k)) (filter (\<lambda>k. k < 5 \<or> 2 ^ 20 dvd k) [0..<length fs]) =
      map (\<lambda>k. tape_line_of (of_nat k) (fs ! k)) (filter (\<lambda>k. k < 5 \<or> 2 ^ 20 dvd k) [0..<length fs])"
    by (rule map_cong) (auto simp: nth_append)
  then show ?case using snoc on_tape_multiple [of "length fs"] by (simp add: handle_fill_tape add.commute)
qed (simp add: assms)

lemma await_shutdown_None:
  "await_shutdown cfg start rs = None \<longleftrightarrow> (\<forall>(seen, now) \<in> set rs. \<not> seen \<and> \<not> deadline_passed cfg start now)"
  by (induction cfg start rs rule: await_shutdown.induct) auto

text \<open>Without a duration only a signal ends the wait; with one, the first reading past the deadline does.\<close>

lemma await_shutdown_signal: "cfg_duration_s cfg = 0 \<Longrightarrow> await_shutdown cfg start rs \<noteq> Some True"
  by (induction cfg start rs rule: await_shutdown.induct) (auto simp: deadline_passed_def)

end
