(* ===== verification/Pipeline_System.thy ===== *)
theory Pipeline_System
  imports Pipeline
begin

text \<open>
  The threads of \<^verbatim>\<open>main.cpp\<close> running together: ingest, engine, output, the dashboard server
  and the main thread with its staged shutdown, as a step relation.  A step is one access of one
  thread to the state it shares with the others, so that the threads interleave between any two accesses, in
  particular between a push and the update of the counter that goes with it, and between a
  failed pop and the load of the stop flag.  The fields
  \<open>pl_ingested\<close> and \<open>pl_popped\<close> record history: the messages the input queue accepted
  and the ones the engine thread took out.  The ingest thread, from the generator or from
  the live feed, may offer any message at any time before it is joined, and in live mode
  the state of the feed handler may change in any way; \<open>Synthetic_Ingest\<close> and \<open>Live_System\<close> put the two
  real ingest loops in its place.  A load of a stop flag may still see the old value after
  the flag was set, and an operation on a queue may miss what the other thread just did.
\<close>

text \<open>
  The program counters.  The engine thread is at its pop; has samples to push, then fills; has a
  push of a fill to count; is at the pool statistics, at the load of the request flag, at the
  publication of the book; is at the load of the stop flag; or at its last two stores.
\<close>

datatype engine_pc =
    EngPop
  | EngEmit "latency_sample list"
  | EngSend "fill_message list"
  | EngCount bool "fill_message list"
  | EngPublish
  | EngServe
  | EngBook
  | EngCheck
  | EngPool
  | EngLat
  | EngDone

datatype output_pc = OutSamples | OutPop | OutTimers | OutCheck | OutDone

text \<open>The ingest thread is about to push, or has a push that succeeded or failed to count.\<close>

datatype push_phase = PushNext | PushCount bool

record pipeline =
  pl_live :: bool
  pl_feed :: coinbase_feed
  pl_phase :: push_phase
  pl_wires :: wires
  pl_engine :: engine_thread
  pl_epc :: engine_pc
  pl_output :: output_thread
  pl_opc :: output_pc
  pl_batch :: nat
  pl_did_work :: bool
  pl_shutdown :: bool
  pl_ingest_joined :: bool
  pl_engine_stop :: bool
  pl_output_stop :: bool
  pl_ingested :: "engine_message list"
  pl_popped :: "engine_message list"

definition no_counters :: counters where
  "no_counters = \<lparr>ct_ingested = 0, ct_processed = 0, ct_fills = 0, ct_out_dropped = 0, ct_lat_dropped = 0, ct_pool_free = 0\<rparr>"

definition no_message :: engine_message where
  "no_message = NewOrder \<lparr>n_id = 0, n_side = Bid, n_type = Limit, n_price = 0, n_quantity = 0, n_timestamp = 0\<rparr>"

definition no_output :: output_message where
  "no_output = FillOut \<lparr>f_aggressive_id = 0, f_passive_id = 0, f_price = 0, f_quantity = 0, f_timestamp = 0, f_aggressor_side = Bid\<rparr>"

definition new_wires :: "hub option \<Rightarrow> wires" where
  "new_wires hub = \<lparr>w_in = new_spsc FEED_QUEUE_SIZE no_message, w_out = new_spsc FEED_QUEUE_SIZE no_output,
     w_lat = new_spsc LATENCY_QUEUE_SIZE \<lparr>ls_kind = MatchSample, ls_ns = 0\<rparr>, w_counters = no_counters, w_hub = hub\<rparr>"

definition start_pipeline :: "nat \<Rightarrow> config \<Rightarrow> bool \<Rightarrow> bool \<Rightarrow> int \<Rightarrow> pipeline" where
  "start_pipeline pool_size cfg opened started now =
     (let (th, w) = start_engine pool_size (new_wires (init_hub cfg started)) in
     \<lparr>pl_live = cfg_live cfg, pl_feed = new_coinbase_feed (cfg_product cfg), pl_phase = PushNext, pl_wires = w, pl_engine = th, pl_epc = EngPop,
      pl_output = new_output_thread now (init_logger cfg opened), pl_opc = OutSamples, pl_batch = 0, pl_did_work = False,
      pl_shutdown = False, pl_ingest_joined = False, pl_engine_stop = False, pl_output_stop = False,
      pl_ingested = [], pl_popped = []\<rparr>)"

section \<open>The ingest thread\<close>

text \<open>
  An attempt of an ingest loop to push a message, and the update of a counter after it: the
  generator's loop counts in the shared counters when the push succeeded, the feed counts pushed and
  dropped messages itself.
\<close>

definition ingest_push :: "bool \<Rightarrow> Timestamp \<Rightarrow> engine_message \<Rightarrow> pipeline \<Rightarrow> pipeline option" where
  "ingest_push miss now msg p = do {
     (ok, q) \<leftarrow> attempt_push FEED_QUEUE_SIZE miss (stamp now msg) (w_in (pl_wires p));
     Some (p\<lparr>pl_phase := (if ok \<or> pl_live p then PushCount ok else PushNext), pl_wires := (pl_wires p)\<lparr>w_in := q\<rparr>,
       pl_ingested := (if ok then pl_ingested p @ [stamp now msg] else pl_ingested p)\<rparr>) }"

definition count_ingested :: "wires \<Rightarrow> wires" where
  "count_ingested w = w\<lparr>w_counters := (w_counters w)\<lparr>ct_ingested := ct_ingested (w_counters w) + 1\<rparr>\<rparr>"

definition ingest_count :: "pipeline \<Rightarrow> pipeline" where
  "ingest_count p = (case pl_phase p of PushNext \<Rightarrow> p
     | PushCount ok \<Rightarrow> if pl_live p then p\<lparr>pl_phase := PushNext, pl_feed := count_push ok (pl_feed p)\<rparr>
         else p\<lparr>pl_phase := PushNext, pl_wires := (if ok then count_ingested (pl_wires p) else pl_wires p)\<rparr>)"

definition ingested_fn :: "pipeline \<Rightarrow> 64 word" where
  "ingested_fn p = (if pl_live p then cf_pushed (pl_feed p) else ct_ingested (w_counters (pl_wires p)))"

section \<open>The engine thread\<close>

text \<open>
  What the environment decides in a step: whether an operation on a queue misses, the value the load of
  the stop flag sees, whether the lock of the hub is free, and the two clock readings.
\<close>

record engine_reads =
  er_miss :: bool
  er_stop :: bool
  er_lock :: bool
  er_t0 :: "64 word"
  er_t1 :: "64 word"

text \<open>A message that was popped is processed at once: that is work on the thread's own engine.\<close>

definition engine_pop :: "engine_reads \<Rightarrow> pipeline \<Rightarrow> pipeline option" where
  "engine_pop r p = (let w = pl_wires p; th = pl_engine p in do {
     (m, q) \<leftarrow> attempt_pop FEED_QUEUE_SIZE (er_miss r) (w_in w);
     (case m of
        None \<Rightarrow> Some (p\<lparr>pl_wires := w\<lparr>w_in := q\<rparr>, pl_epc := EngCheck\<rparr>)
      | Some msg \<Rightarrow> do {
          e \<leftarrow> process msg (et_engine th);
          Some (p\<lparr>pl_wires := w\<lparr>w_in := q\<rparr>, pl_engine := th\<lparr>et_engine := e\<rparr>, pl_popped := pl_popped p @ [msg],
            pl_epc := EngEmit (message_samples (er_t0 r) (er_t1 r) msg)\<rparr>) }) })"

definition engine_step :: "engine_reads \<Rightarrow> pipeline \<Rightarrow> pipeline option" where
  "engine_step r p = (let w = pl_wires p; th = pl_engine p in case pl_epc p of
       EngPop \<Rightarrow> engine_pop r p
     | EngEmit ss \<Rightarrow> (case ss of
           [] \<Rightarrow> Some (p\<lparr>pl_epc := EngSend (e_fills (et_engine th))\<rparr>)
         | s # ss1 \<Rightarrow> do { (th1, w1) \<leftarrow> emit (er_miss r) s (th, w); Some (p\<lparr>pl_engine := th1, pl_wires := w1, pl_epc := EngEmit ss1\<rparr>) })
     | EngSend fs \<Rightarrow> (case fs of
           [] \<Rightarrow> Some (p\<lparr>pl_wires := count_processed w, pl_epc := EngPublish\<rparr>)
         | f # fs1 \<Rightarrow> do { (ok, w1) \<leftarrow> push_fill (er_miss r) f w; Some (p\<lparr>pl_wires := w1, pl_epc := EngCount ok fs1\<rparr>) })
     | EngCount ok fs \<Rightarrow> Some (p\<lparr>pl_wires := count_fill ok w, pl_epc := EngSend fs\<rparr>)
     | EngPublish \<Rightarrow> (let (th1, w1) = publish_pool (th, w) in Some (p\<lparr>pl_engine := th1, pl_wires := w1, pl_epc := EngServe\<rparr>))
     | EngServe \<Rightarrow> Some (p\<lparr>pl_epc := (if book_requested w then EngBook else EngPop)\<rparr>)
     | EngBook \<Rightarrow> do { w1 \<leftarrow> serve_book (er_lock r) th w; Some (p\<lparr>pl_wires := w1, pl_epc := EngPop\<rparr>) }
     | EngCheck \<Rightarrow> Some (p\<lparr>pl_epc := (if er_stop r then EngPool else EngServe)\<rparr>)
     | EngPool \<Rightarrow> Some (p\<lparr>pl_wires := store_pool_free th w, pl_epc := EngLat\<rparr>)
     | EngLat \<Rightarrow> Some (p\<lparr>pl_wires := store_lat_dropped th w, pl_epc := EngDone\<rparr>)
     | EngDone \<Rightarrow> None)"

section \<open>All threads\<close>

definition signal_handler :: "pipeline \<Rightarrow> pipeline" where
  "signal_handler p = p\<lparr>pl_shutdown := True\<rparr>"

inductive pipeline_step :: "pipeline \<Rightarrow> pipeline \<Rightarrow> bool" where
  ingest: "\<not> pl_ingest_joined p \<Longrightarrow> pl_phase p = PushNext \<Longrightarrow> ingest_push miss now msg p = Some p' \<Longrightarrow> pipeline_step p p'"
| ingested: "pl_phase p = PushCount ok \<Longrightarrow> pipeline_step p (ingest_count p)"
| engine: "engine_step r p = Some p' \<Longrightarrow> (pl_epc p = EngCheck \<Longrightarrow> er_stop r \<Longrightarrow> pl_engine_stop p) \<Longrightarrow> pipeline_step p p'"
| output_sample: "pl_opc p = OutSamples \<Longrightarrow> output_sample miss (pl_batch p) (pl_output p, pl_wires p) = Some (got, t, w) \<Longrightarrow>
    pipeline_step p (p\<lparr>pl_output := t, pl_wires := w, pl_did_work := pl_did_work p \<or> got,
      pl_batch := (if got then Suc (pl_batch p) else 0), pl_opc := (if got then OutSamples else OutPop)\<rparr>)"
| output_pop: "pl_opc p = OutPop \<Longrightarrow>
    output_message_step miss pad written now_ms (pl_did_work p) (pl_output p, pl_wires p) = Some (did, t, w) \<Longrightarrow>
    pipeline_step p (p\<lparr>pl_output := t, pl_wires := w, pl_did_work := did, pl_opc := OutTimers\<rparr>)"
| output_timers: "pl_opc p = OutTimers \<Longrightarrow>
    output_timers clients now print_now (ingested_fn p) (pl_did_work p) (pl_output p, pl_wires p) = Some (t, w) \<Longrightarrow>
    pipeline_step p (p\<lparr>pl_output := t, pl_wires := w, pl_opc := (if pl_did_work p then OutSamples else OutCheck), pl_did_work := False\<rparr>)"
| output_go: "pl_opc p = OutCheck \<Longrightarrow> pipeline_step p (p\<lparr>pl_opc := OutSamples\<rparr>)"
| output_done: "pl_opc p = OutCheck \<Longrightarrow> pl_output_stop p \<Longrightarrow>
    finish_output now (ingested_fn p) (pl_output p, pl_wires p) = Some (t, w) \<Longrightarrow>
    pipeline_step p (p\<lparr>pl_output := t, pl_wires := w, pl_opc := OutDone\<rparr>)"
| server: "w_hub (pl_wires p) = Some h \<Longrightarrow>
    pipeline_step p (p\<lparr>pl_wires := (pl_wires p)\<lparr>w_hub := Some (snd (broadcast_tick now_ms h))\<rparr>\<rparr>)"
| feed_frame: "\<not> pl_ingest_joined p \<Longrightarrow> pl_live p \<Longrightarrow>
    pipeline_step p (p\<lparr>pl_feed := (pl_feed p)\<lparr>cf_handler := h\<rparr>\<rparr>)"
| signal: "pipeline_step p (signal_handler p)"
| join_ingest: "pl_shutdown p \<Longrightarrow> pl_phase p = PushNext \<Longrightarrow> pipeline_step p (p\<lparr>pl_ingest_joined := True\<rparr>)"
| stop_engine: "pl_ingest_joined p \<Longrightarrow> pipeline_step p (p\<lparr>pl_engine_stop := True\<rparr>)"
| stop_output: "pl_engine_stop p \<Longrightarrow> pl_epc p = EngDone \<Longrightarrow> pipeline_step p (p\<lparr>pl_output_stop := True\<rparr>)"
| close_log: "pl_opc p = OutDone \<Longrightarrow>
    pipeline_step p (p\<lparr>pl_output := (pl_output p)\<lparr>ot_logger := tl_close (ot_logger (pl_output p))\<rparr>\<rparr>)"

inductive pipeline_reachable :: "nat \<Rightarrow> pipeline \<Rightarrow> bool" for n where
  start: "pipeline_reachable n (start_pipeline n cfg opened started now)"
| step: "pipeline_reachable n p \<Longrightarrow> pipeline_step p p' \<Longrightarrow> pipeline_reachable n p'"

section \<open>What a step leaves alone\<close>

text \<open>The state of the other threads and the control state, which neither the engine nor the ingest thread touches.\<close>

abbreviation flags :: "pipeline \<Rightarrow> bool \<times> bool \<times> bool \<times> bool" where
  "flags p \<equiv> (pl_shutdown p, pl_ingest_joined p, pl_engine_stop p, pl_output_stop p)"

abbreviation output_view :: "pipeline \<Rightarrow> output_thread \<times> output_pc \<times> nat \<times> bool" where
  "output_view p \<equiv> (pl_output p, pl_opc p, pl_batch p, pl_did_work p)"

abbreviation ingest_view :: "pipeline \<Rightarrow> bool \<times> coinbase_feed \<times> push_phase \<times> engine_message list" where
  "ingest_view p \<equiv> (pl_live p, pl_feed p, pl_phase p, pl_ingested p)"

abbreviation engine_view :: "pipeline \<Rightarrow> engine_thread \<times> engine_pc \<times> engine_message list" where
  "engine_view p \<equiv> (pl_engine p, pl_epc p, pl_popped p)"

lemma engine_frame:
  assumes "engine_step r p = Some p'"
  shows "flags p' = flags p" "output_view p' = output_view p" "ingest_view p' = ingest_view p"
  using assms
  by (auto simp: engine_step_def engine_pop_def Let_def split: engine_pc.splits list.splits option.splits prod.splits Option.bind_splits)

lemma ingest_frame:
  assumes "ingest_push miss now msg p = Some p'"
  shows "flags p' = flags p" "output_view p' = output_view p" "engine_view p' = engine_view p" "pl_live p' = pl_live p" "pl_feed p' = pl_feed p"
    "w_lat (pl_wires p') = w_lat (pl_wires p)" "w_out (pl_wires p') = w_out (pl_wires p)" "w_hub (pl_wires p') = w_hub (pl_wires p)"
  using assms by (auto simp: ingest_push_def split: Option.bind_splits)

lemma count_frame:
  "flags (ingest_count p) = flags p" "output_view (ingest_count p) = output_view p" "engine_view (ingest_count p) = engine_view p"
  "pl_live (ingest_count p) = pl_live p" "pl_ingested (ingest_count p) = pl_ingested p" "pl_phase (ingest_count p) = PushNext"
  "w_lat (pl_wires (ingest_count p)) = w_lat (pl_wires p)" "w_out (pl_wires (ingest_count p)) = w_out (pl_wires p)"
  "w_in (pl_wires (ingest_count p)) = w_in (pl_wires p)" "w_hub (pl_wires (ingest_count p)) = w_hub (pl_wires p)"
  by (simp_all add: ingest_count_def count_ingested_def split: push_phase.splits)

lemma pipeline_live: "pipeline_step p p' \<Longrightarrow> pl_live p' = pl_live p"
  by (induction rule: pipeline_step.induct)
    (simp_all add: count_frame signal_handler_def, auto dest: engine_frame(3) ingest_frame(4))

text \<open>Between two pops of samples the output thread has done work.\<close>

definition batch_ok :: "pipeline \<Rightarrow> bool" where
  "batch_ok p \<longleftrightarrow> pl_opc p = OutSamples \<and> pl_did_work p \<or> pl_batch p = 0"

lemma batch_inv: "pipeline_reachable n p \<Longrightarrow> batch_ok p"
proof (induction rule: pipeline_reachable.induct)
  case (start cfg opened started now)
  show ?case by (simp add: batch_ok_def start_pipeline_def start_engine_def Let_def)
next
  case (step p p')
  from step.hyps(2) show ?case
  proof cases
    case (ingest miss now msg)
    then show ?thesis using step.IH ingest_frame(2) [OF ingest(3)] by (simp add: batch_ok_def)
  next
    case (engine r)
    then show ?thesis using step.IH engine_frame(2) [OF engine(1)] by (simp add: batch_ok_def)
  qed (use step.IH count_frame(2) [of p] in \<open>auto simp: batch_ok_def signal_handler_def\<close>)
qed

section \<open>Single operations\<close>

lemma latency_capacity: "capacity_ok LATENCY_QUEUE_SIZE"
  by (simp add: LATENCY_QUEUE_SIZE_def capacity_ok_def)

lemma attempt_push_rep:
  assumes "capacity_ok cap" "queue_rep cap q xs"
  obtains ok q' where "attempt_push cap miss x q = Some (ok, q')" "queue_rep cap q' (if ok then xs @ [x] else xs)"
proof (cases miss)
  case True
  then show thesis using that [of False q] assms(2) by (simp add: attempt_push_def)
next
  case False
  then show thesis using ring.push_rep [of cap q xs x] assms that by (auto simp: attempt_push_def)
qed

lemma attempt_pop_rep:
  assumes "capacity_ok cap" "queue_rep cap q xs"
  obtains (refused) q' where "attempt_pop cap miss q = Some (None, q')" "queue_rep cap q' xs" "miss \<or> xs = []"
    | (item) x ys q' where "attempt_pop cap miss q = Some (Some x, q')" "xs = x # ys" "queue_rep cap q' ys" "\<not> miss"
proof (cases "miss \<or> xs = []")
  case True
  then have "\<exists>q'. attempt_pop cap miss q = Some (None, q') \<and> queue_rep cap q' xs"
    using ring.pop_rep [of cap q xs] assms by (cases miss) (auto simp: attempt_pop_def)
  then show thesis using refused True by blast
next
  case False
  then obtain x ys where xs: "xs = x # ys" by (cases xs) auto
  then have "\<exists>q'. attempt_pop cap miss q = Some (Some x, q') \<and> queue_rep cap q' ys"
    using ring.pop_rep [of cap q xs] assms False by (auto simp: attempt_pop_def)
  then show thesis using item xs False by blast
qed

text \<open>
  The queues and the hub of the wires are well formed; the messages \<open>xs\<close> wait in the
  input queue and the fills \<open>fs\<close> in the output queue.
\<close>

definition wires_ok :: "wires \<Rightarrow> engine_message list \<Rightarrow> fill_message list \<Rightarrow> bool" where
  "wires_ok w xs fs \<longleftrightarrow> queue_rep FEED_QUEUE_SIZE (w_in w) xs \<and> queue_rep FEED_QUEUE_SIZE (w_out w) (map FillOut fs) \<and>
     (\<exists>zs. queue_rep LATENCY_QUEUE_SIZE (w_lat w) zs) \<and> (\<forall>h. w_hub w = Some h \<longrightarrow> hub_ok h)"

lemma wires_cong:
  assumes "wires_ok w xs fs" "w_in w' = w_in w" "w_out w' = w_out w" "w_lat w' = w_lat w" "w_hub w' = w_hub w"
  shows "wires_ok w' xs fs"
  using assms by (simp add: wires_ok_def)

lemma emit_ok:
  assumes "wires_ok w xs fs"
  obtains th' w' where "emit miss s (th, w) = Some (th', w')" "wires_ok w' xs fs" "et_engine th' = et_engine th" "w_counters w' = w_counters w"
proof -
  obtain zs where "queue_rep LATENCY_QUEUE_SIZE (w_lat w) zs" using assms by (auto simp: wires_ok_def)
  then obtain ok lat where l: "attempt_push LATENCY_QUEUE_SIZE miss s (w_lat w) = Some (ok, lat)" "queue_rep LATENCY_QUEUE_SIZE lat (if ok then zs @ [s] else zs)"
    by (rule attempt_push_rep [OF latency_capacity])
  show thesis by (rule that [of "if ok then th else th\<lparr>et_lat_dropped := et_lat_dropped th + 1\<rparr>" "w\<lparr>w_lat := lat\<rparr>"])
    (use l assms in \<open>auto simp: emit_def wires_ok_def\<close>)
qed

lemma push_fill_ok:
  assumes "wires_ok w xs fs"
  obtains ok w' where "push_fill miss f w = Some (ok, w')" "wires_ok w' xs (if ok then fs @ [f] else fs)" "w_counters w' = w_counters w"
proof -
  have "queue_rep FEED_QUEUE_SIZE (w_out w) (map FillOut fs)" using assms by (simp add: wires_ok_def)
  then obtain ok out where o: "attempt_push FEED_QUEUE_SIZE miss (FillOut f) (w_out w) = Some (ok, out)"
      "queue_rep FEED_QUEUE_SIZE out (if ok then map FillOut fs @ [FillOut f] else map FillOut fs)"
    by (rule attempt_push_rep [OF feed_capacity(1)])
  show thesis by (rule that [of ok "w\<lparr>w_out := out\<rparr>"]) (use o assms in \<open>auto simp: push_fill_def wires_ok_def split: if_splits\<close>)
qed

lemma serve_book_ok:
  assumes "engine_reachable n (et_engine th)" "n < 2 ^ 32" "wires_ok w xs fs"
  obtains w' where "serve_book owns_lock th w = Some w'" "wires_ok w' xs fs" "w_counters w' = w_counters w"
proof (cases "w_hub w")
  case (Some h)
  then have h: "hub_ok h" using assms(3) by (simp add: wires_ok_def)
  obtain h' where "publish_book owns_lock (e_book (et_engine th)) h = Some h'" "hub_ok h'"
    using publish_book_shown [OF assms(1,2) h] h that by (cases owns_lock) (auto simp: publish_book_def)
  then show thesis using that [of "w\<lparr>w_hub := Some h'\<rparr>"] Some assms(3) by (simp add: serve_book_def wires_ok_def)
qed (use that [of w] assms(3) in \<open>simp add: serve_book_def\<close>)

section \<open>The invariant\<close>

definition shutdown_order :: "pipeline \<Rightarrow> bool" where
  "shutdown_order p \<longleftrightarrow> (pl_ingest_joined p \<longrightarrow> pl_shutdown p \<and> pl_phase p = PushNext) \<and> (pl_engine_stop p \<longrightarrow> pl_ingest_joined p) \<and>
     (pl_epc p \<in> {EngPool, EngLat, EngDone} \<longrightarrow> pl_engine_stop p) \<and> (pl_output_stop p \<longrightarrow> pl_epc p = EngDone) \<and> (pl_opc p = OutDone \<longrightarrow> pl_output_stop p)"

text \<open>
  What a thread still owes the counters: the ingest thread the push it has just made; the engine thread
  the message it is working on, the fills it has not sent or has sent and not counted.
\<close>

definition push_uncounted :: "push_phase \<Rightarrow> 64 word" where
  "push_uncounted ph = (if ph = PushCount True then 1 else 0)"

definition message_uncounted :: "engine_pc \<Rightarrow> 64 word" where
  "message_uncounted pc = (case pc of EngEmit _ \<Rightarrow> 1 | EngSend _ \<Rightarrow> 1 | EngCount _ _ \<Rightarrow> 1 | _ \<Rightarrow> 0)"

definition fill_uncounted :: "engine_pc \<Rightarrow> 64 word" where
  "fill_uncounted pc = (case pc of EngCount ok _ \<Rightarrow> if ok then 1 else 0 | _ \<Rightarrow> 0)"

definition fills_owed :: "engine_pc \<Rightarrow> engine \<Rightarrow> nat" where
  "fills_owed pc e = (case pc of EngEmit _ \<Rightarrow> length (e_fills e) | EngSend fs \<Rightarrow> length fs | EngCount _ fs \<Rightarrow> Suc (length fs) | _ \<Rightarrow> 0)"

lemmas engine_owed = message_uncounted_def fill_uncounted_def fills_owed_def

text \<open>
  Given the messages waiting in the input queue, the fills waiting in the output
  queue and the fills of each processed message: the histories and the counters.
\<close>

definition history :: "nat \<Rightarrow> engine_message list \<Rightarrow> fill_message list \<Rightarrow> fill_message list list \<Rightarrow> pipeline \<Rightarrow> bool" where
  "history n xs fs fss p \<longleftrightarrow> (let c = w_counters (pl_wires p); e = et_engine (pl_engine p) in
     wires_ok (pl_wires p) xs fs \<and> pl_ingested p = pl_popped p @ xs \<and> run_messages (pl_popped p) (new_engine n) = Some (fss, e) \<and>
     ingested_fn p + push_uncounted (pl_phase p) = of_nat (length (pl_ingested p)) \<and>
     ct_processed c + message_uncounted (pl_epc p) = of_nat (length (pl_popped p)) \<and>
     ct_fills c + ct_out_dropped c + of_nat (fills_owed (pl_epc p) e) = of_nat (length (concat fss)) \<and>
     ct_fills c + fill_uncounted (pl_epc p) = mc_total_matches (ot_metrics (pl_output p)) + of_nat (length fs))"

definition history_ok :: "nat \<Rightarrow> pipeline \<Rightarrow> bool" where
  "history_ok n p \<longleftrightarrow> (\<exists>xs fs fss. history n xs fs fss p)"

lemma history_okI: "history n xs fs fss p \<Longrightarrow> history_ok n p"
  by (auto simp: history_ok_def)

lemma historyD:
  assumes "history n xs fs fss p"
  shows "wires_ok (pl_wires p) xs fs" "pl_ingested p = pl_popped p @ xs"
    "run_messages (pl_popped p) (new_engine n) = Some (fss, et_engine (pl_engine p))"
    "ingested_fn p + push_uncounted (pl_phase p) = of_nat (length (pl_ingested p))"
    "ct_processed (w_counters (pl_wires p)) + message_uncounted (pl_epc p) = of_nat (length (pl_popped p))"
    "ct_fills (w_counters (pl_wires p)) + ct_out_dropped (w_counters (pl_wires p)) + of_nat (fills_owed (pl_epc p) (et_engine (pl_engine p))) = of_nat (length (concat fss))"
    "ct_fills (w_counters (pl_wires p)) + fill_uncounted (pl_epc p) = mc_total_matches (ot_metrics (pl_output p)) + of_nat (length fs)"
    "queue_rep FEED_QUEUE_SIZE (w_in (pl_wires p)) xs" "queue_rep FEED_QUEUE_SIZE (w_out (pl_wires p)) (map FillOut fs)"
    "engine_reachable n (et_engine (pl_engine p))"
  using assms reachable_run [OF engine_reachable.start] by (auto simp: history_def Let_def wires_ok_def)

lemma start_history: "history_ok n (start_pipeline n cfg opened started now)"
proof -
  have h: "hub_ok h" if "init_hub cfg started = Some h" for h
    using that new_hub_ok(1) by (auto simp: init_hub_def configure_def hub_ok_def split: if_splits)
  let ?p = "start_pipeline n cfg opened started now"
  have "wires_ok (pl_wires ?p) [] []"
    using h by (auto simp: wires_ok_def start_pipeline_def start_engine_def new_wires_def new_queue_rep feed_capacity Let_def
      intro!: exI [of _ "[]"] new_queue_rep latency_capacity)
  then have "history n [] [] [] ?p" unfolding history_def
    by (simp add: Let_def) (simp add: start_pipeline_def start_engine_def new_wires_def no_counters_def ingested_fn_def
      new_coinbase_feed_def new_output_thread_def new_metrics_def push_uncounted_def engine_owed Let_def)
  then show ?thesis by (rule history_okI)
qed

lemma run_messages_snoc:
  assumes "run_messages ms e = Some (fss, e1)" "process m e1 = Some e2"
  shows "run_messages (ms @ [m]) e = Some (fss @ [e_fills e2], e2)"
  using assms unfolding run_messages_eng by (simp add: eng.run_append)

lemma message_processed:
  assumes "engine_reachable n e" "n < 2 ^ 32"
  obtains e' where "process m e = Some e'"
  using reachable_implements [OF assms] process_implements by blast

subsection \<open>The ingest thread keeps it\<close>

lemma ingest_pushE:
  assumes "history n xs fs fss p"
  obtains ok q where "attempt_push FEED_QUEUE_SIZE miss (stamp now msg) (w_in (pl_wires p)) = Some (ok, q)"
    "queue_rep FEED_QUEUE_SIZE q (if ok then xs @ [stamp now msg] else xs)"
    "ingest_push miss now msg p = Some (p\<lparr>pl_phase := (if ok \<or> pl_live p then PushCount ok else PushNext), pl_wires := (pl_wires p)\<lparr>w_in := q\<rparr>,
       pl_ingested := (if ok then pl_ingested p @ [stamp now msg] else pl_ingested p)\<rparr>)"
  by (rule attempt_push_rep [OF feed_capacity(1) historyD(8) [OF assms], of miss "stamp now msg"]) (simp add: that ingest_push_def)

lemma ingest_history:
  assumes "history_ok n p" "pl_phase p = PushNext"
  shows "\<exists>p'. ingest_push miss now msg p = Some p' \<and> history_ok n p'"
proof -
  obtain xs fs fss where h: "history n xs fs fss p" using assms(1) by (auto simp: history_ok_def)
  note d = historyD [OF h]
  obtain ok q where q: "queue_rep FEED_QUEUE_SIZE q (if ok then xs @ [stamp now msg] else xs)"
    "ingest_push miss now msg p = Some (p\<lparr>pl_phase := (if ok \<or> pl_live p then PushCount ok else PushNext), pl_wires := (pl_wires p)\<lparr>w_in := q\<rparr>,
       pl_ingested := (if ok then pl_ingested p @ [stamp now msg] else pl_ingested p)\<rparr>)" (is "_ = Some ?p")
    by (rule ingest_pushE [OF h])
  have "wires_ok (pl_wires ?p) (if ok then xs @ [stamp now msg] else xs) fs" using d(1) q(1) by (simp add: wires_ok_def)
  then have "history n (if ok then xs @ [stamp now msg] else xs) fs fss ?p"
    using d(2-7) assms(2) by (simp add: history_def ingested_fn_def push_uncounted_def Let_def split: if_splits)
  then show ?thesis using q(2) history_okI by blast
qed

lemma count_history:
  assumes "history_ok n p"
  shows "history_ok n (ingest_count p)"
proof -
  obtain xs fs fss where h: "history n xs fs fss p" using assms by (auto simp: history_ok_def)
  note d = historyD [OF h]
  have "wires_ok (pl_wires (ingest_count p)) xs fs" by (rule wires_cong [OF d(1)]) (simp_all add: count_frame)
  moreover have "ingested_fn (ingest_count p) + push_uncounted (pl_phase (ingest_count p)) = ingested_fn p + push_uncounted (pl_phase p)"
    by (auto simp: ingest_count_def ingested_fn_def push_uncounted_def count_push_def count_ingested_def split: push_phase.splits)
  moreover have "ct_processed (w_counters (pl_wires (ingest_count p))) = ct_processed (w_counters (pl_wires p))"
    "ct_fills (w_counters (pl_wires (ingest_count p))) = ct_fills (w_counters (pl_wires p))"
    "ct_out_dropped (w_counters (pl_wires (ingest_count p))) = ct_out_dropped (w_counters (pl_wires p))"
    by (simp_all add: ingest_count_def count_ingested_def split: push_phase.splits)
  ultimately have "history n xs fs fss (ingest_count p)"
    using d(2-7) count_frame(2,3,5) [of p] by (simp add: history_def Let_def)
  then show ?thesis by (rule history_okI)
qed

subsection \<open>The engine thread keeps it\<close>

text \<open>The pop: nothing is taken, or the first waiting message is, and has been processed.\<close>

lemma engine_popE:
  assumes "history n xs fs fss p" "n < 2 ^ 32"
  obtains (refused) q where "engine_pop r p = Some (p\<lparr>pl_wires := (pl_wires p)\<lparr>w_in := q\<rparr>, pl_epc := EngCheck\<rparr>)"
      "queue_rep FEED_QUEUE_SIZE q xs" "er_miss r \<or> xs = []"
    | (taken) msg ys q e where "xs = msg # ys" "process msg (et_engine (pl_engine p)) = Some e" "queue_rep FEED_QUEUE_SIZE q ys" "\<not> er_miss r"
      "engine_pop r p = Some (p\<lparr>pl_wires := (pl_wires p)\<lparr>w_in := q\<rparr>, pl_engine := (pl_engine p)\<lparr>et_engine := e\<rparr>,
        pl_popped := pl_popped p @ [msg], pl_epc := EngEmit (message_samples (er_t0 r) (er_t1 r) msg)\<rparr>)"
proof (cases rule: attempt_pop_rep [OF feed_capacity(1) historyD(8) [OF assms(1)], of "er_miss r", case_names none some])
  case (none q)
  then show thesis using refused [of q] by (simp add: engine_pop_def)
next
  case (some msg ys q)
  obtain e where "process msg (et_engine (pl_engine p)) = Some e" by (rule message_processed [OF historyD(10) [OF assms(1)] assms(2)])
  then show thesis using taken [of msg ys e q] some by (simp add: engine_pop_def)
qed

lemma ingested_cong:
  assumes "pl_live p' = pl_live p" "pl_feed p' = pl_feed p" "ct_ingested (w_counters (pl_wires p')) = ct_ingested (w_counters (pl_wires p))"
  shows "ingested_fn p' = ingested_fn p"
  using assms by (simp add: ingested_fn_def)

lemma pop_history:
  assumes "history n xs fs fss p" "n < 2 ^ 32" "pl_epc p = EngPop"
  shows "\<exists>p'. engine_pop r p = Some p' \<and> history_ok n p'"
proof (cases rule: engine_popE [OF assms(1,2), of r, case_names none some])
  case (none q)
  let ?p = "p\<lparr>pl_wires := (pl_wires p)\<lparr>w_in := q\<rparr>, pl_epc := EngCheck\<rparr>"
  have "ingested_fn ?p = ingested_fn p" by (rule ingested_cong) simp_all
  then have "history n xs fs fss ?p"
    using historyD [OF assms(1)] assms(3) none(2) by (simp add: history_def wires_ok_def engine_owed Let_def)
  then show ?thesis using none(1) history_okI by blast
next
  case (some msg ys q e)
  let ?p = "p\<lparr>pl_wires := (pl_wires p)\<lparr>w_in := q\<rparr>, pl_engine := (pl_engine p)\<lparr>et_engine := e\<rparr>,
    pl_popped := pl_popped p @ [msg], pl_epc := EngEmit (message_samples (er_t0 r) (er_t1 r) msg)\<rparr>"
  note d = historyD [OF assms(1)]
  have "run_messages (pl_popped p @ [msg]) (new_engine n) = Some (fss @ [e_fills e], e)" by (rule run_messages_snoc [OF d(3) some(2)])
  moreover have "ingested_fn ?p = ingested_fn p" by (rule ingested_cong) simp_all
  ultimately have "history n ys fs (fss @ [e_fills e]) ?p"
    using d assms(3) some(1,3) by (simp add: history_def wires_ok_def engine_owed add.commute Let_def)
  then show ?thesis using some(5) history_okI by blast
qed

text \<open>The steps that only move the program counter, or change neither queues nor the counted numbers.\<close>

lemma history_cong:
  assumes "history n xs fs fss p" "wires_ok (pl_wires p') xs fs"
    "ct_processed (w_counters (pl_wires p')) + message_uncounted (pl_epc p') = ct_processed (w_counters (pl_wires p)) + message_uncounted (pl_epc p)"
    "ct_fills (w_counters (pl_wires p')) + fill_uncounted (pl_epc p') = ct_fills (w_counters (pl_wires p)) + fill_uncounted (pl_epc p)"
    "ct_fills (w_counters (pl_wires p')) + ct_out_dropped (w_counters (pl_wires p')) + of_nat (fills_owed (pl_epc p') (et_engine (pl_engine p'))) =
      ct_fills (w_counters (pl_wires p)) + ct_out_dropped (w_counters (pl_wires p)) + of_nat (fills_owed (pl_epc p) (et_engine (pl_engine p)))"
    "mc_total_matches (ot_metrics (pl_output p')) = mc_total_matches (ot_metrics (pl_output p))"
    "ingested_fn p' = ingested_fn p" "pl_phase p' = pl_phase p" "et_engine (pl_engine p') = et_engine (pl_engine p)"
    "pl_ingested p' = pl_ingested p" "pl_popped p' = pl_popped p"
  shows "history n xs fs fss p'"
  using assms historyD(2-7) [OF assms(1)] by (simp add: history_def Let_def)

lemma send_history:
  assumes h: "history n xs fs fss p" and pc: "pl_epc p = EngSend gs"
  shows "\<exists>p'. engine_step r p = Some p' \<and> history_ok n p'"
proof (cases gs)
  case Nil
  let ?p = "p\<lparr>pl_wires := count_processed (pl_wires p), pl_epc := EngPublish\<rparr>"
  have "history n xs fs fss ?p"
    by (rule history_cong [OF h wires_cong [OF historyD(1) [OF h]]]) (simp_all add: pc Nil count_processed_def engine_owed ingested_fn_def)
  then show ?thesis using pc Nil history_okI by (auto simp: engine_step_def)
next
  case (Cons f gs1)
  note d = historyD [OF h]
  obtain ok w where w: "push_fill (er_miss r) f (pl_wires p) = Some (ok, w)" "wires_ok w xs (if ok then fs @ [f] else fs)" "w_counters w = w_counters (pl_wires p)"
    by (rule push_fill_ok [OF d(1)])
  let ?p = "p\<lparr>pl_wires := w, pl_epc := EngCount ok gs1\<rparr>"
  have "ingested_fn ?p = ingested_fn p" by (rule ingested_cong) (simp_all add: w(3))
  then have "history n xs (if ok then fs @ [f] else fs) fss ?p"
    using d(2-7) pc Cons w(2,3) by (simp add: history_def engine_owed Let_def)
  then show ?thesis using pc Cons w(1) history_okI by (auto simp: engine_step_def)
qed

lemma engine_history:
  assumes "history_ok n p" "n < 2 ^ 32" "pl_epc p \<noteq> EngDone"
  shows "\<exists>p'. engine_step r p = Some p' \<and> history_ok n p'"
proof -
  obtain xs fs fss where h: "history n xs fs fss p" using assms(1) by (auto simp: history_ok_def)
  note d = historyD [OF h] and keep = history_cong [OF h wires_cong [OF historyD(1) [OF h]]]
  have done_by: "\<exists>p'. engine_step r p = Some p' \<and> history_ok n p'" if "engine_step r p = Some q" "history n xs fs fss q" for q
    using that history_okI by blast
  show ?thesis
  proof (cases "pl_epc p")
    case EngPop
    then show ?thesis using pop_history [OF h assms(2)] by (simp add: engine_step_def)
  next
    case (EngEmit ss)
    show ?thesis
    proof (cases ss)
      case Nil
      show ?thesis by (rule done_by [of "p\<lparr>pl_epc := EngSend (e_fills (et_engine (pl_engine p)))\<rparr>"])
        (simp add: engine_step_def EngEmit Nil, rule keep, simp_all add: EngEmit engine_owed ingested_fn_def)
    next
      case (Cons s ss1)
      obtain th w where e: "emit (er_miss r) s (pl_engine p, pl_wires p) = Some (th, w)" "wires_ok w xs fs"
          "et_engine th = et_engine (pl_engine p)" "w_counters w = w_counters (pl_wires p)" by (rule emit_ok [OF d(1)])
      show ?thesis by (rule done_by [of "p\<lparr>pl_engine := th, pl_wires := w, pl_epc := EngEmit ss1\<rparr>"])
        (simp add: engine_step_def EngEmit Cons e(1), rule history_cong [OF h], simp_all add: EngEmit engine_owed ingested_fn_def e)
    qed
  next
    case (EngSend gs)
    then show ?thesis by (rule send_history [OF h])
  next
    case (EngCount ok gs)
    show ?thesis by (rule done_by [of "p\<lparr>pl_wires := count_fill ok (pl_wires p), pl_epc := EngSend gs\<rparr>"])
      (simp add: engine_step_def EngCount, rule keep, simp_all add: EngCount engine_owed ingested_fn_def count_fill_def Let_def)
  next
    case EngPublish
    obtain th w where u: "publish_pool (pl_engine p, pl_wires p) = (th, w)" by (cases "publish_pool (pl_engine p, pl_wires p)")
    then have "et_engine th = et_engine (pl_engine p)" "w_in w = w_in (pl_wires p)" "w_out w = w_out (pl_wires p)" "w_lat w = w_lat (pl_wires p)" "w_hub w = w_hub (pl_wires p)"
        "ct_processed (w_counters w) = ct_processed (w_counters (pl_wires p))" "ct_fills (w_counters w) = ct_fills (w_counters (pl_wires p))"
        "ct_out_dropped (w_counters w) = ct_out_dropped (w_counters (pl_wires p))" "ct_ingested (w_counters w) = ct_ingested (w_counters (pl_wires p))"
      by (auto simp: publish_pool_def store_pool_free_def Let_def split: if_splits)
    note u = u this
    show ?thesis by (rule done_by [of "p\<lparr>pl_engine := th, pl_wires := w, pl_epc := EngServe\<rparr>"])
      (simp add: engine_step_def EngPublish u(1), rule keep, simp_all add: EngPublish engine_owed ingested_fn_def u)
  next
    case EngServe
    show ?thesis by (rule done_by [of "p\<lparr>pl_epc := (if book_requested (pl_wires p) then EngBook else EngPop)\<rparr>"])
      (simp add: engine_step_def EngServe, rule keep, simp_all add: EngServe engine_owed ingested_fn_def)
  next
    case EngBook
    obtain w where b: "serve_book (er_lock r) (pl_engine p) (pl_wires p) = Some w" "wires_ok w xs fs" "w_counters w = w_counters (pl_wires p)"
      by (rule serve_book_ok [OF d(10) assms(2) d(1)])
    show ?thesis by (rule done_by [of "p\<lparr>pl_wires := w, pl_epc := EngPop\<rparr>"])
      (simp add: engine_step_def EngBook b(1), rule history_cong [OF h], simp_all add: EngBook engine_owed ingested_fn_def b)
  next
    case EngCheck
    show ?thesis by (rule done_by [of "p\<lparr>pl_epc := (if er_stop r then EngPool else EngServe)\<rparr>"])
      (simp add: engine_step_def EngCheck, rule keep, simp_all add: EngCheck engine_owed ingested_fn_def)
  next
    case EngPool
    show ?thesis by (rule done_by [of "p\<lparr>pl_wires := store_pool_free (pl_engine p) (pl_wires p), pl_epc := EngLat\<rparr>"])
      (simp add: engine_step_def EngPool, rule keep, simp_all add: EngPool engine_owed ingested_fn_def store_pool_free_def)
  next
    case EngLat
    show ?thesis by (rule done_by [of "p\<lparr>pl_wires := store_lat_dropped (pl_engine p) (pl_wires p), pl_epc := EngDone\<rparr>"])
      (simp add: engine_step_def EngLat, rule keep, simp_all add: EngLat engine_owed ingested_fn_def store_lat_dropped_def)
  qed (use assms(3) in simp)
qed

subsection \<open>The output thread keeps it\<close>

text \<open>It leaves the counters alone, and the fills it has recorded are the ones it has taken.\<close>

definition same_fills :: "output_thread \<times> wires \<Rightarrow> output_thread \<times> wires \<Rightarrow> bool" where
  "same_fills st st' \<longleftrightarrow> w_counters (snd st') = w_counters (snd st) \<and>
     (\<forall>xs fs. wires_ok (snd st) xs fs \<longrightarrow> (\<exists>fs'. wires_ok (snd st') xs fs' \<and>
       mc_total_matches (ot_metrics (fst st')) + of_nat (length fs') = mc_total_matches (ot_metrics (fst st)) + of_nat (length fs)))"

lemma same_fillsI:
  assumes "w_counters w' = w_counters w" "mc_total_matches (ot_metrics t') = mc_total_matches (ot_metrics t)"
    "\<And>xs fs. wires_ok w xs fs \<Longrightarrow> wires_ok w' xs fs"
  shows "same_fills (t, w) (t', w')"
  using assms by (auto simp: same_fills_def)

lemma record_sample_matches: "mc_total_matches (record_sample s m) = mc_total_matches m"
  by (simp add: record_sample_def increment_orders_def record_match_latency_def record_order_latency_def split: sample_kind.splits)

lemma output_sample_ok:
  assumes "output_sample miss i (t, w) = Some (got, t', w')"
  shows "same_fills (t, w) (t', w')"
proof (rule same_fillsI)
  show "w_counters w' = w_counters w" "mc_total_matches (ot_metrics t') = mc_total_matches (ot_metrics t)"
    using assms by (auto simp: output_sample_def record_sample_matches split: if_splits Option.bind_splits option.splits)
  show "wires_ok w' xs fs" if w: "wires_ok w xs fs" for xs fs
  proof (cases "i < 4096")
    case True
    obtain zs where zs: "queue_rep LATENCY_QUEUE_SIZE (w_lat w) zs" using w by (auto simp: wires_ok_def)
    obtain q zs' where "queue_rep LATENCY_QUEUE_SIZE q zs'" "w' = w\<lparr>w_lat := q\<rparr>"
      by (cases rule: attempt_pop_rep [OF latency_capacity zs, of miss]) (use assms True in \<open>auto simp: output_sample_def that\<close>)
    then show ?thesis using w by (auto simp: wires_ok_def)
  qed (use assms w in \<open>simp add: output_sample_def\<close>)
qed

lemma output_message_ok:
  assumes "output_message_step miss pad written now_ms did (t, w) = Some (did', t', w')"
  shows "same_fills (t, w) (t', w')"
proof -
  have "\<exists>fs'. wires_ok w' xs fs' \<and>
      mc_total_matches (ot_metrics t') + of_nat (length fs') = mc_total_matches (ot_metrics t) + of_nat (length fs)" if w: "wires_ok w xs fs" for xs fs
  proof -
    have q: "queue_rep FEED_QUEUE_SIZE (w_out w) (map FillOut fs)" using w by (simp add: wires_ok_def)
    show ?thesis
    proof (cases rule: attempt_pop_rep [OF feed_capacity(1) q, of miss, case_names none some])
      case (none q)
      then show ?thesis using assms w by (intro exI [of _ fs]) (auto simp: output_message_step_def wires_ok_def)
    next
      case (some x ys q)
      then obtain f fs1 where f: "fs = f # fs1" "x = FillOut f" "ys = map FillOut fs1" by (cases fs) auto
      then show ?thesis using assms w some by (intro exI [of _ fs1])
        (auto simp: output_message_step_def wires_ok_def handle_fill_def hold_row_def print_tape_def increment_matches_def Let_def)
    qed
  qed
  moreover have "w_counters w' = w_counters w"
    using assms by (auto simp: output_message_step_def split: Option.bind_splits option.splits output_message.splits)
  ultimately show ?thesis by (simp add: same_fills_def)
qed

lemma publish_dashboard_ok:
  assumes "publish_dashboard clients (t, w) = Some (t', w')"
  shows "w_counters w' = w_counters w" "ot_metrics t' = ot_metrics t" "wires_ok w xs fs \<Longrightarrow> wires_ok w' xs fs"
  using assms publish_output_tape(1)
  by (auto simp: publish_dashboard_def wires_ok_def split: option.splits Option.bind_splits)

lemma print_stats_ok: "print_stats now ing c t = Some t' \<Longrightarrow> ot_metrics t' = ot_metrics t"
  by (auto simp: print_stats_def Let_def split: Option.bind_splits)

lemma publish_timer_ok:
  assumes "publish_timer clients now (t, w) = Some (t', w')"
  shows "w_counters w' = w_counters w" "ot_metrics t' = ot_metrics t" "wires_ok w xs fs \<Longrightarrow> wires_ok w' xs fs"
  using assms publish_dashboard_ok by (auto simp: publish_timer_def Let_def split: if_splits Option.bind_splits)

lemma stats_timer_ok:
  assumes "stats_timer now print_now ing (t, w) = Some (t', w')"
  shows "w' = w" "ot_metrics t' = ot_metrics t"
  using assms print_stats_ok by (auto simp: stats_timer_def split: if_splits Option.bind_splits)

lemma output_timers_ok:
  assumes "output_timers clients now print_now ing did (t, w) = Some (t', w')"
  shows "same_fills (t, w) (t', w')"
proof -
  have "w_counters w' = w_counters w \<and> ot_metrics t' = ot_metrics t \<and> (\<forall>xs fs. wires_ok w xs fs \<longrightarrow> wires_ok w' xs fs)"
    using assms publish_timer_ok stats_timer_ok
    by (fastforce simp: output_timers_def Let_def split: if_splits Option.bind_splits)
  then show ?thesis by (auto intro: same_fillsI)
qed

lemma finish_output_ok:
  assumes "finish_output now ing (t, w) = Some (t', w')"
  shows "same_fills (t, w) (t', w')" "w' = w"
proof -
  have "w' = w \<and> mc_total_matches (ot_metrics t') = mc_total_matches (ot_metrics t)"
    using assms print_stats_ok by (auto simp: finish_output_def note_dropped_samples_def split: Option.bind_splits)
  then show "same_fills (t, w) (t', w')" "w' = w" by (auto intro: same_fillsI)
qed

lemma output_history:
  assumes "history_ok n p" "same_fills (pl_output p, pl_wires p) (t, w)" "pl_wires p' = w" "pl_output p' = t"
    "engine_view p' = engine_view p" "ingest_view p' = ingest_view p"
  shows "history_ok n p'"
proof -
  obtain xs fs fss where h: "history n xs fs fss p" using assms(1) by (auto simp: history_ok_def)
  note d = historyD [OF h]
  obtain fs' where fs': "wires_ok w xs fs'"
      "mc_total_matches (ot_metrics t) + of_nat (length fs') = mc_total_matches (ot_metrics (pl_output p)) + of_nat (length fs)"
    using assms(2) d(1) by (auto simp: same_fills_def)
  have c: "w_counters w = w_counters (pl_wires p)" using assms(2) by (simp add: same_fills_def)
  have "ingested_fn p' = ingested_fn p" by (rule ingested_cong) (use assms(3,6) c in simp_all)
  then have "history n xs fs' fss p'" using assms(3-6) d(2-7) fs' c by (simp add: history_def Let_def)
  then show ?thesis by (rule history_okI)
qed

subsection \<open>Every step keeps it\<close>

lemma step_history:
  assumes "pipeline_step p p'" "history_ok n p" "n < 2 ^ 32"
  shows "history_ok n p'"
  using assms(1)
proof cases
  case (ingest miss now msg)
  then show ?thesis using ingest_history [OF assms(2), of miss now msg] by auto
next
  case (ingested ok)
  then show ?thesis using count_history [OF assms(2)] by simp
next
  case (engine r)
  then have "pl_epc p \<noteq> EngDone" by (auto simp: engine_step_def)
  then show ?thesis using engine_history [OF assms(2,3), of r] engine(1) by auto
next
  case (output_sample miss got t w)
  show ?thesis by (rule output_history [OF assms(2) output_sample_ok [OF output_sample(3)]]) (simp_all add: output_sample(1))
next
  case (output_pop miss pad written now_ms did t w)
  show ?thesis by (rule output_history [OF assms(2) output_message_ok [OF output_pop(3)]]) (simp_all add: output_pop(1))
next
  case (output_timers clients now print_now t w)
  show ?thesis by (rule output_history [OF assms(2) output_timers_ok [OF output_timers(3)]]) (simp_all add: output_timers(1))
next
  case (output_done now t w)
  show ?thesis by (rule output_history [OF assms(2) finish_output_ok(1) [OF output_done(4)]]) (simp_all add: output_done(1))
next
  case (server h now_ms)
  have "hub_ok h \<Longrightarrow> hub_ok (snd (broadcast_tick now_ms h))" by (simp add: broadcast_tick_def request_book_def hub_ok_def Let_def)
  then have "same_fills (pl_output p, pl_wires p) (pl_output p', pl_wires p')"
    using server by (auto simp: wires_ok_def intro!: same_fillsI)
  then show ?thesis by (rule output_history [OF assms(2)]) (simp_all add: server(1))
next
  case (feed_frame h)
  obtain xs fs fss where h: "history n xs fs fss p" using assms(2) by (auto simp: history_ok_def)
  have "history n xs fs fss p'" by (rule history_cong [OF h]) (simp_all add: feed_frame(1) ingested_fn_def historyD(1) [OF h])
  then show ?thesis by (rule history_okI)
qed (rule output_history [OF assms(2), of "pl_output p'" "pl_wires p'"]; simp add: signal_handler_def; rule same_fillsI; simp)+

lemma engine_stages:
  assumes "engine_step r p = Some p'" "pl_epc p' \<in> {EngPool, EngLat, EngDone}"
  shows "pl_epc p \<in> {EngPool, EngLat} \<or> pl_epc p = EngCheck \<and> er_stop r"
proof (cases "pl_epc p")
  case (EngEmit ss)
  then show ?thesis using assms by (cases ss) (auto simp: engine_step_def split: Option.bind_splits)
next
  case (EngSend fs)
  then show ?thesis using assms by (cases fs) (auto simp: engine_step_def split: Option.bind_splits)
qed (use assms in \<open>auto simp: engine_step_def engine_pop_def Let_def split: option.splits prod.splits Option.bind_splits if_splits\<close>)

lemma step_order:
  assumes "pipeline_step p p'" "shutdown_order p"
  shows "shutdown_order p'"
  using assms(1)
proof cases
  case (ingest miss now msg)
  then show ?thesis using ingest_frame [OF ingest(3)] assms(2) by (auto simp: shutdown_order_def)
next
  case (ingested ok)
  then show ?thesis using count_frame [of p] assms(2) by (auto simp: shutdown_order_def)
next
  case (engine r)
  then have "pl_epc p \<noteq> EngDone" by (auto simp: engine_step_def)
  then show ?thesis using engine engine_frame [OF engine(1)] engine_stages [OF engine(1)] assms(2) unfolding shutdown_order_def by auto
qed (use assms(2) in \<open>auto simp: shutdown_order_def signal_handler_def\<close>)

lemma pipeline_inv:
  assumes "pipeline_reachable n p" "n < 2 ^ 32"
  shows "shutdown_order p \<and> history_ok n p"
  using assms(1)
proof induction
  case (start cfg opened started now)
  then show ?case using start_history by (simp add: start_pipeline_def shutdown_order_def start_engine_def Let_def)
next
  case (step p p')
  then show ?case using step_history [OF _ _ assms(2)] step_order by blast
qed

section \<open>What an ingest thread may rely on\<close>

text \<open>
  The contract of the pipeline with a system that runs one of the ingest loops inside it:
  when each state of the system has a pipeline that the threads can reach, the pipeline
  gives its guarantees to that system.
\<close>

locale ingest_system =
  fixes n :: nat and reach :: "'s \<Rightarrow> bool" and pipe :: "'s \<Rightarrow> pipeline"
  assumes projects: "reach s \<Longrightarrow> n < 2 ^ 32 \<Longrightarrow> pipeline_reachable n (pipe s)"
begin

lemma accounts: "reach s \<Longrightarrow> n < 2 ^ 32 \<Longrightarrow> history_ok n (pipe s)"
  using pipeline_inv projects by blast

lemma staged: "reach s \<Longrightarrow> n < 2 ^ 32 \<Longrightarrow> shutdown_order (pipe s)"
  using pipeline_inv projects by blast

lemma counted:
  "reach s \<Longrightarrow> n < 2 ^ 32 \<Longrightarrow> ingested_fn (pipe s) + push_uncounted (pl_phase (pipe s)) = of_nat (length (pl_ingested (pipe s)))"
  using accounts historyD(4) unfolding history_ok_def by blast

lemma in_order:
  assumes "reach s" "n < 2 ^ 32"
  obtains xs fss where "pl_ingested (pipe s) = pl_popped (pipe s) @ xs" "run_messages (pl_popped (pipe s)) (new_engine n) = Some (fss, et_engine (pl_engine (pipe s)))"
  using accounts [OF assms] historyD(2,3) unfolding history_ok_def by blast

lemma engine_ready: "reach s \<Longrightarrow> n < 2 ^ 32 \<Longrightarrow> pl_epc (pipe s) \<noteq> EngDone \<Longrightarrow> \<exists>p'. engine_step r (pipe s) = Some p'"
  using engine_history [OF accounts] by blast

lemma push_ready: "reach s \<Longrightarrow> n < 2 ^ 32 \<Longrightarrow> pl_phase (pipe s) = PushNext \<Longrightarrow> \<exists>p'. ingest_push miss now msg (pipe s) = Some p'"
  using ingest_history [OF accounts] by blast

end

interpretation any_ingest: ingest_system n "pipeline_reachable n" "\<lambda>p. p" for n
  by unfold_locales

section \<open>What a run of the pipeline guarantees\<close>

text \<open>
  C30.  In every state the threads can reach, the messages accepted from ingest are the ones
  the engine has taken followed by the ones waiting in the input queue, in order, and the engine
  is in the state that processing exactly the taken messages leads to.  The counters agree with these
  histories (modulo 64 bits) up to what a thread has done and not counted yet: the number of ingested
  messages is behind by a push that succeeded and waits for its update; the number of processed messages by the
  message the engine thread is working on; fills sent and fills dropped together are the fills
  produced, less the fills of that message still to be sent or counted; and fills sent are the
  ones the output thread has recorded and the ones waiting for it, less a push that is not counted.
  So when neither thread is between a push and its update, all of them are exact.  The threads stop in
  pipeline order, and the engine thread has a next step until it has ended.
\<close>

theorem pipeline_sound:
  assumes "pipeline_reachable n p" "n < 2 ^ 32"
  shows "\<exists>waiting fills fss. let c = w_counters (pl_wires p) in
    queue_rep FEED_QUEUE_SIZE (w_in (pl_wires p)) waiting \<and> queue_rep FEED_QUEUE_SIZE (w_out (pl_wires p)) (map FillOut fills) \<and>
    pl_ingested p = pl_popped p @ waiting \<and> run_messages (pl_popped p) (new_engine n) = Some (fss, et_engine (pl_engine p)) \<and>
    ingested_fn p + push_uncounted (pl_phase p) = of_nat (length (pl_ingested p)) \<and>
    ct_processed c + message_uncounted (pl_epc p) = of_nat (length (pl_popped p)) \<and>
    ct_fills c + ct_out_dropped c + of_nat (fills_owed (pl_epc p) (et_engine (pl_engine p))) = of_nat (length (concat fss)) \<and>
    ct_fills c + fill_uncounted (pl_epc p) = mc_total_matches (ot_metrics (pl_output p)) + of_nat (length fills) \<and>
    (pl_phase p = PushNext \<and> pl_epc p \<in> {EngPop, EngCheck, EngDone} \<longrightarrow>
      ingested_fn p = of_nat (length (pl_ingested p)) \<and> ct_processed c = of_nat (length (pl_popped p)) \<and>
      ct_fills c + ct_out_dropped c = of_nat (length (concat fss)) \<and>
      ct_fills c = mc_total_matches (ot_metrics (pl_output p)) + of_nat (length fills)) \<and>
    shutdown_order p \<and> (pl_epc p = EngDone \<or> (\<exists>p'. engine_step r p = Some p'))"
proof -
  obtain xs fs fss where h: "history n xs fs fss p" using any_ingest.accounts [OF assms] by (auto simp: history_ok_def)
  have "pl_epc p = EngDone \<or> (\<exists>p'. engine_step r p = Some p')" using any_ingest.engine_ready [OF assms] by blast
  then show ?thesis using historyD(2-9) [OF h] any_ingest.staged [OF assms] unfolding Let_def
    by (intro exI [of _ xs] exI [of _ fs] exI [of _ fss]) (auto simp: push_uncounted_def engine_owed)
qed

text \<open>A state with one message ingested and counted and none taken, from the generator's mode.\<close>

definition one_waiting :: pipeline where
  "one_waiting = ingest_count (the (ingest_push False 5 (Cancel \<lparr>c_id = 1, c_timestamp = 0\<rparr>)
     (start_pipeline 4 (default_config\<lparr>cfg_live := False\<rparr>) True False 0)))"

lemma start_pipeline_sel:
  "pl_phase (start_pipeline n cfg opened started now) = PushNext" "pl_ingest_joined (start_pipeline n cfg opened started now) = False"
  "pl_epc (start_pipeline n cfg opened started now) = EngPop" "pl_ingested (start_pipeline n cfg opened started now) = []"
  "pl_popped (start_pipeline n cfg opened started now) = []" "pl_live (start_pipeline n cfg opened started now) = cfg_live cfg"
  "w_in (pl_wires (start_pipeline n cfg opened started now)) = new_spsc FEED_QUEUE_SIZE no_message"
  by (simp_all add: start_pipeline_def start_engine_def new_wires_def Let_def)

text \<open>On an empty input queue a push that misses nothing succeeds.\<close>

lemma first_push:
  assumes "history_ok n p" "pl_ingested p = pl_popped p"
  obtains p' where "ingest_push False now msg p = Some p'" "pl_phase p' = PushCount True" "pl_ingested p' = pl_ingested p @ [stamp now msg]"
proof -
  obtain xs fs fss where h: "history n xs fs fss p" using assms(1) by (auto simp: history_ok_def)
  have "queue_rep FEED_QUEUE_SIZE (w_in (pl_wires p)) []" using historyD(2,8) [OF h] assms(2) by simp
  then obtain q where "try_push FEED_QUEUE_SIZE (stamp now msg) (w_in (pl_wires p)) = Some (True, q)"
    using ring.push_rep [of FEED_QUEUE_SIZE "w_in (pl_wires p)" "[]" "stamp now msg"] feed_capacity by auto
  then show thesis by (intro that [of "p\<lparr>pl_phase := PushCount True, pl_wires := (pl_wires p)\<lparr>w_in := q\<rparr>, pl_ingested := pl_ingested p @ [stamp now msg]\<rparr>"])
    (simp_all add: ingest_push_def attempt_push_def)
qed

lemma one_waiting_reachable:
  "pipeline_reachable 4 one_waiting" "pl_ingested one_waiting = [Cancel \<lparr>c_id = 1, c_timestamp = 5\<rparr>]" "pl_epc one_waiting = EngPop"
  "pl_phase one_waiting = PushNext" "pl_popped one_waiting = []" "pl_live one_waiting = False" "pl_ingest_joined one_waiting = False"
proof -
  let ?p = "start_pipeline 4 (default_config\<lparr>cfg_live := False\<rparr>) True False 0" and ?m = "Cancel \<lparr>c_id = 1, c_timestamp = 0\<rparr>"
  obtain p1 where p1: "ingest_push False 5 ?m ?p = Some p1" "pl_phase p1 = PushCount True" "pl_ingested p1 = pl_ingested ?p @ [stamp 5 ?m]"
    by (rule first_push [OF start_history [of 4 "default_config\<lparr>cfg_live := False\<rparr>" True False 0], of 5 ?m]) (auto simp: start_pipeline_sel)
  then have e: "one_waiting = ingest_count p1" by (simp add: one_waiting_def)
  have "pipeline_reachable 4 p1" by (rule pipeline_reachable.step [OF pipeline_reachable.start pipeline_step.ingest [OF _ _ p1(1)]])
    (simp_all add: start_pipeline_sel)
  then show "pipeline_reachable 4 one_waiting" unfolding e by (rule pipeline_reachable.step) (rule pipeline_step.ingested [OF p1(2)])
  show "pl_ingested one_waiting = [Cancel \<lparr>c_id = 1, c_timestamp = 5\<rparr>]" "pl_epc one_waiting = EngPop" "pl_phase one_waiting = PushNext"
    "pl_popped one_waiting = []" "pl_live one_waiting = False" "pl_ingest_joined one_waiting = False"
    using count_frame [of p1] p1(3) ingest_frame [OF p1(1)] by (simp_all add: e start_pipeline_sel)
qed

theorem pipeline_sound_witness:
  "pl_ingested one_waiting \<noteq> [] \<and> (\<exists>waiting fills fss. let c = w_counters (pl_wires one_waiting) in
    queue_rep FEED_QUEUE_SIZE (w_in (pl_wires one_waiting)) waiting \<and>
    queue_rep FEED_QUEUE_SIZE (w_out (pl_wires one_waiting)) (map FillOut fills) \<and>
    pl_ingested one_waiting = pl_popped one_waiting @ waiting \<and>
    run_messages (pl_popped one_waiting) (new_engine 4) = Some (fss, et_engine (pl_engine one_waiting)) \<and>
    ingested_fn one_waiting = of_nat (length (pl_ingested one_waiting)) \<and> ct_processed c = of_nat (length (pl_popped one_waiting)) \<and>
    ct_fills c + ct_out_dropped c = of_nat (length (concat fss)) \<and>
    ct_fills c = mc_total_matches (ot_metrics (pl_output one_waiting)) + of_nat (length fills) \<and> shutdown_order one_waiting \<and>
    (\<exists>p'. engine_step \<lparr>er_miss = False, er_stop = False, er_lock = True, er_t0 = 0, er_t1 = 0\<rparr> one_waiting = Some p'))"
  using pipeline_sound [OF one_waiting_reachable(1)] one_waiting_reachable(2-4) unfolding Let_def by fastforce

section \<open>The shutdown race\<close>

text \<open>
  C32.  The comment of the engine loop says that it leaves with the queue drained, and the one at the
  top of the file that no queue is abandoned.  The stop flag is however loaded after the failed pop: a message
  pushed in between, by an ingest thread that is then joined, stays in the queue.  Whenever
  the engine is idle before shutdown, the next message can be lost this way.
\<close>

lemma settle_ingest:
  assumes "pipeline_reachable n p"
  shows "pipeline_reachable n (ingest_count p)"
proof (cases "pl_phase p")
  case PushNext
  then show ?thesis using assms by (simp add: ingest_count_def)
next
  case (PushCount ok)
  then show ?thesis by (intro pipeline_reachable.step [OF assms pipeline_step.ingested])
qed

lemma engine_leaves:
  assumes "pipeline_reachable n p" "pl_epc p = EngCheck" "pl_engine_stop p"
  shows "\<exists>p'. pipeline_reachable n p' \<and> pl_epc p' = EngDone \<and> pl_popped p' = pl_popped p \<and> pl_ingested p' = pl_ingested p"
proof -
  let ?r = "\<lparr>er_miss = False, er_stop = True, er_lock = False, er_t0 = 0, er_t1 = 0\<rparr>"
  let ?p1 = "p\<lparr>pl_epc := EngPool\<rparr>"
  let ?p2 = "?p1\<lparr>pl_wires := store_pool_free (pl_engine p) (pl_wires p), pl_epc := EngLat\<rparr>"
  let ?p3 = "?p2\<lparr>pl_wires := store_lat_dropped (pl_engine p) (pl_wires ?p2), pl_epc := EngDone\<rparr>"
  have "pipeline_reachable n ?p1" by (rule pipeline_reachable.step [OF assms(1) pipeline_step.engine [of ?r]]) (simp_all add: assms engine_step_def)
  then have "pipeline_reachable n ?p2" by (rule pipeline_reachable.step [OF _ pipeline_step.engine [of ?r]]) (simp_all add: engine_step_def)
  then have "pipeline_reachable n ?p3" by (rule pipeline_reachable.step [OF _ pipeline_step.engine [of ?r]]) (simp_all add: engine_step_def)
  then show ?thesis by (intro exI [of _ ?p3]) simp
qed

lemma shutdown_may_abandon:
  assumes p: "pipeline_reachable n p" "n < 2 ^ 32" and idle: "pl_epc p = EngPop" "pl_ingested p = pl_popped p" "\<not> pl_ingest_joined p"
  shows "\<exists>p'. pipeline_reachable n p' \<and> pl_epc p' = EngDone \<and> pl_popped p' = pl_popped p \<and> pl_ingested p' = pl_ingested p @ [stamp now msg]"
proof -
  let ?p0 = "ingest_count p" and ?r = "\<lparr>er_miss = False, er_stop = False, er_lock = False, er_t0 = 0, er_t1 = 0\<rparr>"
  note c0 = count_frame [of p]
  have r0: "pipeline_reachable n ?p0" by (rule settle_ingest [OF p(1)])
  obtain xs fs fss where h: "history n xs fs fss ?p0" using any_ingest.accounts [OF r0 p(2)] by (auto simp: history_ok_def)
  have "xs = []" using historyD(2) [OF h] c0 idle(2) by simp
  then obtain q where q: "engine_pop ?r ?p0 = Some (?p0\<lparr>pl_wires := (pl_wires ?p0)\<lparr>w_in := q\<rparr>, pl_epc := EngCheck\<rparr>)" (is "_ = Some ?p1")
    by (cases rule: engine_popE [OF h p(2), of ?r, case_names none some]) auto
  have r1: "pipeline_reachable n ?p1"
    by (rule pipeline_reachable.step [OF r0 pipeline_step.engine [of ?r]]) (use q c0 idle(1) in \<open>simp_all add: engine_step_def\<close>)
  obtain p2 where p2: "ingest_push False now msg ?p1 = Some p2" "pl_phase p2 = PushCount True" "pl_ingested p2 = pl_ingested ?p1 @ [stamp now msg]"
    by (rule first_push [OF any_ingest.accounts [OF r1 p(2)]]) (use c0 idle(2) in auto)
  have r2: "pipeline_reachable n p2"
    by (rule pipeline_reachable.step [OF r1 pipeline_step.ingest [OF _ _ p2(1)]]) (use c0 idle(3) in simp_all)
  let ?p3 = "ingest_count p2"
  have p3: "pl_epc ?p3 = EngCheck" "pl_popped ?p3 = pl_popped p" "pl_ingested ?p3 = pl_ingested p @ [stamp now msg]" "pl_phase ?p3 = PushNext"
    using count_frame [of p2] ingest_frame(3) [OF p2(1)] p2(3) c0 by simp_all
  have "pipeline_reachable n (?p3\<lparr>pl_shutdown := True\<rparr>)"
    by (rule pipeline_reachable.step [OF settle_ingest [OF r2] pipeline_step.signal, unfolded signal_handler_def])
  then have "pipeline_reachable n (?p3\<lparr>pl_shutdown := True, pl_ingest_joined := True\<rparr>)"
    by (rule pipeline_reachable.step, intro pipeline_step.join_ingest) (simp_all add: p3)
  then have "pipeline_reachable n (?p3\<lparr>pl_shutdown := True, pl_ingest_joined := True, pl_engine_stop := True\<rparr>)"
    by (rule pipeline_reachable.step) (use pipeline_step.stop_engine [of "?p3\<lparr>pl_shutdown := True, pl_ingest_joined := True\<rparr>"] in simp)
  from engine_leaves [OF this] p3 show ?thesis by simp
qed

theorem shutdown_may_abandon_witness:
  "\<exists>p. pipeline_reachable 4 p \<and> pl_epc p = EngDone \<and> pl_popped p = [] \<and> pl_ingested p = [Cancel \<lparr>c_id = 1, c_timestamp = 5\<rparr>]"
  using shutdown_may_abandon [OF pipeline_reachable.start [of 4 default_config True False 0], of 5 "Cancel \<lparr>c_id = 1, c_timestamp = 0\<rparr>"]
  by (simp add: start_pipeline_sel)

end
