(* ===== verification/Feed_Numbers.thy ===== *)
theory Feed_Numbers
  imports Feed_Handler
begin

text \<open>
  The decimal conversions of the feed handler are exact on the amounts the exchange
  sends: prices with two decimal places and sizes with six, in spite of the roundings of
  \<^verbatim>\<open>from_chars\<close>, of \<^verbatim>\<open>0.01\<close> and of the quotient or product.
\<close>

lemma rel_error_unit:
  assumes "1 / 2 ^ 20 \<le> x"
  obtains \<delta> where "fl x = x * (1 + \<delta>)" "\<bar>\<delta>\<bar> \<le> 1 / 2 ^ 53"
proof (rule rel_error_obtain)
  have "(2::rat) powi (- 1022) \<le> x" using tiny assms by (rule order_trans)
  also have "\<dots> \<le> \<bar>x\<bar>" by (rule abs_ge_self)
  finally show "2 powi (- 1022) \<le> \<bar>x\<bar>" .
qed (rule that)

lemma rel_product:
  fixes \<delta> \<epsilon> :: rat
  assumes "\<bar>\<delta>\<bar> \<le> 1 / 2 ^ 53" "\<bar>\<epsilon>\<bar> \<le> 1 / 2 ^ 53"
  shows "\<bar>(1 + \<delta>) * (1 + \<epsilon>) - 1\<bar> \<le> 3 / 2 ^ 53"
proof -
  have "\<bar>(1 + \<delta>) * (1 + \<epsilon>) - 1\<bar> \<le> \<bar>\<delta>\<bar> + \<bar>\<epsilon>\<bar> + \<bar>\<delta>\<bar> * \<bar>\<epsilon>\<bar>"
    by (simp add: algebra_simps abs_mult [symmetric])
  also have "\<bar>\<delta>\<bar> * \<bar>\<epsilon>\<bar> \<le> 1 / 2 ^ 53 * 1" using assms by (intro mult_mono) simp_all
  finally show ?thesis using assms by simp
qed

lemma scaled_near:
  fixes t r :: rat
  assumes "1 \<le> t" "t < 2 ^ 32" "\<bar>r - 1\<bar> \<le> 8 / 2 ^ 53"
  shows "\<bar>t * r - t\<bar> < 1 / 2"
proof -
  have "\<bar>t * r - t\<bar> = t * \<bar>r - 1\<bar>" using assms(1) abs_mult [of t "r - 1"] by (simp add: right_diff_distrib)
  also have "\<dots> \<le> 2 ^ 32 * (8 / 2 ^ 53)" using assms by (intro mult_mono) simp_all
  also have "\<dots> < (1 / 2 :: rat)" by simp
  finally show ?thesis .
qed

text \<open>Dividing by the double nearest to \<open>1 / 100\<close>, and multiplying by a million.\<close>

lemma cents_near:
  assumes "1 \<le> t" "t < 2 ^ 32"
  shows "\<bar>fl (fl (t / 100) / fl (1 / 100)) - t\<bar> < 1 / 2" "0 < fl (1 / 100)" "0 < fl (t / 100)" "fl (t / 100) < 2 ^ 33"
proof -
  obtain \<delta> where d: "fl (1 / 100) = 1 / 100 * (1 + \<delta>)" "\<bar>\<delta>\<bar> \<le> 1 / 2 ^ 53" 
    by (rule rel_error_unit [of "1 / 100"]) (simp_all add: le_divide_eq)
  obtain \<epsilon> where e: "fl (t / 100) = t / 100 * (1 + \<epsilon>)" "\<bar>\<epsilon>\<bar> \<le> 1 / 2 ^ 53"
    by (rule rel_error_unit [of "t / 100"]) (use assms in \<open>simp_all add: le_divide_eq\<close>)
  have small: "\<bar>\<delta>\<bar> \<le> 1 / 4" "\<bar>\<epsilon>\<bar> \<le> 1 / 4" by (rule order_trans [OF d(2)], simp) (rule order_trans [OF e(2)], simp)
  then have b: "3 / 4 \<le> 1 + \<delta>" "1 + \<delta> \<le> 5 / 4" "3 / 4 \<le> 1 + \<epsilon>" "1 + \<epsilon> \<le> 5 / 4" by linarith+
  have "0 < t / 100 * (1 + \<epsilon>)" using b assms(1) by (intro mult_pos_pos) simp_all
  then show pos: "0 < fl (1 / 100)" "0 < fl (t / 100)" using d(1) b by (simp_all only: e(1)) simp
  have "fl (t / 100) \<le> t * (5 / 4)" unfolding e(1) using b assms(1) by (intro mult_mono) simp_all
  then show "fl (t / 100) < 2 ^ 33" using assms by simp
  let ?r = "(1 + \<epsilon>) / (1 + \<delta>)"
  have q: "fl (t / 100) / fl (1 / 100) = t * ?r" unfolding d(1) e(1) by simp
  have "1 / 2 \<le> ?r" using b by (simp add: le_divide_eq)
  then have "1 * (1 / 2) \<le> t * ?r" using assms(1) by (intro mult_mono) simp_all
  moreover have "(1 / 2 ^ 20 :: rat) \<le> 1 * (1 / 2)" by simp
  ultimately have "1 / 2 ^ 20 \<le> t * ?r" by (rule order_trans [rotated])
  then obtain \<gamma> where g: "fl (t * ?r) = t * ?r * (1 + \<gamma>)" "\<bar>\<gamma>\<bar> \<le> 1 / 2 ^ 53" by (rule rel_error_unit)
  have "?r * (1 + \<gamma>) - 1 = ((1 + \<epsilon>) * (1 + \<gamma>) - 1 - \<delta>) / (1 + \<delta>)" using b by (simp add: field_simps)
  then have "\<bar>?r * (1 + \<gamma>) - 1\<bar> = \<bar>(1 + \<epsilon>) * (1 + \<gamma>) - 1 - \<delta>\<bar> / (1 + \<delta>)" using b by (simp add: abs_divide)
  also have "\<dots> \<le> (4 / 2 ^ 53) / (1 / 2)"
  proof (rule frac_le)
    have "\<bar>(1 + \<epsilon>) * (1 + \<gamma>) - 1 - \<delta>\<bar> \<le> \<bar>(1 + \<epsilon>) * (1 + \<gamma>) - 1\<bar> + \<bar>\<delta>\<bar>" by (rule abs_triangle_ineq4)
    then show "\<bar>(1 + \<epsilon>) * (1 + \<gamma>) - 1 - \<delta>\<bar> \<le> 4 / 2 ^ 53" using rel_product [OF e(2) g(2)] d(2) by simp
  qed (use b in simp_all)
  finally have "\<bar>?r * (1 + \<gamma>) - 1\<bar> \<le> 8 / 2 ^ 53" by simp
  from scaled_near [OF assms this] show "\<bar>fl (fl (t / 100) / fl (1 / 100)) - t\<bar> < 1 / 2"
    unfolding q g(1) by (simp only: mult.assoc)
qed

lemma million_near:
  assumes "1 \<le> t" "t < 2 ^ 32"
  shows "\<bar>fl (fl (t / 1000000) * 1000000) - t\<bar> < 1 / 2" "0 < fl (t / 1000000)" "fl (t / 1000000) < 2 ^ 33"
proof -
  have "1 / 2 ^ 20 \<le> t / 1000000" using assms(1) by simp
  then obtain \<epsilon> where e: "fl (t / 1000000) = t / 1000000 * (1 + \<epsilon>)" "\<bar>\<epsilon>\<bar> \<le> 1 / 2 ^ 53" by (rule rel_error_unit)
  have "\<bar>\<epsilon>\<bar> \<le> 1 / 4" using e(2) by (rule order_trans) simp
  then have b: "3 / 4 \<le> 1 + \<epsilon>" "1 + \<epsilon> \<le> 5 / 4" by linarith+
  have "0 < t / 1000000 * (1 + \<epsilon>)" using b assms(1) by (intro mult_pos_pos) simp_all
  then show "0 < fl (t / 1000000)" by (simp only: e(1))
  have "fl (t / 1000000) \<le> t * (5 / 4)" unfolding e(1) using b assms(1) by (intro mult_mono) simp_all
  then show "fl (t / 1000000) < 2 ^ 33" using assms by simp
  have q: "fl (t / 1000000) * 1000000 = t * (1 + \<epsilon>)" unfolding e(1) by simp
  have "1 * (3 / 4) \<le> t * (1 + \<epsilon>)" using assms(1) b by (intro mult_mono) simp_all
  then have "1 / 2 ^ 20 \<le> t * (1 + \<epsilon>)" by simp
  then obtain \<gamma> where g: "fl (t * (1 + \<epsilon>)) = t * (1 + \<epsilon>) * (1 + \<gamma>)" "\<bar>\<gamma>\<bar> \<le> 1 / 2 ^ 53" by (rule rel_error_unit)
  have "\<bar>(1 + \<epsilon>) * (1 + \<gamma>) - 1\<bar> \<le> 8 / 2 ^ 53" using rel_product [OF e(2) g(2)] by simp
  from scaled_near [OF assms this] show "\<bar>fl (fl (t / 1000000) * 1000000) - t\<bar> < 1 / 2"
    unfolding q g(1) by (simp only: mult.assoc)
qed

lemma parse_amount:
  assumes "0 < v" "n < 10 ^ (v + w)" "0 < fl (of_nat n / 10 ^ w)" "fl (of_nat n / 10 ^ w) < 2 ^ 33"
  shows "parse_double (print_amount v w n) = Some (Fin (fl (of_nat n / 10 ^ w)))"
proof -
  have "\<bar>fl (of_nat n / 10 ^ w)\<bar> < 2 ^ 33" using assms(3,4) by simp
  then have "round_dbl (of_nat n / 10 ^ w) = Fin (fl (of_nat n / 10 ^ w))" by (rule fin_small) simp
  moreover have "print_amount v w n \<noteq> []" by (simp add: print_amount_def)
  ultimately show ?thesis using assms by (simp add: parse_double_def from_chars_amount represent_def)
qed

lemma near_bounded:
  assumes "\<bar>y - t\<bar> < (1 / 2 :: rat)" "1 \<le> t" "t < 2 ^ 32"
  shows "\<bar>y\<bar> < 2 ^ 33" "0 < y"
proof -
  have t: "t < 4294967296" using assms(3) by simp
  have b: "y - t < 1 / 2" "- (y - t) < 1 / 2" using assms(1) by (simp_all only: abs_less_iff)
  then show "0 < y" using assms(2) by linarith
  then show "\<bar>y\<bar> < 2 ^ 33" using b(1) t by simp
qed

lemma amount_conversions:
  assumes "0 < v" "0 < n"
  shows "(int n < MAX_PRICE_TICKS \<and> n < 10 ^ (v + 2) \<longrightarrow> to_ticks (print_amount v 2 n) = Some (Ticks (int n))) \<and>
    (n < 2 ^ 32 \<and> n < 10 ^ (v + 6) \<longrightarrow> to_lots (print_amount v 6 n) = Some (Some (of_nat n)))"
proof (intro conjI impI; elim conjE)
  let ?t = "of_nat n :: rat"
  have t1: "1 \<le> ?t" using assms(2) by simp
  show "to_ticks (print_amount v 2 n) = Some (Ticks (int n))" if n: "int n < MAX_PRICE_TICKS" "n < 10 ^ (v + 2)"
  proof -
    have t2: "?t < 2 ^ 32" using n(1) of_nat_less_iff [of n "2 ^ 32", where ?'a = rat] by (simp add: MAX_PRICE_TICKS_def)
    note c = cents_near [OF t1 t2]
    have "parse_double (print_amount v 2 n) = Some (Fin (fl (?t / 100)))"
      using parse_amount [OF assms(1) n(2)] c by simp
    moreover have "round_dbl (fl (?t / 100) / fl (1 / 100)) = Fin (fl (fl (?t / 100) / fl (1 / 100)))"
      by (rule fin_small [OF near_bounded(1) [OF c(1) t1 t2]]) simp
    moreover have "round_away (fl (fl (?t / 100) / fl (1 / 100))) = int n" by (rule round_away_near) (use c(1) in simp)
    ultimately have "to_ticks (print_amount v 2 n) = Option.bind (to_int64 (of_int (int n))) (\<lambda>p. Some (if p \<le> 0 \<or> p \<ge> MAX_PRICE_TICKS then TickRange else Ticks p))"
      using c(2) by (simp add: to_ticks_def dollars_to_ticks_def tick_fin)
    then show ?thesis using n(1) assms(2) by (simp add: to_int64_def trunc_int_def MAX_PRICE_TICKS_def)
  qed
  show "to_lots (print_amount v 6 n) = Some (Some (of_nat n))" if n: "n < 2 ^ 32" "n < 10 ^ (v + 6)"
  proof -
    have t2: "?t < 2 ^ 32" using n(1) of_nat_less_iff [of n "2 ^ 32", where ?'a = rat] by simp
    note c = million_near [OF t1 t2]
    let ?y = "fl (fl (?t / 1000000) * 1000000)"
    have p: "parse_double (print_amount v 6 n) = Some (Fin (fl (?t / 1000000)))"
      using parse_amount [OF assms(1) n(2)] c by simp
    have y: "dmul (Fin (fl (?t / 1000000))) LOTS_PER_COIN = Fin ?y"
      using fin_small [OF near_bounded(1) [OF c(1) t1 t2]] by (simp add: LOTS_PER_COIN_def)
    have m: "dbl_of_int (uint (- 1 :: Quantity)) = Fin 4294967295" by (subst dbl_of_int_exact) (simp_all add: uint_word_ariths)
    have r: "round_away ?y = int n" by (rule round_away_near) (use c(1) in simp)
    show ?thesis
    proof (cases "4294967295 \<le> ?y")
      case True
      then have "4294967294 < ?t" using c(1) unfolding abs_less_iff by linarith
      then have "n = 4294967295" using n(1) of_nat_less_iff [of 4294967294 n, where ?'a = rat] by simp
      then show ?thesis using True p y m c(2) by (simp add: to_lots_def)
    next
      case False
      then show ?thesis using p y m c(2) r n(1) by (simp add: to_lots_def llround_def to_int64_def trunc_int_def)
    qed
  qed
qed

text \<open>
  C23: Decimal amounts survive parsing exactly: a price inside the book written with two
  decimal places converts to its tick, and a size written with six decimal places
  converts to its number of lots, up to the largest quantity.
\<close>

theorem amounts_exact:
  assumes "0 < v" "0 < n"
  shows "(int n < MAX_PRICE_TICKS \<and> n < 10 ^ (v + 2) \<longrightarrow> to_ticks (print_amount v 2 n) = Some (Ticks (int n))) \<and>
    (n < 2 ^ 32 \<and> n < 10 ^ (v + 6) \<longrightarrow> to_lots (print_amount v 6 n) = Some (Some (of_nat n)))"
  using assms by (rule amount_conversions)

theorem amounts_exact_witness:
  "to_ticks ''65432.10'' = Some (Ticks 6543210) \<and> to_lots ''1.500000'' = Some (Some 1500000)"
proof -
  have "print_amount 5 2 6543210 = ''65432.10''" "print_amount 1 6 1500000 = ''1.500000''" 
    by (simp_all add: print_amount_def digits_of_numeral char_of_eq_iff)
  then show ?thesis using amounts_exact [of 5 6543210] amounts_exact [of 1 1500000] by (simp add: MAX_PRICE_TICKS_def)
qed

end
