(* ===== verification/Feed_Properties.thy ===== *)
theory Feed_Properties
  imports Feed_Numbers
begin

text \<open>
  The contract of the feed handler.  A frame carries depth events: set the quantity at a
  (side, price), or forget the book.  The handler turns them into new and cancelled
  orders; \<open>registry\<close> is what the receiver of these messages knows of the orders that are
  open.  The theorems relate the registry to the depth that the events describe.
\<close>

section \<open>Specification\<close>

datatype depth_event = DepthReset | DepthSet level_key Quantity

type_synonym depth = "level_key \<rightharpoonup> Quantity"

fun apply_event :: "depth_event \<Rightarrow> depth \<Rightarrow> depth" where
  "apply_event DepthReset d = Map.empty"
| "apply_event (DepthSet k q) d = (if q = 0 then d(k := None) else d(k \<mapsto> q))"

type_synonym registry = "OrderId \<rightharpoonup> level_key \<times> Quantity"

fun apply_msg :: "engine_message \<Rightarrow> registry \<Rightarrow> registry" where
  "apply_msg (NewOrder m) r = r(n_id m \<mapsto> (\<lparr>lk_price = n_price m, lk_side = n_side m\<rparr>, n_quantity m))"
| "apply_msg (Cancel m) r = r(c_id m := None)"

text \<open>
  A message is valid for a registry when the engine takes it as it is meant: a new order
  is a limit order inside the grid with a positive quantity and an unused identifier, and
  a cancellation names an open order.
\<close>

fun valid_msg :: "registry \<Rightarrow> engine_message \<Rightarrow> bool" where
  "valid_msg r (NewOrder m) \<longleftrightarrow> n_type m = Limit \<and> 0 < n_price m \<and> n_price m < MAX_PRICE_TICKS \<and>
     n_quantity m \<noteq> 0 \<and> r (n_id m) = None"
| "valid_msg r (Cancel m) \<longleftrightarrow> r (c_id m) \<noteq> None"

fun valid_session :: "registry \<Rightarrow> engine_message list \<Rightarrow> bool" where
  "valid_session r [] \<longleftrightarrow> True"
| "valid_session r (m # ms) \<longleftrightarrow> valid_msg r m \<and> valid_session (apply_msg m r) ms"

lemma valid_session_append:
  "valid_session r (ms @ ns) \<longleftrightarrow> valid_session r ms \<and> valid_session (fold apply_msg ms r) ns"
  by (induction ms arbitrary: r) auto

text \<open>What the rows of a frame say, read off the document directly.\<close>

definition row_strings :: "'el simdjson \<Rightarrow> 'el \<Rightarrow> string list option" where
  "row_strings sj el = Option.bind (sj_array sj el) (\<lambda>row. those (map (sj_string sj) row))"

definition row_level :: "'el simdjson \<Rightarrow> 'el \<Rightarrow> level_result option" where
  "row_level sj el = (case row_strings sj el of Some (p # s # _) \<Rightarrow> read_level p s | _ \<Rightarrow> Some Malformed)"

definition change_level :: "'el simdjson \<Rightarrow> 'el \<Rightarrow> (Side \<times> level_result) option" where
  "change_level sj el = (case row_strings sj el of
      Some (sd # p # s # _) \<Rightarrow> (case parse_side sd of
          Some side \<Rightarrow> map_option (Pair side) (read_level p s)
        | None \<Rightarrow> Some (Bid, Malformed))
    | _ \<Rightarrow> Some (Bid, Malformed))"

datatype depth_frame = NoDepth | DepthUpdate "(Side \<times> level_result) list" | DepthSnapshot "(Side \<times> level_result) list"

definition side_rows :: "'el simdjson \<Rightarrow> 'el \<Rightarrow> string \<Rightarrow> Side \<Rightarrow> (Side \<times> level_result) list option" where
  "side_rows sj doc key side = (case get_field sj (sj_array sj) doc key of
      None \<Rightarrow> Some [] | Some rows \<Rightarrow> those (map (\<lambda>el. map_option (Pair side) (row_level sj el)) rows))"

definition decode_frame :: "'el simdjson \<Rightarrow> string \<Rightarrow> depth_frame option" where
  "decode_frame sj raw = (case sj_parse sj raw of None \<Rightarrow> Some NoDepth | Some doc \<Rightarrow>
     (case get_field sj (sj_string sj) doc ''type'' of None \<Rightarrow> Some NoDepth | Some type \<Rightarrow>
        if type = ''l2update'' then
          (case get_field sj (sj_array sj) doc ''changes'' of None \<Rightarrow> Some NoDepth
           | Some changes \<Rightarrow> map_option DepthUpdate (those (map (change_level sj) changes)))
        else if type = ''snapshot'' then do {
          bids \<leftarrow> side_rows sj doc ''bids'' Bid;
          asks \<leftarrow> side_rows sj doc ''asks'' Ask;
          Some (DepthSnapshot (bids @ asks)) }
        else Some NoDepth))"

definition row_events :: "bool \<Rightarrow> Side \<times> level_result \<Rightarrow> depth_event list" where
  "row_events skip_zero row = (case row of
      (side, Level p q) \<Rightarrow> if skip_zero \<and> q = 0 then [] else [DepthSet \<lparr>lk_price = p, lk_side = side\<rparr> q]
    | _ \<Rightarrow> [])"

fun frame_events :: "depth_frame \<Rightarrow> depth_event list" where
  "frame_events NoDepth = []"
| "frame_events (DepthUpdate rows) = concat (map (row_events False) rows)"
| "frame_events (DepthSnapshot rows) = DepthReset # concat (map (row_events True) rows)"

text \<open>A session: frames, each with the iteration order and the clock reading of its call.\<close>

type_synonym session = "(string \<times> (live_map \<Rightarrow> live_map) \<times> Timestamp) list"

fun run_frames :: "'el simdjson \<Rightarrow> session \<Rightarrow> feed_impl \<times> engine_message list \<Rightarrow> (feed_impl \<times> engine_message list) option" where
  "run_frames sj [] st = Some st"
| "run_frames sj ((raw, iter, now) # frames) st = do {
     (n, st1) \<leftarrow> parse sj iter now raw st;
     run_frames sj frames st1 }"

section \<open>Rows\<close>

definition settle :: "Timestamp \<Rightarrow> bool \<Rightarrow> Side \<times> level_result \<Rightarrow> feed_impl \<times> engine_message list \<Rightarrow> feed_impl \<times> engine_message list" where
  "settle ts skip_zero row st = (case row of
      (side, Malformed) \<Rightarrow> apfst bump_malformed st
    | (side, OutOfBook) \<Rightarrow> apfst bump_skipped st
    | (side, Level p q) \<Rightarrow> if skip_zero \<and> q = 0 then st else apply_level side p q ts st)"

lemma scan_pair_late:
  "2 \<le> i \<Longrightarrow> scan_pair sj els (i, p, s) = (if those (map (sj_string sj) els) = None then - 1 else i + int (length els), p, s)"
  by (induction els arbitrary: i) (auto split: option.splits)

lemma scan_triple_late:
  "3 \<le> i \<Longrightarrow> scan_triple sj els (i, sd, p, s) = (if those (map (sj_string sj) els) = None then - 1 else i + int (length els), sd, p, s)"
  by (induction els arbitrary: i) (auto split: option.splits)

lemma scan_pair_start:
  "(case those (map (sj_string sj) els) of Some (p # s # _) \<Rightarrow> scan_pair sj els (0, [], []) = (int (length els), p, s) \<and> 2 \<le> length els
     | _ \<Rightarrow> fst (scan_pair sj els (0, [], [])) < 2)"
  by (cases "(sj, els, (0::int, []::string, []::string))" rule: scan_pair.cases; cases "tl els")
    (auto simp: scan_pair_late split: option.splits list.splits)

lemma scan_triple_start:
  "(case those (map (sj_string sj) els) of Some (sd # p # s # _) \<Rightarrow> scan_triple sj els (0, [], [], []) = (int (length els), sd, p, s) \<and> 3 \<le> length els
     | _ \<Rightarrow> fst (scan_triple sj els (0, [], [], [])) < 3)"
  by (cases els; cases "tl els"; cases "tl (tl els)")
    (auto simp: scan_triple_late split: option.splits list.splits)

lemma consume_row_eq:
  "consume_row sj side ts skip_zero el st = map_option (\<lambda>r. settle ts skip_zero (side, r) st) (row_level sj el)"
proof (cases "sj_array sj el")
  case (Some els)
  then show ?thesis using scan_pair_start [of sj els]
    by (auto simp: consume_row_def row_level_def row_strings_def settle_def Let_def map_conv_bind_option comp_def
        split: option.splits list.splits prod.splits)
qed (simp add: consume_row_def row_level_def row_strings_def settle_def)

lemma consume_change_eq:
  "consume_change sj ts el st = map_option (\<lambda>row. settle ts False row st) (change_level sj el)"
proof (cases "sj_array sj el")
  case (Some els)
  then show ?thesis using scan_triple_start [of sj els]
    by (auto simp: consume_change_def change_level_def row_strings_def settle_def Let_def map_conv_bind_option comp_def
        split: option.splits list.splits prod.splits)
qed (simp add: consume_change_def change_level_def row_strings_def settle_def)

lemma those_Cons_eq: "those (x # xs) = Some ys \<longleftrightarrow> (\<exists>z zs. ys = z # zs \<and> x = Some z \<and> those xs = Some zs)"
  by (auto split: option.splits)

lemma consume_array_eq:
  assumes "those (map (\<lambda>el. map_option (Pair side) (row_level sj el)) els) = Some rows"
  shows "consume_price_size_array sj side ts skip_zero els st = Some (fold (settle ts skip_zero) rows st)"
  using assms
proof (induction els arbitrary: rows st)
  case (Cons el els)
  then obtain r rs where r: "rows = (side, r) # rs" "row_level sj el = Some r"
    and rs: "those (map (\<lambda>el. map_option (Pair side) (row_level sj el)) els) = Some rs"
    by (auto simp: those_Cons_eq simp del: those.simps(2))
  show ?case using Cons.IH [OF rs] by (simp add: consume_row_eq r)
qed simp

lemma consume_changes_eq:
  assumes "those (map (change_level sj) els) = Some rows"
  shows "consume_changes sj ts els st = Some (fold (settle ts False) rows st)"
  using assms
proof (induction els arbitrary: rows st)
  case (Cons el els)
  then obtain r rs where r: "rows = r # rs" "change_level sj el = Some r" and rs: "those (map (change_level sj) els) = Some rs"
    by (auto simp: those_Cons_eq simp del: those.simps(2))
  show ?case using Cons.IH [OF rs] by (simp add: consume_change_eq r)
qed simp

lemma consume_side_eq:
  "side_rows sj doc key side = Some rows \<Longrightarrow> consume_side sj doc key side ts st = Some (fold (settle ts True) rows st)"
  by (auto simp: side_rows_def consume_side_def consume_array_eq split: option.splits)

text \<open>A frame without depth information changes counters only.\<close>

definition same_book :: "feed_impl \<times> engine_message list \<Rightarrow> feed_impl \<times> engine_message list \<Rightarrow> bool" where
  "same_book st st' \<longleftrightarrow> fh_live (fst st') = fh_live (fst st) \<and> fh_next_id (fst st') = fh_next_id (fst st) \<and> snd st' = snd st"

fun frame_result :: "(live_map \<Rightarrow> live_map) \<Rightarrow> Timestamp \<Rightarrow> depth_frame \<Rightarrow> feed_impl \<times> engine_message list \<Rightarrow> feed_impl \<times> engine_message list \<Rightarrow> bool" where
  "frame_result iter ts NoDepth st st' \<longleftrightarrow> same_book st st'"
| "frame_result iter ts (DepthUpdate rows) st st' \<longleftrightarrow> st' = fold (settle ts False) rows st"
| "frame_result iter ts (DepthSnapshot rows) st st' \<longleftrightarrow> st' = fold (settle ts True) rows (reset_book iter ts st)"

lemma parse_frame:
  assumes "decode_frame sj raw = Some d"
  obtains st' where "parse sj iter now raw st = Some (length (snd st') - length (snd st), st')" "frame_result iter now d st st'"
proof -
  obtain f out where st: "st = (f, out)" by (cases st)
  consider (bad) "d = NoDepth" "\<exists>st'. parse sj iter now raw st = Some (0, st') \<and> same_book st st'"
    | (update) rows where "d = DepthUpdate rows" "parse sj iter now raw st =
        (let st' = fold (settle now False) rows st in Some (length (snd st') - length (snd st), st'))"
    | (snapshot) rows where "d = DepthSnapshot rows" "parse sj iter now raw st =
        (let st' = fold (settle now True) rows (reset_book iter now st) in Some (length (snd st') - length (snd st), st'))"
    using assms
    by (auto simp: st decode_frame_def parse_def consume_changes_eq consume_side_eq same_book_def note_sequence_def Let_def
        split: option.splits if_splits Option.bind_splits)
  then show thesis
  proof cases
    case bad
    then obtain st' where "parse sj iter now raw st = Some (0, st')" "same_book st st'" by blast
    then show thesis using bad(1) by (intro that [of st']) (simp_all add: same_book_def)
  qed (simp_all add: Let_def that)
qed

section \<open>Simulation\<close>

definition feed_rel :: "feed_impl \<Rightarrow> registry \<Rightarrow> depth \<Rightarrow> bool" where
  "feed_rel f r d \<longleftrightarrow> distinct (map fst (fh_live f)) \<and> distinct (map snd (fh_live f)) \<and>
     dom d = fst ` set (fh_live f) \<and>
     (\<forall>oid k q. r oid = Some (k, q) \<longleftrightarrow> (k, oid) \<in> set (fh_live f) \<and> d k = Some q) \<and>
     (\<forall>(k, oid) \<in> set (fh_live f). unat oid < unat (fh_next_id f))"

lemma feed_rel_new: "feed_rel new_feed Map.empty Map.empty"
  by (simp add: feed_rel_def new_feed_def)

lemma feed_rel_live:
  assumes "feed_rel f r d" "(k, oid) \<in> set (fh_live f)"
  shows "r oid \<noteq> None"
proof -
  have dom: "dom d = fst ` set (fh_live f)" using assms(1) by (simp add: feed_rel_def)
  have "fst (k, oid) \<in> fst ` set (fh_live f)" using assms(2) by (rule imageI)
  then have "k \<in> dom d" by (simp only: dom fst_conv)
  then obtain q where "d k = Some q" by blast
  then have "r oid = Some (k, q)" using assms unfolding feed_rel_def by blast
  then show ?thesis by simp
qed

text \<open>Forgetting a live level: its order is cancelled.\<close>

lemma feed_rel_remove:
  assumes rel: "feed_rel f r d" and k: "map_of (fh_live f) k = Some oid"
  shows "feed_rel (f\<lparr>fh_live := filter (\<lambda>(k', _). k' \<noteq> k) (fh_live f)\<rparr>) (r(oid := None)) (d(k := None))" "r oid \<noteq> None"
proof -
  have mem: "(k, oid) \<in> set (fh_live f)" using k by (rule map_of_SomeD)
  have dk: "distinct (map fst (fh_live f))" "distinct (map snd (fh_live f))" using rel by (simp_all add: feed_rel_def)
  have uk: "k' = k \<longleftrightarrow> o' = oid" if "(k', o') \<in> set (fh_live f)" for k' o'
    using that mem dk by (metis eq_key_imp_eq_value distinct_map fst_conv inj_onD prod.inject snd_conv)
  show "r oid \<noteq> None" by (rule feed_rel_live [OF rel mem])
  show "feed_rel (f\<lparr>fh_live := filter (\<lambda>(k', _). k' \<noteq> k) (fh_live f)\<rparr>) (r(oid := None)) (d(k := None))"
    unfolding feed_rel_def
  proof (intro conjI)
    show "distinct (map fst (fh_live (f\<lparr>fh_live := filter (\<lambda>(k', _). k' \<noteq> k) (fh_live f)\<rparr>)))"
      "distinct (map snd (fh_live (f\<lparr>fh_live := filter (\<lambda>(k', _). k' \<noteq> k) (fh_live f)\<rparr>)))"
      using dk by (simp_all add: distinct_map_filter)
    show "dom (d(k := None)) = fst ` set (fh_live (f\<lparr>fh_live := filter (\<lambda>(k', _). k' \<noteq> k) (fh_live f)\<rparr>))"
      using rel by (force simp: feed_rel_def)
    show "\<forall>oid' k' q. (r(oid := None)) oid' = Some (k', q) \<longleftrightarrow>
        (k', oid') \<in> set (fh_live (f\<lparr>fh_live := filter (\<lambda>(k', _). k' \<noteq> k) (fh_live f)\<rparr>)) \<and> (d(k := None)) k' = Some q"
      using rel uk by (auto simp: feed_rel_def fun_upd_apply)
    show "\<forall>(k', oid') \<in> set (fh_live (f\<lparr>fh_live := filter (\<lambda>(k', _). k' \<noteq> k) (fh_live f)\<rparr>)).
        unat oid' < unat (fh_next_id (f\<lparr>fh_live := filter (\<lambda>(k', _). k' \<noteq> k) (fh_live f)\<rparr>))"
      using rel by (auto simp: feed_rel_def)
  qed
qed

text \<open>A new live level under a fresh identifier.\<close>

lemma feed_rel_insert:
  assumes rel: "feed_rel f r d" and k: "map_of (fh_live f) k = None" and id: "unat (fh_next_id f) < 2 ^ 64 - 1"
  shows "feed_rel (f\<lparr>fh_next_id := fh_next_id f + 1, fh_live := (k, fh_next_id f) # fh_live f\<rparr>) (r(fh_next_id f \<mapsto> (k, q))) (d(k \<mapsto> q))"
    "r (fh_next_id f) = None" "unat (fh_next_id f + 1) = unat (fh_next_id f) + 1"
proof -
  show nxt: "unat (fh_next_id f + 1) = unat (fh_next_id f) + 1"
    using id by (subst unat_add_lem [THEN iffD1]) simp_all
  have fresh: "(k', fh_next_id f) \<notin> set (fh_live f)" for k' using rel by (force simp: feed_rel_def)
  then show "r (fh_next_id f) = None" using rel unfolding feed_rel_def by (metis option.exhaust surj_pair)
  have kn: "(k, o') \<notin> set (fh_live f)" for o' using k by (force simp: map_of_eq_None_iff)
  show "feed_rel (f\<lparr>fh_next_id := fh_next_id f + 1, fh_live := (k, fh_next_id f) # fh_live f\<rparr>) (r(fh_next_id f \<mapsto> (k, q))) (d(k \<mapsto> q))"
    using rel fresh kn nxt by (force simp: feed_rel_def fun_upd_apply)
qed

text \<open>
  Between two events the open orders stay covered by the depth: while the messages of an event
  go out, what is open is part of the depth before it, and at the end of the depth after
  it, with one order per level at most.
\<close>

definition covered_by :: "registry \<Rightarrow> depth \<Rightarrow> bool" where
  "covered_by r d \<longleftrightarrow> (\<forall>i k q. r i = Some (k, q) \<longrightarrow> d k = Some q) \<and>
     (\<forall>i j k q q'. r i = Some (k, q) \<longrightarrow> r j = Some (k, q') \<longrightarrow> i = j)"

definition trail :: "depth_event list \<Rightarrow> depth \<Rightarrow> engine_message list \<Rightarrow> registry \<Rightarrow> bool" where
  "trail evs d ms r \<longleftrightarrow> (\<forall>i \<le> length ms. \<exists>j \<le> length evs.
     covered_by (fold apply_msg (take i ms) r) (fold apply_event (take j evs) d))"

fun is_cancel :: "engine_message \<Rightarrow> bool" where
  "is_cancel (NewOrder _) \<longleftrightarrow> False" | "is_cancel (Cancel _) \<longleftrightarrow> True"

lemma feed_rel_covered:
  assumes "feed_rel f r d"
  shows "covered_by r d"
proof -
  have iff: "\<And>oid k q. r oid = Some (k, q) \<longleftrightarrow> (k, oid) \<in> set (fh_live f) \<and> d k = Some q"
    and dist: "distinct (map fst (fh_live f))"
    using assms by (simp_all add: feed_rel_def)
  then show ?thesis unfolding covered_by_def by (blast dest: eq_key_imp_eq_value)
qed

lemma covered_by_cancels:
  assumes "covered_by r d" and "list_all is_cancel ms"
  shows "covered_by (fold apply_msg ms r) d"
  using assms
proof (induction ms arbitrary: r)
  case (Cons m ms)
  then obtain c where m: "m = Cancel c" by (cases m) auto
  have "covered_by (r(c_id c := None)) d" using Cons.prems(1) by (simp add: covered_by_def fun_upd_apply)
  with Cons m show ?case by simp
qed simp

lemma trail_single:
  assumes "covered_by r d" and "covered_by (fold apply_msg ms r) (apply_event e d)" and "list_all is_cancel (butlast ms)"
  shows "trail [e] d ms r"
  unfolding trail_def
proof (intro allI impI)
  fix i
  assume i: "i \<le> length ms"
  show "\<exists>j \<le> length [e]. covered_by (fold apply_msg (take i ms) r) (fold apply_event (take j [e]) d)"
  proof (cases "i = length ms")
    case True
    then show ?thesis using assms(2) by (intro exI [of _ 1]) simp
  next
    case False
    then have "take i ms = take i (butlast ms)" using i by (simp add: take_butlast)
    moreover have "list_all is_cancel (take i (butlast ms))"
      using assms(3) by (auto simp: list_all_iff dest: in_set_takeD)
    ultimately show ?thesis using covered_by_cancels [OF assms(1)] by (intro exI [of _ 0]) simp
  qed
qed

lemma trail_append:
  assumes "trail es d ms r" and "trail fs (fold apply_event es d) ns (fold apply_msg ms r)"
  shows "trail (es @ fs) d (ms @ ns) r"
  unfolding trail_def
proof (intro allI impI)
  fix i
  assume i: "i \<le> length (ms @ ns)"
  show "\<exists>j \<le> length (es @ fs). covered_by (fold apply_msg (take i (ms @ ns)) r) (fold apply_event (take j (es @ fs)) d)"
  proof (cases "i \<le> length ms")
    case True
    then obtain j where "j \<le> length es" "covered_by (fold apply_msg (take i ms) r) (fold apply_event (take j es) d)"
      using assms(1) unfolding trail_def by blast
    then show ?thesis using True by (intro exI [of _ j]) simp
  next
    case False
    then have "i - length ms \<le> length ns" using i by simp
    then obtain j where "j \<le> length fs"
        "covered_by (fold apply_msg (take (i - length ms) ns) (fold apply_msg ms r)) (fold apply_event (take j fs) (fold apply_event es d))"
      using assms(2) unfolding trail_def by blast
    then show ?thesis using False by (intro exI [of _ "length es + j"]) simp
  qed
qed

text \<open>
  One step of the simulation: the appended messages are valid and keep the relation, and
  the identifier counter moves by at most the number of events.
\<close>

definition feed_step :: "depth_event list \<Rightarrow> feed_impl \<times> engine_message list \<Rightarrow> feed_impl \<times> engine_message list \<Rightarrow> bool" where
  "feed_step evs st st' \<longleftrightarrow> (\<exists>ms. snd st' = snd st @ ms \<and>
     (\<forall>r d. feed_rel (fst st) r d \<longrightarrow> unat (fh_next_id (fst st)) + length evs < 2 ^ 64 \<longrightarrow>
        feed_rel (fst st') (fold apply_msg ms r) (fold apply_event evs d) \<and> valid_session r ms \<and>
        unat (fh_next_id (fst st')) \<le> unat (fh_next_id (fst st)) + length evs \<and> trail evs d ms r))"

lemma feed_step_same: "same_book st st' \<Longrightarrow> feed_step [] st st'"
  using feed_rel_covered by (auto simp: feed_step_def same_book_def feed_rel_def trail_def)

lemma feed_step_single:
  assumes "snd st' = snd st @ ms" and "list_all is_cancel (butlast ms)"
    and step: "\<And>r d. feed_rel (fst st) r d \<Longrightarrow> unat (fh_next_id (fst st)) + 1 < 2 ^ 64 \<Longrightarrow>
      feed_rel (fst st') (fold apply_msg ms r) (apply_event e d) \<and> valid_session r ms \<and>
      unat (fh_next_id (fst st')) \<le> unat (fh_next_id (fst st)) + 1"
  shows "feed_step [e] st st'"
  unfolding feed_step_def
proof (intro exI [of _ ms] conjI allI impI)
  fix r d
  assume rel: "feed_rel (fst st) r d" and "unat (fh_next_id (fst st)) + length [e] < 2 ^ 64"
  then have n: "unat (fh_next_id (fst st)) + 1 < 2 ^ 64" by simp
  note s = step [OF rel n]
  then show "feed_rel (fst st') (fold apply_msg ms r) (fold apply_event [e] d)" "valid_session r ms"
    "unat (fh_next_id (fst st')) \<le> unat (fh_next_id (fst st)) + length [e]" by simp_all
  show "trail [e] d ms r"
    by (rule trail_single [OF feed_rel_covered [OF rel] _ assms(2)]) (use s feed_rel_covered in blast)
qed (rule assms(1))

lemma feed_step_trans:
  assumes "feed_step es st st'" "feed_step fs st' st''"
  shows "feed_step (es @ fs) st st''"
proof -
  obtain ms where ms: "snd st' = snd st @ ms"
    "\<And>r d. feed_rel (fst st) r d \<Longrightarrow> unat (fh_next_id (fst st)) + length es < 2 ^ 64 \<Longrightarrow>
        feed_rel (fst st') (fold apply_msg ms r) (fold apply_event es d) \<and> valid_session r ms \<and>
        unat (fh_next_id (fst st')) \<le> unat (fh_next_id (fst st)) + length es \<and> trail es d ms r"
    using assms(1) unfolding feed_step_def by blast
  obtain ns where ns: "snd st'' = snd st' @ ns"
    "\<And>r d. feed_rel (fst st') r d \<Longrightarrow> unat (fh_next_id (fst st')) + length fs < 2 ^ 64 \<Longrightarrow>
        feed_rel (fst st'') (fold apply_msg ns r) (fold apply_event fs d) \<and> valid_session r ns \<and>
        unat (fh_next_id (fst st'')) \<le> unat (fh_next_id (fst st')) + length fs \<and> trail fs d ns r"
    using assms(2) unfolding feed_step_def by blast
  show ?thesis unfolding feed_step_def
  proof (intro exI [of _ "ms @ ns"] conjI allI impI)
    show "snd st'' = snd st @ ms @ ns" using ms(1) ns(1) by simp
    fix r d assume a: "feed_rel (fst st) r d" "unat (fh_next_id (fst st)) + length (es @ fs) < 2 ^ 64"
    then have l: "unat (fh_next_id (fst st)) + length es < 2 ^ 64" by simp
    note m = ms(2) [OF a(1) l]
    then have "unat (fh_next_id (fst st')) + length fs < 2 ^ 64" using a(2) by simp
    note n = ns(2) [OF conjunct1 [OF m] this]
    show "feed_rel (fst st'') (fold apply_msg (ms @ ns) r) (fold apply_event (es @ fs) d)"
      "valid_session r (ms @ ns)" "unat (fh_next_id (fst st'')) \<le> unat (fh_next_id (fst st)) + length (es @ fs)"
      using m n by (simp_all add: valid_session_append)
    show "trail (es @ fs) d (ms @ ns) r" by (rule trail_append) (use m n in simp_all)
  qed
qed

lemma feed_rel_key: "feed_rel f r d \<Longrightarrow> d k = None \<longleftrightarrow> map_of (fh_live f) k = None"
  by (auto simp: feed_rel_def map_of_eq_None_iff domIff)

lemma apply_level_step:
  assumes p: "0 < p" "p < MAX_PRICE_TICKS"
  shows "feed_step [DepthSet \<lparr>lk_price = p, lk_side = side\<rparr> q] st (apply_level side p q ts st)"
proof -
  obtain f out where st: "st = (f, out)" by (cases st)
  let ?k = "\<lparr>lk_price = p, lk_side = side\<rparr>"
  define f1 where "f1 = f\<lparr>fh_live := filter (\<lambda>(k, _). k \<noteq> ?k) (fh_live f)\<rparr>"
  define cs where "cs = (case map_of (fh_live f) ?k of None \<Rightarrow> [] | Some oid \<Rightarrow> [Cancel \<lparr>c_id = oid, c_timestamp = ts\<rparr>])"
  define ns where "ns = (if q = 0 then [] else [NewOrder \<lparr>n_id = fh_next_id f, n_side = side, n_type = Limit, n_price = p, n_quantity = q, n_timestamp = ts\<rparr>])"
  define f2 where "f2 = (if q = 0 then f1 else f1\<lparr>fh_next_id := fh_next_id f + 1, fh_live := (?k, fh_next_id f) # fh_live f1\<rparr>)"
  have none: "map_of (fh_live f) ?k = None \<Longrightarrow> filter (\<lambda>(k, _). k \<noteq> ?k) (fh_live f) = fh_live f"
    by (force simp: map_of_eq_None_iff filter_id_conv)
  have eq: "apply_level side p q ts st = (f2, out @ cs @ ns)"
    using none by (auto simp: apply_level_def st f1_def f2_def cs_def ns_def Let_def split: option.splits)
  have cancel: "feed_rel f1 (fold apply_msg cs r) (d(?k := None)) \<and> valid_session r cs" if rel: "feed_rel f r d" for r d
  proof (cases "map_of (fh_live f) ?k")
    case None
    then have "f1 = f" "cs = []" "d(?k := None) = d" using none feed_rel_key [OF rel, of ?k] by (auto simp: f1_def cs_def)
    then show ?thesis using rel by simp
  next
    case (Some oid)
    show ?thesis using feed_rel_remove [OF rel Some] by (simp add: f1_def cs_def Some)
  qed
  have k1: "map_of (fh_live f1) ?k = None" by (auto simp: f1_def map_of_eq_None_iff)
  have "feed_rel f2 (fold apply_msg (cs @ ns) r) (apply_event (DepthSet ?k q) d) \<and> valid_session r (cs @ ns) \<and>
      unat (fh_next_id f2) \<le> unat (fh_next_id f) + 1"
    if rel: "feed_rel f r d" and id: "unat (fh_next_id f) + 1 < 2 ^ 64" for r d
  proof (cases "q = 0")
    case True
    then show ?thesis using cancel [OF rel] by (simp add: ns_def f2_def valid_session_append) (simp add: f1_def)
  next
    case False
    have n1: "fh_next_id f1 = fh_next_id f" by (simp add: f1_def)
    have lt: "unat (fh_next_id f1) < 2 ^ 64 - 1" using id n1 by simp
    note c = conjunct1 [OF cancel [OF rel]]
    note ins = feed_rel_insert(1) [OF c k1 lt, of q] feed_rel_insert(2,3) [OF c k1 lt]
    show ?thesis using False cancel [OF rel] ins p by (simp add: ns_def f2_def valid_session_append n1)
  qed
  moreover have "list_all is_cancel (butlast (cs @ ns))" by (auto simp: cs_def ns_def split: option.splits)
  ultimately show ?thesis using eq st by (intro feed_step_single [where ms = "cs @ ns"]) simp_all
qed

lemma read_level_price: "read_level p s = Some (Level price q) \<Longrightarrow> 0 < price \<and> price < MAX_PRICE_TICKS"
  by (auto simp: read_level_def to_ticks_def split: option.splits Option.bind_splits tick_result.splits if_splits)

definition row_ok :: "Side \<times> level_result \<Rightarrow> bool" where
  "row_ok row \<longleftrightarrow> (case row of (_, Level p q) \<Rightarrow> 0 < p \<and> p < MAX_PRICE_TICKS | _ \<Rightarrow> True)"

lemma settle_step:
  assumes "row_ok row"
  shows "feed_step (row_events skip_zero row) st (settle ts skip_zero row st)"
proof (cases row)
  case (Pair side r)
  then show ?thesis
  proof (cases r)
    case (Level p q)
    then show ?thesis using assms Pair apply_level_step [of p side q st ts]
      by (auto simp: row_events_def settle_def row_ok_def feed_step_same same_book_def)
  qed (cases st, auto simp: row_events_def settle_def intro!: feed_step_same simp: same_book_def)+
qed

lemma settle_rows_step:
  "list_all row_ok rows \<Longrightarrow> feed_step (concat (map (row_events skip_zero) rows)) st (fold (settle ts skip_zero) rows st)"
proof (induction rows arbitrary: st)
  case (Cons row rows)
  have "feed_step (row_events skip_zero row) st (settle ts skip_zero row st)" using Cons.prems by (intro settle_step) simp
  then have "feed_step (row_events skip_zero row @ concat (map (row_events skip_zero) rows)) st
      (fold (settle ts skip_zero) rows (settle ts skip_zero row st))"
    by (rule feed_step_trans) (use Cons in simp)
  then show ?case by simp
qed (simp add: feed_step_same same_book_def)

section \<open>Frames and sessions\<close>

lemma cancel_all:
  fixes ts :: Timestamp
  assumes "distinct (map snd L)" "\<And>k oid. (k, oid) \<in> set L \<Longrightarrow> r oid \<noteq> None"
  defines "ms \<equiv> map (\<lambda>(_, oid). Cancel \<lparr>c_id = oid, c_timestamp = ts\<rparr>) L"
  shows "valid_session r ms \<and> fold apply_msg ms r = (\<lambda>oid. if oid \<in> snd ` set L then None else r oid)"
  unfolding ms_def using assms(1,2)
proof (induction L arbitrary: r)
  case (Cons x L)
  obtain k oid where x: "x = (k, oid)" by (cases x)
  have "valid_session (r(oid := None)) (map (\<lambda>(_, oid). Cancel \<lparr>c_id = oid, c_timestamp = ts\<rparr>) L) \<and>
      fold apply_msg (map (\<lambda>(_, oid). Cancel \<lparr>c_id = oid, c_timestamp = ts\<rparr>) L) (r(oid := None)) =
        (\<lambda>o'. if o' \<in> snd ` set L then None else (r(oid := None)) o')"
    using Cons.prems x by (intro Cons.IH) (force simp: fun_upd_apply)+
  then show ?case using Cons.prems(2) [of k oid] x by (auto simp: fun_upd_apply fun_eq_iff)
qed simp

lemma reset_step:
  assumes iter: "\<And>xs. mset (iter xs) = mset xs"
  shows "feed_step [DepthReset] st (reset_book iter ts st)"
proof -
  obtain f out where st: "st = (f, out)" by (cases st)
  let ?L = "iter (fh_live f)"
  let ?ms = "map (\<lambda>(_, oid). Cancel \<lparr>c_id = oid, c_timestamp = ts\<rparr>) ?L"
  have L: "set ?L = set (fh_live f)" by (metis iter set_mset_mset)
  have "feed_rel (f\<lparr>fh_live := []\<rparr>) (fold apply_msg ?ms r) Map.empty \<and> valid_session r ?ms" if rel: "feed_rel f r d" for r d
  proof -
    have "mset (map snd ?L) = mset (map snd (fh_live f))" by (simp only: mset_map iter)
    then have "distinct (map snd ?L) \<longleftrightarrow> distinct (map snd (fh_live f))" by (rule mset_eq_imp_distinct_iff)
    then have "distinct (map snd ?L)" using rel by (simp add: feed_rel_def)
    moreover have "r oid \<noteq> None" if "(k, oid) \<in> set ?L" for k oid
      using feed_rel_live [OF rel] that L by blast
    ultimately have c: "valid_session r ?ms \<and> fold apply_msg ?ms r = (\<lambda>oid. if oid \<in> snd ` set ?L then None else r oid)"
      by (rule cancel_all)
    have "(if oid \<in> snd ` set ?L then None else r oid) = None" for oid
    proof (cases "r oid")
      case (Some x)
      then have "(fst x, oid) \<in> set (fh_live f)" using rel by (cases x) (simp add: feed_rel_def)
      then have "snd (fst x, oid) \<in> snd ` set ?L" unfolding L by (rule imageI)
      then show ?thesis by simp
    qed simp
    then show ?thesis using c by (simp add: feed_rel_def)
  qed
  moreover have "list_all is_cancel (butlast ?ms)" by (auto simp: list_all_iff map_butlast [symmetric])
  ultimately show ?thesis
    by (intro feed_step_single [where ms = ?ms]) (simp_all add: st reset_book_def)
qed

lemma decode_rows_ok: "decode_frame sj raw = Some d \<Longrightarrow> d = DepthUpdate rows \<or> d = DepthSnapshot rows \<Longrightarrow> list_all row_ok rows"
proof -
  have change: "change_level sj el = Some row \<Longrightarrow> row_ok row" for el row
    using read_level_price by (fastforce simp: change_level_def row_ok_def split: option.splits list.splits level_result.splits)
  have level: "row_level sj el = Some r \<Longrightarrow> row_ok (side, r)" for el side r
    using read_level_price by (fastforce simp: row_level_def row_ok_def split: option.splits list.splits level_result.splits)
  have those_ok: "those (map g els) = Some rs \<Longrightarrow> (\<And>el row. g el = Some row \<Longrightarrow> row_ok row) \<Longrightarrow> list_all row_ok rs" for g els rs
    by (induction els arbitrary: rs) (auto simp: those_Cons_eq simp del: those.simps(2))
  have side: "side_rows sj doc key side = Some rs \<Longrightarrow> list_all row_ok rs" for doc key side rs
    using level by (auto simp: side_rows_def split: option.splits elim!: those_ok)
  assume "decode_frame sj raw = Some d" "d = DepthUpdate rows \<or> d = DepthSnapshot rows"
  then show ?thesis using change side
    by (auto simp: decode_frame_def split: option.splits if_splits Option.bind_splits intro: those_ok)
qed

lemma frame_step:
  assumes "decode_frame sj raw = Some d" "frame_result iter ts d st st'" "\<And>xs. mset (iter xs) = mset xs"
  shows "feed_step (frame_events d) st st'"
proof (cases d)
  case (DepthSnapshot rows)
  have "feed_step ([DepthReset] @ concat (map (row_events True) rows)) st st'"
    using assms(2) DepthSnapshot decode_rows_ok [OF assms(1)]
    by (intro feed_step_trans [OF reset_step [OF assms(3), where ts = ts]]) (simp add: settle_rows_step)
  then show ?thesis using DepthSnapshot by simp
qed (use assms decode_rows_ok [OF assms(1)] in \<open>simp_all add: feed_step_same settle_rows_step\<close>)

definition orders_permuted :: "session \<Rightarrow> bool" where
  "orders_permuted frames \<longleftrightarrow> (\<forall>(_, iter, _) \<in> set frames. \<forall>xs. mset (iter xs) = mset xs)"

lemma run_frames_step:
  assumes "those (map (\<lambda>(raw, _). decode_frame sj raw) frames) = Some ds" "orders_permuted frames"
  obtains st' where "run_frames sj frames st = Some st'" "feed_step (concat (map frame_events ds)) st st'"
  using assms
proof (induction frames arbitrary: ds st thesis)
  case Nil
  then show ?case by (simp add: feed_step_same same_book_def)
next
  case (Cons fr frames)
  obtain raw iter now where fr: "fr = (raw, iter, now)" by (cases fr)
  obtain d ds' where ds: "ds = d # ds'" "decode_frame sj raw = Some d" "those (map (\<lambda>(raw, _). decode_frame sj raw) frames) = Some ds'"
    using Cons.prems(2) fr by (auto simp: those_Cons_eq simp del: those.simps(2))
  have perm: "\<And>xs. mset (iter xs) = mset xs" "orders_permuted frames" using Cons.prems(3) fr by (auto simp: orders_permuted_def)
  obtain st1 where st1: "parse sj iter now raw st = Some (length (snd st1) - length (snd st), st1)" "frame_result iter now d st st1"
    using parse_frame [OF ds(2)] .
  obtain st' where st': "run_frames sj frames st1 = Some st'" "feed_step (concat (map frame_events ds')) st1 st'"
    using Cons.IH [OF _ ds(3) perm(2)] .
  have "feed_step (frame_events d @ concat (map frame_events ds')) st st'"
    by (rule feed_step_trans [OF frame_step [OF ds(2) st1(2) perm(1)] st'(2)])
  then show ?case using st1(1) st'(1) ds(1) fr by (intro Cons.prems(1)) simp_all
qed

lemma session_result:
  assumes "those (map (\<lambda>(raw, _). decode_frame sj raw) frames) = Some ds" "orders_permuted frames"
    "length (concat (map frame_events ds)) < 2 ^ 64 - 1"
  obtains f msgs where "run_frames sj frames (new_feed, []) = Some (f, msgs)"
    "feed_rel f (fold apply_msg msgs Map.empty) (fold apply_event (concat (map frame_events ds)) Map.empty)"
    "valid_session Map.empty msgs" "trail (concat (map frame_events ds)) Map.empty msgs Map.empty"
proof -
  obtain st' where "run_frames sj frames (new_feed, []) = Some st'" "feed_step (concat (map frame_events ds)) (new_feed, []) st'"
    using run_frames_step [OF assms(1,2)] .
  moreover obtain f msgs where "st' = (f, msgs)" by (cases st')
  moreover have "unat (fh_next_id new_feed) = 1" by (simp add: new_feed_def)
  ultimately show thesis using assms(3) feed_rel_new by (intro that [of f msgs]) (auto simp: feed_step_def)
qed

section \<open>Counters\<close>

definition rows_with :: "level_result \<Rightarrow> (Side \<times> level_result) list \<Rightarrow> nat" where
  "rows_with x rows = length (filter (\<lambda>row. snd row = x) rows)"

lemma apply_level_counters:
  "fh_malformed (fst (apply_level side p q ts st)) = fh_malformed (fst st)"
  "fh_skipped (fst (apply_level side p q ts st)) = fh_skipped (fst st)"
  "fh_ignored (fst (apply_level side p q ts st)) = fh_ignored (fst st)"
  "fh_sequence_gaps (fst (apply_level side p q ts st)) = fh_sequence_gaps (fst st)"
  "fh_have_sequence (fst (apply_level side p q ts st)) = fh_have_sequence (fst st)"
  "fh_last_sequence (fst (apply_level side p q ts st)) = fh_last_sequence (fst st)"
  by (auto simp: apply_level_def Let_def split: prod.splits option.splits)

lemma settle_counters:
  "fh_malformed (fst (settle ts z row st)) = fh_malformed (fst st) + of_nat (rows_with Malformed [row])"
  "fh_skipped (fst (settle ts z row st)) = fh_skipped (fst st) + of_nat (rows_with OutOfBook [row])"
  "fh_ignored (fst (settle ts z row st)) = fh_ignored (fst st)"
  "fh_sequence_gaps (fst (settle ts z row st)) = fh_sequence_gaps (fst st)"
  "fh_have_sequence (fst (settle ts z row st)) = fh_have_sequence (fst st)"
  "fh_last_sequence (fst (settle ts z row st)) = fh_last_sequence (fst st)"
  by (cases st; auto simp: settle_def rows_with_def apply_level_counters split: prod.splits level_result.splits)+

lemma rows_with_Cons: "rows_with x (row # rows) = rows_with x [row] + rows_with x rows"
  by (simp add: rows_with_def)

lemma settle_rows_counters:
  "fh_malformed (fst (fold (settle ts z) rows st)) = fh_malformed (fst st) + of_nat (rows_with Malformed rows)"
  "fh_skipped (fst (fold (settle ts z) rows st)) = fh_skipped (fst st) + of_nat (rows_with OutOfBook rows)"
  "fh_ignored (fst (fold (settle ts z) rows st)) = fh_ignored (fst st)"
  "fh_sequence_gaps (fst (fold (settle ts z) rows st)) = fh_sequence_gaps (fst st)"
  "fh_have_sequence (fst (fold (settle ts z) rows st)) = fh_have_sequence (fst st)"
  "fh_last_sequence (fst (fold (settle ts z) rows st)) = fh_last_sequence (fst st)"
  by (induction rows arbitrary: st) (simp_all add: settle_counters rows_with_def)

lemma reset_book_counters:
  "fst (reset_book iter ts st) = (fst st)\<lparr>fh_live := []\<rparr>"
  by (simp add: reset_book_def Let_def split: prod.splits)

fun frame_rows :: "depth_frame \<Rightarrow> (Side \<times> level_result) list" where
  "frame_rows NoDepth = []" | "frame_rows (DepthUpdate rows) = rows" | "frame_rows (DepthSnapshot rows) = rows"

lemma frame_result_counters:
  assumes "frame_result iter ts d st st'" "d \<noteq> NoDepth"
  shows "fh_malformed (fst st') = fh_malformed (fst st) + of_nat (rows_with Malformed (frame_rows d))"
    "fh_skipped (fst st') = fh_skipped (fst st) + of_nat (rows_with OutOfBook (frame_rows d))"
    "fh_ignored (fst st') = fh_ignored (fst st)" "fh_sequence_gaps (fst st') = fh_sequence_gaps (fst st)"
    "fh_have_sequence (fst st') = fh_have_sequence (fst st)" "fh_last_sequence (fst st') = fh_last_sequence (fst st)"
  using assms by (cases d; simp add: settle_rows_counters reset_book_counters)+

text \<open>The sequence number a frame carries, if any, and the gaps of a list of numbers.\<close>

definition frame_sequence :: "'el simdjson \<Rightarrow> string \<Rightarrow> 64 word list" where
  "frame_sequence sj raw = (case sj_parse sj raw of None \<Rightarrow> [] | Some doc \<Rightarrow>
     (case get_field sj (sj_string sj) doc ''type'' of None \<Rightarrow> [] | Some type \<Rightarrow>
        if type = ''match'' \<or> type = ''last_match'' then
          (case get_field sj (sj_uint64 sj) doc ''sequence'' of None \<Rightarrow> [] | Some seq \<Rightarrow> [seq])
        else []))"

definition gap_count :: "64 word list \<Rightarrow> nat" where
  "gap_count xs = length (filter (\<lambda>(a, b). b \<noteq> a + 1) (zip xs (tl xs)))"

definition seq_rel :: "feed_impl \<Rightarrow> 64 word list \<Rightarrow> bool" where
  "seq_rel f xs \<longleftrightarrow> fh_have_sequence f = (xs \<noteq> []) \<and> (xs \<noteq> [] \<longrightarrow> fh_last_sequence f = last xs) \<and>
     fh_sequence_gaps f = of_nat (gap_count xs)"

lemma gap_count_snoc: "xs \<noteq> [] \<Longrightarrow> gap_count (xs @ [x]) = gap_count xs + (if x = last xs + 1 then 0 else 1)"
proof -
  assume xs: "xs \<noteq> []"
  then have "zip (xs @ [x]) (tl (xs @ [x])) = zip xs (tl xs) @ [(last xs, x)]"
    by (induction xs) (auto simp: neq_Nil_conv)
  then show ?thesis by (simp add: gap_count_def)
qed

lemma note_sequence_rel: "seq_rel f xs \<Longrightarrow> seq_rel (note_sequence x f) (xs @ [x])"
  by (cases "xs = []") (auto simp: seq_rel_def note_sequence_def gap_count_snoc gap_count_def [of "[x]"] gap_count_def [of "[]"])

lemma seq_rel_eq: "seq_rel f xs \<Longrightarrow> fh_have_sequence f' = fh_have_sequence f \<Longrightarrow> fh_last_sequence f' = fh_last_sequence f \<Longrightarrow>
    fh_sequence_gaps f' = fh_sequence_gaps f \<Longrightarrow> seq_rel f' xs"
  by (simp add: seq_rel_def)

lemma parse_sequence:
  assumes "decode_frame sj raw = Some d" "seq_rel f xs"
  shows "\<exists>n f' out'. parse sj iter now raw (f, out) = Some (n, f', out') \<and> seq_rel f' (xs @ frame_sequence sj raw)"
proof (cases "d = NoDepth")
  case False
  obtain st' where st': "parse sj iter now raw (f, out) = Some (length (snd st') - length (snd (f, out)), st')" "frame_result iter now d (f, out) st'"
    using parse_frame [OF assms(1)] .
  have "frame_sequence sj raw = []" using assms(1) False
    by (auto simp: decode_frame_def frame_sequence_def split: option.splits if_splits)
  moreover have "seq_rel (fst st') xs" by (rule seq_rel_eq [OF assms(2)]) (simp_all add: frame_result_counters [OF st'(2) False])
  ultimately show ?thesis using st'(1) by (cases st') simp
next
  case True
  have other: "seq_rel (bump_malformed f) xs" "seq_rel (bump_ignored f) xs" using assms(2) by (simp_all add: seq_rel_def)
  have "seq_rel (bump_ignored (note_sequence x f)) (xs @ [x])" for x
    by (rule seq_rel_eq [OF note_sequence_rel [OF assms(2)]]) simp_all
  note seq = other this
  show ?thesis
  proof (cases "sj_parse sj raw")
    case (Some doc)
    show ?thesis
    proof (cases "get_field sj (sj_string sj) doc ''type''")
      case type: (Some type)
      show ?thesis
      proof (cases "type = ''l2update''")
        case l2: True
        then have "get_field sj (sj_array sj) doc ''changes'' = None"
          using assms(1) Some type True by (auto simp: decode_frame_def split: option.splits)
        then show ?thesis using l2 Some type seq(1) by (simp add: parse_def frame_sequence_def)
      next
        case False
        then have "type \<noteq> ''snapshot''" using assms(1) Some type True by (auto simp: decode_frame_def split: Option.bind_splits)
        then show ?thesis using False Some type seq(2,3) by (simp add: parse_def frame_sequence_def split: option.split)
      qed
    qed (simp add: Some parse_def frame_sequence_def seq)
  qed (simp add: parse_def frame_sequence_def seq)
qed

end
