(* ===== verification/Feed_Theorems.thy ===== *)
theory Feed_Theorems
  imports Feed_Properties
begin

text \<open>
  The properties of the feed handler over whole sessions, with a small JSON library as
  the instance of the parser parameter for the concrete examples.
\<close>

section \<open>An instance of the JSON library\<close>

datatype json = JStr string | JNum nat | JArr "json list" | JObj "(string \<times> json) list"

definition json_library :: "(string \<Rightarrow> json option) \<Rightarrow> json simdjson" where
  "json_library documents = \<lparr>sj_parse = documents,
     sj_at = (\<lambda>el key. case el of JObj members \<Rightarrow> map_of members key | _ \<Rightarrow> None),
     sj_string = (\<lambda>el. case el of JStr s \<Rightarrow> Some s | _ \<Rightarrow> None),
     sj_array = (\<lambda>el. case el of JArr els \<Rightarrow> Some els | _ \<Rightarrow> None),
     sj_uint64 = (\<lambda>el. case el of JNum n \<Rightarrow> Some (of_nat n) | _ \<Rightarrow> None)\<rparr>"

definition sample_library :: "json simdjson" where
  "sample_library = json_library (\<lambda>raw.
     if raw = ''snapshot'' then Some (JObj [(''type'', JStr ''snapshot''), (''bids'', JArr [JArr [JStr ''100.00'', JStr ''1.500000'']])])
     else if raw = ''update'' then Some (JObj [(''type'', JStr ''l2update''),
       (''changes'', JArr [JArr [JStr ''sell'', JStr ''101.00'', JStr ''2.000000''], JArr [JStr ''buy'']])])
     else if raw = ''match'' then Some (JObj [(''type'', JStr ''match''), (''sequence'', JNum 7)])
     else None)"

definition sample_session :: session where
  "sample_session = [(''snapshot'', \<lambda>xs. xs, 0), (''match'', \<lambda>xs. xs, 1), (''update'', \<lambda>xs. xs, 2), (''match'', \<lambda>xs. xs, 3)]"

definition sample_frames :: "depth_frame list" where
  "sample_frames = [DepthSnapshot [(Bid, Level 10000 1500000)], NoDepth,
     DepthUpdate [(Ask, Level 10100 2000000), (Bid, Malformed)], NoDepth]"

lemma sample_levels:
  "read_level ''100.00'' ''1.500000'' = Some (Level 10000 1500000)" "read_level ''101.00'' ''2.000000'' = Some (Level 10100 2000000)"
proof -
  have "print_amount 3 2 10000 = ''100.00''" "print_amount 3 2 10100 = ''101.00''"
    "print_amount 1 6 1500000 = ''1.500000''" "print_amount 1 6 2000000 = ''2.000000''"
    by (simp_all add: print_amount_def digits_of_numeral char_of_eq_iff)
  then show "read_level ''100.00'' ''1.500000'' = Some (Level 10000 1500000)" "read_level ''101.00'' ''2.000000'' = Some (Level 10100 2000000)"
    using amount_conversions [of 3 10000] amount_conversions [of 3 10100] amount_conversions [of 1 1500000] amount_conversions [of 1 2000000]
    by (simp_all add: read_level_def MAX_PRICE_TICKS_def)
qed

lemma sample_decoded:
  "decode_frame sample_library ''snapshot'' = Some (DepthSnapshot [(Bid, Level 10000 1500000)])"
  "decode_frame sample_library ''update'' = Some (DepthUpdate [(Ask, Level 10100 2000000), (Bid, Malformed)])"
  "decode_frame sample_library ''match'' = Some NoDepth"
  by (simp_all add: decode_frame_def sample_library_def json_library_def get_field_def side_rows_def row_level_def
      change_level_def row_strings_def parse_side_def sample_levels)

lemma sample_session_decoded: "those (map (\<lambda>(raw, _). decode_frame sample_library raw) sample_session) = Some sample_frames"
  by (simp add: sample_session_def sample_frames_def sample_decoded)

lemma sample_permuted: "orders_permuted sample_session"
  by (simp add: orders_permuted_def sample_session_def)

section \<open>Properties\<close>

text \<open>
  C24: The feed handler maintains the depth of the exchange.  For every session whose
  numbers are in range, every frame is processed, and what the emitted messages leave
  open is exactly the aggregated depth that the frames describe: one open order per
  level, with the quantity of the level, and \<^verbatim>\<open>live_levels\<close> counts them.
\<close>

theorem feed_tracks_depth:
  assumes "those (map (\<lambda>(raw, _). decode_frame sj raw) frames) = Some ds" "orders_permuted frames"
    "length (concat (map frame_events ds)) < 2 ^ 64 - 1"
  shows "\<exists>f msgs. run_frames sj frames (new_feed, []) = Some (f, msgs) \<and>
    (let d = fold apply_event (concat (map frame_events ds)) Map.empty; r = fold apply_msg msgs Map.empty in
      (\<forall>oid k q. r oid = Some (k, q) \<longrightarrow> d k = Some q) \<and>
      (\<forall>k q. d k = Some q \<longrightarrow> (\<exists>!oid. r oid = Some (k, q))) \<and> live_levels f = card (dom d))"
proof -
  let ?d = "fold apply_event (concat (map frame_events ds)) Map.empty"
  obtain f msgs where run: "run_frames sj frames (new_feed, []) = Some (f, msgs)" and rel: "feed_rel f (fold apply_msg msgs Map.empty) ?d"
    using session_result [OF assms] by metis
  let ?r = "fold apply_msg msgs Map.empty"
  have iff: "?r oid = Some (k, q) \<longleftrightarrow> (k, oid) \<in> set (fh_live f) \<and> ?d k = Some q" for oid k q
    using rel by (simp add: feed_rel_def)
  have dom: "dom ?d = fst ` set (fh_live f)" "distinct (map fst (fh_live f))" using rel by (simp_all add: feed_rel_def)
  have "\<exists>!oid. ?r oid = Some (k, q)" if "?d k = Some q" for k q
  proof -
    have "k \<in> fst ` set (fh_live f)" using that dom(1) by blast
    then obtain oid where "(k, oid) \<in> set (fh_live f)" by auto
    then show ?thesis using that dom(2) iff by (intro ex1I [of _ oid]) (auto dest: eq_key_imp_eq_value)
  qed
  moreover have "live_levels f = card (dom ?d)"
    using distinct_card [OF dom(2)] dom(1) by (simp add: live_levels_def)
  ultimately show ?thesis using run iff by (intro exI [of _ f] exI [of _ msgs]) (simp add: Let_def)
qed

theorem feed_tracks_depth_witness:
  "\<exists>f msgs. run_frames sample_library sample_session (new_feed, []) = Some (f, msgs) \<and>
    live_levels f = card (dom (fold apply_event (concat (map frame_events sample_frames)) Map.empty))"
proof -
  have "length (concat (map frame_events sample_frames)) < 2 ^ 64 - 1" by (simp add: sample_frames_def row_events_def)
  from feed_tracks_depth [OF sample_session_decoded sample_permuted this] show ?thesis by (auto simp: Let_def)
qed

text \<open>
  C25: Every message the handler emits is one the engine takes as meant: new orders are
  limit orders priced inside the grid with a positive quantity and an identifier that is
  not open, and cancellations name open orders only.
\<close>

theorem feed_messages_valid:
  assumes "those (map (\<lambda>(raw, _). decode_frame sj raw) frames) = Some ds" "orders_permuted frames"
    "length (concat (map frame_events ds)) < 2 ^ 64 - 1"
  shows "\<exists>f msgs. run_frames sj frames (new_feed, []) = Some (f, msgs) \<and> valid_session Map.empty msgs"
  using session_result [OF assms] by metis

theorem feed_messages_valid_witness:
  "\<exists>f msgs. run_frames sample_library sample_session (new_feed, []) = Some (f, msgs) \<and> valid_session Map.empty msgs"
proof -
  have "length (concat (map frame_events sample_frames)) < 2 ^ 64 - 1" by (simp add: sample_frames_def row_events_def)
  from feed_messages_valid [OF sample_session_decoded sample_permuted this] show ?thesis .
qed

text \<open>
  C26: No row of a depth frame is lost silently: the malformed and skipped counters grow
  by exactly the number of rows that do not parse and that are priced outside the book,
  the other counters stay, earlier messages stay, and the returned number is the number
  of appended messages.
\<close>

theorem rows_counted:
  assumes "decode_frame sj raw = Some d" "d \<noteq> NoDepth" "mset (iter (fh_live f)) = mset (fh_live f)"
  shows "\<exists>f' ms. parse sj iter now raw (f, out) = Some (length ms, f', out @ ms) \<and>
    malformed_count f' = malformed_count f + of_nat (rows_with Malformed (frame_rows d)) \<and>
    skipped_count f' = skipped_count f + of_nat (rows_with OutOfBook (frame_rows d)) \<and>
    ignored_count f' = ignored_count f \<and> sequence_gaps f' = sequence_gaps f"
proof -
  define iter' where "iter' = (\<lambda>xs. if xs = fh_live f then iter xs else xs)"
  obtain st' where st': "parse sj iter now raw (f, out) = Some (length (snd st') - length (snd (f, out)), st')" "frame_result iter now d (f, out) st'"
    using parse_frame [OF assms(1)] .
  have "frame_result iter' now d (f, out) st'" using st'(2) by (cases d) (simp_all add: iter'_def reset_book_def)
  then have "feed_step (frame_events d) (f, out) st'" by (rule frame_step [OF assms(1)]) (simp add: iter'_def assms(3))
  then obtain ms where "snd st' = out @ ms" by (auto simp: feed_step_def)
  then show ?thesis using st'(1) frame_result_counters [OF st'(2) assms(2)]
    by (intro exI [of _ "fst st'"] exI [of _ ms])
      (cases st', simp add: malformed_count_def skipped_count_def ignored_count_def sequence_gaps_def)
qed

theorem rows_counted_witness:
  "\<exists>f' ms. parse sample_library (\<lambda>xs. xs) 0 ''update'' (new_feed, []) = Some (length ms, f', ms) \<and> malformed_count f' = 1"
  using rows_counted [OF sample_decoded(2), of "\<lambda>xs. xs" new_feed 0 "[]"]
  by (auto simp: rows_with_def malformed_count_def new_feed_def)

lemma run_frames_sequence:
  assumes "those (map (\<lambda>(raw, _). decode_frame sj raw) frames) = Some ds" "seq_rel f xs"
  shows "\<exists>f' out'. run_frames sj frames (f, out) = Some (f', out') \<and>
    seq_rel f' (xs @ concat (map (\<lambda>(raw, _). frame_sequence sj raw) frames))"
  using assms
proof (induction frames arbitrary: ds f xs out)
  case (Cons fr frames)
  obtain raw iter now where fr: "fr = (raw, iter, now)" by (cases fr)
  obtain d ds' where ds: "decode_frame sj raw = Some d" "those (map (\<lambda>(raw, _). decode_frame sj raw) frames) = Some ds'"
    using Cons.prems(1) fr by (auto simp: those_Cons_eq simp del: those.simps(2))
  obtain n f1 out1 where p: "parse sj iter now raw (f, out) = Some (n, f1, out1)" "seq_rel f1 (xs @ frame_sequence sj raw)"
    using parse_sequence [OF ds(1) Cons.prems(2)] by blast
  show ?case using Cons.IH [OF ds(2) p(2)] p(1) fr by simp
qed simp

text \<open>
  The gap counter is exact: over any session it equals the number of neighbouring
  sequence numbers of match frames that do not follow each other, whatever other frames
  come in between.
\<close>

lemma sequence_gaps_exact:
  assumes "those (map (\<lambda>(raw, _). decode_frame sj raw) frames) = Some ds"
  shows "\<exists>f msgs. run_frames sj frames (new_feed, []) = Some (f, msgs) \<and>
    sequence_gaps f = of_nat (gap_count (concat (map (\<lambda>(raw, _). frame_sequence sj raw) frames)))"
proof -
  have "seq_rel new_feed []" by (simp add: seq_rel_def new_feed_def gap_count_def)
  from run_frames_sequence [OF assms this, of "[]"] show ?thesis by (auto simp: seq_rel_def sequence_gaps_def)
qed

end
