(* ===== verification/Live_Depth.thy ===== *)
theory Live_Depth
  imports Feed_Theorems Engine_Contract
begin

text \<open>
  The feed and the engine together.  The feed handler turns depth updates into new orders and
  cancellations, and the engine processes them like any other order flow.  As long as the
  depth the exchange sends is never crossed and fits the pool, the engine trades nothing, and
  its book is the depth of the exchange, level by level.
\<close>

section \<open>The book that mirrors a registry\<close>

definition mirrors :: "registry \<Rightarrow> lob \<Rightarrow> bool" where
  "mirrors r s \<longleftrightarrow> (\<forall>i k q. r i = Some (k, q) \<longleftrightarrow>
     (\<exists>m \<in> set (lob_side (lk_side k) s). m_id m = i \<and> m_price m = lk_price k \<and> m_open m = unat q))"

definition uncrossed_registry :: "registry \<Rightarrow> bool" where
  "uncrossed_registry r \<longleftrightarrow> (\<forall>i j k l q q'. r i = Some (k, q) \<longrightarrow> r j = Some (l, q') \<longrightarrow>
     lk_side k = Bid \<longrightarrow> lk_side l = Ask \<longrightarrow> lk_price k < lk_price l)"

definition tame :: "nat \<Rightarrow> registry \<Rightarrow> bool" where
  "tame n r \<longleftrightarrow> uncrossed_registry r \<and> finite (dom r) \<and> card (dom r) \<le> n"

lemma mirrors_maker:
  assumes "mirrors r s" and "lob_ok n s" and "m \<in> set (lob_side sd s)"
  shows "r (m_id m) = Some (\<lparr>lk_price = m_price m, lk_side = sd\<rparr>, of_nat (m_open m))"
proof -
  have "m_open m < 2 ^ 32" using assms(2,3) by (cases sd) (auto simp: lob_ok_def lob_side_def)
  then have "unat (of_nat (m_open m) :: Quantity) = m_open m" by (simp add: unat_of_nat_small)
  with assms(1,3) show ?thesis unfolding mirrors_def by force
qed

lemma mirrors_ids:
  assumes "mirrors r s" and "lob_ok n s"
  shows "lob_ids s = dom r" and "lob_size s = card (dom r)" and "finite (dom r)"
proof -
  have sides: "set (lob_bids s) \<union> set (lob_asks s) = (\<Union>sd. set (lob_side sd s))"
    by (auto simp: lob_side_def split: Side.splits)
  show ids: "lob_ids s = dom r"
  proof
    show "lob_ids s \<subseteq> dom r" using mirrors_maker [OF assms] unfolding lob_ids_def sides by fastforce
    show "dom r \<subseteq> lob_ids s" using assms(1) unfolding lob_ids_def sides mirrors_def by fastforce
  qed
  have "distinct (map m_id (lob_bids s @ lob_asks s))" using assms(2) by (simp only: lob_ok_def)
  then have "card (set (map m_id (lob_bids s @ lob_asks s))) = lob_size s"
    by (simp only: distinct_card) (simp add: lob_size_def)
  then show "lob_size s = card (dom r)" using ids by (simp add: lob_ids_def image_Un)
  show "finite (dom r)" using ids by (auto simp: lob_ids_def)
qed

section \<open>One message\<close>

lemma sweep_refused: "(\<And>m. m \<in> set ms \<Longrightarrow> \<not> ok (m_price m)) \<Longrightarrow> sweep ok r ms = ([], r, ms)"
  by (cases ms) auto

lemma set_enqueued: "set (enqueue bt m ms) = insert m (set ms)"
proof -
  let ?P = "\<lambda>x. \<not> bt (m_price m) (m_price x)"
  have "set ms = set (takeWhile ?P ms) \<union> set (dropWhile ?P ms)" by (metis takeWhile_dropWhile_id set_append)
  then show ?thesis by (simp add: enqueue_def)
qed

text \<open>An order that leaves the registry uncrossed meets no order it accepts.\<close>

lemma mirrors_no_trade:
  assumes mir: "mirrors r s" and ok: "lob_ok n s" and valid: "valid_msg r (NewOrder m)"
    and after: "uncrossed_registry (apply_msg (NewOrder m) r)"
  shows "sweep (accepts m) k (lob_side (opposite (n_side m)) s) = ([], k, lob_side (opposite (n_side m)) s)"
proof (rule sweep_refused)
  fix x assume x: "x \<in> set (lob_side (opposite (n_side m)) s)"
  let ?k = "\<lparr>lk_price = n_price m, lk_side = n_side m\<rparr>" and ?l = "\<lparr>lk_price = m_price x, lk_side = opposite (n_side m)\<rparr>"
  have "r (m_id x) = Some (?l, of_nat (m_open x))" by (rule mirrors_maker [OF mir ok x])
  moreover from this valid have "m_id x \<noteq> n_id m" by auto
  ultimately have "apply_msg (NewOrder m) r (m_id x) = Some (?l, of_nat (m_open x))"
    "apply_msg (NewOrder m) r (n_id m) = Some (?k, n_quantity m)" by simp_all
  with after valid show "\<not> accepts m (m_price x)"
    unfolding uncrossed_registry_def accepts_def by (cases "n_side m") fastforce+
qed

lemma mirrors_rest:
  assumes mir: "mirrors r s" and ok: "lob_ok n s" and fresh: "r (n_id m) = None"
  shows "mirrors (apply_msg (NewOrder m) r) (rest_maker (n_side m) \<lparr>m_id = n_id m, m_price = n_price m, m_open = unat (n_quantity m)\<rparr> s)"
    (is "mirrors _ (rest_maker _ ?mk s)")
proof -
  let ?k = "\<lparr>lk_price = n_price m, lk_side = n_side m\<rparr>"
  have sides: "set (lob_side sd (rest_maker (n_side m) ?mk s)) = (if sd = n_side m then insert ?mk (set (lob_side sd s)) else set (lob_side sd s))" for sd
    by (cases "n_side m"; cases sd) (simp_all add: rest_maker_def set_lob_side_def lob_side_def set_enqueued)
  show ?thesis unfolding mirrors_def sides
  proof (intro allI)
    fix i k q
    have absent: "m_id x \<noteq> n_id m" if "x \<in> set (lob_side sd s)" for x sd
      using mirrors_maker [OF mir ok that] fresh by auto
    have key: "?k = k \<longleftrightarrow> lk_side k = n_side m \<and> lk_price k = n_price m" by (cases k) auto
    show "apply_msg (NewOrder m) r i = Some (k, q) \<longleftrightarrow>
      (\<exists>x \<in> (if lk_side k = n_side m then insert ?mk (set (lob_side (lk_side k) s)) else set (lob_side (lk_side k) s)).
         m_id x = i \<and> m_price x = lk_price k \<and> m_open x = unat q)"
    proof (cases "i = n_id m")
      case True
      then show ?thesis using absent key by (auto simp: word_unat_eq_iff)
    next
      case False
      then have "apply_msg (NewOrder m) r i = r i" by simp
      with False mir show ?thesis unfolding mirrors_def by auto
    qed
  qed
qed

lemma mirrors_new:
  assumes mir: "mirrors r s" and ok: "lob_ok n s" and valid: "valid_msg r (NewOrder m)"
    and after: "tame n (apply_msg (NewOrder m) r)"
  shows "fst (lob_process n (NewOrder m) s) = []" and "mirrors (apply_msg (NewOrder m) r) (snd (lob_process n (NewOrder m) s))"
proof -
  let ?opp = "opposite (n_side m)" and ?mk = "\<lparr>m_id = n_id m, m_price = n_price m, m_open = unat (n_quantity m)\<rparr>"
  have fresh: "r (n_id m) = None" and q: "0 < unat (n_quantity m)" "n_type m = Limit" "\<not> rejected m"
    using valid by (auto simp: rejected_def unat_gt_0)
  have "card (dom (apply_msg (NewOrder m) r)) = Suc (card (dom r))"
    using fresh mirrors_ids(3) [OF mir ok] by (simp add: domIff)
  then have room: "lob_size s < n" "n_id m \<notin> lob_ids s"
    using after mirrors_ids [OF mir ok] fresh by (auto simp: tame_def)
  have sw: "sweep (accepts m) k (lob_side ?opp s) = ([], k, lob_side ?opp s)" for k
    using mirrors_no_trade [OF mir ok valid] after by (simp add: tame_def)
  have same: "set_lob_side ?opp (lob_side ?opp s) s = s" by (cases "n_side m") (simp_all add: set_lob_side_def lob_side_def)
  have result: "lob_process n (NewOrder m) s = ([], rest_maker (n_side m) ?mk s)"
    using q room by (simp add: lob_new_def sw same rest_remainder_def)
  then show "fst (lob_process n (NewOrder m) s) = []" "mirrors (apply_msg (NewOrder m) r) (snd (lob_process n (NewOrder m) s))"
    using mirrors_rest [OF mir ok fresh] by simp_all
qed

lemma mirrors_cancel:
  assumes mir: "mirrors r s" and ok: "lob_ok n s"
  shows "fst (lob_process n (Cancel m) s) = []" and "mirrors (apply_msg (Cancel m) r) (snd (lob_process n (Cancel m) s))"
proof -
  show "fst (lob_process n (Cancel m) s) = []" by simp
  have "set (lob_side sd (lob_cancel (c_id m) s)) = {x \<in> set (lob_side sd s). m_id x \<noteq> c_id m}" for sd
    by (cases sd) (simp_all add: lob_cancel_def lob_side_def)
  with mir show "mirrors (apply_msg (Cancel m) r) (snd (lob_process n (Cancel m) s))"
    by (auto simp: mirrors_def fun_upd_apply)
qed

section \<open>A session\<close>

lemma mirrors_step:
  assumes "implements n e s" and "mirrors r s" and "valid_msg r msg" and "tame n (apply_msg msg r)"
  shows "\<exists>e' s'. process msg e = Some e' \<and> e_fills e' = [] \<and> implements n e' s' \<and> mirrors (apply_msg msg r) s'"
proof -
  note ok = implements_view(1) [OF assms(1)]
  obtain e' where "process msg e = Some e'" "e_fills e' = fst (lob_process n msg s)" "implements n e' (snd (lob_process n msg s))"
    using process_implements [OF assms(1)] by blast
  moreover have "fst (lob_process n msg s) = []" "mirrors (apply_msg msg r) (snd (lob_process n msg s))"
    using mirrors_new [OF assms(2) ok] mirrors_cancel [OF assms(2) ok] assms(3,4) by (cases msg; blast)+
  ultimately show ?thesis by auto
qed

lemma mirrors_run:
  assumes "implements n e s" and "mirrors r s" and "valid_session r ms"
    and "\<And>i. i \<le> length ms \<Longrightarrow> tame n (fold apply_msg (take i ms) r)"
  shows "\<exists>e' s'. run_messages ms e = Some (replicate (length ms) [], e') \<and> implements n e' s' \<and> mirrors (fold apply_msg ms r) s'"
  using assms
proof (induction ms arbitrary: e s r)
  case (Cons m ms)
  have "tame n (apply_msg m r)" using Cons.prems(4) [of 1] by simp
  then obtain e1 s1 where 1: "process m e = Some e1" "e_fills e1 = []" "implements n e1 s1" "mirrors (apply_msg m r) s1"
    using mirrors_step [OF Cons.prems(1,2), of m] Cons.prems(3) by auto
  have "tame n (fold apply_msg (take i ms) (apply_msg m r))" if "i \<le> length ms" for i
    using Cons.prems(4) [of "Suc i"] that by simp
  then show ?case using Cons.IH [OF 1(3,4)] Cons.prems(3) 1(1,2) by auto
qed auto

section \<open>Depth that never crosses\<close>

definition uncrossed_depth :: "depth \<Rightarrow> bool" where
  "uncrossed_depth d \<longleftrightarrow> (\<forall>k l. k \<in> dom d \<longrightarrow> l \<in> dom d \<longrightarrow> lk_side k = Bid \<longrightarrow> lk_side l = Ask \<longrightarrow> lk_price k < lk_price l)"

text \<open>The depth after each event of a session is uncrossed and has at most \<open>n\<close> levels.\<close>

definition tame_depth :: "nat \<Rightarrow> depth_event list \<Rightarrow> bool" where
  "tame_depth n evs \<longleftrightarrow> (\<forall>j \<le> length evs. let d = fold apply_event (take j evs) Map.empty in
     uncrossed_depth d \<and> card (dom d) \<le> n)"

lemma finite_depth: "finite (dom d) \<Longrightarrow> finite (dom (fold apply_event evs d))"
proof (induction evs arbitrary: d)
  case (Cons e evs)
  have "finite (dom (apply_event e d))" using Cons.prems by (cases e) auto
  then show ?case using Cons.IH by simp
qed simp

lemma covered_tame:
  assumes "covered_by r d" and "uncrossed_depth d" and "finite (dom d)" and "card (dom d) \<le> n"
  shows "tame n r"
proof -
  have sub: "(\<lambda>i. fst (the (r i))) ` dom r \<subseteq> dom d" using assms(1) by (auto simp: covered_by_def)
  have inj: "inj_on (\<lambda>i. fst (the (r i))) (dom r)"
    using assms(1) by (auto simp: covered_by_def inj_on_def)
  have "uncrossed_registry r"
    using assms(1,2) unfolding uncrossed_registry_def covered_by_def uncrossed_depth_def by (meson domI)
  moreover have "finite (dom r)" by (rule inj_on_finite [OF inj sub assms(3)])
  moreover have "card (dom r) \<le> n" using card_inj_on_le [OF inj sub assms(3)] assms(4) by simp
  ultimately show ?thesis by (simp add: tame_def)
qed

lemma session_tame:
  assumes "trail evs Map.empty msgs Map.empty" "tame_depth n evs" "i \<le> length msgs"
  shows "tame n (fold apply_msg (take i msgs) Map.empty)"
proof -
  obtain j where "j \<le> length evs" "covered_by (fold apply_msg (take i msgs) Map.empty) (fold apply_event (take j evs) Map.empty)"
    using assms(1,3) unfolding trail_def by blast
  then show ?thesis using assms(2) by (intro covered_tame) (auto simp: tame_depth_def Let_def finite_depth)
qed

lemma mirrors_empty: "mirrors Map.empty empty_lob"
  by (auto simp: mirrors_def empty_lob_def lob_side_def split: Side.splits)

text \<open>The quantities the book offers at a level: one maker of the size of the level, or none.\<close>

lemma mirrored_level:
  assumes mir: "mirrors r s" and ok: "lob_ok n s" and rel: "feed_rel f r d"
  shows "map m_open (filter (\<lambda>m. m_price m = lk_price k) (lob_side (lk_side k) s)) = (case d k of None \<Rightarrow> [] | Some q \<Rightarrow> [unat q])"
proof -
  let ?at = "filter (\<lambda>m. m_price m = lk_price k) (lob_side (lk_side k) s)"
  have k: "\<lparr>lk_price = lk_price k, lk_side = lk_side k\<rparr> = k" by (cases k) simp
  have maker: "r (m_id m) = Some (k, of_nat (m_open m))" if "m \<in> set ?at" for m
    using mirrors_maker [OF mir ok, of m "lk_side k"] that k by simp
  have cov: "covered_by r d" by (rule feed_rel_covered [OF rel])
  have iff: "r i = Some (k, q) \<longleftrightarrow> (k, i) \<in> set (fh_live f) \<and> d k = Some q" for i q using rel by (simp add: feed_rel_def)
  have dist: "distinct (map m_id ?at)"
    using ok by (cases "lk_side k") (auto simp: lob_ok_def lob_side_def distinct_map_filter)
  show ?thesis
  proof (cases "d k")
    case None
    then have "?at = []" using maker iff by (metis last_in_set option.distinct(1))
    then show ?thesis using None by simp
  next
    case (Some q)
    then have "k \<in> fst ` set (fh_live f)" using rel by (metis domI feed_rel_def)
    then obtain i where "r i = Some (k, q)" using iff Some by force
    then obtain m where m: "m \<in> set ?at" "m_open m = unat q" "m_id m = i" using mir unfolding mirrors_def by fastforce
    have same: "m_id m' = i" if "m' \<in> set ?at" for m'
      using maker [OF that] \<open>r i = Some (k, q)\<close> cov unfolding covered_by_def by blast
    then have "set (map m_id ?at) = {i}" using m by auto
    then have "length ?at = 1" using distinct_card [OF dist] by simp
    then obtain m' where "?at = [m']" by (cases ?at) auto
    with m(1,2) Some show ?thesis by simp
  qed
qed

section \<open>Properties\<close>

text \<open>
  feed and engine together.  Take any session of frames whose numbers are in range and
  whose depth, after each row, is uncrossed and has no more levels than the pool has slots.
  Then the messages the feed emits, processed by a fresh engine, produce no fill at all, and the
  book the engine ends with shows at every price of either side exactly the quantity the
  exchange has there, in one order, and nothing elsewhere.
\<close>

lemma live_book_is_depth:
  assumes "those (map (\<lambda>(raw, _). decode_frame sj raw) frames) = Some ds" "orders_permuted frames"
    and "length (concat (map frame_events ds)) < 2 ^ 64 - 1" and "tame_depth n (concat (map frame_events ds))" and "n < 2 ^ 32"
  shows "\<exists>f msgs e s. run_frames sj frames (new_feed, []) = Some (f, msgs) \<and>
    run_messages msgs (new_engine n) = Some (replicate (length msgs) [], e) \<and> implements n e s \<and>
    (\<forall>k. map m_open (filter (\<lambda>m. m_price m = lk_price k) (lob_side (lk_side k) s)) =
       (case fold apply_event (concat (map frame_events ds)) Map.empty k of None \<Rightarrow> [] | Some q \<Rightarrow> [unat q]))"
proof -
  let ?evs = "concat (map frame_events ds)"
  obtain f msgs where run: "run_frames sj frames (new_feed, []) = Some (f, msgs)"
      and rel: "feed_rel f (fold apply_msg msgs Map.empty) (fold apply_event ?evs Map.empty)"
      and valid: "valid_session Map.empty msgs" and trail: "trail ?evs Map.empty msgs Map.empty"
    using session_result [OF assms(1-3)] by metis
  obtain e s where es: "run_messages msgs (new_engine n) = Some (replicate (length msgs) [], e)" "implements n e s"
      "mirrors (fold apply_msg msgs Map.empty) s"
    using mirrors_run [OF new_engine_implements [OF assms(5)] mirrors_empty valid session_tame [OF trail assms(4)]] by blast
  show ?thesis
    using run es mirrored_level [OF es(3) implements_view(1) [OF es(2)] rel] by blast
qed

text \<open>
  That the depth stays uncrossed after each row is needed.  When one update moves the market through
  a price and names the new bid before it takes the old ask away, the order for the bid meets the order
  for the ask in the engine: both lose quantity to a fill that never happened, and the book ends
  without the bid that the exchange has.
\<close>

lemma crossed_rows_diverge:
  defines "ask \<equiv> \<lparr>lk_price = 10000, lk_side = Ask\<rparr>" and "bid \<equiv> \<lparr>lk_price = 10000, lk_side = Bid\<rparr>"
  defines "msgs \<equiv> snd (apply_level Ask 10000 0 3 (apply_level Bid 10000 1 2 (apply_level Ask 10000 2 1 (new_feed, []))))"
  shows "fold apply_event [DepthSet ask 2, DepthSet bid 1, DepthSet ask 0] Map.empty = [bid \<mapsto> 1]"
    and "\<exists>fss e s. run_messages msgs (new_engine 8) = Some (fss, e) \<and> map length fss = [0, 1, 0] \<and> implements 8 e s \<and> s = empty_lob"
proof -
  show "fold apply_event [DepthSet ask 2, DepthSet bid 1, DepthSet ask 0] Map.empty = [bid \<mapsto> 1]"
    by (auto simp: ask_def bid_def fun_upd_apply)
  have m: "msgs = [NewOrder \<lparr>n_id = 1, n_side = Ask, n_type = Limit, n_price = 10000, n_quantity = 2, n_timestamp = 1\<rparr>,
      NewOrder \<lparr>n_id = 2, n_side = Bid, n_type = Limit, n_price = 10000, n_quantity = 1, n_timestamp = 2\<rparr>,
      Cancel \<lparr>c_id = 1, c_timestamp = 3\<rparr>]"
    by (simp add: msgs_def apply_level_def new_feed_def)
  have spec: "map length (fst (lob_run 8 msgs empty_lob)) = [0, 1, 0]" "snd (lob_run 8 msgs empty_lob) = empty_lob"
    unfolding m by code_simp+
  obtain e where "run_messages msgs (new_engine 8) = Some (fst (lob_run 8 msgs empty_lob), e)" "implements 8 e (snd (lob_run 8 msgs empty_lob))"
    using eng.run_sim [OF new_engine_implements [of 8], of msgs] unfolding run_messages_eng lob_run_eng by auto
  with spec show "\<exists>fss e s. run_messages msgs (new_engine 8) = Some (fss, e) \<and> map length fss = [0, 1, 0] \<and> implements 8 e s \<and> s = empty_lob"
    by auto
qed

text \<open>
  That every message reaches the engine is needed too.  The feed handler has recorded a message
  before the ingest thread tries to push it, so a cancel that meets a full queue is gone: the feed no longer
  tracks the order, not even the reset before the next snapshot mentions it, and it stays in the book.
\<close>

lemma dropped_cancel_stays:
  defines "rows \<equiv> apply_level Bid 10000 0 2 (apply_level Bid 10000 5 1 (new_feed, []))"
  defines "sent \<equiv> snd (reset_book id 3 rows)"
  defines "accepted \<equiv> filter (\<lambda>m. \<not> is_cancel m) sent"
  shows "length (filter is_cancel sent) = 1 \<and> fh_live (fst rows) = []"
    and "\<exists>fss e s. run_messages accepted (new_engine 8) = Some (fss, e) \<and> implements 8 e s \<and> lob_bids s = [\<lparr>m_id = 1, m_price = 10000, m_open = 5\<rparr>]"
proof -
  have m: "sent = [NewOrder \<lparr>n_id = 1, n_side = Bid, n_type = Limit, n_price = 10000, n_quantity = 5, n_timestamp = 1\<rparr>,
      Cancel \<lparr>c_id = 1, c_timestamp = 2\<rparr>]"
    by (simp add: sent_def rows_def apply_level_def new_feed_def reset_book_def)
  then show "length (filter is_cancel sent) = 1 \<and> fh_live (fst rows) = []"
    by (simp add: rows_def apply_level_def new_feed_def)
  have a: "accepted = [hd sent]" by (simp add: accepted_def m)
  have spec: "lob_bids (snd (lob_run 8 accepted empty_lob)) = [\<lparr>m_id = 1, m_price = 10000, m_open = 5\<rparr>]"
    unfolding a m by code_simp
  obtain e where "run_messages accepted (new_engine 8) = Some (fst (lob_run 8 accepted empty_lob), e)" "implements 8 e (snd (lob_run 8 accepted empty_lob))"
    using eng.run_sim [OF new_engine_implements [of 8], of accepted] unfolding run_messages_eng lob_run_eng by auto
  with spec show "\<exists>fss e s. run_messages accepted (new_engine 8) = Some (fss, e) \<and> implements 8 e s \<and> lob_bids s = [\<lparr>m_id = 1, m_price = 10000, m_open = 5\<rparr>]"
    by blast
qed

end
