(* ===== verification/Live_System.thy ===== *)
theory Live_System
  imports Pipeline_System Live_Depth
begin

text \<open>
  The live mode end to end: the frames of the exchange, the feed handler, the input queue,
  the engine thread and the book.  The ingest thread handles one frame at a time, in the
  handler that \<^verbatim>\<open>CoinbaseFeed::start\<close> installs: it parses the frame into a batch, and for each message of the
  batch pushes it and updates a counter, while the other threads of \<^verbatim>\<open>main.cpp\<close> run.
\<close>

section \<open>The ingest thread of the live mode\<close>

text \<open>
  The rest of the batch and the clock reading of the handler that runs; \<open>li_frames\<close> and
  \<open>li_emitted\<close> record the frames handled so far and the messages the handler made of them.
\<close>

record live_ingest =
  li_batch :: "engine_message list"
  li_now :: Timestamp
  li_frames :: session
  li_emitted :: "engine_message list"

record live_system =
  lv_pipe :: pipeline
  lv_ingest :: live_ingest

definition live_frame ::
  "'el simdjson \<Rightarrow> string \<Rightarrow> (live_map \<Rightarrow> live_map) \<Rightarrow> Timestamp \<Rightarrow> Timestamp \<Rightarrow> live_system \<Rightarrow> live_system option" where
  "live_frame sj raw iter parse_now now s = (let p = lv_pipe s; i = lv_ingest s in do {
     (_, h, batch) \<leftarrow> parse sj iter parse_now raw (cf_handler (pl_feed p), []);
     Some \<lparr>lv_pipe = p\<lparr>pl_feed := (pl_feed p)\<lparr>cf_handler := h\<rparr>\<rparr>,
       lv_ingest = \<lparr>li_batch = batch, li_now = now, li_frames = li_frames i @ [(raw, iter, parse_now)], li_emitted = li_emitted i @ batch\<rparr>\<rparr> })"

inductive live_step :: "'el simdjson \<Rightarrow> live_system \<Rightarrow> live_system \<Rightarrow> bool" for sj where
  frame: "\<not> pl_ingest_joined (lv_pipe s) \<Longrightarrow> pl_phase (lv_pipe s) = PushNext \<Longrightarrow> li_batch (lv_ingest s) = [] \<Longrightarrow>
    live_frame sj raw iter parse_now now s = Some s' \<Longrightarrow> live_step sj s s'"
| push: "\<not> pl_ingest_joined (lv_pipe s) \<Longrightarrow> pl_phase (lv_pipe s) = PushNext \<Longrightarrow> li_batch (lv_ingest s) = msg # batch \<Longrightarrow>
    ingest_push miss (li_now (lv_ingest s)) msg (lv_pipe s) = Some p \<Longrightarrow>
    live_step sj s (s\<lparr>lv_pipe := p, lv_ingest := (lv_ingest s)\<lparr>li_batch := batch\<rparr>\<rparr>)"
| counted: "pl_phase (lv_pipe s) = PushCount ok \<Longrightarrow> live_step sj s (s\<lparr>lv_pipe := ingest_count (lv_pipe s)\<rparr>)"
| others: "pipeline_step (lv_pipe s) p \<Longrightarrow> pl_ingested p = pl_ingested (lv_pipe s) \<Longrightarrow> pl_feed p = pl_feed (lv_pipe s) \<Longrightarrow>
    pl_phase p = pl_phase (lv_pipe s) \<Longrightarrow> pl_ingest_joined p = pl_ingest_joined (lv_pipe s) \<Longrightarrow> live_step sj s (s\<lparr>lv_pipe := p\<rparr>)"
| join: "pl_shutdown (lv_pipe s) \<Longrightarrow> pl_phase (lv_pipe s) = PushNext \<Longrightarrow> li_batch (lv_ingest s) = [] \<Longrightarrow>
    live_step sj s (s\<lparr>lv_pipe := (lv_pipe s)\<lparr>pl_ingest_joined := True\<rparr>\<rparr>)"

inductive live_reachable :: "nat \<Rightarrow> 'el simdjson \<Rightarrow> live_system \<Rightarrow> bool" for n sj where
  start: "cfg_live cfg \<Longrightarrow> live_reachable n sj \<lparr>lv_pipe = start_pipeline n cfg opened started now,
    lv_ingest = \<lparr>li_batch = [], li_now = 0, li_frames = [], li_emitted = []\<rparr>\<rparr>"
| step: "live_reachable n sj s \<Longrightarrow> live_step sj s s' \<Longrightarrow> live_reachable n sj s'"

text \<open>When nothing interrupts it, the handler's work on a batch is that of \<open>push_batch\<close>.\<close>

fun push_alone :: "Timestamp \<Rightarrow> engine_message list \<Rightarrow> pipeline \<Rightarrow> pipeline option" where
  "push_alone now [] p = Some p"
| "push_alone now (msg # batch) p = do { p1 \<leftarrow> ingest_push False now msg p; push_alone now batch (ingest_count p1) }"

lemma handler_alone:
  assumes "pl_live p" "pl_phase p = PushNext"
  shows "map_option (\<lambda>p'. (pl_feed p', w_in (pl_wires p'))) (push_alone now batch p) = push_batch now batch (pl_feed p, w_in (pl_wires p))"
  using assms
proof (induction batch arbitrary: p)
  case (Cons msg batch)
  show ?case
  proof (cases "try_push FEED_QUEUE_SIZE (stamp now msg) (w_in (pl_wires p))")
    case (Some r)
    obtain ok q where "r = (ok, q)" by (cases r)
    moreover from this obtain p1 where "ingest_push False now msg p = Some p1" "pl_phase p1 = PushCount ok" "pl_feed p1 = pl_feed p" "w_in (pl_wires p1) = q" "pl_live p1"
      using Some Cons.prems(1) by (auto simp: ingest_push_def attempt_push_def)
    ultimately show ?thesis using Cons.IH [of "ingest_count p1"] Some count_frame [of p1] by (simp add: ingest_count_def)
  qed (simp add: ingest_push_def attempt_push_def)
qed simp

section \<open>A frame does not depend on the messages before it\<close>

definition onto :: "engine_message list \<Rightarrow> feed_impl \<times> engine_message list \<Rightarrow> feed_impl \<times> engine_message list" where
  "onto pre st = (fst st, pre @ snd st)"

lemma onto_bump [simp]: "apfst f (onto pre st) = onto pre (apfst f st)"
  by (simp add: onto_def apfst_def map_prod_def split: prod.splits)

lemma apply_level_onto [simp]: "apply_level side price qty ts (onto pre st) = onto pre (apply_level side price qty ts st)"
  by (cases st) (simp add: apply_level_def onto_def Let_def split: option.splits)

lemma reset_book_onto [simp]: "reset_book iter ts (onto pre st) = onto pre (reset_book iter ts st)"
  by (cases st) (simp add: reset_book_def onto_def)

lemma consume_row_onto: "consume_row sj side ts skip_zero row_el (onto pre st) = map_option (onto pre) (consume_row sj side ts skip_zero row_el st)"
  by (auto simp: consume_row_def Let_def map_option_bind comp_def split: option.splits prod.splits level_result.splits Option.bind_split)

lemma consume_array_onto:
  "consume_price_size_array sj side ts skip_zero levels (onto pre st) = map_option (onto pre) (consume_price_size_array sj side ts skip_zero levels st)"
  by (induction levels arbitrary: st) (auto simp: consume_row_onto map_option_bind comp_def split: Option.bind_split)

lemma consume_change_onto: "consume_change sj ts change (onto pre st) = map_option (onto pre) (consume_change sj ts change st)"
  by (auto simp: consume_change_def Let_def map_option_bind comp_def split: option.splits prod.splits level_result.splits Option.bind_split)

lemma consume_changes_onto: "consume_changes sj ts changes (onto pre st) = map_option (onto pre) (consume_changes sj ts changes st)"
  by (induction changes arbitrary: st) (auto simp: consume_change_onto map_option_bind comp_def split: Option.bind_split)

lemma consume_side_onto: "consume_side sj doc key side ts (onto pre st) = map_option (onto pre) (consume_side sj doc key side ts st)"
  by (auto simp: consume_side_def consume_array_onto split: option.splits)

lemma parse_onto: "parse sj iter now raw (onto pre st) = map_option (apsnd (onto pre)) (parse sj iter now raw st)"
proof -
  have len: "length (snd (onto pre st)) = length pre + length (snd st)" for st by (simp add: onto_def)
  show ?thesis
    by (simp add: parse_def len consume_changes_onto consume_side_onto Let_def map_option_bind comp_def split: option.split Option.bind_split)
qed

lemma run_frames_snoc:
  assumes "run_frames sj frames st = Some (f, out)" "parse sj iter now raw (f, []) = Some (n, f', batch)"
  shows "run_frames sj (frames @ [(raw, iter, now)]) st = Some (f', out @ batch)"
  using assms(1)
proof (induction frames arbitrary: st)
  case Nil
  then show ?case using parse_onto [of sj iter now raw out "(f, [])"] assms(2) by (simp add: onto_def)
next
  case (Cons fr frames)
  then show ?case by (cases fr) (auto split: Option.bind_splits)
qed

section \<open>The invariant\<close>

text \<open>Stamping a message changes nothing of what it says.\<close>

lemma stamp_says [simp]: "apply_msg (stamp t m) = apply_msg m" "valid_msg r (stamp t m) = valid_msg r m"
  by (cases m; auto)+

lemma stamped_session:
  assumes "list_all2 (\<lambda>m m'. \<exists>t. m = stamp t m') ms ms'"
  shows "valid_session r ms = valid_session r ms'" "fold apply_msg ms r = fold apply_msg ms' r"
  using assms by (induction arbitrary: r) auto

text \<open>A message that was refused and is not counted yet.\<close>

definition refused_now :: "pipeline \<Rightarrow> nat" where
  "refused_now p = (if pl_phase p = PushCount False then 1 else 0)"

definition live_inv :: "nat \<Rightarrow> 'el simdjson \<Rightarrow> live_system \<Rightarrow> bool" where
  "live_inv n sj s \<longleftrightarrow> (let p = lv_pipe s; i = lv_ingest s in pipeline_reachable n p \<and> pl_live p \<and>
     run_frames sj (li_frames i) (new_feed, []) = Some (cf_handler (pl_feed p), li_emitted i) \<and>
     (\<exists>refused. cf_dropped (pl_feed p) = of_nat refused \<and>
        length (pl_ingested p) + refused + refused_now p + length (li_batch i) = length (li_emitted i) \<and>
        (refused = 0 \<longrightarrow> (\<exists>pushed gone. li_emitted i = pushed @ gone @ li_batch i \<and> length gone = refused_now p \<and>
           list_all2 (\<lambda>m m'. \<exists>t. m = stamp t m') (pl_ingested p) pushed))))"

lemma live_pushE:
  assumes "ingest_push miss now msg p = Some p'" "pl_live p"
  obtains ok where "pl_ingested p' = (if ok then pl_ingested p @ [stamp now msg] else pl_ingested p)" "pl_phase p' = PushCount ok"
  using assms that by (auto simp: ingest_push_def split: Option.bind_splits)

lemma frame_inv:
  assumes "live_inv n sj s" "\<not> pl_ingest_joined (lv_pipe s)" "li_batch (lv_ingest s) = []" "pl_phase (lv_pipe s) = PushNext" "live_frame sj raw iter parse_now now s = Some s'"
  shows "live_inv n sj s'"
proof -
  let ?p = "lv_pipe s" and ?i = "lv_ingest s"
  obtain k h batch where b: "parse sj iter parse_now raw (cf_handler (pl_feed ?p), []) = Some (k, h, batch)"
      "s' = \<lparr>lv_pipe = ?p\<lparr>pl_feed := (pl_feed ?p)\<lparr>cf_handler := h\<rparr>\<rparr>,
        lv_ingest = \<lparr>li_batch = batch, li_now = now, li_frames = li_frames ?i @ [(raw, iter, parse_now)], li_emitted = li_emitted ?i @ batch\<rparr>\<rparr>"
    using assms(5) by (auto simp: live_frame_def Let_def split: Option.bind_splits)
  have "pipeline_reachable n (lv_pipe s')"
    using assms(1,2) b(2) by (auto simp: live_inv_def Let_def intro: pipeline_reachable.step pipeline_step.feed_frame)
  moreover have "run_frames sj (li_frames ?i @ [(raw, iter, parse_now)]) (new_feed, []) = Some (h, li_emitted ?i @ batch)"
    using assms(1) by (intro run_frames_snoc [OF _ b(1)]) (simp add: live_inv_def Let_def)
  ultimately show ?thesis using assms(1,3,4) b(2) by (auto simp: live_inv_def refused_now_def Let_def)
qed

lemma push_inv:
  assumes "live_inv n sj s" "\<not> pl_ingest_joined (lv_pipe s)" "li_batch (lv_ingest s) = msg # batch" "pl_phase (lv_pipe s) = PushNext"
    "ingest_push miss (li_now (lv_ingest s)) msg (lv_pipe s) = Some p"
  shows "live_inv n sj (s\<lparr>lv_pipe := p, lv_ingest := (lv_ingest s)\<lparr>li_batch := batch\<rparr>\<rparr>)"
proof -
  let ?p = "lv_pipe s" and ?i = "lv_ingest s" and ?same = "\<lambda>m m'. \<exists>t. m = stamp t m'"
  obtain refused where inv: "pipeline_reachable n ?p" "pl_live ?p" "run_frames sj (li_frames ?i) (new_feed, []) = Some (cf_handler (pl_feed ?p), li_emitted ?i)"
      "cf_dropped (pl_feed ?p) = of_nat refused" "length (pl_ingested ?p) + refused + length (msg # batch) = length (li_emitted ?i)"
      "refused = 0 \<Longrightarrow> \<exists>pushed. li_emitted ?i = pushed @ msg # batch \<and> list_all2 ?same (pl_ingested ?p) pushed"
    using assms(1,3,4) by (auto simp: live_inv_def refused_now_def Let_def)
  have step: "pipeline_step ?p p" by (rule pipeline_step.ingest [OF assms(2,4,5)])
  obtain ok where ok: "pl_ingested p = (if ok then pl_ingested ?p @ [stamp (li_now ?i) msg] else pl_ingested ?p)" "pl_phase p = PushCount ok"
    by (rule live_pushE [OF assms(5) inv(2)])
  have "length (pl_ingested p) + refused + refused_now p + length batch = length (li_emitted ?i)"
    using inv(5) ok by (simp add: refused_now_def)
  moreover have "\<exists>pushed gone. li_emitted ?i = pushed @ gone @ batch \<and> length gone = refused_now p \<and> list_all2 ?same (pl_ingested p) pushed" if none: "refused = 0"
  proof -
    obtain pushed where "li_emitted ?i = pushed @ msg # batch" "list_all2 ?same (pl_ingested ?p) pushed" using inv(6) [OF none] by blast
    then show ?thesis using ok
      by (intro exI [of _ "if ok then pushed @ [msg] else pushed"] exI [of _ "if ok then [] else [msg]"]) (auto simp: refused_now_def intro!: list_all2_appendI)
  qed
  moreover have "pipeline_reachable n p" "pl_live p" "pl_feed p = pl_feed ?p"
    using pipeline_reachable.step [OF inv(1) step] pipeline_live [OF step] inv(2) ingest_frame(5) [OF assms(5)] by simp_all
  ultimately show ?thesis using inv(3,4) by (auto simp: live_inv_def Let_def)
qed

text \<open>Counting a refused message ends the time in which none has been dropped.\<close>

lemma count_inv:
  assumes "live_inv n sj s" "pl_phase (lv_pipe s) = PushCount ok"
  shows "live_inv n sj (s\<lparr>lv_pipe := ingest_count (lv_pipe s)\<rparr>)"
proof -
  let ?p = "lv_pipe s" and ?i = "lv_ingest s"
  obtain refused where inv: "pipeline_reachable n ?p" "pl_live ?p" "run_frames sj (li_frames ?i) (new_feed, []) = Some (cf_handler (pl_feed ?p), li_emitted ?i)"
      "cf_dropped (pl_feed ?p) = of_nat refused" "length (pl_ingested ?p) + refused + refused_now ?p + length (li_batch ?i) = length (li_emitted ?i)"
      "refused = 0 \<Longrightarrow> \<exists>pushed gone. li_emitted ?i = pushed @ gone @ li_batch ?i \<and> length gone = refused_now ?p \<and> list_all2 (\<lambda>m m'. \<exists>t. m = stamp t m') (pl_ingested ?p) pushed"
    using assms(1) by (auto simp: live_inv_def Let_def)
  have "pl_feed (ingest_count ?p) = count_push ok (pl_feed ?p)" using assms(2) inv(2) by (simp add: ingest_count_def)
  moreover have "pipeline_reachable n (ingest_count ?p)" by (rule pipeline_reachable.step [OF inv(1) pipeline_step.ingested [OF assms(2)]])
  ultimately show ?thesis using inv(2-6) count_frame [of ?p] assms(2) unfolding live_inv_def Let_def
    by (intro conjI exI [of _ "refused + refused_now ?p"]) (auto simp: refused_now_def count_push_def split: if_splits)
qed

lemma live_invariant:
  assumes "live_reachable n sj s" "n < 2 ^ 32"
  shows "live_inv n sj s"
  using assms(1)
proof (induction rule: live_reachable.induct)
  case (start cfg opened started now)
  then show ?case using pipeline_reachable.start
    by (simp add: live_inv_def) (simp add: start_pipeline_def start_engine_def new_coinbase_feed_def refused_now_def Let_def)
next
  case (step s s')
  from step.hyps(2) show ?case
  proof cases
    case (frame raw iter parse_now now)
    then show ?thesis using frame_inv [OF step.IH] by blast
  next
    case (push msg batch miss p)
    then show ?thesis using push_inv [OF step.IH] by blast
  next
    case (counted ok)
    then show ?thesis using count_inv [OF step.IH] by blast
  next
    case (others p)
    then show ?thesis using step.IH pipeline_live [OF others(2)] pipeline_reachable.step [OF _ others(2)] by (simp add: live_inv_def refused_now_def Let_def)
  next
    case join
    then show ?thesis using step.IH pipeline_reachable.step [OF _ pipeline_step.join_ingest, of n "lv_pipe s"] by (simp add: live_inv_def refused_now_def Let_def)
  qed
qed

interpretation live: ingest_system n "live_reachable n sj" lv_pipe for n sj
  by unfold_locales (use live_invariant in \<open>auto simp: live_inv_def Let_def\<close>)

section \<open>The engine follows the exchange\<close>

lemma list_all2_take: "list_all2 P xs ys \<Longrightarrow> list_all2 P (take i xs) (take i ys)"
  by (simp add: list_all2_conv_all_nth)

text \<open>A fresh engine that is given a prefix of the session's messages, stamped anew.\<close>

lemma prefix_mirrors:
  assumes "valid_session Map.empty msgs" "trail evs Map.empty msgs Map.empty" "tame_depth n evs" "n < 2 ^ 32"
    and same: "list_all2 (\<lambda>m m'. \<exists>t. m = stamp t m') ms (take k msgs)"
  shows "\<exists>e s. run_messages ms (new_engine n) = Some (replicate (length ms) [], e) \<and> implements n e s \<and> mirrors (fold apply_msg (take k msgs) Map.empty) s"
proof -
  have "valid_session Map.empty (take k msgs)" using assms(1) valid_session_append [of Map.empty "take k msgs" "drop k msgs"] by simp
  then have valid: "valid_session Map.empty ms" using stamped_session(1) [OF same] by simp
  have tame: "tame n (fold apply_msg (take i ms) Map.empty)" if "i \<le> length ms" for i
  proof -
    have "fold apply_msg (take i ms) Map.empty = fold apply_msg (take (min i k) msgs) (Map.empty :: registry)"
      using stamped_session(2) [OF list_all2_take [OF same, of i]] by (simp add: min.commute)
    moreover have "min i k \<le> length msgs" using that list_all2_lengthD [OF same] by simp
    ultimately show ?thesis using session_tame [OF assms(2,3)] by simp
  qed
  from mirrors_run [OF new_engine_implements [OF assms(4)] mirrors_empty valid tame] show ?thesis
    using stamped_session(2) [OF same] by metis
qed

text \<open>The book of an engine shows a depth: at every price of either side the quantity of the depth, in one order.\<close>

definition shows_depth :: "nat \<Rightarrow> engine \<Rightarrow> depth \<Rightarrow> bool" where
  "shows_depth n e d \<longleftrightarrow> (\<exists>b. implements n e b \<and>
     (\<forall>k. map m_open (filter (\<lambda>m. m_price m = lk_price k) (lob_side (lk_side k) b)) = (case d k of None \<Rightarrow> [] | Some q \<Rightarrow> [unat q])))"

text \<open>
  In any state in which the feed has dropped no message, after any frames whose numbers are in
  range and whose depth, after each row, is uncrossed and has no more levels than the pool has slots, the
  messages the engine has taken produced no fill; and whenever the handler has pushed and counted the batch of the
  last frame and the engine has taken all the messages, its book shows the depth of the exchange.
\<close>

lemma live_system_follows_exchange:
  assumes "live_reachable n sj s" "n < 2 ^ 32" "p = lv_pipe s" "i = lv_ingest s"
    and "cf_dropped (pl_feed p) = 0" "length (li_emitted i) < 2 ^ 64"
    and "those (map (\<lambda>(raw, _). decode_frame sj raw) (li_frames i)) = Some ds" "orders_permuted (li_frames i)"
    and "evs = concat (map frame_events ds)" "length evs < 2 ^ 64 - 1" "tame_depth n evs"
  shows "run_messages (pl_popped p) (new_engine n) = Some (replicate (length (pl_popped p)) [], et_engine (pl_engine p)) \<and>
    (li_batch i = [] \<and> pl_phase p = PushNext \<and> pl_popped p = pl_ingested p \<longrightarrow> shows_depth n (et_engine (pl_engine p)) (fold apply_event evs Map.empty))"
proof -
  let ?same = "\<lambda>m m'. \<exists>t. m = stamp t m'"
  obtain refused where inv: "pipeline_reachable n p" "run_frames sj (li_frames i) (new_feed, []) = Some (cf_handler (pl_feed p), li_emitted i)"
      "cf_dropped (pl_feed p) = of_nat refused" "length (pl_ingested p) + refused + refused_now p + length (li_batch i) = length (li_emitted i)"
      "refused = 0 \<Longrightarrow> \<exists>pushed gone. li_emitted i = pushed @ gone @ li_batch i \<and> length gone = refused_now p \<and> list_all2 ?same (pl_ingested p) pushed"
    using live_invariant [OF assms(1,2)] unfolding live_inv_def Let_def assms(3,4) by blast
  have "unat (of_nat refused :: 64 word) = refused" by (rule unat_of_nat_small) (use inv(4) assms(6) in simp)
  then have "refused = 0" using inv(3) assms(5) by simp
  then obtain pushed gone where pushed: "li_emitted i = pushed @ gone @ li_batch i" "list_all2 ?same (pl_ingested p) pushed" "length gone = refused_now p"
    using inv(5) by blast
  obtain f msgs where session: "run_frames sj (li_frames i) (new_feed, []) = Some (f, msgs)"
      "feed_rel f (fold apply_msg msgs Map.empty) (fold apply_event evs Map.empty)"
      "valid_session Map.empty msgs" "trail evs Map.empty msgs Map.empty"
    using session_result [OF assms(7,8)] assms(9,10) by metis
  have msgs: "msgs = li_emitted i" using session(1) inv(2) by simp
  obtain xs fss where h: "pl_ingested p = pl_popped p @ xs" "run_messages (pl_popped p) (new_engine n) = Some (fss, et_engine (pl_engine p))"
    by (rule live.in_order [OF assms(1,2), folded assms(3)])
  let ?k = "length (pl_popped p)"
  have "list_all2 ?same (pl_popped p) (take ?k msgs)"
    using list_all2_take [OF pushed(2), of ?k] list_all2_lengthD [OF pushed(2)] by (simp add: h(1) msgs pushed(1))
  from prefix_mirrors [OF session(3,4) assms(11,2) this]
  obtain e b where eb: "run_messages (pl_popped p) (new_engine n) = Some (replicate ?k [], e)" "implements n e b"
      "mirrors (fold apply_msg (take ?k msgs) Map.empty) b" by blast
  have e: "e = et_engine (pl_engine p)" using eb(1) h(2) by simp
  have "map m_open (filter (\<lambda>m. m_price m = lk_price k) (lob_side (lk_side k) b)) = (case fold apply_event evs Map.empty k of None \<Rightarrow> [] | Some q \<Rightarrow> [unat q])"
    if "li_batch i = []" "pl_phase p = PushNext" "pl_popped p = pl_ingested p" for k
  proof -
    have "take ?k msgs = msgs" using that pushed(3) list_all2_lengthD [OF pushed(2)] by (simp add: msgs pushed(1) refused_now_def)
    then show ?thesis using mirrored_level [OF _ implements_view(1) [OF eb(2)] session(2)] eb(3) by simp
  qed
  then show ?thesis using eb(1,2) e unfolding shows_depth_def by blast
qed

end
