(* ===== verification/Io_Context.thy ===== *)
theory Io_Context
  imports Prelude "HOL-Library.Multiset"
begin

text \<open>
  The network code of the program runs on \<^verbatim>\<open>boost::asio::io_context\<close> objects, each driven by one
  thread: an object starts asynchronous operations, and the context later runs the
  completion handler of one finished operation at a time.  Asio, Beast and OpenSSL are
  third-party code.  What the models use of them is this: the operations in flight form a
  multiset; a handler runs only for an operation in flight, which is no longer in flight
  then; starting an operation never runs a handler; and in which order operations finish,
  and with which error code, is up to the environment.

  The theory holds reachability for such event systems and the contract of an inductive
  invariant, proved once for every system.
\<close>

section \<open>Reachable states\<close>

inductive reachable :: "('s \<Rightarrow> bool) \<Rightarrow> ('s \<Rightarrow> 's \<Rightarrow> bool) \<Rightarrow> 's \<Rightarrow> bool"
  for start :: "'s \<Rightarrow> bool" and step :: "'s \<Rightarrow> 's \<Rightarrow> bool" where
  reachable_start: "start s \<Longrightarrow> reachable start step s"
| reachable_step: "reachable start step s \<Longrightarrow> step s s' \<Longrightarrow> reachable start step s'"

locale invariant_system =
  fixes start :: "'s \<Rightarrow> bool" and step :: "'s \<Rightarrow> 's \<Rightarrow> bool" and inv :: "'s \<Rightarrow> bool"
  assumes start_inv: "start s \<Longrightarrow> inv s"
    and step_inv: "inv s \<Longrightarrow> step s s' \<Longrightarrow> inv s'"
begin

lemma always: "reachable start step s \<Longrightarrow> inv s"
  by (induction rule: reachable.induct) (auto intro: start_inv step_inv)

text \<open>A transition out of a reachable state starts and ends in the invariant.\<close>

lemma on_steps:
  assumes "reachable start step s" and "step s s'"
  obtains "inv s" and "inv s'"
  using assms always step_inv by blast

text \<open>A property that no transition out of the invariant takes away stays.\<close>

lemma stable:
  assumes "reachable start step s" and "step\<^sup>*\<^sup>* s s'" and "P s"
    and keep: "\<And>t t'. inv t \<Longrightarrow> step t t' \<Longrightarrow> P t \<Longrightarrow> P t'"
  shows "P s'"
proof -
  have "reachable start step s' \<and> P s'"
    using assms(2) by induction (use assms(1,3) keep always in \<open>auto intro: reachable_step\<close>)
  then show ?thesis by simp
qed

end

section \<open>Operations in flight\<close>

text \<open>What the operations of one kind among those in flight say about a single operation.\<close>

lemma filter_mset_single:
  assumes "filter_mset P M = {#x#}"
  shows "x \<in># M" and "P x" and "\<And>y. y \<in># M \<Longrightarrow> P y \<Longrightarrow> y = x"
proof -
  have mem: "y \<in># M \<and> P y \<longleftrightarrow> y = x" for y
    using arg_cong [OF assms, of set_mset] by auto
  then show "x \<in># M" and "P x" and "\<And>y. y \<in># M \<Longrightarrow> P y \<Longrightarrow> y = x" by auto
qed

lemma filter_mset_none: "filter_mset P M = {#} \<longleftrightarrow> (\<forall>x \<in># M. \<not> P x)"
proof -
  have "filter_mset P M = {#} \<longleftrightarrow> set_mset (filter_mset P M) = {}" by (simp del: set_mset_filter)
  then show ?thesis by auto
qed

lemma single_in_flight:
  assumes "size M \<le> 1" and "x \<in># M"
  shows "M = {#x#}"
proof -
  obtain N where N: "M = add_mset x N" using assms(2) by (metis insert_DiffM)
  with assms(1) have "N = {#}" by simp
  with N show ?thesis by simp
qed

end
