(* ===== verification/Ws_Client.thy ===== *)
theory Ws_Client
  imports Io_Context
begin

text \<open>
  The reconnecting WebSocket client of \<^verbatim>\<open>feed/ws_client.cpp\<close>.  As in the dashboard server,
  operations in flight are the elements of \<open>wc_pending\<close> and every completion handler is a
  function of the error code.  What \<^verbatim>\<open>net::post\<close> queues runs in the order of posting and is
  the list \<open>wc_tasks\<close>.  Setting the reconnect timer again cancels the wait on it, which then
  completes with an error: such a wait is a \<open>CancelledWait\<close>.  Asio cannot cancel a wait that has expired and whose
  handler is already queued; that handler runs without an error.  After a stop the handler returns all the same, because
  it looks at \<^verbatim>\<open>stopping_\<close> too (\<open>stopped_wait\<close> in \<open>Client_Properties\<close>), so that the two kinds of waits do not differ there;
  when a failing operation sets the timer again, the assumption on the timer below excludes it, since at its expiry no
  operation of the connection is left that could fail.

  \<open>wc_closed\<close> says that the client closed the lowest layer of its transport, and
  \<open>wc_established\<close> that the WebSocket handshake succeeded on it; both are about the stream
  object, which the source reads through \<^verbatim>\<open>is_open()\<close>.  History is recorded in \<open>wc_sent\<close> and
  \<open>wc_written\<close> (the frames queued and written on the present connection), in
  \<open>wc_received\<close> (the frames handed to the message handler) and in \<open>wc_disconnects\<close> (the
  reasons given to the disconnect handler).  The connect handler may only send frames; it is
  represented by the list of them.
\<close>

datatype client_error = NoError | Aborted | Failed string

datatype client_op =
    Resolving | Connecting | TlsHandshake | WsHandshake | Reading
  | Writing string | Waiting | CancelledWait | Closing

datatype client_task = SendTask string | StopTask

record ws_config =
  ws_host :: string
  ws_port :: string
  ws_target :: string
  ws_reconnect_base_delay :: int
  ws_reconnect_max_delay :: int
  ws_handshake_timeout :: int
  ws_idle_timeout :: int

definition default_ws_config :: "string \<Rightarrow> ws_config" where
  "default_ws_config host = \<lparr>ws_host = host, ws_port = ''443'', ws_target = ''/'',
     ws_reconnect_base_delay = 500, ws_reconnect_max_delay = 30000, ws_handshake_timeout = 30, ws_idle_timeout = 30\<rparr>"

record ws_client =
  wc_cfg :: ws_config
  wc_write_queue :: "string list"
  wc_writing :: bool
  wc_buffer :: string
  wc_attempts :: "32 word"
  wc_stopping :: bool
  wc_closed :: bool
  wc_established :: bool
  wc_delay :: int
  wc_pending :: "client_op multiset"
  wc_tasks :: "client_task list"
  wc_sent :: "string list"
  wc_written :: "string list"
  wc_received :: "string list"
  wc_disconnects :: "string list"

definition new_client :: "ws_config \<Rightarrow> ws_client" where
  "new_client cfg = \<lparr>wc_cfg = cfg, wc_write_queue = [], wc_writing = False, wc_buffer = [], wc_attempts = 0,
     wc_stopping = False, wc_closed = False, wc_established = False, wc_delay = 0, wc_pending = {#}, wc_tasks = [],
     wc_sent = [], wc_written = [], wc_received = [], wc_disconnects = []\<rparr>"

definition launch :: "client_op \<Rightarrow> ws_client \<Rightarrow> ws_client" where
  "launch x c = c\<lparr>wc_pending := add_mset x (wc_pending c)\<rparr>"

definition cancel_wait :: "ws_client \<Rightarrow> ws_client" where
  "cancel_wait c = c\<lparr>wc_pending := image_mset (\<lambda>x. if x = Waiting then CancelledWait else x) (wc_pending c)\<rparr>"

section \<open>Connecting\<close>

definition start_connect :: "ws_client \<Rightarrow> ws_client" where
  "start_connect c =
     (if wc_stopping c then c
      else launch Resolving (c\<lparr>wc_closed := False, wc_established := False, wc_writing := False, wc_write_queue := [],
        wc_buffer := [], wc_sent := [], wc_written := []\<rparr>))"

definition run_client :: "ws_client \<Rightarrow> ws_client" where
  "run_client = start_connect"

definition reconnect_delay :: "ws_config \<Rightarrow> 32 word \<Rightarrow> int" where
  "reconnect_delay cfg attempts = (let shift = min attempts 16 in
     min (ws_reconnect_base_delay cfg * uint (push_bit (unat shift) (1 :: 32 word))) (ws_reconnect_max_delay cfg))"

definition error_message :: "client_error \<Rightarrow> string" where
  "error_message ec = (case ec of NoError \<Rightarrow> ''Success'' | Aborted \<Rightarrow> ''Operation canceled'' | Failed message \<Rightarrow> message)"

definition schedule_reconnect :: "client_error \<Rightarrow> string \<Rightarrow> ws_client \<Rightarrow> ws_client" where
  "schedule_reconnect ec stage c =
     (if wc_stopping c \<or> ec = Aborted then c
      else launch Waiting (cancel_wait (c\<lparr>wc_disconnects := wc_disconnects c @ [stage @ '': '' @ error_message ec],
        wc_delay := reconnect_delay (wc_cfg c) (wc_attempts c), wc_attempts := wc_attempts c + 1, wc_closed := True\<rparr>)))"

text \<open>
  The chain of handlers that sets a connection up.  Connecting opens the socket again if it
  was closed.  The SNI call fails with an OpenSSL error, never with \<^verbatim>\<open>operation_aborted\<close>.
\<close>

definition on_resolve :: "client_error \<Rightarrow> ws_client \<Rightarrow> ws_client" where
  "on_resolve ec c =
     (if ec \<noteq> NoError then schedule_reconnect ec ''resolve'' c
      else launch Connecting (c\<lparr>wc_closed := False\<rparr>))"

definition on_tcp_connected :: "string option \<Rightarrow> ws_client \<Rightarrow> ws_client" where
  "on_tcp_connected sni_error c = (case sni_error of
     Some message \<Rightarrow> schedule_reconnect (Failed message) ''sni'' c
   | None \<Rightarrow> launch TlsHandshake c)"

definition on_tcp_connect :: "client_error \<Rightarrow> string option \<Rightarrow> ws_client \<Rightarrow> ws_client" where
  "on_tcp_connect ec sni_error c =
     (if ec \<noteq> NoError then schedule_reconnect ec ''tcp_connect'' c else on_tcp_connected sni_error c)"

definition on_tls_handshake :: "client_error \<Rightarrow> ws_client \<Rightarrow> ws_client" where
  "on_tls_handshake ec c =
     (if ec \<noteq> NoError then schedule_reconnect ec ''tls_handshake'' c else launch WsHandshake c)"

section \<open>Reading and writing\<close>

definition client_read :: "ws_client \<Rightarrow> ws_client" where
  "client_read = launch Reading"

definition client_write :: "ws_client \<Rightarrow> ws_client option" where
  "client_write c = (case wc_write_queue c of
     [] \<Rightarrow> None
   | f # _ \<Rightarrow> Some (launch (Writing f) (c\<lparr>wc_writing := True\<rparr>)))"

definition send :: "string \<Rightarrow> ws_client \<Rightarrow> ws_client" where
  "send text c = c\<lparr>wc_tasks := wc_tasks c @ [SendTask text]\<rparr>"

definition on_ws_handshake :: "string list \<Rightarrow> client_error \<Rightarrow> ws_client \<Rightarrow> ws_client option" where
  "on_ws_handshake connect_handler ec c =
     (if ec \<noteq> NoError then Some (schedule_reconnect ec ''ws_handshake'' c)
      else do {
        let c1 = fold send connect_handler (c\<lparr>wc_established := True, wc_attempts := 0\<rparr>);
        c2 \<leftarrow> (if wc_write_queue c1 \<noteq> [] \<and> \<not> wc_writing c1 then client_write c1 else Some c1);
        Some (client_read c2) })"

text \<open>A read appends what it received to the buffer, also when it fails half way.\<close>

definition on_client_read :: "client_error \<Rightarrow> string \<Rightarrow> ws_client \<Rightarrow> ws_client" where
  "on_client_read ec data c = (let c1 = c\<lparr>wc_buffer := wc_buffer c @ data\<rparr> in
     if ec \<noteq> NoError then schedule_reconnect ec ''read'' c1
     else client_read (c1\<lparr>wc_received := wc_received c1 @ [wc_buffer c1], wc_buffer := []\<rparr>))"

definition on_client_write :: "client_error \<Rightarrow> string \<Rightarrow> ws_client \<Rightarrow> ws_client option" where
  "on_client_write ec f c = (let c1 = c\<lparr>wc_writing := False\<rparr> in
     if ec \<noteq> NoError then Some (schedule_reconnect ec ''write'' c1)
     else case wc_write_queue c1 of
       [] \<Rightarrow> None
     | _ # rest \<Rightarrow>
         let c2 = c1\<lparr>wc_write_queue := rest, wc_written := wc_written c1 @ [f]\<rparr> in
         if rest \<noteq> [] then client_write c2 else Some c2)"

definition on_wait :: "bool \<Rightarrow> ws_client \<Rightarrow> ws_client" where
  "on_wait tec c = (if tec \<or> wc_stopping c then c else start_connect c)"

section \<open>Posted tasks\<close>

definition stop :: "ws_client \<Rightarrow> ws_client" where
  "stop c = c\<lparr>wc_tasks := wc_tasks c @ [StopTask]\<rparr>"

fun run_task :: "bool \<Rightarrow> client_task \<Rightarrow> ws_client \<Rightarrow> ws_client option" where
  "run_task is_open (SendTask msg) c =
     (let c1 = c\<lparr>wc_write_queue := wc_write_queue c @ [msg], wc_sent := wc_sent c @ [msg]\<rparr> in
      if is_open \<and> \<not> wc_writing c1 then client_write c1 else Some c1)"
| "run_task is_open StopTask c =
     (let c1 = cancel_wait (c\<lparr>wc_stopping := True\<rparr>) in
      Some (if is_open then launch Closing c1 else c1\<lparr>wc_closed := True\<rparr>))"

section \<open>The event loop\<close>

fun client_complete :: "string list \<Rightarrow> client_error \<Rightarrow> string option \<Rightarrow> string \<Rightarrow> client_op \<Rightarrow> ws_client \<Rightarrow> ws_client option" where
  "client_complete h ec sni data Resolving c = Some (on_resolve ec c)"
| "client_complete h ec sni data Connecting c = Some (on_tcp_connect ec sni c)"
| "client_complete h ec sni data TlsHandshake c = Some (on_tls_handshake ec c)"
| "client_complete h ec sni data WsHandshake c = on_ws_handshake h ec c"
| "client_complete h ec sni data Reading c = Some (on_client_read ec data c)"
| "client_complete h ec sni data (Writing f) c = on_client_write ec f c"
| "client_complete h ec sni data Waiting c = Some (on_wait False c)"
| "client_complete h ec sni data CancelledWait c = Some (on_wait True c)"
| "client_complete h ec sni data Closing c = Some c"

text \<open>The operations that make up the life of one connection.\<close>

definition phase :: "client_op \<Rightarrow> bool" where
  "phase x \<longleftrightarrow> x \<in> {Resolving, Connecting, TlsHandshake, WsHandshake, Reading}"

definition is_write :: "client_op \<Rightarrow> bool" where
  "is_write x \<longleftrightarrow> (case x of Writing _ \<Rightarrow> True | _ \<Rightarrow> False)"

definition finish :: "client_op \<Rightarrow> ws_client \<Rightarrow> ws_client" where
  "finish x c = c\<lparr>wc_pending := wc_pending c - {#x#}\<rparr>"

text \<open>
  A turn of the client thread.  What it relies on outside the source: an operation of a
  connection is aborted only if the client closed the transport or is stopping; a stream
  is open only between its handshake and the close of its transport; and closing a transport
  makes the operations on it complete at once, so that by the time the reconnect timer
  expires, they and the tasks posted before have run.  The last point is an assumption on timing: in the configuration
  the program uses the timer runs for half a second at least, and nothing in the source enforces it.  The
  frames other threads may send are those in \<open>others\<close>.
\<close>

inductive client_step :: "string list \<Rightarrow> string set \<Rightarrow> ws_client \<Rightarrow> ws_client \<Rightarrow> bool" for h others where
  completion: "x \<in># wc_pending c \<Longrightarrow> (phase x \<Longrightarrow> ec = Aborted \<Longrightarrow> wc_closed c \<or> wc_stopping c) \<Longrightarrow>
    (x = Waiting \<Longrightarrow> wc_tasks c = [] \<and> (\<forall>y \<in># wc_pending c. \<not> phase y \<and> \<not> is_write y)) \<Longrightarrow>
    client_complete h ec sni data x (finish x c) = Some c' \<Longrightarrow> client_step h others c c'"
| task: "wc_tasks c = t # ts \<Longrightarrow> (is_open \<Longrightarrow> wc_established c \<and> \<not> wc_closed c) \<Longrightarrow>
    run_task is_open t (c\<lparr>wc_tasks := ts\<rparr>) = Some c' \<Longrightarrow> client_step h others c c'"
| sending: "text \<in> others \<Longrightarrow> client_step h others c (send text c)"
| stopping: "client_step h others c (stop c)"

inductive_cases client_stepE: "client_step h others c c'"

definition running :: "ws_config \<Rightarrow> ws_client \<Rightarrow> bool" where
  "running cfg c \<longleftrightarrow> c = run_client (new_client cfg)"

end
