(* ===== verification/Client_Properties.thy ===== *)
theory Client_Properties
  imports Ws_Client Coinbase_Feed
begin

text \<open>
  The WebSocket client keeps one connection alive: the invariant of its event loop and the
  properties that follow, for any connect handler and any frames other threads send.
\<close>

section \<open>Operations in flight\<close>

lemma phase_simps [simp]:
  "phase Resolving" "phase Connecting" "phase TlsHandshake" "phase WsHandshake" "phase Reading"
  "\<not> phase (Writing f)" "\<not> phase Waiting" "\<not> phase CancelledWait" "\<not> phase Closing"
  by (simp_all add: phase_def)

lemma is_write_simps [simp]:
  "is_write (Writing f)" "\<not> is_write Resolving" "\<not> is_write Connecting" "\<not> is_write TlsHandshake"
  "\<not> is_write WsHandshake" "\<not> is_write Reading" "\<not> is_write Waiting" "\<not> is_write CancelledWait" "\<not> is_write Closing"
  by (simp_all add: is_write_def)

lemma phase_not_write: "phase x \<Longrightarrow> \<not> is_write x"
  by (cases x) simp_all

text \<open>The operations before the connection is established.\<close>

definition set_up :: "client_op \<Rightarrow> bool" where
  "set_up x \<longleftrightarrow> phase x \<and> x \<noteq> Reading"

lemma set_up_simps [simp]:
  "set_up Resolving" "set_up Connecting" "set_up TlsHandshake" "set_up WsHandshake" "\<not> set_up Reading"
  "\<not> set_up (Writing f)" "\<not> set_up Waiting" "\<not> set_up CancelledWait" "\<not> set_up Closing"
  by (simp_all add: set_up_def)

text \<open>Once the client is stopping, a wait that was not cancelled in time has no effect either.\<close>

lemma stopped_wait: "wc_stopping c \<Longrightarrow> on_wait tec c = c"
  by (simp add: on_wait_def)

lemma cancel_wait_filters [simp]:
  "filter_mset phase (wc_pending (cancel_wait c)) = filter_mset phase (wc_pending c)"
  "filter_mset is_write (wc_pending (cancel_wait c)) = filter_mset is_write (wc_pending c)"
  "filter_mset set_up (wc_pending (cancel_wait c)) = filter_mset set_up (wc_pending c)"
  "count (wc_pending (cancel_wait c)) Waiting = 0"
proof -
  let ?f = "\<lambda>x. if x = Waiting then CancelledWait else x"
  have "filter_mset phase (image_mset ?f M) = filter_mset phase M \<and> filter_mset is_write (image_mset ?f M) = filter_mset is_write M \<and>
      filter_mset set_up (image_mset ?f M) = filter_mset set_up M" for M
    by (induction M) auto
  then show "filter_mset phase (wc_pending (cancel_wait c)) = filter_mset phase (wc_pending c)"
    "filter_mset is_write (wc_pending (cancel_wait c)) = filter_mset is_write (wc_pending c)"
    "filter_mset set_up (wc_pending (cancel_wait c)) = filter_mset set_up (wc_pending c)"
    by (simp_all add: cancel_wait_def)
  show "count (wc_pending (cancel_wait c)) Waiting = 0"
    by (auto simp: cancel_wait_def count_eq_zero_iff split: if_splits)
qed

section \<open>The invariant\<close>

definition io_ok :: "ws_client \<Rightarrow> bool" where
  "io_ok c \<longleftrightarrow>
     filter_mset is_write (wc_pending c) = (if wc_writing c then {#Writing (hd (wc_write_queue c))#} else {#}) \<and>
     (wc_writing c \<longrightarrow> wc_write_queue c \<noteq> []) \<and>
     wc_sent c = wc_written c @ wc_write_queue c \<and>
     size (filter_mset phase (wc_pending c)) \<le> 1 \<and>
     (filter_mset phase (wc_pending c) \<noteq> {#} \<longrightarrow> wc_buffer c = []) \<and>
     (filter_mset set_up (wc_pending c) \<noteq> {#} \<longrightarrow> \<not> wc_established c \<and> \<not> wc_writing c \<and> (wc_closed c \<longrightarrow> wc_stopping c))"

definition timer_ok :: "ws_client \<Rightarrow> bool" where
  "timer_ok c \<longleftrightarrow>
     (if wc_stopping c then Waiting \<notin># wc_pending c
      else if wc_closed c then count (wc_pending c) Waiting = 1
      else Waiting \<notin># wc_pending c \<and> filter_mset phase (wc_pending c) \<noteq> {#})"

definition client_ok :: "ws_client \<Rightarrow> bool" where
  "client_ok c \<longleftrightarrow> io_ok c \<and> timer_ok c"

lemma launch_simps [simp]:
  "wc_pending (launch x c) = add_mset x (wc_pending c)" "wc_writing (launch x c) = wc_writing c"
  "wc_write_queue (launch x c) = wc_write_queue c" "wc_sent (launch x c) = wc_sent c"
  "wc_written (launch x c) = wc_written c" "wc_buffer (launch x c) = wc_buffer c"
  "wc_stopping (launch x c) = wc_stopping c" "wc_closed (launch x c) = wc_closed c"
  "wc_established (launch x c) = wc_established c" "wc_tasks (launch x c) = wc_tasks c"
  "wc_attempts (launch x c) = wc_attempts c" "wc_delay (launch x c) = wc_delay c" "wc_cfg (launch x c) = wc_cfg c"
  "wc_received (launch x c) = wc_received c" "wc_disconnects (launch x c) = wc_disconnects c"
  by (simp_all add: launch_def)

lemma finish_simps [simp]:
  "wc_pending (finish x c) = wc_pending c - {#x#}" "wc_writing (finish x c) = wc_writing c"
  "wc_write_queue (finish x c) = wc_write_queue c" "wc_sent (finish x c) = wc_sent c"
  "wc_written (finish x c) = wc_written c" "wc_buffer (finish x c) = wc_buffer c"
  "wc_stopping (finish x c) = wc_stopping c" "wc_closed (finish x c) = wc_closed c"
  "wc_established (finish x c) = wc_established c" "wc_tasks (finish x c) = wc_tasks c"
  "wc_attempts (finish x c) = wc_attempts c" "wc_cfg (finish x c) = wc_cfg c"
  "wc_received (finish x c) = wc_received c" "wc_disconnects (finish x c) = wc_disconnects c"
  by (simp_all add: finish_def)

lemma cancel_wait_simps [simp]:
  "wc_writing (cancel_wait c) = wc_writing c" "wc_write_queue (cancel_wait c) = wc_write_queue c"
  "wc_sent (cancel_wait c) = wc_sent c" "wc_written (cancel_wait c) = wc_written c" "wc_buffer (cancel_wait c) = wc_buffer c"
  "wc_stopping (cancel_wait c) = wc_stopping c" "wc_closed (cancel_wait c) = wc_closed c"
  "wc_established (cancel_wait c) = wc_established c" "wc_tasks (cancel_wait c) = wc_tasks c"
  "wc_attempts (cancel_wait c) = wc_attempts c" "wc_delay (cancel_wait c) = wc_delay c" "wc_cfg (cancel_wait c) = wc_cfg c"
  "wc_received (cancel_wait c) = wc_received c" "wc_disconnects (cancel_wait c) = wc_disconnects c"
  by (simp_all add: cancel_wait_def)

text \<open>
  \<open>schedule_reconnect\<close> restores the invariant of the timer, unless it has nothing to do.
\<close>

lemma schedule_reconnect_ok:
  assumes "io_ok c" and "wc_stopping c \<Longrightarrow> Waiting \<notin># wc_pending c" and "ec = Aborted \<Longrightarrow> timer_ok c"
    and "filter_mset set_up (wc_pending c) = {#}"
  shows "client_ok (schedule_reconnect ec stage c)"
proof (cases "wc_stopping c \<or> ec = Aborted")
  case False
  let ?c = "c\<lparr>wc_disconnects := wc_disconnects c @ [stage @ '': '' @ error_message ec],
    wc_delay := reconnect_delay (wc_cfg c) (wc_attempts c), wc_attempts := wc_attempts c + 1, wc_closed := True\<rparr>"
  have "io_ok ?c" using assms(1,4) by (simp add: io_ok_def)
  then have "io_ok (launch Waiting (cancel_wait ?c))" by (simp add: io_ok_def)
  moreover have "timer_ok (launch Waiting (cancel_wait ?c))" using False by (simp add: timer_ok_def)
  ultimately show ?thesis using False by (simp add: schedule_reconnect_def client_ok_def)
qed (use assms in \<open>auto simp: schedule_reconnect_def client_ok_def timer_ok_def\<close>)

text \<open>An operation of the connection has ended: nothing else of it is in flight.\<close>

lemma finish_phase:
  assumes "client_ok c" and "phase x" and "x \<in># wc_pending c"
  shows "filter_mset phase (wc_pending (finish x c)) = {#}" "filter_mset set_up (wc_pending (finish x c)) = {#}" and "io_ok (finish x c)" and "wc_buffer c = []"
    and "wc_stopping c \<Longrightarrow> Waiting \<notin># wc_pending c" and "wc_closed c \<or> wc_stopping c \<Longrightarrow> timer_ok (finish x c)"
    and "\<not> wc_closed c \<Longrightarrow> Waiting \<notin># wc_pending c"
proof -
  have "x \<in># filter_mset phase (wc_pending c)" using assms(2,3) by simp
  then have f: "filter_mset phase (wc_pending c) = {#x#}"
    using assms(1) by (intro single_in_flight) (simp_all add: client_ok_def io_ok_def)
  then show none: "filter_mset phase (wc_pending (finish x c)) = {#}" using assms(2) by simp
  then show "filter_mset set_up (wc_pending (finish x c)) = {#}" unfolding filter_mset_none set_up_def by blast
  with none show "io_ok (finish x c)" "wc_buffer c = []"
    using assms f phase_not_write [OF assms(2)] by (auto simp: client_ok_def io_ok_def)
  have "x \<noteq> Waiting" using assms(2) by auto
  then show "wc_stopping c \<Longrightarrow> Waiting \<notin># wc_pending c" "wc_closed c \<or> wc_stopping c \<Longrightarrow> timer_ok (finish x c)"
    "\<not> wc_closed c \<Longrightarrow> Waiting \<notin># wc_pending c"
    using assms(1) by (auto simp: client_ok_def timer_ok_def in_diff_count split: if_splits)
qed

lemma next_phase_ok:
  assumes c: "client_ok c" and x: "phase x" "x \<in># wc_pending c" and y: "set_up y" and est: "set_up x"
  shows "client_ok (launch y (finish x c))"
proof -
  note end_x = finish_phase [OF c x]
  have pre: "\<not> wc_established c" "\<not> wc_writing c" "wc_closed c \<longrightarrow> wc_stopping c"
    using c est x(2) by (auto simp: client_ok_def io_ok_def filter_mset_none)
  have y': "phase y" "\<not> is_write y" "y \<noteq> Waiting" using y by (auto simp: set_up_def phase_not_write)
  have "io_ok (launch y (finish x c))"
    using end_x(1-4) pre y y' by (simp add: io_ok_def)
  moreover have "timer_ok (launch y (finish x c))"
    using end_x(5-7) pre y' x(1) by (auto simp: timer_ok_def in_diff_count)
  ultimately show ?thesis by (simp add: client_ok_def)
qed

lemma phase_fails_ok:
  assumes c: "client_ok c" and x: "phase x" "x \<in># wc_pending c" and ec: "ec \<noteq> NoError" "ec = Aborted \<Longrightarrow> wc_closed c \<or> wc_stopping c"
  shows "client_ok (schedule_reconnect ec stage (finish x c))"
proof -
  have "x \<noteq> Waiting" using x(1) by auto
  then show ?thesis
    by (intro schedule_reconnect_ok) (use finish_phase [OF c x] ec in \<open>auto simp: in_diff_count\<close>)
qed

lemma reopened_ok:
  assumes "client_ok c" and "filter_mset set_up (wc_pending c) \<noteq> {#}"
  shows "client_ok (c\<lparr>wc_closed := False\<rparr>)"
  using assms by (auto simp: client_ok_def io_ok_def timer_ok_def split: if_splits)

section \<open>Handlers keep the invariant\<close>

lemma on_resolve_ok:
  assumes c: "client_ok c" and x: "Resolving \<in># wc_pending c" and ec: "ec = Aborted \<Longrightarrow> wc_closed c \<or> wc_stopping c"
  shows "client_ok (on_resolve ec (finish Resolving c))"
proof -
  have "client_ok (launch Connecting (finish Resolving c))" by (rule next_phase_ok [OF c _ x]) simp_all
  then have "client_ok ((launch Connecting (finish Resolving c))\<lparr>wc_closed := False\<rparr>)" by (rule reopened_ok) simp
  moreover have "(launch Connecting (finish Resolving c))\<lparr>wc_closed := False\<rparr> = launch Connecting ((finish Resolving c)\<lparr>wc_closed := False\<rparr>)"
    by (simp add: launch_def)
  ultimately have "client_ok (launch Connecting ((finish Resolving c)\<lparr>wc_closed := False\<rparr>))" by metis
  then show ?thesis
    using phase_fails_ok [OF c _ x, of ec] ec by (simp add: on_resolve_def)
qed

lemma on_tcp_connect_ok:
  assumes c: "client_ok c" and x: "Connecting \<in># wc_pending c" and ec: "ec = Aborted \<Longrightarrow> wc_closed c \<or> wc_stopping c"
  shows "client_ok (on_tcp_connect ec sni (finish Connecting c))"
  using next_phase_ok [OF c _ x, of TlsHandshake] phase_fails_ok [OF c _ x] ec
  by (auto simp: on_tcp_connect_def on_tcp_connected_def split: option.splits)

lemma on_tls_handshake_ok:
  assumes c: "client_ok c" and x: "TlsHandshake \<in># wc_pending c" and ec: "ec = Aborted \<Longrightarrow> wc_closed c \<or> wc_stopping c"
  shows "client_ok (on_tls_handshake ec (finish TlsHandshake c))"
  using next_phase_ok [OF c _ x, of WsHandshake] phase_fails_ok [OF c _ x] ec by (auto simp: on_tls_handshake_def)

text \<open>The connect handler only posts tasks.\<close>

lemma fold_send: "fold send frames c = c\<lparr>wc_tasks := wc_tasks c @ map SendTask frames\<rparr>"
  by (induction frames arbitrary: c) (simp_all add: send_def)

text \<open>Starting a write when there is something to write, the stream is idle and it is established.\<close>

definition flushed :: "ws_client \<Rightarrow> ws_client \<Rightarrow> bool" where
  "flushed c c' \<longleftrightarrow> c' = c \<or> (\<exists>f. c' = launch (Writing f) (c\<lparr>wc_writing := True\<rparr>))"

lemma flushed_same:
  assumes "flushed c c'"
  shows "wc_closed c' = wc_closed c" "wc_stopping c' = wc_stopping c" "wc_buffer c' = wc_buffer c"
    "filter_mset phase (wc_pending c') = filter_mset phase (wc_pending c)"
    "filter_mset set_up (wc_pending c') = filter_mset set_up (wc_pending c)"
    "count (wc_pending c') Waiting = count (wc_pending c) Waiting"
    "wc_sent c' = wc_sent c" "wc_tasks c' = wc_tasks c" "wc_established c' = wc_established c"
  using assms by (auto simp: flushed_def)

lemma timer_ok_cong:
  assumes "wc_closed c' = wc_closed c" "wc_stopping c' = wc_stopping c"
    "filter_mset phase (wc_pending c') = filter_mset phase (wc_pending c)"
    "count (wc_pending c') Waiting = count (wc_pending c) Waiting"
  shows "timer_ok c' \<longleftrightarrow> timer_ok c"
proof -
  have "Waiting \<in># wc_pending c' \<longleftrightarrow> Waiting \<in># wc_pending c" using assms(4) by (metis count_eq_zero_iff)
  with assms show ?thesis by (simp add: timer_ok_def)
qed

lemma client_write_ok:
  assumes "io_ok c" and "\<not> wc_writing c" and "wc_write_queue c \<noteq> []" and "filter_mset set_up (wc_pending c) = {#}"
  shows "\<exists>c'. client_write c = Some c' \<and> flushed c c' \<and> io_ok c'"
  using assms by (cases "wc_write_queue c") (auto simp: client_write_def io_ok_def flushed_def)

lemma flush_ok:
  assumes "io_ok c" and "filter_mset set_up (wc_pending c) = {#}" and "b \<Longrightarrow> \<not> wc_writing c \<and> wc_write_queue c \<noteq> []"
  shows "\<exists>c'. (if b then client_write c else Some c) = Some c' \<and> flushed c c' \<and> io_ok c'"
  using client_write_ok [of c] assms by (cases b) (auto simp: flushed_def)

lemma on_ws_handshake_ok:
  assumes c: "client_ok c" and x: "WsHandshake \<in># wc_pending c" and ec: "ec = Aborted \<Longrightarrow> wc_closed c \<or> wc_stopping c"
  shows "\<exists>c'. on_ws_handshake h ec (finish WsHandshake c) = Some c' \<and> client_ok c'"
proof (cases "ec = NoError")
  case True
  have ws: "phase WsHandshake" by simp
  note end_x = finish_phase [OF c ws x]
  let ?c = "fold send h ((finish WsHandshake c)\<lparr>wc_established := True, wc_attempts := 0\<rparr>)"
  have pre: "wc_closed c \<longrightarrow> wc_stopping c"
    using c x by (auto simp: client_ok_def io_ok_def filter_mset_none)
  have io: "io_ok ?c" using end_x(1-4) by (simp add: io_ok_def fold_send)
  have ready: "filter_mset set_up (wc_pending ?c) = {#}" using end_x(2) by (simp add: fold_send)
  obtain c2 where c2: "(if wc_write_queue ?c \<noteq> [] \<and> \<not> wc_writing ?c then client_write ?c else Some ?c) = Some c2"
      "flushed ?c c2" "io_ok c2"
    using flush_ok [OF io ready, of "wc_write_queue ?c \<noteq> [] \<and> \<not> wc_writing ?c"] by blast
  note same = flushed_same [OF c2(2)]
  have "io_ok (client_read c2)" using c2(3) same end_x(1,2,4) by (simp add: io_ok_def client_read_def fold_send)
  moreover have "Waiting \<notin># wc_pending c2" using end_x(5,7) pre same(6) by (auto simp: fold_send not_in_iff)
  then have "timer_ok (client_read c2)" using same pre by (simp add: timer_ok_def client_read_def fold_send)
  ultimately show ?thesis using True c2(1) by (simp add: on_ws_handshake_def client_ok_def)
next
  case False
  then show ?thesis using phase_fails_ok [OF c _ x] ec by (simp add: on_ws_handshake_def)
qed

lemma on_client_read_ok:
  assumes c: "client_ok c" and x: "Reading \<in># wc_pending c" and ec: "ec = Aborted \<Longrightarrow> wc_closed c \<or> wc_stopping c"
  shows "client_ok (on_client_read ec data (finish Reading c))"
proof (cases "ec = NoError")
  case True
  have "on_client_read ec data (finish Reading c) = c\<lparr>wc_received := wc_received c @ [wc_buffer c @ data], wc_buffer := []\<rparr>"
    using True x by (simp add: on_client_read_def client_read_def launch_def finish_def)
  moreover have "timer_ok (c\<lparr>wc_received := r, wc_buffer := []\<rparr>) \<longleftrightarrow> timer_ok c" for r by (simp add: timer_ok_def)
  ultimately show ?thesis using c by (simp add: client_ok_def io_ok_def)
next
  case False
  have rd: "phase Reading" by simp
  note end_x = finish_phase [OF c rd x]
  let ?c = "(finish Reading c)\<lparr>wc_buffer := wc_buffer c @ data\<rparr>"
  have "client_ok (schedule_reconnect ec ''read'' ?c)"
  proof (rule schedule_reconnect_ok)
    show "io_ok ?c" using end_x(1-3) by (simp add: io_ok_def)
    have "timer_ok ?c \<longleftrightarrow> timer_ok (finish Reading c)" by (rule timer_ok_cong) simp_all
    then show "ec = Aborted \<Longrightarrow> timer_ok ?c" using end_x(6) ec by simp
  qed (use False end_x in \<open>auto simp: in_diff_count\<close>)
  with False show ?thesis by (simp add: on_client_read_def)
qed

lemma on_client_write_ok:
  assumes c: "client_ok c" and x: "Writing f \<in># wc_pending c"
  shows "\<exists>c'. on_client_write ec f (finish (Writing f) c) = Some c' \<and> client_ok c'"
proof -
  let ?c = "(finish (Writing f) c)\<lparr>wc_writing := False\<rparr>"
  have "Writing f \<in># filter_mset is_write (wc_pending c)" using x by simp
  with c obtain q where w: "wc_writing c" "wc_write_queue c = f # q"
    by (cases "wc_write_queue c") (auto simp: client_ok_def io_ok_def split: if_splits)
  have set_up: "filter_mset set_up (wc_pending ?c) = {#}" using c w by (auto simp: client_ok_def io_ok_def)
  have io: "io_ok ?c" using c w set_up by (simp add: client_ok_def io_ok_def)
  have timer: "timer_ok ?c"
  proof -
    have "timer_ok ?c \<longleftrightarrow> timer_ok c" by (rule timer_ok_cong) simp_all
    then show ?thesis using c by (simp add: client_ok_def)
  qed
  then have waiting: "wc_stopping ?c \<Longrightarrow> Waiting \<notin># wc_pending ?c" by (simp add: timer_ok_def)
  show ?thesis
  proof (cases "ec = NoError")
    case True
    let ?c2 = "?c\<lparr>wc_write_queue := q, wc_written := wc_written c @ [f]\<rparr>"
    have "io_ok ?c2" using io w by (simp add: io_ok_def)
    then obtain c3 where c3: "(if q \<noteq> [] then client_write ?c2 else Some ?c2) = Some c3" "flushed ?c2 c3" "io_ok c3"
      using flush_ok [of ?c2 "q \<noteq> []"] set_up by auto
    have "timer_ok c3 \<longleftrightarrow> timer_ok ?c" by (rule timer_ok_cong) (simp_all add: flushed_same [OF c3(2)])
    with c3 True w timer show ?thesis by (simp add: on_client_write_def client_ok_def)
  next
    case False
    then show ?thesis
      using schedule_reconnect_ok [OF io waiting timer] set_up by (simp add: on_client_write_def)
  qed
qed

lemma on_wait_ok:
  assumes c: "client_ok c" and x: "Waiting \<in># wc_pending c" and alone: "\<forall>y \<in># wc_pending c. \<not> phase y \<and> \<not> is_write y"
  shows "client_ok (on_wait False (finish Waiting c))"
proof -
  have none: "filter_mset phase (wc_pending c) = {#}" "filter_mset is_write (wc_pending c) = {#}" "filter_mset set_up (wc_pending c) = {#}"
    using alone by (auto simp: filter_mset_none set_up_def)
  have "\<not> wc_stopping c" "count (wc_pending c) Waiting = 1"
    using c x by (auto simp: client_ok_def timer_ok_def split: if_splits)
  with none show ?thesis
    by (simp add: on_wait_def start_connect_def client_ok_def io_ok_def timer_ok_def in_diff_count)
qed

lemma cancelled_wait_ok: "client_ok c \<Longrightarrow> client_ok (on_wait True (finish CancelledWait c))"
  "client_ok c \<Longrightarrow> client_ok (finish Closing c)"
  by (auto simp: on_wait_def client_ok_def io_ok_def timer_ok_def in_diff_count filter_mset_none not_in_iff split: if_splits)

lemma run_task_ok:
  assumes c: "client_ok c" and opn: "is_open \<Longrightarrow> wc_established c \<and> \<not> wc_closed c"
  shows "\<exists>c'. run_task is_open t (c\<lparr>wc_tasks := ts\<rparr>) = Some c' \<and> client_ok c'"
proof (cases t)
  case (SendTask msg)
  let ?c = "c\<lparr>wc_tasks := ts, wc_write_queue := wc_write_queue c @ [msg], wc_sent := wc_sent c @ [msg]\<rparr>"
  have io: "io_ok ?c" using c by (auto simp: client_ok_def io_ok_def)
  have "\<exists>c'. (if is_open \<and> \<not> wc_writing ?c then client_write ?c else Some ?c) = Some c' \<and> flushed ?c c' \<and> io_ok c'"
  proof (cases "is_open \<and> \<not> wc_writing ?c")
    case True
    then have "filter_mset set_up (wc_pending ?c) = {#}" using opn c by (auto simp: client_ok_def io_ok_def)
    then show ?thesis using client_write_ok [OF io] True by simp
  qed (use io in \<open>auto simp: flushed_def\<close>)
  then obtain c' where c': "(if is_open \<and> \<not> wc_writing ?c then client_write ?c else Some ?c) = Some c'" "flushed ?c c'" "io_ok c'"
    by blast
  have "timer_ok c' \<longleftrightarrow> timer_ok c" by (rule timer_ok_cong) (simp_all add: flushed_same [OF c'(2)])
  with c' c SendTask show ?thesis by (simp add: client_ok_def)
next
  case StopTask
  have "client_ok (launch Closing (cancel_wait (c\<lparr>wc_tasks := ts, wc_stopping := True\<rparr>)))"
    "client_ok ((cancel_wait (c\<lparr>wc_tasks := ts, wc_stopping := True\<rparr>))\<lparr>wc_closed := True\<rparr>)"
    using c cancel_wait_filters(4) by (simp_all add: client_ok_def io_ok_def timer_ok_def not_in_iff)
  with StopTask show ?thesis by (simp add: Let_def)
qed

section \<open>Reachable states\<close>

lemma client_complete_ok:
  assumes c: "client_ok c" and x: "x \<in># wc_pending c" and ec: "phase x \<Longrightarrow> ec = Aborted \<Longrightarrow> wc_closed c \<or> wc_stopping c"
    and wait: "x = Waiting \<Longrightarrow> \<forall>y \<in># wc_pending c. \<not> phase y \<and> \<not> is_write y"
  shows "\<exists>c'. client_complete h ec sni data x (finish x c) = Some c' \<and> client_ok c'"
proof (cases x)
  case Resolving
  then show ?thesis using on_resolve_ok [OF c] x ec by simp
next
  case Connecting
  then show ?thesis using on_tcp_connect_ok [OF c] x ec by simp
next
  case TlsHandshake
  then show ?thesis using on_tls_handshake_ok [OF c] x ec by simp
next
  case WsHandshake
  then show ?thesis using on_ws_handshake_ok [OF c] x ec by simp
next
  case Reading
  then show ?thesis using on_client_read_ok [OF c] x ec by simp
next
  case Waiting
  then show ?thesis using on_wait_ok [OF c] x wait by simp
qed (use c x on_client_write_ok cancelled_wait_ok in simp_all)

lemma posted_ok: "client_ok (c\<lparr>wc_tasks := ts\<rparr>) \<longleftrightarrow> client_ok c"
  by (simp add: client_ok_def io_ok_def timer_ok_def)

lemma client_step_ok:
  assumes c: "client_ok c" and step: "client_step h others c c'"
  shows "client_ok c'"
proof (rule client_stepE [OF step])
  fix x ec sni data
  assume "x \<in># wc_pending c" "phase x \<Longrightarrow> ec = Aborted \<Longrightarrow> wc_closed c \<or> wc_stopping c"
    "x = Waiting \<Longrightarrow> wc_tasks c = [] \<and> (\<forall>y \<in># wc_pending c. \<not> phase y \<and> \<not> is_write y)"
    "client_complete h ec sni data x (finish x c) = Some c'"
  then show "client_ok c'" using client_complete_ok [OF c, of x ec h sni data] by auto
next
  fix t ts is_open
  assume "is_open \<Longrightarrow> wc_established c \<and> \<not> wc_closed c" "run_task is_open t (c\<lparr>wc_tasks := ts\<rparr>) = Some c'"
  then show "client_ok c'" using run_task_ok [OF c, of is_open t ts] by auto
qed (use c in \<open>simp_all add: send_def stop_def posted_ok\<close>)

lemma running_ok: "running cfg c \<Longrightarrow> client_ok c"
  by (simp add: running_def run_client_def start_connect_def new_client_def client_ok_def io_ok_def timer_ok_def)

interpretation client_run: invariant_system "running cfg" "client_step h others" client_ok for cfg h others
  by unfold_locales (rule running_ok, assumption, rule client_step_ok)

section \<open>What the connect handler sent\<close>

text \<open>
  When no other thread sends, the frames queued on a connection and the ones still posted are
  those of its connect handler.
\<close>

definition posted_frames :: "client_task list \<Rightarrow> string list" where
  "posted_frames ts = concat (map (\<lambda>t. case t of SendTask f \<Rightarrow> [f] | StopTask \<Rightarrow> []) ts)"

definition handler_frames :: "string list \<Rightarrow> ws_client \<Rightarrow> bool" where
  "handler_frames h c \<longleftrightarrow> wc_sent c @ posted_frames (wc_tasks c) = (if wc_established c then h else [])"

lemma posted_frames_simps [simp]:
  "posted_frames [] = []" "posted_frames (SendTask f # ts) = f # posted_frames ts" "posted_frames (StopTask # ts) = posted_frames ts"
  "posted_frames (ts @ us) = posted_frames ts @ posted_frames us" "posted_frames (map SendTask fs) = fs"
  by (simp_all add: posted_frames_def) (induction fs, simp_all)

lemma handler_frames_cong:
  "wc_sent c' = wc_sent c \<Longrightarrow> wc_tasks c' = wc_tasks c \<Longrightarrow> wc_established c' = wc_established c \<Longrightarrow>
   handler_frames h c' \<longleftrightarrow> handler_frames h c"
  by (simp add: handler_frames_def)

lemma schedule_reconnect_frames [simp]: "handler_frames h (schedule_reconnect ec stage c) \<longleftrightarrow> handler_frames h c"
  by (rule handler_frames_cong) (simp_all add: schedule_reconnect_def)

lemma launch_frames [simp]: "handler_frames h (launch x c) \<longleftrightarrow> handler_frames h c"
  "handler_frames h (finish x c) \<longleftrightarrow> handler_frames h c" "handler_frames h (cancel_wait c) \<longleftrightarrow> handler_frames h c"
  "handler_frames h (c\<lparr>wc_closed := b\<rparr>) \<longleftrightarrow> handler_frames h c" "handler_frames h (c\<lparr>wc_buffer := d\<rparr>) \<longleftrightarrow> handler_frames h c"
  "handler_frames h (c\<lparr>wc_received := r\<rparr>) \<longleftrightarrow> handler_frames h c"
  "handler_frames h (c\<lparr>wc_buffer := d, wc_received := r\<rparr>) \<longleftrightarrow> handler_frames h c"
  by (simp_all add: handler_frames_def)

lemma client_write_frames: "client_write c = Some c' \<Longrightarrow> handler_frames h c' \<longleftrightarrow> handler_frames h c"
  by (auto simp: client_write_def handler_frames_def split: list.splits)

lemma client_complete_frames:
  assumes c: "client_ok c" "handler_frames h c" and x: "x \<in># wc_pending c" and wait: "x = Waiting \<Longrightarrow> wc_tasks c = []"
    and result: "client_complete h ec sni data x (finish x c) = Some c'"
  shows "handler_frames h c'"
proof (cases x)
  case WsHandshake
  let ?c = "fold send h ((finish x c)\<lparr>wc_established := True, wc_attempts := 0\<rparr>)"
  have "\<not> wc_established c" using c(1) x WsHandshake by (auto simp: client_ok_def io_ok_def filter_mset_none)
  then have "handler_frames h ?c" using c(2) by (simp add: handler_frames_def fold_send)
  with WsHandshake result c(2) show ?thesis
    by (auto simp: on_ws_handshake_def client_read_def Let_def client_write_frames split: if_splits bind_splits)
next
  case (Writing g)
  let ?c = "\<lambda>q. (finish x c)\<lparr>wc_writing := False, wc_write_queue := q, wc_written := wc_written c @ [g]\<rparr>"
  have "handler_frames h (?c q)" "handler_frames h ((finish x c)\<lparr>wc_writing := False\<rparr>)" for q
    using c(2) by (simp_all add: handler_frames_def)
  with Writing result show ?thesis
    by (auto simp: on_client_write_def Let_def client_write_frames split: if_splits list.splits)
next
  case Waiting
  with result wait c(2) show ?thesis
    by (cases "wc_stopping c") (auto simp: on_wait_def start_connect_def handler_frames_def)
qed (use c(2) result in \<open>auto simp: on_resolve_def on_tcp_connect_def on_tcp_connected_def on_tls_handshake_def
    on_client_read_def client_read_def on_wait_def Let_def split: option.splits if_splits\<close>)

lemma run_task_frames:
  assumes "handler_frames h c" and "wc_tasks c = t # ts" and "run_task is_open t (c\<lparr>wc_tasks := ts\<rparr>) = Some c'"
  shows "handler_frames h c'"
proof (cases t)
  case (SendTask msg)
  let ?c = "c\<lparr>wc_tasks := ts, wc_write_queue := wc_write_queue c @ [msg], wc_sent := wc_sent c @ [msg]\<rparr>"
  have "handler_frames h ?c" using assms(1,2) SendTask by (simp add: handler_frames_def)
  with SendTask assms(3) show ?thesis by (auto simp: Let_def client_write_frames split: if_splits)
next
  case StopTask
  with assms show ?thesis by (auto simp: Let_def handler_frames_def split: if_splits)
qed

lemma quiet_step_frames:
  assumes c: "client_ok c" "handler_frames h c" and step: "client_step h {} c c'"
  shows "handler_frames h c'"
proof (rule client_stepE [OF step])
  fix x ec sni data
  assume "x \<in># wc_pending c" "x = Waiting \<Longrightarrow> wc_tasks c = [] \<and> (\<forall>y \<in># wc_pending c. \<not> phase y \<and> \<not> is_write y)"
    "client_complete h ec sni data x (finish x c) = Some c'"
  then show "handler_frames h c'" using client_complete_frames [OF c, of x ec sni data c'] by blast
next
  fix t ts is_open
  assume "wc_tasks c = t # ts" "run_task is_open t (c\<lparr>wc_tasks := ts\<rparr>) = Some c'"
  then show "handler_frames h c'" by (rule run_task_frames [OF c(2)])
qed (use c in \<open>simp_all add: stop_def handler_frames_def\<close>)

interpretation quiet_client: invariant_system "running cfg" "client_step h {}" "\<lambda>c. client_ok c \<and> handler_frames h c" for cfg h
proof unfold_locales
  show "running cfg c \<Longrightarrow> client_ok c \<and> handler_frames h c" for c
    using running_ok by (auto simp: running_def run_client_def start_connect_def new_client_def handler_frames_def)
qed (use client_step_ok quiet_step_frames in blast)

section \<open>Backing off\<close>

lemma reconnect_delay_eq:
  "reconnect_delay cfg n = min (ws_reconnect_base_delay cfg * 2 ^ min (unat n) 16) (ws_reconnect_max_delay cfg)"
proof -
  have "unat (min n (16 :: 32 word)) = min (unat n) 16" by (simp add: word_min_unat)
  moreover have "uint (push_bit k (1 :: 32 word)) = 2 ^ k" if "k \<le> 16" for k
  proof -
    have "(2::int) ^ k < 2 ^ 32" using that by (intro power_strict_increasing) auto
    then have "uint (word_of_int (2 ^ k) :: 32 word) = 2 ^ k"
      by (subst uint_word_of_int_eq) (simp add: take_bit_eq_mod)
    then have "uint ((2 :: 32 word) ^ k) = 2 ^ k" by simp
    then show ?thesis by (simp add: push_bit_eq_mult)
  qed
  ultimately show ?thesis by (simp add: reconnect_delay_def)
qed

section \<open>Two runs\<close>

lemma reachable_completion:
  assumes "reachable (running cfg) (client_step h others) c" and "x \<in># wc_pending c" and "x \<noteq> Waiting"
    and "client_complete h NoError None data x (finish x c) = Some c'"
  shows "reachable (running cfg) (client_step h others) c'"
proof -
  have "client_step h others c c'" by (rule client_step.completion [where ec = NoError and sni = None]) (use assms in auto)
  with assms(1) show ?thesis by (rule reachable_step)
qed

lemmas client_defs = run_client_def start_connect_def new_client_def launch_def finish_def on_resolve_def on_tcp_connect_def
  on_tcp_connected_def on_tls_handshake_def on_ws_handshake_def client_read_def client_write_def send_def stop_def cancel_wait_def

text \<open>The client from its start to an established connection, as the operations in flight change.\<close>

abbreviation client_at :: "ws_config \<Rightarrow> client_op \<Rightarrow> ws_client" where
  "client_at cfg x \<equiv> (new_client cfg)\<lparr>wc_pending := {#x#}\<rparr>"

lemma resolving_reachable: "reachable (running cfg) (client_step h others) (client_at cfg Resolving)"
  by (rule reachable_start) (simp add: running_def client_defs)

lemma handshake_reachable: "reachable (running cfg) (client_step h others) (client_at cfg WsHandshake)"
proof -
  have "reachable (running cfg) (client_step h others) (client_at cfg Connecting)"
    by (rule reachable_completion [OF resolving_reachable, where x = Resolving]) (simp_all add: client_defs)
  then have "reachable (running cfg) (client_step h others) (client_at cfg TlsHandshake)"
    by (rule reachable_completion [where x = Connecting]) (simp_all add: client_defs)
  then show ?thesis
    by (rule reachable_completion [where x = TlsHandshake]) (simp_all add: client_defs)
qed

text \<open>The connection is established and the frame of the connect handler is being written.\<close>

definition subscribing :: "ws_config \<Rightarrow> string \<Rightarrow> ws_client" where
  "subscribing cfg f = (new_client cfg)\<lparr>wc_established := True, wc_writing := True, wc_write_queue := [f], wc_sent := [f],
     wc_pending := {#Writing f, Reading#}\<rparr>"

lemma subscribing_reachable: "reachable (running cfg) (client_step [f] others) (subscribing cfg f)"
proof -
  let ?c = "(new_client cfg)\<lparr>wc_established := True, wc_tasks := [SendTask f], wc_pending := {#Reading#}\<rparr>"
  have "reachable (running cfg) (client_step [f] others) ?c"
    by (rule reachable_completion [OF handshake_reachable, where x = WsHandshake]) (simp_all add: client_defs)
  moreover have "client_step [f] others ?c (subscribing cfg f)"
    by (rule client_step.task [where is_open = True and t = "SendTask f" and ts = "[]"]) (simp_all add: subscribing_def client_defs)
  ultimately show ?thesis by (rule reachable_step)
qed

text \<open>
  A \<^verbatim>\<open>stop()\<close> that runs while the host name is being resolved: the stream is not open, closing its
  socket has no effect on the resolver, and connecting opens the socket again.  The client ends
  up connected and reading, with nothing left that would end it.
\<close>

lemma stop_misses_resolve:
  "\<exists>c. reachable (running cfg) (client_step [] others) c \<and> wc_stopping c \<and> wc_established c \<and> \<not> wc_closed c \<and>
     wc_pending c = {#Reading#} \<and> wc_tasks c = []"
proof -
  let ?S = "reachable (running cfg) (client_step [] others)"
  let ?at = "\<lambda>x. (client_at cfg x)\<lparr>wc_stopping := True\<rparr>"
  have "?S (stop (client_at cfg Resolving))"
    by (rule reachable_step [OF resolving_reachable client_step.stopping])
  then have "?S ((client_at cfg Resolving)\<lparr>wc_tasks := [StopTask]\<rparr>)" by (simp add: stop_def new_client_def)
  moreover have "client_step [] others ((client_at cfg Resolving)\<lparr>wc_tasks := [StopTask]\<rparr>) ((?at Resolving)\<lparr>wc_closed := True\<rparr>)"
    by (rule client_step.task [where is_open = False and t = StopTask and ts = "[]"]) (simp_all add: client_defs)
  ultimately have "?S ((?at Resolving)\<lparr>wc_closed := True\<rparr>)" by (rule reachable_step)
  then have "?S (?at Connecting)" by (rule reachable_completion [where x = Resolving]) (simp_all add: client_defs)
  then have "?S (?at TlsHandshake)" by (rule reachable_completion [where x = Connecting]) (simp_all add: client_defs)
  then have "?S (?at WsHandshake)" by (rule reachable_completion [where x = TlsHandshake]) (simp_all add: client_defs)
  then have "?S ((?at Reading)\<lparr>wc_established := True\<rparr>)"
    by (rule reachable_completion [where x = WsHandshake]) (simp_all add: client_defs)
  then show ?thesis by (intro exI [of _ "(?at Reading)\<lparr>wc_established := True\<rparr>"]) (simp add: new_client_def)
qed

section \<open>Properties\<close>

text \<open>
  C37: the client's I/O is sound whatever the network does: at most one operation of the
  connection is in flight, at most one write, \<^verbatim>\<open>writing_\<close> says exactly whether, the write sends the
  front of the queue (so its buffer lives as long as the write), the frames written on the
  present connection followed by the queued ones are the frames sent on it, and the receive
  buffer is empty when a read starts, so each message reaches the handler alone and whole.
\<close>

theorem client_io_sound:
  assumes "reachable (running cfg) (client_step h others) c"
  shows "size (filter_mset phase (wc_pending c)) \<le> 1 \<and>
    filter_mset is_write (wc_pending c) = (if wc_writing c then {#Writing (hd (wc_write_queue c))#} else {#}) \<and>
    (wc_writing c \<longrightarrow> wc_write_queue c \<noteq> []) \<and>
    wc_sent c = wc_written c @ wc_write_queue c \<and>
    (Reading \<in># wc_pending c \<longrightarrow>
       wc_received (on_client_read NoError data (finish Reading c)) = wc_received c @ [data])"
proof -
  have ok: "client_ok c" by (rule client_run.always [OF assms])
  have "wc_buffer c = []" if "Reading \<in># wc_pending c" using finish_phase(4) [OF ok _ that] by simp
  then have "Reading \<in># wc_pending c \<longrightarrow> wc_received (on_client_read NoError data (finish Reading c)) = wc_received c @ [data]"
    by (simp add: on_client_read_def client_read_def Let_def)
  with ok show ?thesis by (simp add: client_ok_def io_ok_def)
qed

theorem client_io_sound_witness:
  "reachable (running (default_ws_config ''h'')) (client_step [''f''] {}) (subscribing (default_ws_config ''h'') ''f'') \<and>
   filter_mset is_write (wc_pending (subscribing (default_ws_config ''h'') ''f'')) = {#Writing ''f''#}"
proof -
  note r = subscribing_reachable [of "default_ws_config ''h''" "''f''" "{}"]
  show ?thesis using r client_io_sound [OF r, of "[]"] by (simp add: subscribing_def)
qed

text \<open>
  C38: the client never falls asleep.  Unless it was stopped, in every reachable state
  either the transport is open and exactly one operation of the connection is in flight, or it
  was closed and exactly one wait on the reconnect timer is; and every operation in flight
  that may finish has a handler that is defined.
\<close>

theorem client_stays_alive:
  assumes "reachable (running cfg) (client_step h others) c" and "\<not> wc_stopping c"
  shows "(if wc_closed c then count (wc_pending c) Waiting = 1
     else Waiting \<notin># wc_pending c \<and> size (filter_mset phase (wc_pending c)) = 1) \<and>
    (\<forall>x \<in># wc_pending c. x \<noteq> Waiting \<longrightarrow> (ec = Aborted \<longrightarrow> wc_closed c) \<longrightarrow>
       client_complete h ec sni data x (finish x c) \<noteq> None)"
proof -
  have ok: "client_ok c" by (rule client_run.always [OF assms(1)])
  then have "size (filter_mset phase (wc_pending c)) \<le> 1" by (simp add: client_ok_def io_ok_def)
  then have "size (filter_mset phase (wc_pending c)) = 1" if "filter_mset phase (wc_pending c) \<noteq> {#}"
    using that by (metis One_nat_def le_SucE le_zero_eq size_eq_0_iff_empty)
  with ok assms(2) have "if wc_closed c then count (wc_pending c) Waiting = 1
     else Waiting \<notin># wc_pending c \<and> size (filter_mset phase (wc_pending c)) = 1"
    by (auto simp: client_ok_def timer_ok_def)
  moreover have "client_complete h ec sni data x (finish x c) \<noteq> None"
    if "x \<in># wc_pending c" "x \<noteq> Waiting" "ec = Aborted \<longrightarrow> wc_closed c" for x
    using client_complete_ok [OF ok that(1), of ec h sni data] that by auto
  ultimately show ?thesis by blast
qed

theorem client_stays_alive_witness:
  "reachable (running (default_ws_config ''h'')) (client_step [''f''] {}) (subscribing (default_ws_config ''h'') ''f'') \<and>
   \<not> wc_stopping (subscribing (default_ws_config ''h'') ''f'') \<and>
   size (filter_mset phase (wc_pending (subscribing (default_ws_config ''h'') ''f''))) = 1"
proof -
  have "\<not> wc_stopping (subscribing (default_ws_config ''h'') ''f'')" "\<not> wc_closed (subscribing (default_ws_config ''h'') ''f'')"
    by (simp_all add: subscribing_def new_client_def)
  moreover note r = subscribing_reachable [of "default_ws_config ''h''" "''f''" "{}"]
  ultimately show ?thesis using client_stays_alive [OF r, of NoError None "[]"] by simp
qed

text \<open>
  C39: the feed subscribes exactly once per connection.  The connect handler of
  \<^verbatim>\<open>CoinbaseFeed\<close> is the only sender: until the handshake nothing is written, and from then on
  what has been written, what is queued and what is posted is one subscription, however often
  the connection was lost before.
\<close>

theorem one_subscription_per_connection:
  assumes "reachable (running cfg) (client_step [subscribe_message feed] {}) c"
  shows "wc_written c @ wc_write_queue c @ posted_frames (wc_tasks c) =
    (if wc_established c then [subscribe_message feed] else [])"
proof -
  have "wc_sent c = wc_written c @ wc_write_queue c" "handler_frames [subscribe_message feed] c"
    using quiet_client.always [OF assms] by (simp_all add: client_ok_def io_ok_def)
  then show ?thesis by (simp add: handler_frames_def)
qed

theorem one_subscription_per_connection_witness:
  "reachable (running (default_ws_config ''h'')) (client_step [subscribe_message (new_coinbase_feed ''BTC-USD'')] {})
     (subscribing (default_ws_config ''h'') (subscribe_message (new_coinbase_feed ''BTC-USD''))) \<and>
   wc_write_queue (subscribing (default_ws_config ''h'') (subscribe_message (new_coinbase_feed ''BTC-USD''))) =
     [subscribe_message (new_coinbase_feed ''BTC-USD'')]"
proof -
  note r = subscribing_reachable [of "default_ws_config ''h''" "subscribe_message (new_coinbase_feed ''BTC-USD'')" "{}"]
  show ?thesis using r one_subscription_per_connection [OF r] by (simp add: subscribing_def new_client_def)
qed

text \<open>
  a failure other than an abort, while the client is not stopping, reports the reason,
  closes the transport and leaves exactly one wait on the timer, whose delay is the base delay
  doubled once per attempt since the last good connection, at most sixteen times, and
  capped: it stays between the base and the cap and never shrinks as attempts pile up, up
  to the wrap-around of the 32-bit counter.
\<close>

lemma reconnect_backoff:
  assumes "0 < ws_reconnect_base_delay (wc_cfg c)" and "ws_reconnect_base_delay (wc_cfg c) \<le> ws_reconnect_max_delay (wc_cfg c)"
    and "\<not> wc_stopping c"
  shows "let c' = schedule_reconnect (Failed message) stage c; n = wc_attempts c; cfg = wc_cfg c in
    wc_delay c' = min (ws_reconnect_base_delay cfg * 2 ^ min (unat n) 16) (ws_reconnect_max_delay cfg) \<and>
    ws_reconnect_base_delay cfg \<le> wc_delay c' \<and> wc_delay c' \<le> ws_reconnect_max_delay cfg \<and>
    (\<forall>m \<ge> n. wc_delay c' \<le> reconnect_delay cfg m) \<and>
    count (wc_pending c') Waiting = 1 \<and> wc_closed c' \<and> wc_attempts c' = n + 1 \<and>
    wc_disconnects c' = wc_disconnects c @ [stage @ '': '' @ message]"
proof -
  let ?base = "ws_reconnect_base_delay (wc_cfg c)"
  have "?base \<le> ?base * 2 ^ k" for k
    using assms(1) mult_left_mono [of 1 "2 ^ k" ?base] by simp
  moreover have "min (?base * 2 ^ i) x \<le> min (?base * 2 ^ j) x" if "i \<le> j" for i j x
    using assms(1) that power_increasing [of i j "2::int"] by (intro min.mono) simp_all
  then have mono: "reconnect_delay (wc_cfg c) n \<le> reconnect_delay (wc_cfg c) m" if "n \<le> m" for n m
    using that by (simp add: reconnect_delay_eq word_le_nat_alt del: min_le_iff_disj)
  ultimately show ?thesis
    using assms by (simp add: schedule_reconnect_def error_message_def Let_def mono) (simp add: reconnect_delay_eq)
qed

end
