(* ===== verification/Live_Program.thy ===== *)
theory Live_Program
  imports Live_System Client_Properties
begin

text \<open>
  The live mode with its network client: the ingest thread runs the event loop of the
  WebSocket client, whose message handler parses each frame and pushes the messages, and it is
  joined when that loop has nothing left to do.  The other threads of \<^verbatim>\<open>main.cpp\<close> run beside it.
\<close>

record live_program =
  lp_client :: ws_client
  lp_live :: live_system

definition coinbase_ws_config :: ws_config where
  "coinbase_ws_config = default_ws_config ''ws-feed.exchange.coinbase.com''"

definition start_live_program :: "nat \<Rightarrow> config \<Rightarrow> bool \<Rightarrow> bool \<Rightarrow> int \<Rightarrow> live_program" where
  "start_live_program n cfg opened started now =
     \<lparr>lp_client = run_client (new_client coinbase_ws_config),
      lp_live = \<lparr>lv_pipe = start_pipeline n cfg opened started now,
        lv_ingest = \<lparr>li_batch = [], li_now = 0, li_frames = [], li_emitted = []\<rparr>\<rparr>\<rparr>"

definition feed_of :: "live_program \<Rightarrow> coinbase_feed" where
  "feed_of s = pl_feed (lv_pipe (lp_live s))"

text \<open>\<^verbatim>\<open>io_context::run\<close> returns when no operation is in flight and nothing is posted.\<close>

definition loop_ended :: "ws_client \<Rightarrow> bool" where
  "loop_ended c \<longleftrightarrow> wc_pending c = {#} \<and> wc_tasks c = []"

text \<open>
  A turn of the event loop that hands no message to the handler, one that does, a step of a
  handler or of another thread, and the join.  The loop takes its next turn only when the
  handler has pushed and counted its whole batch.  Any thread may post a stop.
\<close>

inductive program_step :: "'el simdjson \<Rightarrow> live_program \<Rightarrow> live_program \<Rightarrow> bool" for sj where
  turn: "\<not> pl_ingest_joined (lv_pipe (lp_live s)) \<Longrightarrow> pl_phase (lv_pipe (lp_live s)) = PushNext \<Longrightarrow> li_batch (lv_ingest (lp_live s)) = [] \<Longrightarrow>
    client_step [subscribe_message (feed_of s)] {} (lp_client s) c \<Longrightarrow> wc_received c = wc_received (lp_client s) \<Longrightarrow>
    program_step sj s (s\<lparr>lp_client := c\<rparr>)"
| message: "\<not> pl_ingest_joined (lv_pipe (lp_live s)) \<Longrightarrow> pl_phase (lv_pipe (lp_live s)) = PushNext \<Longrightarrow> li_batch (lv_ingest (lp_live s)) = [] \<Longrightarrow>
    client_step [subscribe_message (feed_of s)] {} (lp_client s) c \<Longrightarrow> wc_received c = wc_received (lp_client s) @ [raw] \<Longrightarrow>
    live_frame sj raw iter parse_now now (lp_live s) = Some l \<Longrightarrow> program_step sj s \<lparr>lp_client = c, lp_live = l\<rparr>"
| threads: "live_step sj (lp_live s) l \<Longrightarrow> li_frames (lv_ingest l) = li_frames (lv_ingest (lp_live s)) \<Longrightarrow>
    pl_ingest_joined (lv_pipe l) = pl_ingest_joined (lv_pipe (lp_live s)) \<Longrightarrow> program_step sj s (s\<lparr>lp_live := l\<rparr>)"
| join: "pl_shutdown (lv_pipe (lp_live s)) \<Longrightarrow> loop_ended (lp_client s) \<Longrightarrow> pl_phase (lv_pipe (lp_live s)) = PushNext \<Longrightarrow>
    li_batch (lv_ingest (lp_live s)) = [] \<Longrightarrow> program_step sj s (s\<lparr>lp_live := (lp_live s)\<lparr>lv_pipe := (lv_pipe (lp_live s))\<lparr>pl_ingest_joined := True\<rparr>\<rparr>\<rparr>)"

inductive program_reachable :: "nat \<Rightarrow> config \<Rightarrow> 'el simdjson \<Rightarrow> live_program \<Rightarrow> bool" for n cfg sj where
  start: "program_reachable n cfg sj (start_live_program n cfg opened started now)"
| step: "program_reachable n cfg sj s \<Longrightarrow> program_step sj s s' \<Longrightarrow> program_reachable n cfg sj s'"

section \<open>The client hands over one message at a time\<close>

definition one_more :: "ws_client \<Rightarrow> ws_client \<Rightarrow> bool" where
  "one_more c c' \<longleftrightarrow> wc_received c' = wc_received c \<or> (\<exists>raw. wc_received c' = wc_received c @ [raw])"

lemma schedule_reconnect_received [simp]: "wc_received (schedule_reconnect ec stage c) = wc_received c"
  by (simp add: schedule_reconnect_def)

lemma client_write_received: "client_write c = Some c' \<Longrightarrow> wc_received c' = wc_received c"
  by (auto simp: client_write_def split: list.splits)

lemma client_complete_received:
  assumes "client_complete h ec sni data x c = Some c'"
  shows "one_more c c'"
proof (cases x)
  case WsHandshake
  then show ?thesis using assms client_write_received
    by (fastforce simp: one_more_def on_ws_handshake_def client_read_def fold_send Let_def split: if_splits Option.bind_splits)
next
  case (Writing f)
  then show ?thesis using assms client_write_received
    by (fastforce simp: one_more_def on_client_write_def Let_def split: if_splits list.splits)
qed (use assms in \<open>auto simp: one_more_def on_resolve_def on_tcp_connect_def on_tcp_connected_def on_tls_handshake_def on_client_read_def
    client_read_def on_wait_def start_connect_def Let_def split: option.splits if_splits\<close>)

lemma client_step_received:
  assumes "client_step h others c c'"
  shows "one_more c c'"
proof (rule client_stepE [OF assms])
  fix x ec sni data
  assume "client_complete h ec sni data x (finish x c) = Some c'"
  from client_complete_received [OF this] show "one_more c c'" by (simp add: one_more_def)
next
  fix t ts is_open
  assume "run_task is_open t (c\<lparr>wc_tasks := ts\<rparr>) = Some c'"
  then show "one_more c c'" using client_write_received by (cases t) (fastforce simp: one_more_def Let_def split: if_splits)+
qed (simp_all add: one_more_def send_def stop_def)

section \<open>The invariant\<close>

definition program_inv :: "nat \<Rightarrow> config \<Rightarrow> 'el simdjson \<Rightarrow> live_program \<Rightarrow> bool" where
  "program_inv n cfg sj s \<longleftrightarrow> live_reachable n sj (lp_live s) \<and> cf_product_id (feed_of s) = cfg_product cfg \<and>
     reachable (running coinbase_ws_config) (client_step [subscribe_message (new_coinbase_feed (cfg_product cfg))] {}) (lp_client s) \<and>
     map fst (li_frames (lv_ingest (lp_live s))) = wc_received (lp_client s) \<and>
     (pl_ingest_joined (lv_pipe (lp_live s)) \<longrightarrow> loop_ended (lp_client s))"

lemma subscription_product: "cf_product_id f = product \<Longrightarrow> subscribe_message f = subscribe_message (new_coinbase_feed product)"
  by (simp add: subscribe_message_def new_coinbase_feed_def)

lemma count_product: "cf_product_id (pl_feed (ingest_count p)) = cf_product_id (pl_feed p)"
  by (simp add: ingest_count_def count_push_def split: push_phase.splits)

lemma pipeline_product: "pipeline_step p p' \<Longrightarrow> cf_product_id (pl_feed p') = cf_product_id (pl_feed p)"
  by (induction rule: pipeline_step.induct)
    (simp_all add: count_product signal_handler_def, auto dest: engine_frame(3) ingest_frame(5))

lemma live_step_product:
  assumes "live_step sj s s'"
  shows "cf_product_id (pl_feed (lv_pipe s')) = cf_product_id (pl_feed (lv_pipe s))"
  using assms
proof cases
  case (push msg batch miss p)
  then show ?thesis using ingest_frame(5) [OF push(5)] by simp
qed (use pipeline_product count_product in \<open>auto simp: live_frame_def Let_def split: Option.bind_splits\<close>)

lemma program_invariant:
  assumes "program_reachable n cfg sj s" "cfg_live cfg"
  shows "program_inv n cfg sj s"
  using assms(1)
proof induction
  case (start opened started now)
  show ?case using live_reachable.start [OF assms(2), of n sj opened started now] reachable_start [of "running coinbase_ws_config"]
    by (simp add: program_inv_def start_live_program_def feed_of_def running_def)
      (simp add: start_pipeline_def start_engine_def new_coinbase_feed_def run_client_def start_connect_def new_client_def Let_def)
next
  case (step s s')
  have sub: "subscribe_message (feed_of s) = subscribe_message (new_coinbase_feed (cfg_product cfg))"
    using step.IH by (intro subscription_product) (simp add: program_inv_def)
  have client: "reachable (running coinbase_ws_config) (client_step [subscribe_message (new_coinbase_feed (cfg_product cfg))] {}) c"
    if "client_step [subscribe_message (feed_of s)] {} (lp_client s) c" for c
    using step.IH that unfolding sub program_inv_def by (blast intro: reachable_step)
  from step.hyps(2) show ?case
  proof cases
    case (turn c)
    then show ?thesis using step.IH client [OF turn(5)] by (simp add: program_inv_def feed_of_def)
  next
    case (message c raw iter parse_now now l)
    have ls: "live_step sj (lp_live s) l" by (rule live_step.frame [OF message(2,3,4,7)])
    moreover have "li_frames (lv_ingest l) = li_frames (lv_ingest (lp_live s)) @ [(raw, iter, parse_now)]" "pl_ingest_joined (lv_pipe l) = pl_ingest_joined (lv_pipe (lp_live s))"
      using message(7) by (auto simp: live_frame_def Let_def split: Option.bind_splits)
    ultimately show ?thesis using step.IH message client [OF message(5)] live_reachable.step live_step_product [OF ls]
      by (auto simp: program_inv_def feed_of_def)
  next
    case (threads l)
    then show ?thesis using step.IH live_reachable.step live_step_product [OF threads(2)] by (auto simp: program_inv_def feed_of_def)
  next
    case join
    then show ?thesis using step.IH live_reachable.step [OF _ live_step.join, of n sj "lp_live s"] by (auto simp: program_inv_def feed_of_def)
  qed
qed

interpretation program: ingest_system n "\<lambda>s. program_reachable n cfg sj s \<and> cfg_live cfg" "\<lambda>s. lv_pipe (lp_live s)" for n cfg sj
proof unfold_locales
  show "pipeline_reachable n (lv_pipe (lp_live s))" if "program_reachable n cfg sj s \<and> cfg_live cfg" "n < 2 ^ 32" for s
    using live.projects [of n sj "lp_live s"] program_invariant [of n cfg sj s] that by (simp add: program_inv_def)
qed

section \<open>Properties\<close>

text \<open>
  C2: the live program, from the network to the book.  Take any state of the running program in which the
  feed has dropped no message, and in which the frames the WebSocket client has received have
  numbers in range and a depth that, after each row, is uncrossed and has no more levels than
  the pool has slots.  Then the messages the engine has taken produced no fill; whenever the handler has pushed and counted the
  batch of the last frame and the engine has taken all the messages, the book of the engine thread shows at
  every price of either side exactly the quantity the exchange has there, in one order, and
  nothing elsewhere; and the ingest thread is joined only when its event loop has ended.
\<close>

theorem live_program_follows_exchange:
  assumes "program_reachable n cfg sj s" "cfg_live cfg" "n < 2 ^ 32" "p = lv_pipe (lp_live s)" "i = lv_ingest (lp_live s)"
    and "cf_dropped (feed_of s) = 0" "length (li_emitted i) < 2 ^ 64"
    and "those (map (decode_frame sj) (wc_received (lp_client s))) = Some ds" "orders_permuted (li_frames i)"
    and "evs = concat (map frame_events ds)" "length evs < 2 ^ 64 - 1" "tame_depth n evs"
  shows "run_messages (pl_popped p) (new_engine n) = Some (replicate (length (pl_popped p)) [], et_engine (pl_engine p)) \<and>
    (li_batch i = [] \<and> pl_phase p = PushNext \<and> pl_popped p = pl_ingested p \<longrightarrow> shows_depth n (et_engine (pl_engine p)) (fold apply_event evs Map.empty)) \<and>
    (pl_ingest_joined p \<longrightarrow> loop_ended (lp_client s))"
proof -
  have inv: "program_inv n cfg sj s" by (rule program_invariant [OF assms(1,2)])
  have "map (\<lambda>(raw, _). decode_frame sj raw) (li_frames i) = map (decode_frame sj) (map fst (li_frames i))" by (simp add: case_prod_unfold)
  also have "map fst (li_frames i) = wc_received (lp_client s)" using inv assms(5) by (simp add: program_inv_def)
  finally have "those (map (\<lambda>(raw, _). decode_frame sj raw) (li_frames i)) = Some ds" using assms(8) by simp
  then show ?thesis using live_system_follows_exchange [of n sj "lp_live s" p i ds evs] inv assms
    by (simp add: program_inv_def feed_of_def)
qed

text \<open>The program after one snapshot with one level, once the engine has taken the order.\<close>

definition snapshot_session :: session where
  "snapshot_session = [(''snapshot'', \<lambda>xs. xs, 0)]"

definition snapshot_order :: engine_message where
  "snapshot_order = NewOrder \<lparr>n_id = 1, n_side = Bid, n_type = Limit, n_price = 10000, n_quantity = 1500000, n_timestamp = 0\<rparr>"

lemma snapshot_parsed:
  "\<exists>f. parse sample_library (\<lambda>xs. xs) 0 ''snapshot'' (new_feed, []) = Some (1, f, [snapshot_order])"
  by (simp add: parse_def sample_library_def json_library_def get_field_def consume_side_def consume_row_def reset_book_def
      sample_levels apply_level_def new_feed_def snapshot_order_def)

text \<open>The connection is set up before the first message.\<close>

lemma connected_program:
  assumes "reachable (running coinbase_ws_config) (client_step [subscribe_message (new_coinbase_feed (cfg_product cfg))] {}) c" "wc_received c = []"
  shows "program_reachable n cfg sj ((start_live_program n cfg opened started now)\<lparr>lp_client := c\<rparr>)"
  using assms
proof induction
  case (reachable_start c)
  then show ?case using program_reachable.start [of n cfg sj opened started now] by (simp add: start_live_program_def running_def)
next
  case (reachable_step c c')
  let ?s = "(start_live_program n cfg opened started now)\<lparr>lp_client := c\<rparr>"
  have quiet: "wc_received c = []" using client_step_received [OF reachable_step.hyps(2)] reachable_step.prems by (auto simp: one_more_def)
  have s: "\<not> pl_ingest_joined (lv_pipe (lp_live ?s))" "pl_phase (lv_pipe (lp_live ?s)) = PushNext" "li_batch (lv_ingest (lp_live ?s)) = []" "feed_of ?s = new_coinbase_feed (cfg_product cfg)"
    by (simp_all add: start_live_program_def feed_of_def start_pipeline_def start_engine_def Let_def)
  have "program_step sj ?s (?s\<lparr>lp_client := c'\<rparr>)"
    using reachable_step.hyps(2) reachable_step.prems quiet by (intro program_step.turn [OF s(1,2,3)]) (simp_all only: s(4), simp_all)
  then show ?case using program_reachable.step [OF reachable_step.IH [OF quiet]] by simp
qed

text \<open>The handler's work on the snapshot and the engine's on its order.\<close>

lemma snapshot_run:
  defines "s0 \<equiv> lp_live (start_live_program 8 default_config True False 0)"
  obtains s1 s2 s3 s4 where "live_frame sample_library ''snapshot'' (\<lambda>xs. xs) 0 5 s0 = Some s1"
    "live_step sample_library s1 s2" "live_step sample_library s2 s3" "live_step sample_library s3 s4"
    "\<forall>s \<in> {s1, s2, s3, s4}. li_frames (lv_ingest s) = snapshot_session \<and> pl_ingest_joined (lv_pipe s) = False" "li_emitted (lv_ingest s4) = [snapshot_order]"
    "li_batch (lv_ingest s4) = []" "pl_phase (lv_pipe s4) = PushNext" "pl_popped (lv_pipe s4) = pl_ingested (lv_pipe s4)" "cf_dropped (pl_feed (lv_pipe s4)) = 0"
proof -
  let ?p0 = "start_pipeline 8 default_config True False 0" and ?r = "\<lparr>er_miss = False, er_stop = False, er_lock = True, er_t0 = 0, er_t1 = 0\<rparr>"
  have s0: "s0 = \<lparr>lv_pipe = ?p0, lv_ingest = \<lparr>li_batch = [], li_now = 0, li_frames = [], li_emitted = []\<rparr>\<rparr>"
    by (simp add: s0_def start_live_program_def)
  have r0: "live_reachable 8 sample_library s0" unfolding s0 by (rule live_reachable.start) (simp add: default_config_def)
  have p0: "cf_handler (pl_feed ?p0) = new_feed" "cf_dropped (pl_feed ?p0) = 0" "\<not> pl_ingest_joined ?p0" "pl_live ?p0" "pl_epc ?p0 = EngPop"
      "pl_ingested ?p0 = []" "pl_popped ?p0 = []" "pl_phase ?p0 = PushNext"
    by (simp_all add: start_pipeline_def start_engine_def new_coinbase_feed_def default_config_def Let_def)
  obtain f where f: "parse sample_library (\<lambda>xs. xs) 0 ''snapshot'' (new_feed, []) = Some (1, f, [snapshot_order])" using snapshot_parsed by blast
  let ?p1 = "?p0\<lparr>pl_feed := (pl_feed ?p0)\<lparr>cf_handler := f\<rparr>\<rparr>" and ?i1 = "\<lparr>li_batch = [snapshot_order], li_now = 5, li_frames = snapshot_session, li_emitted = [snapshot_order]\<rparr>"
  let ?s1 = "\<lparr>lv_pipe = ?p1, lv_ingest = ?i1\<rparr>"
  have s1: "live_frame sample_library ''snapshot'' (\<lambda>xs. xs) 0 5 s0 = Some ?s1"
    unfolding s0 by (simp add: p0 live_frame_def f snapshot_session_def Let_def)
  have r1: "live_reachable 8 sample_library ?s1"
    by (rule live_reachable.step [OF r0 live_step.frame [OF _ _ _ s1]]) (simp_all add: s0 p0)
  obtain p2 where p2: "ingest_push False 5 snapshot_order ?p1 = Some p2" "pl_phase p2 = PushCount True" "pl_ingested p2 = pl_ingested ?p1 @ [stamp 5 snapshot_order]"
    by (rule first_push [OF live.accounts [OF r1], of 5 snapshot_order]) (auto simp: p0)
  note f2 = ingest_frame [OF p2(1)]
  let ?s2 = "\<lparr>lv_pipe = p2, lv_ingest = ?i1\<lparr>li_batch := []\<rparr>\<rparr>" and ?s3 = "\<lparr>lv_pipe = ingest_count p2, lv_ingest = ?i1\<lparr>li_batch := []\<rparr>\<rparr>"
  have s2: "live_step sample_library ?s1 ?s2" using live_step.push [of ?s1 snapshot_order "[]" False p2 sample_library] p0 p2(1) by simp
  have s3: "live_step sample_library ?s2 ?s3" using live_step.counted [of ?s2 True sample_library] p2(2) by simp
  have r3: "live_reachable 8 sample_library ?s3" by (rule live_reachable.step [OF live_reachable.step [OF r1 s2] s3])
  have p3: "pl_ingested (ingest_count p2) = [stamp 5 snapshot_order]" "pl_popped (ingest_count p2) = []" "pl_epc (ingest_count p2) = EngPop"
      "pl_phase (ingest_count p2) = PushNext" "pl_ingest_joined (ingest_count p2) = False" "cf_dropped (pl_feed (ingest_count p2)) = 0"
    using f2 p2 p0 count_frame [of p2] by (simp_all add: ingest_count_def count_push_def)
  obtain xs fs fss where h: "history 8 xs fs fss (ingest_count p2)" using live.accounts [OF r3] by (auto simp: history_ok_def)
  have xs: "xs = [stamp 5 snapshot_order]" using historyD(2) [OF h] p3 by simp
  then obtain p4 where p4: "engine_step ?r (ingest_count p2) = Some p4" "pl_popped p4 = [stamp 5 snapshot_order]"
    by (cases rule: engine_popE [OF h, of ?r, case_names small none some]) (auto simp: engine_step_def p3)
  note f4 = engine_frame [OF p4(1)]
  have s4: "live_step sample_library ?s3 (?s3\<lparr>lv_pipe := p4\<rparr>)"
    using f4 pipeline_step.engine [OF p4(1)] p3(3) by (intro live_step.others) simp_all
  show thesis by (rule that [OF s1 s2 s3 s4]) (use f2 f4 p0 p3 p4 in simp_all)
qed

lemma snapshot_depth:
  "those (map (decode_frame sample_library) [''snapshot'']) = Some [DepthSnapshot [(Bid, Level 10000 1500000)]]"
  "orders_permuted snapshot_session" "tame_depth 8 (concat (map frame_events [DepthSnapshot [(Bid, Level 10000 1500000)]]))"
proof -
  show "those (map (decode_frame sample_library) [''snapshot'']) = Some [DepthSnapshot [(Bid, Level 10000 1500000)]]"
    by (simp add: sample_decoded)
  show "orders_permuted snapshot_session" by (simp add: orders_permuted_def snapshot_session_def)
  show "tame_depth 8 (concat (map frame_events [DepthSnapshot [(Bid, Level 10000 1500000)]]))"
    by (auto simp: tame_depth_def row_events_def uncrossed_depth_def Let_def take_Cons' split: if_splits)
qed

theorem live_program_follows_exchange_witness:
  "\<exists>s. program_reachable 8 default_config sample_library s \<and> wc_received (lp_client s) = [''snapshot''] \<and>
    shows_depth 8 (et_engine (pl_engine (lv_pipe (lp_live s)))) [\<lparr>lk_price = 10000, lk_side = Bid\<rparr> \<mapsto> 1500000]"
proof -
  let ?f = "subscribe_message (new_coinbase_feed (cfg_product default_config))"
  let ?c = "subscribing coinbase_ws_config ?f" and ?start = "start_live_program 8 default_config True False 0"
  let ?c' = "on_client_read NoError ''snapshot'' (finish Reading ?c)"
  have r0: "program_reachable 8 default_config sample_library (?start\<lparr>lp_client := ?c\<rparr>)"
    by (rule connected_program [OF subscribing_reachable]) (simp add: subscribing_def new_client_def)
  obtain l1 l2 l3 l4 where l: "live_frame sample_library ''snapshot'' (\<lambda>xs. xs) 0 5 (lp_live ?start) = Some l1"
    "live_step sample_library l1 l2" "live_step sample_library l2 l3" "live_step sample_library l3 l4"
    "\<forall>s \<in> {l1, l2, l3, l4}. li_frames (lv_ingest s) = snapshot_session \<and> pl_ingest_joined (lv_pipe s) = False" "li_emitted (lv_ingest l4) = [snapshot_order]"
    "li_batch (lv_ingest l4) = []" "pl_phase (lv_pipe l4) = PushNext" "pl_popped (lv_pipe l4) = pl_ingested (lv_pipe l4)" "cf_dropped (pl_feed (lv_pipe l4)) = 0"
    by (rule snapshot_run)
  have start: "\<not> pl_ingest_joined (lv_pipe (lp_live ?start))" "pl_phase (lv_pipe (lp_live ?start)) = PushNext" "li_batch (lv_ingest (lp_live ?start)) = []" "feed_of (?start\<lparr>lp_client := ?c\<rparr>) = new_coinbase_feed (cfg_product default_config)"
    by (simp_all add: start_live_program_def feed_of_def start_pipeline_def start_engine_def Let_def)
  have "client_step [?f] {} ?c ?c'"
    by (rule client_step.completion [where x = Reading and ec = NoError and data = "''snapshot''"]) (simp_all add: subscribing_def)
  moreover have rec: "wc_received ?c' = [''snapshot'']" "wc_received ?c = []"
    by (simp_all add: on_client_read_def client_read_def subscribing_def new_client_def)
  ultimately have "program_step sample_library (?start\<lparr>lp_client := ?c\<rparr>) \<lparr>lp_client = ?c', lp_live = l1\<rparr>"
    using start l(1) by (intro program_step.message) simp_all
  then have r1: "program_reachable 8 default_config sample_library \<lparr>lp_client = ?c', lp_live = l1\<rparr>" by (rule program_reachable.step [OF r0])
  then have r2: "program_reachable 8 default_config sample_library \<lparr>lp_client = ?c', lp_live = l2\<rparr>"
    by (rule program_reachable.step) (use program_step.threads [of sample_library "\<lparr>lp_client = ?c', lp_live = l1\<rparr>" l2] l(2,5) in simp)
  then have r3: "program_reachable 8 default_config sample_library \<lparr>lp_client = ?c', lp_live = l3\<rparr>"
    by (rule program_reachable.step) (use program_step.threads [of sample_library "\<lparr>lp_client = ?c', lp_live = l2\<rparr>" l3] l(3,5) in simp)
  then have r4: "program_reachable 8 default_config sample_library \<lparr>lp_client = ?c', lp_live = l4\<rparr>"
    by (rule program_reachable.step) (use program_step.threads [of sample_library "\<lparr>lp_client = ?c', lp_live = l3\<rparr>" l4] l(4,5) in simp)
  have "shows_depth 8 (et_engine (pl_engine (lv_pipe l4))) (fold apply_event (concat (map frame_events [DepthSnapshot [(Bid, Level 10000 1500000)]])) Map.empty)"
    using live_program_follows_exchange [OF r4 _ _ refl refl _ _ _ _ refl, of "[DepthSnapshot [(Bid, Level 10000 1500000)]]"] snapshot_depth l(5-10) rec
    by (simp add: feed_of_def default_config_def row_events_def)
  then show ?thesis using r4 rec(1) by (intro exI [of _ "\<lparr>lp_client = ?c', lp_live = l4\<rparr>"]) (simp add: row_events_def)
qed

end
