(* ===== verification/Engine_Properties.thy ===== *)
theory Engine_Properties
  imports Engine_Contract
begin

text \<open>
  The properties of the matching engine, each a consequence of the contract in
  \<open>Engine_Contract\<close>.  They hold for every state a fresh engine reaches, for every pool
  size below \<open>2 ^ 32\<close>; the code uses \<open>ORDER_POOL_SIZE\<close>.  The witnesses run the sample
  stream below through the engine and evaluate it.
\<close>

abbreviation limit_order :: "OrderId \<Rightarrow> Side \<Rightarrow> Price \<Rightarrow> Quantity \<Rightarrow> new_order_message" where
  "limit_order i sd p q \<equiv> \<lparr>n_id = i, n_side = sd, n_type = Limit, n_price = p, n_quantity = q, n_timestamp = 7\<rparr>"

abbreviation market_order :: "OrderId \<Rightarrow> Side \<Rightarrow> Quantity \<Rightarrow> new_order_message" where
  "market_order i sd q \<equiv> \<lparr>n_id = i, n_side = sd, n_type = Market, n_price = 0, n_quantity = q, n_timestamp = 7\<rparr>"

text \<open>Two asks, a bid below them, and a bid that takes the cheaper ask and part of the other.\<close>

definition sample :: "engine_message list" where
  "sample = map NewOrder [limit_order 1 Ask 101 50, limit_order 2 Ask 100 30, limit_order 3 Bid 99 20,
     limit_order 4 Bid 101 60]"

definition run_to :: "nat \<Rightarrow> engine_message list \<Rightarrow> engine" where
  "run_to n msgs = snd (the (run_messages msgs (new_engine n)))"

definition side_prices :: "engine \<Rightarrow> Side \<Rightarrow> Price set" where
  "side_prices e sd = (\<lambda>a. o_price (obj (heap_of e) a)) `
     {a \<in> ran (ob_order_map (e_book e)). o_side (obj (heap_of e) a) = sd}"

definition orders_at :: "engine \<Rightarrow> Price \<Rightarrow> addr set" where
  "orders_at e p = {a \<in> ran (ob_order_map (e_book e)). o_price (obj (heap_of e) a) = p}"

section \<open>Facts shared by the properties\<close>

lemma run_to_reachable: "n < 2 ^ 32 \<Longrightarrow> engine_reachable n (run_to n msgs)"
  using eng.run_sim [OF new_engine_implements, of n msgs] reachable_run [OF engine_reachable.start, of msgs n]
  by (fastforce simp: run_to_def run_messages_eng)

lemma run_implements:
  assumes "n < 2 ^ 32"
  obtains e where "implements n e (snd (lob_run n msgs empty_lob))"
  using eng.run_sim [OF new_engine_implements [OF assms], of msgs] that by (auto simp: lob_run_eng)

lemma reachable_rep:
  assumes "engine_reachable n e" "n < 2 ^ 32"
  obtains Q fl where "engine_rep n e Q fl"
  using reachable_implements [OF assms] by (auto simp: implements_def)

lemma ran_order_map:
  assumes "engine_rep n e Q fl"
  shows "ran (ob_order_map (e_book e)) = resting Q"
  using book_linksD(4) [OF engine_repD(2) [OF assms]] by (auto simp: ran_def)

lemma side_prices_rep:
  assumes "engine_rep n e Q fl"
  shows "side_prices e sd = prices (heap_of e) (side_set (heap_of e) Q sd)"
  by (simp add: side_prices_def prices_def side_set_def ran_order_map [OF assms])

lemma process_spec:
  assumes "implements n e s" "process msg e = Some e'"
  shows "e_fills e' = fst (lob_process n msg s)" "implements n e' (snd (lob_process n msg s))"
  using eng.step_det [OF assms] by auto

text \<open>The executions of an accepted order, its fills, and the book it leaves behind.\<close>

lemma new_order_spec:
  assumes "implements n e s" "process (NewOrder msg) e = Some e'" "\<not> rejected msg"
  obtains ex r ms where
    "sweep (accepts msg) (unat (n_quantity msg)) (lob_side (opposite (n_side msg)) s) = (ex, r, ms)"
    "e_fills e' = map (to_fill msg) ex"
    "implements n e' (rest_remainder n msg r (set_lob_side (opposite (n_side msg)) ms s))"
proof -
  obtain ex r ms where "sweep (accepts msg) (unat (n_quantity msg)) (lob_side (opposite (n_side msg)) s) = (ex, r, ms)"
    by (metis prod_cases3)
  then show thesis using that process_spec [OF assms(1,2)] assms(3) by (auto simp: lob_new_def)
qed

lemma to_fill_sel [simp]:
  "f_aggressive_id (to_fill msg x) = n_id msg" "f_passive_id (to_fill msg x) = m_id (fst x)"
  "f_price (to_fill msg x) = m_price (fst x)" "f_quantity (to_fill msg x) = of_nat (snd x)"
  "f_timestamp (to_fill msg x) = n_timestamp msg" "f_aggressor_side (to_fill msg x) = n_side msg"
  by (simp_all add: to_fill_def)

lemma lob_ok_maker:
  assumes "lob_ok n s" "m \<in> set (lob_side sd s)"
  shows "0 < m_open m" "m_open m < 2 ^ 32" "0 \<le> m_price m" "m_price m < MAX_PRICE_TICKS" "m_id m \<in> lob_ids s"
  using assms by (cases sd; auto simp: lob_ok_def lob_ids_def)+

text \<open>The quantity of a fill is the executed quantity: nothing is lost in 32 bits.\<close>

lemma fill_quantity:
  assumes "sweep ok (unat (q :: Quantity)) ms = (ex, r, ms')" "x \<in> set ex"
  shows "unat (f_quantity (to_fill msg x)) = snd x"
  using sweep_executions(4) [OF assms] unsigned_less [of q]
  by (auto intro!: unat_of_nat_small order_le_less_trans [of "snd x" "unat q"])

definition open_quantity :: "Side \<Rightarrow> lob \<Rightarrow> nat" where
  "open_quantity sd s = sum_list (map m_open (lob_side sd s))"

definition filled_total :: "fill_message list \<Rightarrow> nat" where
  "filled_total fs = sum_list (map (\<lambda>f. unat (f_quantity f)) fs)"

lemma filled_total_sweep:
  assumes "sweep ok (unat (q :: Quantity)) ms = (ex, r, ms')"
  shows "filled_total (map (to_fill msg) ex) = sum_list (map snd ex)"
  using fill_quantity [OF assms, of _ msg]
  by (auto simp: filled_total_def o_def intro!: arg_cong [where f = sum_list])

lemma rest_remainder_other: "sd \<noteq> n_side msg \<Longrightarrow> lob_side sd (rest_remainder n msg r s) = lob_side sd s"
  by (simp add: rest_remainder_def rest_maker_def)

lemma open_enqueue: "sum_list (map m_open (enqueue bt m ms)) = m_open m + sum_list (map m_open ms)"
proof -
  have "sum_list (map m_open ms) = sum_list (map m_open (takeWhile P ms)) + sum_list (map m_open (dropWhile P ms))" for P
    by (metis map_append sum_list_append takeWhile_dropWhile_id)
  then show ?thesis by (simp add: enqueue_def)
qed

section \<open>Refinement and totality\<close>

text \<open>
  C1: On every stream of messages the engine returns, i.e. no null or dangling pointer is
  followed, no level outside the price grid is accessed and every loop ends; and the
  fills it returns for each message, and the book it ends in, are exactly those of the
  price-time priority specification.
\<close>

theorem engine_refines_spec:
  assumes "n < 2 ^ 32"
  shows "\<exists>e. run_messages msgs (new_engine n) = Some (fst (lob_run n msgs empty_lob), e) \<and>
    implements n e (snd (lob_run n msgs empty_lob))"
  using eng.run_sim [OF new_engine_implements [OF assms]] by (simp add: run_messages_eng lob_run_eng)

theorem engine_refines_spec_witness:
  "\<exists>e. run_messages sample (new_engine ORDER_POOL_SIZE) = Some ([[], [], [],
     [\<lparr>f_aggressive_id = 4, f_passive_id = 2, f_price = 100, f_quantity = 30, f_timestamp = 7, f_aggressor_side = Bid\<rparr>,
      \<lparr>f_aggressive_id = 4, f_passive_id = 1, f_price = 101, f_quantity = 30, f_timestamp = 7, f_aggressor_side = Bid\<rparr>]], e)"
proof -
  have "ORDER_POOL_SIZE < 2 ^ 32" by (simp add: ORDER_POOL_SIZE_def)
  from engine_refines_spec [OF this, of sample] obtain e where
    "run_messages sample (new_engine ORDER_POOL_SIZE) = Some (fst (lob_run ORDER_POOL_SIZE sample empty_lob), e)" by blast
  moreover have "fst (lob_run ORDER_POOL_SIZE sample empty_lob) = [[], [], [],
     [\<lparr>f_aggressive_id = 4, f_passive_id = 2, f_price = 100, f_quantity = 30, f_timestamp = 7, f_aggressor_side = Bid\<rparr>,
      \<lparr>f_aggressive_id = 4, f_passive_id = 1, f_price = 101, f_quantity = 30, f_timestamp = 7, f_aggressor_side = Bid\<rparr>]]"
    by (simp add: sample_def lob_new_def rejected_def accepts_def rest_remainder_def rest_maker_def enqueue_def
        lob_size_def lob_ids_def empty_lob_def to_fill_def ORDER_POOL_SIZE_def MAX_PRICE_TICKS_def)
  ultimately show ?thesis by auto
qed

text \<open>
  In every reachable state, processing any message at all (also one that is rejected,
  crosses the whole book, or names an unknown order) returns and leads to a reachable state.
\<close>

lemma process_total:
  assumes "engine_reachable n e" "n < 2 ^ 32"
  shows "\<exists>e'. process msg e = Some e' \<and> engine_reachable n e'"
  using reachable_implements [OF assms] process_implements engine_reachable.step [OF assms(1)] by blast

section \<open>Prices\<close>

text \<open>
  C3: The book is never crossed or locked: when both sides hold orders, the best bid is
  strictly below the best ask, so the spread is positive.
\<close>

theorem book_uncrossed:
  assumes "engine_reachable n e" "n < 2 ^ 32" "has_bids (e_book e)" "has_asks (e_book e)"
  shows "best_bid (e_book e) < best_ask (e_book e) \<and> 0 < spread (e_book e)"
proof -
  obtain s where s: "implements n e s" using reachable_implements [OF assms(1,2)] by blast
  note v = implements_view [OF s]
  obtain x xs y ys where "lob_bids s = x # xs" "lob_asks s = y # ys"
    using v(2,3) assms(3,4) by (meson list.exhaust)
  then show ?thesis
    using v(1,4,5) by (auto simp: lob_ok_def spread_def best_bid_def best_ask_def)
qed

theorem book_uncrossed_witness:
  "best_bid (e_book (run_to 4 sample)) < best_ask (e_book (run_to 4 sample)) \<and> 0 < spread (e_book (run_to 4 sample))"
proof (rule book_uncrossed [OF run_to_reachable])
  show "has_bids (e_book (run_to 4 sample))" by code_simp
  show "has_asks (e_book (run_to 4 sample))" by code_simp
qed simp_all

text \<open>
  C4: The cached best prices are exact: \<open>best_bid\<close> is the highest price of a resting bid
  and \<open>best_ask\<close> the lowest of a resting ask, whatever adds, fills and cancels happened
  before; on an empty side they are the sentinels 0 and \<open>MAX_PRICE_TICKS - 1\<close>, and
  \<open>has_bids\<close> and \<open>has_asks\<close> tell the cases apart.
\<close>

theorem best_prices_exact:
  assumes "engine_reachable n e" "n < 2 ^ 32"
  shows "best_bid (e_book e) = (if has_bids (e_book e) then Max (side_prices e Bid) else 0) \<and>
    best_ask (e_book e) = (if has_asks (e_book e) then Min (side_prices e Ask) else MAX_PRICE_TICKS - 1) \<and>
    has_bids (e_book e) = (side_prices e Bid \<noteq> {}) \<and> has_asks (e_book e) = (side_prices e Ask \<noteq> {}) \<and>
    finite (side_prices e Bid) \<and> finite (side_prices e Ask)"
proof -
  obtain Q fl where rep: "engine_rep n e Q fl" by (rule reachable_rep [OF assms])
  note bl = engine_repD(2) [OF rep] and sp = side_prices_rep [OF rep]
  show ?thesis
    using engine_repD(1) [OF rep] has_bids_rep [OF bl] has_asks_rep [OF bl] finite_prices [OF bl]
    by (auto simp: sp book_rep_def best_prices_def best_bid_def best_ask_def)
qed

theorem best_prices_exact_witness:
  "best_bid (e_book (run_to 4 sample)) = 99 \<and> best_ask (e_book (run_to 4 sample)) = 101 \<and>
   Max (side_prices (run_to 4 sample) Bid) = 99 \<and> Min (side_prices (run_to 4 sample) Ask) = 101"
proof -
  have "has_bids (e_book (run_to 4 sample)) = True" "has_asks (e_book (run_to 4 sample)) = True"
    "best_bid (e_book (run_to 4 sample)) = 99" "best_ask (e_book (run_to 4 sample)) = 101"
    by code_simp+
  then show ?thesis using best_prices_exact [OF run_to_reachable, of 4 sample] by simp
qed


section \<open>Slots and aggregates\<close>

text \<open>
  C5: No slot is leaked or handed out twice: in every reachable state the free slots and
  the orders in the identifier map add up to the size of the pool, and the per-side
  counters add up to the orders in the map.
\<close>

theorem pool_conserved:
  assumes "engine_reachable n e" "n < 2 ^ 32"
  shows "unat (pool_available e) + card (dom (ob_order_map (e_book e))) = n \<and>
    unat (bid_count (e_book e)) + unat (ask_count (e_book e)) = card (dom (ob_order_map (e_book e)))"
proof -
  obtain s where s: "implements n e s" using reachable_implements [OF assms] by blast
  note v = implements_view [OF s]
  have small: "m \<le> n \<Longrightarrow> unat (of_nat m :: 64 word) = m" for m
    using assms(2) by (intro unat_of_nat_small) simp
  have "lob_size s \<le> n" "length (lob_bids s) \<le> n" "length (lob_asks s) \<le> n"
    using v(1) by (auto simp: lob_ok_def lob_size_def)
  moreover have "unat (pool_available e) = n - lob_size s" unfolding v(7) by (rule small) simp
  ultimately show ?thesis using v(8-10) by (simp add: small lob_size_def)
qed

theorem pool_conserved_witness:
  "unat (pool_available (run_to 4 sample)) + card (dom (ob_order_map (e_book (run_to 4 sample)))) = 4 \<and>
   unat (bid_count (e_book (run_to 4 sample))) + unat (ask_count (e_book (run_to 4 sample))) =
     card (dom (ob_order_map (e_book (run_to 4 sample))))"
  by (rule pool_conserved [OF run_to_reachable]) simp_all

text \<open>
  C6: Every level of the price grid agrees with the orders resting at it: its count is
  their number, its aggregate is the sum of their remaining quantities modulo \<open>2 ^ 32\<close>,
  and it is empty exactly when there are none.
\<close>

theorem level_aggregates:
  assumes "engine_reachable n e" "n < 2 ^ 32" "get_level (e_book e) p = Some lv"
  shows "finite (orders_at e p) \<and> unat (order_count lv) = card (orders_at e p) \<and>
    total_quantity lv = of_nat (\<Sum>a\<in>orders_at e p. unat (remaining_quantity (obj (heap_of e) a))) \<and>
    level_empty lv = (orders_at e p = {})"
proof -
  obtain Q fl where rep: "engine_rep n e Q fl" by (rule reachable_rep [OF assms(1,2)])
  note bl = engine_repD(2) [OF rep]
  have p: "0 \<le> p" "p < MAX_PRICE_TICKS" "lv = ob_levels (e_book e) p"
    using assms(3) by (auto simp: get_level_def split: if_splits)
  have lr: "level_rep (heap_of e) lv (Q p)" using book_linksD(1) [OF bl p(1,2)] p(3) by simp
  have at: "orders_at e p = set (Q p)"
    using book_linksD(3) [OF bl] resting_queue(1) [OF bl] queue_resting
    by (fastforce simp: orders_at_def ran_order_map [OF rep])
  have d: "distinct (Q p)" using lr by (simp add: level_rep_def)
  have "card (set (Q p)) \<le> card (resting Q)"
    using book_linksD(5) [OF bl] queue_resting by (intro card_mono) blast+
  then have len: "length (Q p) < 2 ^ LENGTH(32)" using distinct_card [OF d] book_linksD(6) [OF bl] by simp
  have "open_sum (heap_of e) xs = of_nat (\<Sum>a\<leftarrow>xs. unat (remaining_quantity (obj (heap_of e) a)))" for xs
    by (induction xs) (simp_all add: open_sum_def)
  then have "total_quantity lv = of_nat (\<Sum>a\<in>set (Q p). unat (remaining_quantity (obj (heap_of e) a)))"
    using lr by (simp add: total_quantity_def level_rep_def sum.distinct_set_conv_list [OF d])
  then show ?thesis
    using lr len distinct_card [OF d] level_empty_rep [OF lr]
    by (simp add: at order_count_def level_rep_def unat_of_nat_small)
qed

theorem level_aggregates_witness:
  "\<exists>lv. get_level (e_book (run_to 4 sample)) 101 = Some lv \<and> total_quantity lv = 20 \<and>
     unat (order_count lv) = card (orders_at (run_to 4 sample) 101)"
proof -
  define lv where "lv = ob_levels (e_book (run_to 4 sample)) 101"
  have lv: "get_level (e_book (run_to 4 sample)) 101 = Some lv"
    by (simp add: get_level_def lv_def MAX_PRICE_TICKS_def)
  have "total_quantity (ob_levels (e_book (run_to 4 sample)) 101) = 20" by code_simp
  then show ?thesis using level_aggregates [OF run_to_reachable _ lv] lv by (simp add: lv_def)
qed


text \<open>
  C7: The orders that rest are sound: each has a positive remaining quantity not above
  its original size, a price on the grid, is found under its own identifier, and sits in
  a slot of the pool.
\<close>

theorem resting_orders_sound:
  assumes "engine_reachable n e" "n < 2 ^ 32" "get_order (e_book e) i = Some a"
  shows "live (heap_of e) a \<and> a < n \<and> o_id (obj (heap_of e) a) = i \<and>
    0 < remaining_quantity (obj (heap_of e) a) \<and>
    remaining_quantity (obj (heap_of e) a) \<le> o_quantity (obj (heap_of e) a) \<and>
    0 \<le> o_price (obj (heap_of e) a) \<and> o_price (obj (heap_of e) a) < MAX_PRICE_TICKS"
proof -
  obtain Q fl where rep: "engine_rep n e Q fl" by (rule reachable_rep [OF assms(1,2)])
  note bl = engine_repD(2) [OF rep]
  have a: "a \<in> resting Q" "o_id (obj (heap_of e) a) = i" using get_order_rep [OF bl] assms(3) by auto
  have open_pos: "0 < remaining_quantity (obj (heap_of e) a)"
    using maker_open_pos [OF rep a(1)] by (simp add: maker_of_def word_gt_0_unat)
  have "o_filled_quantity (obj (heap_of e) a) \<le> o_quantity (obj (heap_of e) a)"
    using engine_repD(7) [OF rep a(1)] by (simp add: is_filled_def)
  then have "remaining_quantity (obj (heap_of e) a) \<le> o_quantity (obj (heap_of e) a)"
    by (simp add: remaining_quantity_def word_le_nat_alt unat_sub)
  then show ?thesis
    using open_pos a resting_queue [OF bl a(1)] engine_repD(5) [OF rep] by auto
qed

theorem resting_orders_sound_witness:
  "\<exists>a. get_order (e_book (run_to 4 sample)) 1 = Some a \<and> a < 4 \<and> remaining_quantity (obj (heap_of (run_to 4 sample)) a) > 0"
proof -
  have "(get_order (e_book (run_to 4 sample)) 1 = None) = False" by code_simp
  then obtain a where "get_order (e_book (run_to 4 sample)) 1 = Some a" by auto
  with resting_orders_sound [OF run_to_reachable _ this] show ?thesis by simp
qed

section \<open>New orders\<close>

text \<open>
  C8: Price-time priority: the makers an order trades with are the first ones of the
  opposite side in priority order, at their own prices; all but the last are executed
  completely before the next one is touched.
\<close>

theorem fills_price_time:
  assumes "implements n e s" "process (NewOrder msg) e = Some e'" "\<not> rejected msg"
  defines "ms \<equiv> lob_side (opposite (n_side msg)) s" and "fs \<equiv> e_fills e'"
  shows "map f_passive_id fs = map m_id (take (length fs) ms) \<and>
    map f_price fs = map m_price (take (length fs) ms) \<and>
    (\<forall>i. Suc i < length fs \<longrightarrow> unat (f_quantity (fs ! i)) = m_open (ms ! i)) \<and>
    by_priority (opposite (n_side msg)) ms"
proof -
  obtain ex r ms' where sw: "sweep (accepts msg) (unat (n_quantity msg)) ms = (ex, r, ms')"
    and fs: "fs = map (to_fill msg) ex"
    unfolding ms_def fs_def by (rule new_order_spec [OF assms(1-3)])
  have pr: "by_priority (opposite (n_side msg)) ms"
    using implements_view(1) [OF assms(1)] by (cases "n_side msg") (auto simp: lob_ok_def ms_def)
  have shape: "map fst ex = take (length ex) ms \<and> (\<forall>i. Suc i < length ex \<longrightarrow> snd (ex ! i) = m_open (ms ! i))"
    by (rule sweep_shape [OF sw]) (auto simp: o_def nth_append)
  have q: "unat (f_quantity (fs ! i)) = m_open (ms ! i)" if "Suc i < length fs" for i
    using that shape fill_quantity [OF sw, of "ex ! i" msg] by (simp add: fs)
  moreover have "map f_passive_id fs = map m_id (map fst ex)" "map f_price fs = map m_price (map fst ex)"
    by (simp_all add: fs o_def)
  ultimately show ?thesis using shape pr fs by simp
qed

theorem fills_price_time_witness:
  "\<exists>e e'. process (NewOrder (limit_order 4 Bid 101 60)) e = Some e' \<and> map f_passive_id (e_fills e') = [2, 1]"
proof -
  obtain e where e: "implements 4 e (snd (lob_run 4 (take 3 sample) empty_lob))"
    by (rule run_implements [of 4]) simp
  let ?m = "limit_order 4 Bid 101 60"
  obtain e' where e': "process (NewOrder ?m) e = Some e'" "e_fills e' = fst (lob_new 4 ?m (snd (lob_run 4 (take 3 sample) empty_lob)))"
    using process_implements [OF e, of "NewOrder ?m"] by auto
  have "length (fst (lob_new 4 ?m (snd (lob_run 4 (take 3 sample) empty_lob)))) = 2" by code_simp
  moreover have "map m_id (lob_asks (snd (lob_run 4 (take 3 sample) empty_lob))) = [2, 1]" by code_simp
  moreover have "\<not> rejected ?m" by code_simp
  ultimately have "map f_passive_id (e_fills e') = [2, 1]"
    using fills_price_time [OF e e'(1)] e'(2) by (auto simp: take_map)
  with e'(1) show ?thesis by (intro exI conjI)
qed

text \<open>
  C9: Every fill names the incoming order, its side and its timestamp and an order that
  was resting; its quantity is positive and at most what was asked for; and a limit
  order never trades at a price worse than its limit.
\<close>

theorem fills_respect_limit:
  assumes "engine_reachable n e" "n < 2 ^ 32" "process (NewOrder msg) e = Some e'" "f \<in> set (e_fills e')"
  shows "f_aggressive_id f = n_id msg \<and> f_timestamp f = n_timestamp msg \<and> f_aggressor_side f = n_side msg \<and>
    get_order (e_book e) (f_passive_id f) \<noteq> None \<and> 0 < f_quantity f \<and> f_quantity f \<le> n_quantity msg \<and>
    0 \<le> f_price f \<and> f_price f < MAX_PRICE_TICKS \<and>
    (n_type msg = Limit \<longrightarrow> (case n_side msg of Bid \<Rightarrow> f_price f \<le> n_price msg | Ask \<Rightarrow> n_price msg \<le> f_price f))"
proof -
  obtain s where s: "implements n e s" using reachable_implements [OF assms(1,2)] by blast
  note v = implements_view [OF s]
  have nr: "\<not> rejected msg" using process_spec(1) [OF s assms(3)] assms(4) by (auto simp: lob_new_def)
  obtain ex r ms where sw: "sweep (accepts msg) (unat (n_quantity msg)) (lob_side (opposite (n_side msg)) s) = (ex, r, ms)"
    and fs: "e_fills e' = map (to_fill msg) ex"
    using new_order_spec [OF s assms(3) nr] by blast
  obtain x where x: "x \<in> set ex" "f = to_fill msg x" using assms(4) fs by auto
  note ex = sweep_executions [OF sw x(1)] and m = lob_ok_maker [OF v(1) sweep_executions(2) [OF sw x(1)]]
  have "0 < snd x" using sweep_positive [OF sw x(1)] lob_ok_maker(1) [OF v(1)] by blast
  then have q: "0 < f_quantity f" "f_quantity f \<le> n_quantity msg"
    using fill_quantity [OF sw x(1), of msg] ex(4) x(2) by (simp_all add: word_gt_0_unat word_le_nat_alt)
  show ?thesis using q ex(1) m v(6) [of "m_id (fst x)"] x(2) by (cases "n_side msg") (auto simp: accepts_def)
qed

theorem fills_respect_limit_witness:
  "\<exists>e'. process (NewOrder (limit_order 5 Ask 90 5)) (run_to 4 sample) = Some e' \<and>
     length (e_fills e') = 1 \<and> list_all (\<lambda>f. 90 \<le> f_price f \<and> f_aggressive_id f = 5) (e_fills e')"
proof -
  let ?m = "limit_order 5 Ask 90 5"
  have "map_option (\<lambda>e'. length (e_fills e')) (process (NewOrder ?m) (run_to 4 sample)) = Some 1" by code_simp
  then obtain e' where e': "process (NewOrder ?m) (run_to 4 sample) = Some e'" "length (e_fills e') = 1" by auto
  then show ?thesis using fills_respect_limit [OF run_to_reachable _ e'(1)] by (auto simp: list_all_iff)
qed


text \<open>
  C10: Quantity is conserved.  An accepted order executes at most its quantity; the
  opposite side loses exactly what was executed; the own side gains nothing, or exactly
  the unexecuted remainder (and then the order is a limit order).
\<close>

theorem quantity_conserved:
  assumes "implements n e s" "process (NewOrder msg) e = Some e'" "\<not> rejected msg"
  defines "sd \<equiv> n_side msg" and "filled \<equiv> filled_total (e_fills e')"
  shows "\<exists>s'. implements n e' s' \<and> filled \<le> unat (n_quantity msg) \<and>
    open_quantity (opposite sd) s = open_quantity (opposite sd) s' + filled \<and>
    (open_quantity sd s' = open_quantity sd s \<or>
     n_type msg = Limit \<and> open_quantity sd s' = open_quantity sd s + (unat (n_quantity msg) - filled))"
proof -
  obtain ex r ms where sw: "sweep (accepts msg) (unat (n_quantity msg)) (lob_side (opposite sd) s) = (ex, r, ms)"
    and fs: "e_fills e' = map (to_fill msg) ex"
    and imp: "implements n e' (rest_remainder n msg r (set_lob_side (opposite sd) ms s))" (is "implements n e' ?s")
    unfolding sd_def by (rule new_order_spec [OF assms(1-3)])
  note cons = sweep_conserves [OF sw]
  have f: "filled = sum_list (map snd ex)" unfolding filled_def fs by (rule filled_total_sweep [OF sw])
  have "open_quantity (opposite sd) ?s = sum_list (map m_open ms)"
    by (simp add: open_quantity_def rest_remainder_other sd_def)
  moreover have "open_quantity sd ?s = open_quantity sd s \<or>
      n_type msg = Limit \<and> open_quantity sd ?s = open_quantity sd s + r"
    by (auto simp: open_quantity_def rest_remainder_def rest_maker_def open_enqueue sd_def)
  ultimately show ?thesis
    using imp cons f by (intro exI [of _ ?s]) (auto simp: open_quantity_def)
qed

theorem quantity_conserved_witness:
  "\<exists>e e' s'. process (NewOrder (limit_order 4 Bid 101 60)) e = Some e' \<and> implements 4 e' s' \<and>
     open_quantity Ask s' + filled_total (e_fills e') = 80"
proof -
  obtain e where e: "implements 4 e (snd (lob_run 4 (take 3 sample) empty_lob))"
    by (rule run_implements [of 4]) simp
  obtain e' where e': "process (NewOrder (limit_order 4 Bid 101 60)) e = Some e'"
    using process_implements [OF e] by blast
  have "open_quantity Ask (snd (lob_run 4 (take 3 sample) empty_lob)) = 80" by code_simp
  moreover have "\<not> rejected (limit_order 4 Bid 101 60)" by code_simp
  ultimately obtain s' where "implements 4 e' s'" "open_quantity Ask s' + filled_total (e_fills e') = 80"
    using quantity_conserved [OF e e'] by auto
  with e' show ?thesis by (intro exI conjI)
qed

text \<open>
  C11: A marketable order trades, and first of all with the oldest order at the best
  opposite price.
\<close>

theorem crossing_order_trades:
  assumes "engine_reachable n e" "n < 2 ^ 32" "process (NewOrder msg) e = Some e'" "\<not> rejected msg"
  defines "p \<equiv> best_of (opposite (n_side msg)) (e_book e)"
  assumes "case n_side msg of Bid \<Rightarrow> has_asks (e_book e) | Ask \<Rightarrow> has_bids (e_book e)" "accepts msg p"
  shows "\<exists>lv a. get_level (e_book e) p = Some lv \<and> front lv = Some a \<and> e_fills e' \<noteq> [] \<and>
    f_price (hd (e_fills e')) = p \<and> f_passive_id (hd (e_fills e')) = o_id (obj (heap_of e) a)"
proof -
  obtain Q fl where rep: "engine_rep n e Q fl" by (rule reachable_rep [OF assms(1,2)])
  let ?h = "heap_of e" and ?sd = "opposite (n_side msg)"
  note bl = engine_repD(2) [OF rep]
  have ne: "side_set ?h Q ?sd \<noteq> {}"
    using has_asks_rep [OF bl] has_bids_rep [OF bl] assms(6) by (cases "n_side msg") auto
  obtain rest where pr: "priority ?h Q ?sd = Q p @ rest" "0 \<le> p" "p < MAX_PRICE_TICKS" "Q p \<noteq> []"
    unfolding p_def by (rule priority_best [OF engine_repD(1) [OF rep] ne])
  obtain a as where q: "Q p = a # as" using pr(4) by (cases "Q p") auto
  have lv: "get_level (e_book e) p = Some (ob_levels (e_book e) p)" "front (ob_levels (e_book e) p) = Some a"
    using pr(2,3) front_rep [OF book_linksD(1) [OF bl pr(2,3)]] q by (simp_all add: get_level_def)
  have price: "o_price (obj ?h a) = p" using book_linksD(3) [OF bl, of a p] q by simp
  have imp: "implements n e (lob_of e Q)" using rep by (auto simp: implements_def)
  obtain ex r ms where sw: "sweep (accepts msg) (unat (n_quantity msg)) (lob_side ?sd (lob_of e Q)) = (ex, r, ms)"
    and fs: "e_fills e' = map (to_fill msg) ex"
    by (rule new_order_spec [OF imp assms(3,4)])
  have "lob_side ?sd (lob_of e Q) = maker_of ?h a # map (maker_of ?h) (as @ rest)"
    using pr(1) q by (simp add: side_makers_def)
  moreover have "unat (n_quantity msg) \<noteq> 0" using assms(4) by (auto simp: rejected_def unat_eq_zero)
  ultimately obtain k ex1 where "ex = (maker_of ?h a, k) # ex1"
    using sw price assms(7) by (auto simp: maker_of_def split: if_splits prod.splits)
  then show ?thesis using lv fs price by (auto simp: maker_of_def)
qed

theorem crossing_order_trades_witness:
  "\<exists>e'. process (NewOrder (market_order 8 Bid 5)) (run_to 4 sample) = Some e' \<and> f_price (hd (e_fills e')) = 101"
proof -
  obtain e' where e': "process (NewOrder (market_order 8 Bid 5)) (run_to 4 sample) = Some e'"
    using process_implements reachable_implements [OF run_to_reachable, of 4] by fastforce
  have "has_asks (e_book (run_to 4 sample))" by code_simp
  moreover have "best_ask (e_book (run_to 4 sample)) = 101" by code_simp
  moreover have "\<not> rejected (market_order 8 Bid 5)" by code_simp
  ultimately show ?thesis
    using crossing_order_trades [OF run_to_reachable _ e'] e' by (auto simp: best_of_def accepts_def)
qed

section \<open>Cancellation, duplicates, exhaustion\<close>

text \<open>
  C12: A cancellation always returns.  It reports whether the identifier was in the book,
  takes exactly that order out of the priority lists (all others keep their places),
  gives its slot back, and produces no fill; cancelling an unknown identifier changes
  nothing.
\<close>

theorem cancel_exact:
  assumes "implements n e s"
  shows "\<exists>e'. process_cancel msg e = Some (get_order (e_book e) (c_id msg) \<noteq> None, e') \<and>
    implements n e' (lob_cancel (c_id msg) s) \<and> e_fills e' = e_fills e \<and>
    get_order (e_book e') (c_id msg) = None \<and>
    (\<forall>i. i \<noteq> c_id msg \<longrightarrow> (get_order (e_book e') i \<noteq> None) = (get_order (e_book e) i \<noteq> None)) \<and>
    (get_order (e_book e) (c_id msg) = None \<longrightarrow> e' = e) \<and>
    pool_available e' = pool_available e + (if get_order (e_book e) (c_id msg) = None then 0 else 1)"
proof -
  obtain Q fl where rep: "engine_rep n e Q fl" and s: "lob_of e Q = s" using assms by (auto simp: implements_def)
  note v = implements_view [OF assms]
  obtain e' Q' fl' where c: "process_cancel msg e = Some (c_id msg \<in> lob_ids s, e')" "engine_rep n e' Q' fl'"
      "e_fills e' = e_fills e" "lob_of e' Q' = lob_cancel (c_id msg) s"
    using process_cancel_rep [OF rep, of msg] s by blast
  have imp: "implements n e' (lob_cancel (c_id msg) s)" using c(2,4) by (auto simp: implements_def)
  note w = implements_view [OF imp]
  have ids: "lob_ids (lob_cancel (c_id msg) s) = lob_ids s - {c_id msg}"
    by (auto simp: lob_ids_def lob_cancel_def)
  have same: "e' = e" if "get_order (e_book e) (c_id msg) = None"
    using that c(1) by (simp add: process_cancel_def)
  have pool: "pool_available e' = pool_available e + 1" if "get_order (e_book e) (c_id msg) \<noteq> None"
    using that c(1) by (auto simp: process_cancel_def release_def pool_available_def available_def deallocate_def
        destroy_def split: Option.bind_splits)
  show ?thesis
    using c(1,3) imp v(6) w(6) [of "c_id msg"] w(6) ids same pool by (intro exI [of _ e']) auto
qed

theorem cancel_exact_witness:
  "\<exists>e e'. process_cancel \<lparr>c_id = 2, c_timestamp = 0\<rparr> e = Some (True, e') \<and> get_order (e_book e') 2 = None \<and>
     get_order (e_book e') 1 \<noteq> None"
proof -
  let ?s = "snd (lob_run 4 (take 3 sample) empty_lob)"
  obtain e where e: "implements 4 e ?s"
    by (rule run_implements [of 4]) simp
  have "(2 \<in> lob_ids ?s) = True" "(1 \<in> lob_ids ?s) = True" by code_simp+
  then have g: "get_order (e_book e) 2 \<noteq> None" "get_order (e_book e) 1 \<noteq> None"
    using implements_view(6) [OF e] by auto
  obtain e' where "process_cancel \<lparr>c_id = 2, c_timestamp = 0\<rparr> e = Some (get_order (e_book e) 2 \<noteq> None, e')"
      "get_order (e_book e') 2 = None" "\<forall>i. i \<noteq> 2 \<longrightarrow> (get_order (e_book e') i \<noteq> None) = (get_order (e_book e) i \<noteq> None)"
    using cancel_exact [OF e, of "\<lparr>c_id = 2, c_timestamp = 0\<rparr>"] by auto
  with g show ?thesis by (intro exI [of _ e] exI [of _ e']) simp
qed

text \<open>What the sweep of an order leaves of the opposite side.\<close>

definition unswept :: "new_order_message \<Rightarrow> lob \<Rightarrow> maker list" where
  "unswept msg s = snd (snd (sweep (accepts msg) (unat (n_quantity msg)) (lob_side (opposite (n_side msg)) s)))"

text \<open>
  C13: A remainder that cannot rest is discarded, and nothing else happens: for a market
  order, for a limit order whose identifier rests on its own side or is still on the opposite side
  after the sweep, and for an order that trades with nobody while the pool has no free slot, the fills are those of the
  specification, the own side of the book is unchanged, and the opposite side is what the sweep
  leaves; in the last case the whole book is unchanged, and the pool stays empty.
\<close>

theorem remainder_discarded:
  assumes imp: "implements n e s" and step: "process (NewOrder msg) e = Some e'"
    and cannot: "n_type msg = Market \<or> n_id msg \<in> m_id ` set (lob_side (n_side msg) s @ unswept msg s) \<or> (pool_available e = 0 \<and> e_fills e' = [])"
  shows "\<exists>s'. implements n e' s' \<and> lob_side (n_side msg) s' = lob_side (n_side msg) s \<and>
    lob_side (opposite (n_side msg)) s' = (if rejected msg then lob_side (opposite (n_side msg)) s else unswept msg s) \<and>
    e_fills e' = fst (lob_new n msg s) \<and> (pool_available e = 0 \<and> e_fills e' = [] \<longrightarrow> s' = s \<and> pool_available e' = 0)"
proof (cases "rejected msg")
  case True
  then have "implements n e' s" "e_fills e' = fst (lob_new n msg s)"
    using process_spec [OF imp step] by (auto simp: lob_new_def)
  then show ?thesis using implements_view(7) [OF imp] implements_view(7) True by (intro exI [of _ s]) fastforce
next
  case False
  note v = implements_view [OF imp]
  let ?sd = "opposite (n_side msg)"
  obtain ex r ms where sw: "sweep (accepts msg) (unat (n_quantity msg)) (lob_side ?sd s) = (ex, r, ms)"
    and fs: "e_fills e' = map (to_fill msg) ex"
    and imp': "implements n e' (rest_remainder n msg r (set_lob_side ?sd ms s))"
    by (rule new_order_spec [OF imp step False])
  let ?s = "set_lob_side ?sd ms s"
  have ms: "unswept msg s = ms" by (simp add: unswept_def sw)
  have still: "?s = s" if "e_fills e' = []"
  proof -
    have "ms = lob_side ?sd s" by (rule sweep_shape [OF sw]) (use fs that in auto)
    then show ?thesis by (intro lob_eqI) simp
  qed
  have full: "lob_size s = n" if "pool_available e = 0"
  proof -
    have "n - lob_size s < 2 ^ LENGTH(64)" using v(11) by simp
    then have "n - lob_size s = 0" using v(7) that unat_of_nat_small [where ?'a = 64] by fastforce
    then show ?thesis using v(1) by (simp add: lob_ok_def)
  qed
  have "rest_remainder n msg r ?s = ?s"
    using cannot
  proof (elim disjE conjE)
    assume "n_id msg \<in> m_id ` set (lob_side (n_side msg) s @ unswept msg s)"
    then have "n_id msg \<in> lob_ids ?s" unfolding ms by (cases "n_side msg") (force simp: lob_ids_def)+
    then show ?thesis by (simp add: rest_remainder_def)
  qed (use still full in \<open>simp_all add: rest_remainder_def\<close>)
  then have "implements n e' ?s" using imp' by simp
  moreover have "lob_side (n_side msg) ?s = lob_side (n_side msg) s" "lob_side ?sd ?s = ms" by (cases "n_side msg"; simp)+
  ultimately show ?thesis
    using process_spec(1) [OF imp step] still full implements_view(7) False ms
    by (intro exI [of _ ?s]) fastforce
qed

theorem remainder_discarded_witness:
  "\<exists>e e' s'. process (NewOrder (limit_order 1 Bid 100 40)) e = Some e' \<and> implements 4 e' s' \<and>
     lob_bids s' = [\<lparr>m_id = 3, m_price = 99, m_open = 20\<rparr>] \<and> lob_asks s' = [\<lparr>m_id = 1, m_price = 101, m_open = 50\<rparr>]"
proof -
  let ?s = "snd (lob_run 4 (take 3 sample) empty_lob)" and ?m = "limit_order 1 Bid 100 40"
  obtain e where e: "implements 4 e ?s"
    by (rule run_implements [of 4]) simp
  obtain e' where e': "process (NewOrder ?m) e = Some e'"
    using process_implements [OF e] by blast
  have b: "lob_bids ?s = [\<lparr>m_id = 3, m_price = 99, m_open = 20\<rparr>]" "unswept ?m ?s = [\<lparr>m_id = 1, m_price = 101, m_open = 50\<rparr>]" "\<not> rejected ?m"
    by code_simp+
  then have "n_id ?m \<in> m_id ` set (lob_side (n_side ?m) ?s @ unswept ?m ?s)" by simp
  then obtain s' where "implements 4 e' s'" "lob_bids s' = lob_bids ?s" "lob_asks s' = unswept ?m ?s"
    using remainder_discarded [OF e e'] b(3) by (auto simp: opposite_def)
  with e' b show ?thesis by (intro exI [of _ e] exI [of _ e'] exI [of _ s']) simp
qed

text \<open>
  The aggregate of a level is a 32-bit counter and wraps: two resting asks of
  \<open>2 ^ 31\<close> units at one price leave a level with two orders whose \<open>total_quantity\<close> is 0.
  The comment in \<^verbatim>\<open>core/price_level.h\<close> says that the aggregate is the sum of the
  remaining quantities; that holds modulo \<open>2 ^ 32\<close> only.
\<close>

lemma level_total_wraps:
  "map_option (\<lambda>lv. (total_quantity lv, order_count lv, level_empty lv))
     (get_level (e_book (run_to 2 (map NewOrder
        [limit_order 1 Ask 100 2147483648, limit_order 2 Ask 100 2147483648]))) 100) = Some (0, 2, False)"
  by code_simp

end
