(* ===== verification/Spsc_Concurrent.thy ===== *)
theory Spsc_Concurrent
  imports Spsc_Queue
begin

text \<open>
  The queue with its two threads interleaved.  Each thread is a program counter into
  \<^verbatim>\<open>try_push\<close> or \<^verbatim>\<open>try_pop\<close>, and every access to shared memory is a step of its own.
  The two atomic indices follow the release/acquire discipline of the source: an
  acquire load may return any value of the modification order that is not older than
  the last one this thread has read, so a thread may work with a stale view of the other.
  \<open>s_pushed\<close> and \<open>s_popped\<close> record the items of the operations that returned true.
\<close>

datatype 'a push_pc =
    PIdle
  | PCheck 'a "64 word" "64 word"
  | PWrite 'a "64 word" "64 word"
  | PPublish 'a "64 word"

datatype 'a pop_pc =
    CIdle
  | CCheck "64 word"
  | CRead "64 word"
  | CPublish 'a "64 word"

record 'a spsc_sys =
  s_queue :: "'a spsc"
  s_ppc :: "'a push_pc"
  s_cpc :: "'a pop_pc"
  s_heads :: "64 word list"
  s_tails :: "64 word list"
  s_head_seen :: nat
  s_tail_seen :: nat
  s_pushed :: "'a list"
  s_popped :: "'a list"

definition spsc_start :: "64 word \<Rightarrow> 'a \<Rightarrow> 'a spsc_sys" where
  "spsc_start cap zero = \<lparr>s_queue = new_spsc cap zero, s_ppc = PIdle, s_cpc = CIdle, s_heads = [0], s_tails = [0],
     s_head_seen = 0, s_tail_seen = 0, s_pushed = [], s_popped = []\<rparr>"

inductive push_step :: "64 word \<Rightarrow> 'a spsc_sys \<Rightarrow> 'a spsc_sys \<Rightarrow> bool" for cap where
  load_head: "s_ppc s = PIdle \<Longrightarrow>
    push_step cap s (s\<lparr>s_ppc := PCheck x (q_head (s_queue s)) (next_index cap (q_head (s_queue s)))\<rparr>)"
| has_room: "s_ppc s = PCheck x h n \<Longrightarrow> n \<noteq> q_tail_cache (s_queue s) \<Longrightarrow> push_step cap s (s\<lparr>s_ppc := PWrite x h n\<rparr>)"
| reload_tail: "s_ppc s = PCheck x h n \<Longrightarrow> n = q_tail_cache (s_queue s) \<Longrightarrow>
    s_tail_seen s \<le> k \<Longrightarrow> k < length (s_tails s) \<Longrightarrow>
    push_step cap s (s\<lparr>s_queue := (s_queue s)\<lparr>q_tail_cache := s_tails s ! k\<rparr>, s_tail_seen := k,
      s_ppc := if n = s_tails s ! k then PIdle else PWrite x h n\<rparr>)"
| write_slot: "s_ppc s = PWrite x h n \<Longrightarrow> slot_write (s_queue s) h x = Some q \<Longrightarrow>
    push_step cap s (s\<lparr>s_queue := q, s_ppc := PPublish x n\<rparr>)"
| store_head: "s_ppc s = PPublish x n \<Longrightarrow>
    push_step cap s (s\<lparr>s_queue := (s_queue s)\<lparr>q_head := n\<rparr>, s_heads := s_heads s @ [n],
      s_pushed := s_pushed s @ [x], s_ppc := PIdle\<rparr>)"

inductive pop_step :: "64 word \<Rightarrow> 'a spsc_sys \<Rightarrow> 'a spsc_sys \<Rightarrow> bool" for cap where
  load_tail: "s_cpc s = CIdle \<Longrightarrow> pop_step cap s (s\<lparr>s_cpc := CCheck (q_tail (s_queue s))\<rparr>)"
| has_item: "s_cpc s = CCheck t \<Longrightarrow> t \<noteq> q_head_cache (s_queue s) \<Longrightarrow> pop_step cap s (s\<lparr>s_cpc := CRead t\<rparr>)"
| reload_head: "s_cpc s = CCheck t \<Longrightarrow> t = q_head_cache (s_queue s) \<Longrightarrow>
    s_head_seen s \<le> k \<Longrightarrow> k < length (s_heads s) \<Longrightarrow>
    pop_step cap s (s\<lparr>s_queue := (s_queue s)\<lparr>q_head_cache := s_heads s ! k\<rparr>, s_head_seen := k,
      s_cpc := if t = s_heads s ! k then CIdle else CRead t\<rparr>)"
| read_slot: "s_cpc s = CRead t \<Longrightarrow> slot_read (s_queue s) t = Some x \<Longrightarrow> pop_step cap s (s\<lparr>s_cpc := CPublish x t\<rparr>)"
| store_tail: "s_cpc s = CPublish x t \<Longrightarrow>
    pop_step cap s (s\<lparr>s_queue := (s_queue s)\<lparr>q_tail := next_index cap t\<rparr>, s_tails := s_tails s @ [next_index cap t],
      s_popped := s_popped s @ [x], s_cpc := CIdle\<rparr>)"

inductive spsc_reachable :: "64 word \<Rightarrow> 'a \<Rightarrow> 'a spsc_sys \<Rightarrow> bool" for cap zero where
  start: "spsc_reachable cap zero (spsc_start cap zero)"
| push: "spsc_reachable cap zero s \<Longrightarrow> push_step cap s s' \<Longrightarrow> spsc_reachable cap zero s'"
| pop: "spsc_reachable cap zero s \<Longrightarrow> pop_step cap s s' \<Longrightarrow> spsc_reachable cap zero s'"

text \<open>How many more steps an operation in progress can take.\<close>

fun push_left :: "'a push_pc \<Rightarrow> nat" where
  "push_left PIdle = 0"
| "push_left (PCheck x h n) = 3"
| "push_left (PWrite x h n) = 2"
| "push_left (PPublish x n) = 1"

fun pop_left :: "'a pop_pc \<Rightarrow> nat" where
  "pop_left CIdle = 0"
| "pop_left (CCheck t) = 3"
| "pop_left (CRead t) = 2"
| "pop_left (CPublish x t) = 1"

section \<open>Invariant\<close>

text \<open>
  With \<open>H\<close> items pushed and \<open>T\<close> popped, the indices, caches and program counters of both
  threads are determined by counts: the producer knows of \<open>s_tail_seen\<close> pops and stays
  less than a capacity ahead of them, the consumer never passes the \<open>s_head_seen\<close> pushes
  it knows of.
\<close>

definition shared_inv :: "64 word \<Rightarrow> 'a spsc_sys \<Rightarrow> bool" where
  "shared_inv cap s \<longleftrightarrow> (let q = s_queue s; H = length (s_pushed s); T = length (s_popped s) in
     length (q_buffer q) = unat cap \<and> s_heads s = map (idx cap) [0..<Suc H] \<and> s_tails s = map (idx cap) [0..<Suc T] \<and>
     q_head q = idx cap H \<and> q_tail q = idx cap T \<and>
     q_tail_cache q = idx cap (s_tail_seen s) \<and> q_head_cache q = idx cap (s_head_seen s) \<and>
     s_tail_seen s \<le> T \<and> T \<le> s_head_seen s \<and> s_head_seen s \<le> H \<and> H < s_tail_seen s + unat cap \<and>
     s_popped s = take T (s_pushed s) \<and> cells cap (q_buffer q) T (drop T (s_pushed s)))"

fun push_pc_ok :: "64 word \<Rightarrow> 'a list \<Rightarrow> nat \<Rightarrow> nat \<Rightarrow> 'a push_pc \<Rightarrow> bool" where
  "push_pc_ok cap buf H seen PIdle \<longleftrightarrow> True"
| "push_pc_ok cap buf H seen (PCheck x h n) \<longleftrightarrow> h = idx cap H \<and> n = idx cap (Suc H)"
| "push_pc_ok cap buf H seen (PWrite x h n) \<longleftrightarrow> h = idx cap H \<and> n = idx cap (Suc H) \<and> Suc H < seen + unat cap"
| "push_pc_ok cap buf H seen (PPublish x n) \<longleftrightarrow> n = idx cap (Suc H) \<and> Suc H < seen + unat cap \<and>
     buf ! (H mod unat cap) = x"

fun pop_pc_ok :: "64 word \<Rightarrow> 'a list \<Rightarrow> nat \<Rightarrow> nat \<Rightarrow> 'a pop_pc \<Rightarrow> bool" where
  "pop_pc_ok cap items T seen CIdle \<longleftrightarrow> True"
| "pop_pc_ok cap items T seen (CCheck t) \<longleftrightarrow> t = idx cap T"
| "pop_pc_ok cap items T seen (CRead t) \<longleftrightarrow> t = idx cap T \<and> T < seen"
| "pop_pc_ok cap items T seen (CPublish x t) \<longleftrightarrow> t = idx cap T \<and> T < seen \<and> x = items ! T"

definition push_inv :: "64 word \<Rightarrow> 'a spsc_sys \<Rightarrow> bool" where
  "push_inv cap s \<longleftrightarrow> push_pc_ok cap (q_buffer (s_queue s)) (length (s_pushed s)) (s_tail_seen s) (s_ppc s)"

definition pop_inv :: "64 word \<Rightarrow> 'a spsc_sys \<Rightarrow> bool" where
  "pop_inv cap s \<longleftrightarrow> pop_pc_ok cap (s_pushed s) (length (s_popped s)) (s_head_seen s) (s_cpc s)"

definition spsc_inv :: "64 word \<Rightarrow> 'a spsc_sys \<Rightarrow> bool" where
  "spsc_inv cap s \<longleftrightarrow> shared_inv cap s \<and> push_inv cap s \<and> pop_inv cap s"

lemmas inv_defs = spsc_inv_def shared_inv_def push_inv_def pop_inv_def Let_def

text \<open>A thread's steps do not disturb the other one.\<close>

lemma pop_pc_ok_snoc: "seen \<le> length items \<Longrightarrow> pop_pc_ok cap items T seen pc \<Longrightarrow> pop_pc_ok cap (items @ [x]) T seen pc"
  by (cases pc) (auto simp: nth_append)

lemma start_inv: "capacity_ok cap \<Longrightarrow> spsc_inv cap (spsc_start cap z)"
  using cap_pos [of cap] by (simp add: inv_defs spsc_start_def new_spsc_def cells_def)

text \<open>A write to the free slot behind the last item keeps the items that are in the queue.\<close>

lemma cells_write:
  assumes "cells cap buf t xs" "length xs < unat cap" "length buf = unat cap" "capacity_ok cap"
  shows "cells cap (buf[(t + length xs) mod unat cap := x]) t xs"
  using cells_push [OF assms, of x] by (simp add: cells_def nth_append)

lemma push_step_inv:
  assumes ok: "capacity_ok cap" and inv: "spsc_inv cap s" and st: "push_step cap s s'"
  shows "spsc_inv cap s'"
  using st
proof cases
  case (load_head x)
  then show ?thesis using inv next_index_idx [OF ok] by (auto simp: inv_defs)
next
  case (has_room x h n)
  then show ?thesis
    using inv idx_full_iff [OF ok, of "s_tail_seen s" "length (s_pushed s)"] by (auto simp: inv_defs)
next
  case (reload_tail x h n k)
  let ?H = "length (s_pushed s)" and ?T = "length (s_popped s)"
  have k: "s_tails s ! k = idx cap k" "k \<le> ?T" using inv reload_tail by (auto simp: inv_defs simp del: upt_Suc)
  have lt: "?H < k + unat cap" "k \<le> ?H" using inv reload_tail(4) k(2) by (auto simp: inv_defs)
  have n: "n = idx cap (Suc ?H)" "h = idx cap ?H" using inv reload_tail(2) by (auto simp: inv_defs)
  have "Suc ?H < k + unat cap" if "n \<noteq> idx cap k" using that n(1) lt idx_full_iff [OF ok lt(2,1)] by simp
  then show ?thesis using inv reload_tail(1) k lt n by (auto simp: inv_defs)
next
  case (write_slot x h n q)
  let ?H = "length (s_pushed s)" and ?T = "length (s_popped s)"
  have h: "unat h = ?H mod unat cap" "Suc ?H < s_tail_seen s + unat cap" "n = idx cap (Suc ?H)"
    using inv write_slot(2) unat_idx [OF ok] by (auto simp: inv_defs)
  have T: "?T \<le> ?H" "s_tail_seen s \<le> ?T" "length (q_buffer (s_queue s)) = unat cap" using inv by (auto simp: inv_defs)
  have q: "q = (s_queue s)\<lparr>q_buffer := (q_buffer (s_queue s))[?H mod unat cap := x]\<rparr>"
    using write_slot(3) h(1) by (auto simp: slot_write_def split: if_splits)
  have "cells cap (q_buffer q) ?T (drop ?T (s_pushed s))"
    using cells_write [of cap "q_buffer (s_queue s)" ?T "drop ?T (s_pushed s)" x] inv ok T h(2)
    by (auto simp: inv_defs q)
  moreover have "q_buffer q ! (?H mod unat cap) = x" using T(3) cap_pos [OF ok] by (simp add: q)
  ultimately show ?thesis using inv write_slot(1) h(2,3) q by (auto simp: inv_defs)
next
  case (store_head x n)
  let ?H = "length (s_pushed s)" and ?T = "length (s_popped s)"
  have n: "n = idx cap (Suc ?H)" "Suc ?H < s_tail_seen s + unat cap" "q_buffer (s_queue s) ! (?H mod unat cap) = x"
    using inv store_head(2) by (auto simp: inv_defs)
  have T: "?T \<le> ?H" using inv by (auto simp: inv_defs)
  have "cells cap (q_buffer (s_queue s)) ?T (drop ?T (s_pushed s @ [x]))"
    using inv n(3) T by (auto simp: inv_defs cells_def nth_append less_Suc_eq)
  then show ?thesis using inv store_head n T by (auto simp: inv_defs intro: pop_pc_ok_snoc)
qed

lemma pop_step_inv:
  assumes ok: "capacity_ok cap" and inv: "spsc_inv cap s" and st: "pop_step cap s s'"
  shows "spsc_inv cap s'"
  using st
proof cases
  case load_tail
  then show ?thesis using inv by (auto simp: inv_defs)
next
  case (has_item t)
  have "length (s_popped s) \<noteq> s_head_seen s" using inv has_item by (auto simp: inv_defs)
  then show ?thesis using inv has_item by (auto simp: inv_defs)
next
  case (reload_head t k)
  let ?H = "length (s_pushed s)" and ?T = "length (s_popped s)"
  have k: "s_heads s ! k = idx cap k" "k \<le> ?H" using inv reload_head by (auto simp: inv_defs simp del: upt_Suc)
  have t: "t = idx cap ?T" "?T \<le> k" using inv reload_head by (auto simp: inv_defs)
  have "?T < k" if "t \<noteq> idx cap k" using that t by (cases "?T = k") auto
  then show ?thesis using inv reload_head(1) k t by (auto simp: inv_defs)
next
  case (read_slot t x)
  let ?T = "length (s_popped s)"
  have t: "t = idx cap ?T" "?T < s_head_seen s" "s_head_seen s \<le> length (s_pushed s)"
    using inv read_slot(2) by (auto simp: inv_defs)
  have "cells cap (q_buffer (s_queue s)) ?T (drop ?T (s_pushed s))" using inv by (auto simp: inv_defs)
  then have "q_buffer (s_queue s) ! (?T mod unat cap) = s_pushed s ! ?T"
    using t(2,3) by (fastforce simp: cells_def)
  then have "x = s_pushed s ! ?T"
    using read_slot(3) t(1) unat_idx [OF ok] by (auto simp: slot_read_def split: if_splits)
  then show ?thesis using inv read_slot(1) t by (auto simp: inv_defs)
next
  case (store_tail x t)
  let ?H = "length (s_pushed s)" and ?T = "length (s_popped s)"
  have t: "t = idx cap ?T" "?T < s_head_seen s" "x = s_pushed s ! ?T" "s_head_seen s \<le> ?H"
    using inv store_tail(2) by (auto simp: inv_defs)
  have "drop ?T (s_pushed s) = x # drop (Suc ?T) (s_pushed s)" using t by (simp add: Cons_nth_drop_Suc)
  then have "cells cap (q_buffer (s_queue s)) (Suc ?T) (drop (Suc ?T) (s_pushed s))"
    using inv cells_pop by (fastforce simp: inv_defs)
  moreover have "s_popped s @ [x] = take (Suc ?T) (s_pushed s)"
    using inv t by (simp add: inv_defs take_Suc_conv_app_nth)
  ultimately show ?thesis using inv store_tail(1) t next_index_idx [OF ok, of ?T] by (auto simp: inv_defs)
qed

lemma reachable_inv: "capacity_ok cap \<Longrightarrow> spsc_reachable cap z s \<Longrightarrow> spsc_inv cap s"
  by (rotate_tac, induction rule: spsc_reachable.induct) (auto intro: start_inv push_step_inv pop_step_inv)


lemma reachable_steps:
  "(push_step cap)\<^sup>*\<^sup>* s s' \<Longrightarrow> spsc_reachable cap z s \<Longrightarrow> spsc_reachable cap z s'"
  "(pop_step cap)\<^sup>*\<^sup>* s s' \<Longrightarrow> spsc_reachable cap z s \<Longrightarrow> spsc_reachable cap z s'"
  by (induction rule: rtranclp_induct; blast intro: spsc_reachable.intros)+

section \<open>Steps and operations\<close>

lemma rtranclp_step2: "r a b \<Longrightarrow> r\<^sup>*\<^sup>* b c \<Longrightarrow> r\<^sup>*\<^sup>* a c"
  by (rule converse_rtranclp_into_rtranclp)

text \<open>From a passed check, a push writes its slot and publishes it.\<close>

lemma push_tail_steps:
  assumes "s_ppc s = PWrite x h n" "slot_write (s_queue s) h x = Some q"
  shows "(push_step cap)\<^sup>*\<^sup>* s (s\<lparr>s_queue := q\<lparr>q_head := n\<rparr>, s_heads := s_heads s @ [n],
    s_pushed := s_pushed s @ [x], s_ppc := PIdle\<rparr>)"
proof -
  let ?s1 = "s\<lparr>s_queue := q, s_ppc := PPublish x n\<rparr>"
  have "push_step cap s ?s1" by (rule push_step.write_slot [OF assms])
  moreover have "push_step cap ?s1 (?s1\<lparr>s_queue := (s_queue ?s1)\<lparr>q_head := n\<rparr>, s_heads := s_heads ?s1 @ [n],
      s_pushed := s_pushed ?s1 @ [x], s_ppc := PIdle\<rparr>)" by (rule push_step.store_head) simp
  ultimately show ?thesis by (auto intro!: rtranclp_step2 [OF _ r_into_rtranclp])
qed

lemma push_steps:
  assumes "spsc_inv cap s" "s_ppc s = PIdle" "try_push cap x (s_queue s) = Some (r, q)"
  shows "\<exists>s'. (push_step cap)\<^sup>*\<^sup>* s s' \<and> s_queue s' = q \<and> s_ppc s' = PIdle \<and>
    s_pushed s' = (if r then s_pushed s @ [x] else s_pushed s) \<and> s_popped s' = s_popped s \<and> s_cpc s' = s_cpc s"
proof -
  let ?q = "s_queue s" and ?T = "length (s_popped s)"
  let ?h = "q_head ?q" and ?n = "next_index cap (q_head ?q)"
  let ?s1 = "s\<lparr>s_ppc := PCheck x ?h ?n\<rparr>"
  have s1: "push_step cap s ?s1" by (rule push_step.load_head [OF assms(2)])
  have k: "s_tails s ! ?T = q_tail ?q" "?T < length (s_tails s)" "s_tail_seen s \<le> ?T"
    using assms(1) by (auto simp: inv_defs nth_append)
  define q1 where "q1 = (if ?n = q_tail_cache ?q then ?q\<lparr>q_tail_cache := q_tail ?q\<rparr> else ?q)"
  define s2 where "s2 = ?s1\<lparr>s_queue := q1, s_tail_seen := (if ?n = q_tail_cache ?q then ?T else s_tail_seen s),
    s_ppc := if ?n = q_tail_cache q1 then PIdle else PWrite x ?h ?n\<rparr>"
  have "push_step cap ?s1 s2"
  proof (cases "?n = q_tail_cache ?q")
    case True
    then show ?thesis
      using push_step.reload_tail [of ?s1 x ?h ?n ?T cap] k by (simp add: s2_def q1_def cong: if_cong)
  next
    case False
    then show ?thesis
      using push_step.has_room [of ?s1 x ?h ?n cap] by (simp add: s2_def q1_def)
  qed
  with s1 have st: "(push_step cap)\<^sup>*\<^sup>* s s2" by (auto intro: rtranclp_step2)
  show ?thesis
  proof (cases "?n = q_tail_cache q1")
    case True
    then show ?thesis using st assms(3) by (intro exI [of _ s2]) (auto simp: try_push_def Let_def q1_def s2_def)
  next
    case False
    then obtain q2 where q2: "slot_write q1 ?h x = Some q2" "r" "q = q2\<lparr>q_head := ?n\<rparr>"
      using assms(3) by (auto simp: try_push_def Let_def q1_def [symmetric] split: Option.bind_splits)
    from push_tail_steps [of s2 x ?h ?n q2 cap] False q2 st show ?thesis
      by (intro exI [of _ "s2\<lparr>s_queue := q2\<lparr>q_head := ?n\<rparr>, s_heads := s_heads s2 @ [?n],
          s_pushed := s_pushed s2 @ [x], s_ppc := PIdle\<rparr>"]) (auto simp: s2_def intro: rtranclp_trans)
  qed
qed


lemma push_reaches:
  assumes "capacity_ok cap" "spsc_reachable cap z s" "s_ppc s = PIdle" "try_push cap x (s_queue s) = Some (r, q)"
  obtains s' where "spsc_reachable cap z s'" "s_queue s' = q" "s_ppc s' = PIdle"
    "s_pushed s' = (if r then s_pushed s @ [x] else s_pushed s)" "s_popped s' = s_popped s" "s_cpc s' = s_cpc s"
proof -
  obtain s' where s': "(push_step cap)\<^sup>*\<^sup>* s s'" "s_queue s' = q" "s_ppc s' = PIdle"
      "s_pushed s' = (if r then s_pushed s @ [x] else s_pushed s)" "s_popped s' = s_popped s" "s_cpc s' = s_cpc s"
    using push_steps [OF reachable_inv [OF assms(1,2)] assms(3,4)] by (elim exE conjE) (rule that)
  show thesis by (rule that [OF reachable_steps(1) [OF s'(1) assms(2)] s'(2-6)])
qed


text \<open>
  A push and a pop in progress at the same time on a queue of capacity 4: the producer
  is about to write its second item while the consumer is about to read the first.
\<close>

lemma busy_state:
  obtains s where "spsc_reachable 4 (0::nat) s" "s_pushed s = [7]" "s_popped s = []"
    "s_ppc s = PWrite 8 1 2" "s_cpc s = CRead 0"
proof -
  have ok: "capacity_ok 4" by code_simp
  have "map_option fst (try_push 4 7 (new_spsc 4 (0::nat))) = Some True" by code_simp
  then obtain q where q: "try_push 4 7 (new_spsc 4 (0::nat)) = Some (True, q)" by auto
  obtain s where s: "spsc_reachable 4 (0::nat) s" "s_queue s = q" "s_ppc s = PIdle" "s_pushed s = [7]" "s_popped s = []"
      "s_cpc s = CIdle"
    by (rule push_reaches [OF ok spsc_reachable.start, where x = 7 and r = True and q = q])
      (use q in \<open>simp_all add: spsc_start_def\<close>)
  have "map_option (\<lambda>(r, q). (q_head q, q_tail_cache q, q_tail q, q_head_cache q)) (try_push 4 7 (new_spsc 4 (0::nat))) =
      Some (1, 0, 0, 0)" by code_simp
  then have qs: "q_head q = 1" "q_tail_cache q = 0" "q_tail q = 0" "q_head_cache q = 0" using q by auto
  have n: "next_index 4 1 = 2" by code_simp
  let ?s1 = "s\<lparr>s_ppc := PCheck 8 1 2\<rparr>" and ?s2 = "s\<lparr>s_ppc := PWrite 8 1 2\<rparr>"
  let ?s3 = "?s2\<lparr>s_cpc := CCheck 0\<rparr>"
  have "push_step 4 s ?s1" using push_step.load_head [of s 4 8] s(2,3) qs n by simp
  moreover have "push_step 4 ?s1 ?s2" using push_step.has_room [of ?s1 8 1 2 4] s(2) qs by simp
  ultimately have "spsc_reachable 4 0 ?s2" using s(1) by (blast intro: spsc_reachable.push)
  moreover have "pop_step 4 ?s2 ?s3" using pop_step.load_tail [of ?s2 4] s(2,6) qs by simp
  ultimately have r3: "spsc_reachable 4 0 ?s3" by (rule spsc_reachable.pop)
  have heads: "s_heads s ! 1 = 1" "1 < length (s_heads s)" "s_head_seen s \<le> 1"
    using reachable_inv [OF ok s(1)] s(2,4,5) qs by (auto simp: inv_defs)
  then have "pop_step 4 ?s3 (?s3\<lparr>s_queue := q\<lparr>q_head_cache := 1\<rparr>, s_head_seen := 1, s_cpc := CRead 0\<rparr>)" (is "pop_step 4 ?s3 ?s4")
    using pop_step.reload_head [of ?s3 0 1 4] s(2) qs by simp
  with r3 have "spsc_reachable 4 0 ?s4" by (rule spsc_reachable.pop)
  then show thesis using that [of ?s4] s(4,5) by simp
qed

section \<open>Properties\<close>

text \<open>
  C15: No loss, duplication or reordering under any interleaving and with stale views of
  the indices: the items popped so far are, in order, the first items pushed, and never
  more than the capacity minus one are in between.
\<close>

theorem spsc_fifo:
  assumes "capacity_ok cap" "spsc_reachable cap zero s"
  shows "\<exists>queued. s_pushed s = s_popped s @ queued \<and> length queued < unat cap"
proof -
  have inv: "spsc_inv cap s" by (rule reachable_inv [OF assms])
  let ?T = "length (s_popped s)"
  have "s_pushed s = take ?T (s_pushed s) @ drop ?T (s_pushed s)" by simp
  moreover have "s_popped s = take ?T (s_pushed s)" "length (drop ?T (s_pushed s)) < unat cap"
    using inv by (auto simp: inv_defs)
  ultimately show ?thesis by metis
qed

theorem spsc_fifo_witness:
  "\<exists>s. spsc_reachable 4 (0::nat) s \<and> s_pushed s = [7] \<and> (\<exists>queued. [7] = s_popped s @ queued \<and> length queued < 4)"
proof -
  obtain s where s: "spsc_reachable 4 (0::nat) s" "s_pushed s = [7]" by (rule busy_state)
  have "capacity_ok 4" by code_simp
  from spsc_fifo [OF this s(1)] s show ?thesis by auto
qed

text \<open>
  C16: Data-race freedom of the slots: when the producer is about to write a slot and the
  consumer about to read one, these are different slots, and both lie inside the buffer.
\<close>

theorem spsc_race_free:
  assumes "capacity_ok cap" "spsc_reachable cap zero s" "s_ppc s = PWrite x h n" "s_cpc s = CRead t"
  shows "h \<noteq> t \<and> slot_write (s_queue s) h x \<noteq> None \<and> slot_read (s_queue s) t \<noteq> None"
proof -
  have inv: "spsc_inv cap s" by (rule reachable_inv [OF assms(1,2)])
  let ?H = "length (s_pushed s)" and ?T = "length (s_popped s)"
  have ht: "h = idx cap ?H" "t = idx cap ?T" "?T < ?H" "?H < ?T + unat cap" "length (q_buffer (s_queue s)) = unat cap"
    using inv assms(3,4) by (auto simp: inv_defs)
  then have "h \<noteq> t" using idx_eq_iff [OF assms(1), of ?T ?H] by auto
  moreover have "unat (idx cap m) < unat cap" for m using unat_idx [OF assms(1)] cap_pos [OF assms(1)] by simp
  ultimately show ?thesis using ht by (simp add: slot_write_def slot_read_def)
qed

theorem spsc_race_free_witness:
  "\<exists>s :: nat spsc_sys. s_ppc s = PWrite 8 1 2 \<and> s_cpc s = CRead 0 \<and> slot_write (s_queue s) 1 8 \<noteq> None \<and>
     slot_read (s_queue s) 0 \<noteq> None"
proof -
  obtain s where s: "spsc_reachable 4 (0::nat) s" "s_ppc s = PWrite 8 1 2" "s_cpc s = CRead 0" by (rule busy_state)
  have "capacity_ok 4" by code_simp
  from spsc_race_free [OF this s] s(2,3) show ?thesis by (intro exI [of _ s]) simp
qed

lemma slots_in_range:
  assumes "capacity_ok cap" "spsc_inv cap s"
  shows "slot_write (s_queue s) (idx cap m) x \<noteq> None" "slot_read (s_queue s) (idx cap m) \<noteq> None"
  using assms(2) unat_idx [OF assms(1)] cap_pos [OF assms(1)] by (auto simp: inv_defs slot_write_def slot_read_def)

lemma push_step_exists:
  assumes "capacity_ok cap" "spsc_inv cap s"
  shows "\<exists>s'. push_step cap s s'"
proof (cases "s_ppc s")
  case PIdle
  then show ?thesis by (blast intro: push_step.load_head)
next
  case (PCheck x h n)
  have "s_tail_seen s < length (s_tails s)" using assms(2) by (auto simp: inv_defs)
  then show ?thesis using PCheck by (blast intro: push_step.has_room push_step.reload_tail [OF _ _ order_refl])
next
  case (PWrite x h n)
  then have "h = idx cap (length (s_pushed s))" using assms(2) by (auto simp: inv_defs)
  then show ?thesis using PWrite slots_in_range(1) [OF assms] by (blast intro: push_step.write_slot)
next
  case (PPublish x n)
  then show ?thesis by (blast intro: push_step.store_head)
qed

lemma pop_step_exists:
  assumes "capacity_ok cap" "spsc_inv cap s"
  shows "\<exists>s'. pop_step cap s s'"
proof (cases "s_cpc s")
  case CIdle
  then show ?thesis by (blast intro: pop_step.load_tail)
next
  case (CCheck t)
  have "s_head_seen s < length (s_heads s)" using assms(2) by (auto simp: inv_defs)
  then show ?thesis using CCheck by (blast intro: pop_step.has_item pop_step.reload_head [OF _ _ order_refl])
next
  case (CRead t)
  then have "t = idx cap (length (s_popped s))" using assms(2) by (auto simp: inv_defs)
  then show ?thesis using CRead slots_in_range(2) [OF assms] by (blast intro: pop_step.read_slot)
next
  case (CPublish x t)
  then show ?thesis by (blast intro: pop_step.store_tail)
qed

text \<open>
  C17: Both operations are wait-free.  Whatever the other thread does, each thread always
  has a next step, and every step of an operation in progress decreases a bound of at
  most three, so \<open>try_push\<close> and \<open>try_pop\<close> return after four steps at most.
\<close>

theorem spsc_wait_free:
  assumes "capacity_ok cap" "spsc_reachable cap zero s"
  shows "(\<exists>s'. push_step cap s s') \<and> (\<exists>s'. pop_step cap s s') \<and>
    (\<forall>s'. push_step cap s s' \<longrightarrow> s_ppc s = PIdle \<or> push_left (s_ppc s') < push_left (s_ppc s)) \<and>
    (\<forall>s'. pop_step cap s s' \<longrightarrow> s_cpc s = CIdle \<or> pop_left (s_cpc s') < pop_left (s_cpc s)) \<and>
    push_left (s_ppc s) \<le> 3 \<and> pop_left (s_cpc s) \<le> 3"
proof -
  have inv: "spsc_inv cap s" by (rule reachable_inv [OF assms])
  have "push_left (s_ppc s') < push_left (s_ppc s)" if "push_step cap s s'" "s_ppc s \<noteq> PIdle" for s'
    using that by cases auto
  moreover have "pop_left (s_cpc s') < pop_left (s_cpc s)" if "pop_step cap s s'" "s_cpc s \<noteq> CIdle" for s'
    using that by cases auto
  moreover have "push_left p \<le> 3" "pop_left c \<le> 3" for p :: "'a push_pc" and c :: "'a pop_pc"
    by (cases p; simp) (cases c; simp)
  ultimately show ?thesis using push_step_exists [OF assms(1) inv] pop_step_exists [OF assms(1) inv] by blast
qed

theorem spsc_wait_free_witness:
  "\<exists>s :: nat spsc_sys. s_ppc s = PWrite 8 1 2 \<and> (\<exists>s'. push_step 4 s s') \<and> (\<exists>s'. pop_step 4 s s')"
proof -
  obtain s where s: "spsc_reachable 4 (0::nat) s" "s_ppc s = PWrite 8 1 2" by (rule busy_state)
  have "capacity_ok 4" by code_simp
  from spsc_wait_free [OF this s(1)] s(2) show ?thesis by (intro exI [of _ s]) simp
qed

text \<open>
  What a refusal means.  A load may return an old index, so an operation can be refused on a queue
  that has room, or an item, by now; the missing slots, or items, are exactly the operations of the
  other thread that the refused one has not seen.
\<close>

lemma refused_push:
  assumes "capacity_ok cap" "spsc_reachable cap zero s" "push_step cap s s'" "s_ppc s = PCheck x h n" "s_ppc s' = PIdle"
  shows "length (s_pushed s) = s_tail_seen s' + (unat cap - 1) \<and> s_tail_seen s \<le> s_tail_seen s' \<and> s_tail_seen s' \<le> length (s_popped s)"
  using assms(3)
proof cases
  case (reload_tail x1 h1 n1 k)
  have inv: "spsc_inv cap s" by (rule reachable_inv [OF assms(1,2)])
  let ?H = "length (s_pushed s)" and ?T = "length (s_popped s)"
  have k: "s_tails s ! k = idx cap k" "k \<le> ?T" using inv reload_tail by (auto simp: inv_defs simp del: upt_Suc)
  have n: "n1 = idx cap (Suc ?H)" using inv reload_tail(2) by (auto simp: inv_defs)
  have "n1 = idx cap k" using assms(5) reload_tail(1) k(1) by (auto split: if_splits)
  moreover have c: "k \<le> ?H" "?H < k + unat cap" using inv k(2) reload_tail(4) by (auto simp: inv_defs)
  ultimately have "?H = k + (unat cap - 1)" using idx_full_iff [OF assms(1) c] n cap_pos [OF assms(1)] by simp
  then show ?thesis using reload_tail k(2) by simp
qed (use assms(4,5) in auto)

lemma refused_pop:
  assumes "capacity_ok cap" "spsc_reachable cap zero s" "pop_step cap s s'" "s_cpc s = CCheck t" "s_cpc s' = CIdle"
  shows "s_head_seen s' = length (s_popped s) \<and> s_head_seen s \<le> s_head_seen s' \<and> s_head_seen s' \<le> length (s_pushed s)"
  using assms(3)
proof cases
  case (reload_head t1 k)
  have inv: "spsc_inv cap s" by (rule reachable_inv [OF assms(1,2)])
  let ?H = "length (s_pushed s)" and ?T = "length (s_popped s)"
  have k: "s_heads s ! k = idx cap k" "k \<le> ?H" using inv reload_head by (auto simp: inv_defs simp del: upt_Suc)
  have "idx cap ?T = idx cap k" using inv assms(5) reload_head k(1) by (auto simp: inv_defs split: if_splits)
  moreover have c: "?T \<le> k" "k < ?T + unat cap" using inv k(2) reload_head(4) by (auto simp: inv_defs)
  ultimately have "k = ?T" using idx_eq_iff [OF assms(1) c] by simp
  then show ?thesis using reload_head k(2) by simp
qed (use assms(4,5) in auto)

text \<open>
  C18: When a push is refused, the items in the queue and the pops the producer has not seen
  add up to the capacity minus one; in particular, if the reload saw every pop so far, the queue is
  full at this step.  When a pop is refused, the consumer has taken every item whose push it has seen, so
  the items in the queue are exactly the pushes it has not seen; in particular, if the reload saw every
  push so far, the queue is empty.  What a thread has seen never goes back.
\<close>

theorem spsc_refusals_exact:
  assumes "capacity_ok cap" "spsc_reachable cap zero s"
  shows "(push_step cap s s' \<and> s_ppc s = PCheck x h n \<and> s_ppc s' = PIdle \<longrightarrow>
      (\<exists>queued. s_pushed s = s_popped s @ queued \<and> length queued + (length (s_popped s) - s_tail_seen s') = unat cap - 1 \<and>
        s_tail_seen s \<le> s_tail_seen s' \<and> (s_tail_seen s' = length (s_popped s) \<longrightarrow> length queued = unat cap - 1))) \<and>
    (pop_step cap s s' \<and> s_cpc s = CCheck t \<and> s_cpc s' = CIdle \<longrightarrow>
      (\<exists>queued. s_pushed s = s_popped s @ queued \<and> length queued = length (s_pushed s) - s_head_seen s' \<and>
        s_head_seen s \<le> s_head_seen s' \<and> (s_head_seen s' = length (s_pushed s) \<longrightarrow> queued = [])))"
proof -
  have inv: "spsc_inv cap s" by (rule reachable_inv [OF assms])
  let ?T = "length (s_popped s)"
  have "s_popped s = take ?T (s_pushed s)" using inv by (auto simp: inv_defs)
  then obtain queued where q: "s_pushed s = s_popped s @ queued" by (metis append_take_drop_id)
  then show ?thesis using refused_push [OF assms, of s' x h n] refused_pop [OF assms, of s' t] by auto
qed

theorem spsc_refusals_exact_witness:
  "\<exists>s s'. spsc_reachable 4 0 s \<and> pop_step 4 s s' \<and> s_cpc s = CCheck 0 \<and> s_cpc s' = CIdle \<and> s_popped s = (s_pushed s :: nat list)"
proof -
  let ?s = "spsc_start 4 (0::nat)"
  let ?s1 = "?s\<lparr>s_cpc := CCheck 0\<rparr>"
  let ?s2 = "?s1\<lparr>s_queue := (s_queue ?s1)\<lparr>q_head_cache := 0\<rparr>, s_head_seen := 0, s_cpc := CIdle\<rparr>"
  have "pop_step 4 ?s ?s1" using pop_step.load_tail [of ?s 4] by (simp add: spsc_start_def new_spsc_def)
  then have r: "spsc_reachable 4 0 ?s1" by (rule spsc_reachable.pop [OF spsc_reachable.start])
  have st: "pop_step 4 ?s1 ?s2" using pop_step.reload_head [of ?s1 0 0 4] by (simp add: spsc_start_def new_spsc_def)
  have "capacity_ok 4" by code_simp
  then have "s_popped ?s1 = s_pushed ?s1"
    using spsc_refusals_exact [OF _ r, of ?s2 _ _ _ 0] st by (simp add: spsc_start_def)
  then show ?thesis using st r by (intro exI [of _ ?s1] exI [of _ ?s2]) simp
qed

text \<open>
  A push refused on a queue that is not full at any step of the operation: with capacity 2, one item
  is pushed and popped again, and then the next push loads the tail from before the pop.
\<close>

lemma stale_refusal:
  "\<exists>s s'. spsc_reachable 2 (0::nat) s \<and> push_step 2 s s' \<and> s_ppc s = PCheck 8 1 0 \<and> s_ppc s' = PIdle \<and> s_pushed s = s_popped s"
proof -
  have n: "next_index 2 0 = 1" "next_index 2 1 = 0" by code_simp+
  note push = spsc_reachable.push and pop = spsc_reachable.pop
  have w: "slot_write (new_spsc 2 (0::nat)) 0 7 = Some ((new_spsc 2 0)\<lparr>q_buffer := [7, 0]\<rparr>)" by code_simp
  note defs = spsc_start_def new_spsc_def slot_write_def slot_read_def
  let ?a = "spsc_start 2 (0::nat)"
  have "spsc_reachable 2 0 ?a" by (rule spsc_reachable.start)
  then have "spsc_reachable 2 0 (?a\<lparr>s_ppc := PCheck 7 0 1\<rparr>)" (is "spsc_reachable 2 0 ?b")
    by (rule push) (use push_step.load_head [of ?a 2 7] n in \<open>simp add: defs\<close>)
  then have "spsc_reachable 2 0 (?b\<lparr>s_ppc := PWrite 7 0 1\<rparr>)" (is "spsc_reachable 2 0 ?c")
    by (rule push) (use push_step.has_room [of ?b 7 0 1 2] in \<open>simp add: defs\<close>)
  then have "spsc_reachable 2 0 (?c\<lparr>s_queue := (s_queue ?c)\<lparr>q_buffer := [7, 0]\<rparr>, s_ppc := PPublish 7 1\<rparr>)" (is "spsc_reachable 2 0 ?d")
    by (rule push) (use push_step.write_slot [of ?c 7 0 1 "(s_queue ?c)\<lparr>q_buffer := [7, 0]\<rparr>" 2] w in \<open>simp add: spsc_start_def\<close>)
  then have "spsc_reachable 2 0 (?d\<lparr>s_queue := (s_queue ?d)\<lparr>q_head := 1\<rparr>, s_heads := [0, 1], s_pushed := [7], s_ppc := PIdle\<rparr>)" (is "spsc_reachable 2 0 ?s")
    by (rule push) (use push_step.store_head [of ?d 7 1 2] in \<open>simp add: defs\<close>)
  then have "spsc_reachable 2 0 (?s\<lparr>s_cpc := CCheck 0\<rparr>)" (is "spsc_reachable 2 0 ?s1")
    by (rule pop) (use pop_step.load_tail [of ?s 2] in \<open>simp add: defs\<close>)
  then have "spsc_reachable 2 0 (?s1\<lparr>s_queue := (s_queue ?s)\<lparr>q_head_cache := 1\<rparr>, s_head_seen := 1, s_cpc := CRead 0\<rparr>)" (is "spsc_reachable 2 0 ?s2")
    by (rule pop) (use pop_step.reload_head [of ?s1 0 1 2] in \<open>simp add: defs\<close>)
  then have "spsc_reachable 2 0 (?s2\<lparr>s_cpc := CPublish 7 0\<rparr>)" (is "spsc_reachable 2 0 ?s3")
    by (rule pop) (use pop_step.read_slot [of ?s2 0 7 2] in \<open>simp add: defs\<close>)
  then have "spsc_reachable 2 0 (?s3\<lparr>s_queue := (s_queue ?s3)\<lparr>q_tail := 1\<rparr>, s_tails := [0, 1], s_popped := [7], s_cpc := CIdle\<rparr>)" (is "spsc_reachable 2 0 ?s4")
    by (rule pop) (use pop_step.store_tail [of ?s3 7 0 2] n in \<open>simp add: defs\<close>)
  then have r: "spsc_reachable 2 0 (?s4\<lparr>s_ppc := PCheck 8 1 0\<rparr>)" (is "spsc_reachable 2 0 ?s5")
    by (rule push) (use push_step.load_head [of ?s4 2 8] n in \<open>simp add: defs\<close>)
  have "push_step 2 ?s5 (?s5\<lparr>s_ppc := PIdle\<rparr>)" using push_step.reload_tail [of ?s5 8 1 0 0 2] by (simp add: defs)
  then show ?thesis using r by (intro exI [of _ ?s5] exI [of _ "?s5\<lparr>s_ppc := PIdle\<rparr>"]) (simp add: defs)
qed

text \<open>
  The atomic steps of the producer, run without interruption and reading the current
  tail, are \<open>try_push\<close>: same result, same queue, and the item is counted exactly when
  the result is true.
\<close>

lemma push_steps_try_push:
  assumes "capacity_ok cap" "spsc_reachable cap zero s" "s_ppc s = PIdle" "try_push cap x (s_queue s) = Some (r, q)"
  shows "\<exists>s'. (push_step cap)\<^sup>*\<^sup>* s s' \<and> s_queue s' = q \<and> s_ppc s' = PIdle \<and>
    s_pushed s' = (if r then s_pushed s @ [x] else s_pushed s) \<and> s_popped s' = s_popped s \<and> s_cpc s' = s_cpc s"
  by (rule push_steps [OF reachable_inv [OF assms(1,2)] assms(3,4)])

end
