(* ===== verification/Map_Book.thy ===== *)
theory Map_Book
  imports Engine_Contract
begin

text \<open>
  The baseline of \<^verbatim>\<open>bench/matching_bench.cpp\<close>: an order book of ordered maps and linked
  lists, which the benchmark compares with the engine on the same stream of messages.

  A \<^verbatim>\<open>std::map\<close> is the list of its entries in key order.  The nodes of the \<^verbatim>\<open>std::list\<close>s
  carry numbers, given in order of creation; an iterator is the number of its node.
  Using an iterator of a node that is not in the list is a fault.
\<close>

section \<open>State\<close>

record resting_entry =
  re_id :: OrderId
  re_qty :: Quantity

type_synonym map_level = "(nat \<times> resting_entry) list"
type_synonym side_map = "(Price \<times> map_level) list"

record location =
  loc_side :: Side
  loc_price :: Price
  loc_it :: nat

type_synonym index = "OrderId \<rightharpoonup> location"

record map_book =
  mb_bids :: side_map
  mb_asks :: side_map
  mb_index :: index
  mb_next_node :: nat

definition new_map_book :: map_book where
  "new_map_book = \<lparr>mb_bids = [], mb_asks = [], mb_index = Map.empty, mb_next_node = 0\<rparr>"

section \<open>Operations\<close>

lemma partial_fill: "q - min r q \<noteq> 0 \<Longrightarrow> r - min r q = 0" for q r :: "'a::len word"
  by (cases "r \<le> q") (simp_all add: min_def)

text \<open>The inner and the outer loop of \<^verbatim>\<open>MapBookEngine::match\<close>.\<close>

function match_level :: "Quantity \<Rightarrow> map_level \<Rightarrow> index \<Rightarrow> 64 word \<Rightarrow> Quantity \<times> map_level \<times> index \<times> 64 word" where
  "match_level remaining [] idx fills = (remaining, [], idx, fills)"
| "match_level remaining ((k, first) # queue) idx fills =
     (if remaining > 0 then
        let executed = min remaining (re_qty first);
            first1 = first\<lparr>re_qty := re_qty first - executed\<rparr> in
        if re_qty first1 = 0 then match_level (remaining - executed) queue (idx(re_id first1 := None)) (fills + 1)
        else match_level (remaining - executed) ((k, first1) # queue) idx (fills + 1)
      else (remaining, (k, first) # queue, idx, fills))"
  by pat_completeness auto
termination
  by (relation "measures [\<lambda>(r, q, _). length q, \<lambda>(r, _). unat r]") (auto simp: partial_fill word_gt_0_unat)

lemma match_level_stops: "match_level r l idx f = (r', l', idx', f') \<Longrightarrow> r' = 0 \<or> l' = []"
proof (induction r l idx f rule: match_level.induct)
  case (2 r k first queue idx f)
  then show ?case by (cases "r = 0"; cases "re_qty first - min r (re_qty first) = 0") (simp_all add: Let_def word_gt_0)
qed simp

function match_book :: "(Price \<Rightarrow> bool) \<Rightarrow> Quantity \<Rightarrow> side_map \<Rightarrow> index \<Rightarrow> 64 word \<Rightarrow> Quantity \<times> side_map \<times> index \<times> 64 word" where
  "match_book crosses remaining [] idx fills = (remaining, [], idx, fills)"
| "match_book crosses remaining ((p, queue) # book) idx fills =
     (if remaining > 0 then
        if \<not> crosses p then (remaining, (p, queue) # book, idx, fills)
        else let (remaining1, queue1, idx1, fills1) = match_level remaining queue idx fills in
          match_book crosses remaining1 (if queue1 = [] then book else (p, queue1) # book) idx1 fills1
      else (remaining, (p, queue) # book, idx, fills))"
  by pat_completeness auto
termination
  by (relation "measures [\<lambda>(_, r, b, _). length b, \<lambda>(_, r, _). unat r]")
    (auto dest: match_level_stops [OF sym] simp: word_gt_0_unat)

text \<open>\<^verbatim>\<open>book[price].push_back(node)\<close>, which creates the level when it is missing.\<close>

fun level_append :: "(Price \<Rightarrow> Price \<Rightarrow> bool) \<Rightarrow> Price \<Rightarrow> nat \<times> resting_entry \<Rightarrow> side_map \<Rightarrow> side_map" where
  "level_append before p node [] = [(p, [node])]"
| "level_append before p node ((q, queue) # book) =
     (if p = q then (q, queue @ [node]) # book
      else if before p q then (p, [node]) # (q, queue) # book
      else (q, queue) # level_append before p node book)"

fun erase_from :: "Price \<Rightarrow> nat \<Rightarrow> side_map \<Rightarrow> side_map option" where
  "erase_from p it [] = None"
| "erase_from p it ((q, queue) # book) =
     (if p = q then
        if it \<in> fst ` set queue then
          let queue1 = filter (\<lambda>(k, _). k \<noteq> it) queue in Some (if queue1 = [] then book else (q, queue1) # book)
        else None
      else map_option ((#) (q, queue)) (erase_from p it book))"

definition handle_new_order :: "new_order_message \<Rightarrow> map_book \<Rightarrow> 64 word \<times> map_book" where
  "handle_new_order m b =
     (let is_market = (n_type m = Market);
          (remaining, b1, fills) = (case n_side m of
              Bid \<Rightarrow> let (r, asks, idx, f) = match_book (\<lambda>lvl. is_market \<or> lvl \<le> n_price m) (n_quantity m) (mb_asks b) (mb_index b) 0
                in (r, b\<lparr>mb_asks := asks, mb_index := idx\<rparr>, f)
            | Ask \<Rightarrow> let (r, bids, idx, f) = match_book (\<lambda>lvl. is_market \<or> lvl \<ge> n_price m) (n_quantity m) (mb_bids b) (mb_index b) 0
                in (r, b\<lparr>mb_bids := bids, mb_index := idx\<rparr>, f)) in
      if remaining > 0 \<and> \<not> is_market then
        let k = mb_next_node b1;
            node = (k, \<lparr>re_id = n_id m, re_qty = remaining\<rparr>);
            b2 = (case n_side m of
                Bid \<Rightarrow> b1\<lparr>mb_bids := level_append (>) (n_price m) node (mb_bids b1)\<rparr>
              | Ask \<Rightarrow> b1\<lparr>mb_asks := level_append (<) (n_price m) node (mb_asks b1)\<rparr>);
            loc = \<lparr>loc_side = n_side m, loc_price = n_price m, loc_it = k\<rparr> in
        (fills, b2\<lparr>mb_next_node := k + 1,
           mb_index := (if mb_index b2 (n_id m) = None then (mb_index b2)(n_id m \<mapsto> loc) else mb_index b2)\<rparr>)
      else (fills, b1))"

definition handle_cancel :: "cancel_message \<Rightarrow> map_book \<Rightarrow> (64 word \<times> map_book) option" where
  "handle_cancel m b = (case mb_index b (c_id m) of
      None \<Rightarrow> Some (0, b)
    | Some loc \<Rightarrow> do {
        b1 \<leftarrow> (case loc_side loc of
            Bid \<Rightarrow> map_option (\<lambda>x. b\<lparr>mb_bids := x\<rparr>) (erase_from (loc_price loc) (loc_it loc) (mb_bids b))
          | Ask \<Rightarrow> map_option (\<lambda>x. b\<lparr>mb_asks := x\<rparr>) (erase_from (loc_price loc) (loc_it loc) (mb_asks b)));
        Some (0, b1\<lparr>mb_index := (mb_index b1)(c_id m := None)\<rparr>) })"

fun map_process :: "engine_message \<Rightarrow> map_book \<Rightarrow> (64 word \<times> map_book) option" where
  "map_process (NewOrder m) b = Some (handle_new_order m b)"
| "map_process (Cancel m) b = handle_cancel m b"

text \<open>The measured loop, with the number of fills of each message.\<close>

fun map_run :: "engine_message list \<Rightarrow> map_book \<Rightarrow> (64 word list \<times> map_book) option" where
  "map_run [] b = Some ([], b)"
| "map_run (m # ms) b = do { (f, b1) \<leftarrow> map_process m b; (fs, b2) \<leftarrow> map_run ms b1; Some (f # fs, b2) }"

end
