(* ===== verification/Synthetic_Workload.thy ===== *)
theory Synthetic_Workload
  imports Price_Conversion Wire_Format
begin

text \<open>
  \<^verbatim>\<open>tools/synthetic_workload.h\<close>: the generator of order flow, and the files of
  \<^verbatim>\<open>tools/synthetic_generator.cpp\<close> and \<^verbatim>\<open>tools/replay_tool.cpp\<close>.

  The random number engine and its distributions are a parameter: the numbers one call
  of \<^verbatim>\<open>next\<close> draws are a record \<open>draws\<close>, of which the call uses the ones it needs.
\<close>

record workload_config =
  wc_cancel_rate :: dbl
  wc_market_rate :: dbl
  wc_min_quantity :: Quantity
  wc_max_quantity :: Quantity

definition default_workload :: workload_config where
  "default_workload = \<lparr>wc_cancel_rate = round_dbl (20 / 100), wc_market_rate = round_dbl (10 / 100), wc_min_quantity = 1, wc_max_quantity = 500\<rparr>"

record draws =
  dr_cancel :: dbl
  dr_side :: dbl
  dr_type :: dbl
  dr_price :: dbl
  dr_quantity :: Quantity
  dr_index :: nat

record generator =
  wg_live_ids :: "OrderId list"
  wg_next_id :: OrderId
  wg_logical_clock :: Timestamp

definition new_generator :: generator where
  "new_generator = \<lparr>wg_live_ids = [], wg_next_id = 1, wg_logical_clock = 0\<rparr>"

definition clamp_price :: "Price \<Rightarrow> Price" where
  "clamp_price p = (if p < 1 then 1 else if p > MAX_PRICE_TICKS - 1 then MAX_PRICE_TICKS - 1 else p)"

definition make_new_order :: "workload_config \<Rightarrow> draws \<Rightarrow> generator \<Rightarrow> (new_order_message \<times> generator) option" where
  "make_new_order cfg dr g = do {
     let type = (if dlt (dr_type dr) (wc_market_rate cfg) then Market else Limit);
     let dollars = (if dlt DOLLARS_PER_TICK (dr_price dr) then dr_price dr else DOLLARS_PER_TICK);
     ticks \<leftarrow> dollars_to_ticks dollars;
     let msg = \<lparr>n_id = wg_next_id g, n_side = (if dlt (dr_side dr) (Fin (1 / 2)) then Bid else Ask), n_type = type,
       n_price = clamp_price ticks, n_quantity = dr_quantity dr, n_timestamp = wg_logical_clock g + 1\<rparr>;
     Some (msg, \<lparr>wg_live_ids = (if type = Limit then wg_live_ids g @ [wg_next_id g] else wg_live_ids g),
       wg_next_id = wg_next_id g + 1, wg_logical_clock = wg_logical_clock g + 1\<rparr>) }"

text \<open>An index outside the vector is a fault; the distribution never draws one.\<close>

definition make_cancel :: "draws \<Rightarrow> generator \<Rightarrow> (cancel_message \<times> generator) option" where
  "make_cancel dr g = (let ids = wg_live_ids g; i = dr_index dr in
     if i < length ids then
       Some (\<lparr>c_id = ids ! i, c_timestamp = wg_logical_clock g + 1\<rparr>,
         g\<lparr>wg_live_ids := butlast (ids[i := last ids]), wg_logical_clock := wg_logical_clock g + 1\<rparr>)
     else None)"

definition next_message :: "workload_config \<Rightarrow> draws \<Rightarrow> generator \<Rightarrow> (engine_message \<times> generator) option" where
  "next_message cfg dr g =
     (if wg_live_ids g \<noteq> [] \<and> dlt (dr_cancel dr) (wc_cancel_rate cfg)
      then map_option (apfst Cancel) (make_cancel dr g)
      else map_option (apfst NewOrder) (make_new_order cfg dr g))"

fun generate :: "workload_config \<Rightarrow> draws list \<Rightarrow> generator \<Rightarrow> (engine_message list \<times> generator) option" where
  "generate cfg [] g = Some ([], g)"
| "generate cfg (dr # drs) g = do {
     (m, g1) \<leftarrow> next_message cfg dr g;
     (ms, g2) \<leftarrow> generate cfg drs g1;
     Some (m # ms, g2) }"

definition live_order_count :: "generator \<Rightarrow> nat" where
  "live_order_count g = length (wg_live_ids g)"

definition orders_created :: "generator \<Rightarrow> OrderId" where
  "orders_created g = wg_next_id g - 1"

section \<open>Order files\<close>

definition kTagNewOrder :: byte where "kTagNewOrder = 1"
definition kTagCancel :: byte where "kTagCancel = 2"

fun record_bytes :: "(nat \<Rightarrow> byte) \<Rightarrow> engine_message \<Rightarrow> byte list" where
  "record_bytes pad (NewOrder m) = kTagNewOrder # new_order_bytes pad m"
| "record_bytes pad (Cancel m) = kTagCancel # cancel_bytes m"

definition order_file :: "(nat \<Rightarrow> byte) \<Rightarrow> engine_message list \<Rightarrow> byte list" where
  "order_file pad ms = concat (map (record_bytes pad) ms)"

record replay_counts =
  rp_new :: nat
  rp_cancel :: nat
  rp_error :: nat

text \<open>
  The read loop; the messages are the values of the local variable after each complete
  read (\<open>None\<close> for an enumeration byte without a named value, which the tool does not
  look at).  A short read fails the stream, which also ends the loop.
\<close>

function replay :: "byte list \<Rightarrow> replay_counts \<Rightarrow> engine_message option list \<Rightarrow> replay_counts \<times> engine_message option list" where
  "replay [] c seen = (c, seen)"
| "replay (tag # bs) c seen =
     (if tag = kTagNewOrder then
        if length bs < 40 then (c\<lparr>rp_error := rp_error c + 1\<rparr>, seen)
        else replay (drop 40 bs) (c\<lparr>rp_new := rp_new c + 1\<rparr>) (seen @ [map_option NewOrder (bytes_new_order (take 40 bs))])
      else if tag = kTagCancel then
        if length bs < 16 then (c\<lparr>rp_error := rp_error c + 1\<rparr>, seen)
        else replay (drop 16 bs) (c\<lparr>rp_cancel := rp_cancel c + 1\<rparr>) (seen @ [map_option Cancel (bytes_cancel (take 16 bs))])
      else (c\<lparr>rp_error := rp_error c + 1\<rparr>, seen))"
  by pat_completeness auto
termination by (relation "measure (\<lambda>(bs, _). length bs)") auto

section \<open>The flow\<close>

text \<open>
  What the uniform distributions guarantee of one call's draws.  The normal distribution of the price
  has no bound; a draw so large that its conversion to ticks is undefined makes the call
  undefined (\<open>next_message\<close> is \<open>None\<close>), and the flow ends there.
\<close>

definition draw_ok :: "workload_config \<Rightarrow> generator \<Rightarrow> draws \<Rightarrow> bool" where
  "draw_ok cfg g dr \<longleftrightarrow> (wg_live_ids g \<noteq> [] \<longrightarrow> dr_index dr < length (wg_live_ids g)) \<and>
     wc_min_quantity cfg \<le> dr_quantity dr \<and> dr_quantity dr \<le> wc_max_quantity cfg"

text \<open>A range of price draws for which the conversion is defined.\<close>

definition price_draw_ok :: "draws \<Rightarrow> bool" where
  "price_draw_ok dr \<longleftrightarrow> (case dr_price dr of Fin x \<Rightarrow> \<bar>x\<bar> < 2 ^ 40 | _ \<Rightarrow> False)"

inductive flow :: "workload_config \<Rightarrow> generator \<Rightarrow> engine_message list \<Rightarrow> bool" for cfg where
  start: "flow cfg new_generator []"
| step: "flow cfg g ms \<Longrightarrow> draw_ok cfg g dr \<Longrightarrow> next_message cfg dr g = Some (m, g') \<Longrightarrow> flow cfg g' (ms @ [m])"

text \<open>
  The limit orders of a stream that no later message cancels, and validity of a stream:
  identifiers count up, prices are inside the grid, quantities inside the configured
  range, time stamps count the messages, and a cancellation names a limit order of the
  stream that is not cancelled yet.
\<close>

definition pending_ids :: "engine_message list \<Rightarrow> OrderId set" where
  "pending_ids ms = fold (\<lambda>m ids. case m of NewOrder x \<Rightarrow> if n_type x = Limit then insert (n_id x) ids else ids | Cancel x \<Rightarrow> ids - {c_id x}) ms {}"

definition new_orders :: "engine_message list \<Rightarrow> nat" where
  "new_orders ms = length (filter (\<lambda>m. case m of NewOrder _ \<Rightarrow> True | Cancel _ \<Rightarrow> False) ms)"

definition flow_message_ok :: "workload_config \<Rightarrow> engine_message list \<Rightarrow> engine_message \<Rightarrow> bool" where
  "flow_message_ok cfg ms m \<longleftrightarrow> (case m of
      NewOrder x \<Rightarrow> n_id x = of_nat (new_orders ms + 1) \<and> 1 \<le> n_price x \<and> n_price x < MAX_PRICE_TICKS \<and>
        wc_min_quantity cfg \<le> n_quantity x \<and> n_quantity x \<le> wc_max_quantity cfg \<and> n_timestamp x = of_nat (length ms + 1)
    | Cancel x \<Rightarrow> c_id x \<in> pending_ids ms \<and> c_timestamp x = of_nat (length ms + 1))"

fun flow_valid :: "workload_config \<Rightarrow> engine_message list \<Rightarrow> engine_message list \<Rightarrow> bool" where
  "flow_valid cfg before [] \<longleftrightarrow> True"
| "flow_valid cfg before (m # ms) \<longleftrightarrow> flow_message_ok cfg before m \<and> flow_valid cfg (before @ [m]) ms"

lemma flow_valid_snoc: "flow_valid cfg before (ms @ [m]) \<longleftrightarrow> flow_valid cfg before ms \<and> flow_message_ok cfg (before @ ms) m"
  by (induction ms arbitrary: before) auto

definition gen_rel :: "generator \<Rightarrow> engine_message list \<Rightarrow> bool" where
  "gen_rel g ms \<longleftrightarrow> distinct (wg_live_ids g) \<and> set (wg_live_ids g) = pending_ids ms \<and>
     wg_next_id g = of_nat (new_orders ms + 1) \<and> wg_logical_clock g = of_nat (length ms) \<and>
     (\<forall>i \<in> set (wg_live_ids g). 0 < unat i \<and> unat i \<le> new_orders ms)"

lemma swap_and_pop:
  assumes "distinct xs" "i < length xs"
  shows "set (butlast (xs[i := last xs])) = set xs - {xs ! i}" "distinct (butlast (xs[i := last xs]))"
proof -
  obtain ys l where xs: "xs = ys @ [l]" using assms(2) by (metis append_butlast_last_id length_0_conv not_less_zero)
  have "set (butlast (xs[i := last xs])) = set xs - {xs ! i} \<and> distinct (butlast (xs[i := last xs]))"
  proof (cases "i = length ys")
    case False
    then have i: "i < length ys" using assms(2) xs by simp
    then obtain as x bs where ys: "ys = as @ x # bs" "length as = i" using id_take_nth_drop [OF i] by fastforce
    then show ?thesis using xs assms(1) by (auto simp: list_update_append nth_append butlast_append)
  qed (use xs assms(1) in \<open>auto simp: list_update_append\<close>)
  then show "set (butlast (xs[i := last xs])) = set xs - {xs ! i}" "distinct (butlast (xs[i := last xs]))" by blast+
qed

lemma pending_snoc: "pending_ids (ms @ [m]) = (case m of NewOrder x \<Rightarrow> if n_type x = Limit then insert (n_id x) (pending_ids ms) else pending_ids ms
    | Cancel x \<Rightarrow> pending_ids ms - {c_id x})"
  by (cases m) (simp_all add: pending_ids_def)

lemma new_orders_snoc: "new_orders (ms @ [m]) = new_orders ms + (case m of NewOrder _ \<Rightarrow> 1 | Cancel _ \<Rightarrow> 0)"
  by (auto simp: new_orders_def split: engine_message.splits)

lemma new_orders_le: "new_orders ms \<le> length ms"
  by (simp add: new_orders_def)

lemma clamp_price_range: "1 \<le> clamp_price p" "clamp_price p < MAX_PRICE_TICKS"
  by (auto simp: clamp_price_def MAX_PRICE_TICKS_def)

lemma make_new_order_defined:
  assumes "price_draw_ok dr"
  shows "\<exists>r. make_new_order cfg dr g = Some r"
proof -
  obtain x where x: "dr_price dr = Fin x" "\<bar>x\<bar> < 2 ^ 40" using assms by (auto simp: price_draw_ok_def split: dbl.splits)
  obtain d where d: "DOLLARS_PER_TICK = Fin d" "1 / 128 < d" "d < 1 / 64" by (rule tick_value)
  have "\<bar>d\<bar> < 2 ^ 40" using d(2,3) by simp
  then have "\<exists>t. dollars_to_ticks (if dlt DOLLARS_PER_TICK (dr_price dr) then dr_price dr else DOLLARS_PER_TICK) = Some t"
    using dollars_to_ticks_defined [of x] dollars_to_ticks_defined [of d] x unfolding d(1) by auto
  then show ?thesis by (auto simp: make_new_order_def Let_def)
qed

lemma next_message_defined:
  assumes "draw_ok cfg g dr" "price_draw_ok dr"
  shows "\<exists>m g'. next_message cfg dr g = Some (m, g')"
  using make_new_order_defined [OF assms(2), of cfg g] assms(1)
  by (cases "wg_live_ids g \<noteq> [] \<and> dlt (dr_cancel dr) (wc_cancel_rate cfg)")
    (auto simp: next_message_def make_cancel_def draw_ok_def Let_def)

lemma next_message_step:
  assumes rel: "gen_rel g ms" and len: "length ms < 2 ^ 64 - 2" and ok: "draw_ok cfg g dr" and step: "next_message cfg dr g = Some (msg, g1)"
  shows "gen_rel g1 (ms @ [msg]) \<and> flow_message_ok cfg ms msg"
proof (cases "wg_live_ids g \<noteq> [] \<and> dlt (dr_cancel dr) (wc_cancel_rate cfg)")
  case True
  let ?ids = "wg_live_ids g" and ?i = "dr_index dr"
  have i: "?i < length ?ids" using ok True by (simp add: draw_ok_def)
  have d: "distinct ?ids" "set ?ids = pending_ids ms" using rel by (simp_all add: gen_rel_def)
  define m where "m = \<lparr>c_id = ?ids ! ?i, c_timestamp = wg_logical_clock g + 1\<rparr>"
  define g' where "g' = g\<lparr>wg_live_ids := butlast (?ids[?i := last ?ids]), wg_logical_clock := wg_logical_clock g + 1\<rparr>"
  have "next_message cfg dr g = Some (Cancel m, g')" using True i by (simp add: next_message_def make_cancel_def m_def g'_def Let_def)
  moreover have "gen_rel g' (ms @ [Cancel m])"
    using rel swap_and_pop [OF d(1) i] d(2) by (auto simp: gen_rel_def g'_def m_def pending_snoc new_orders_snoc add.commute)
  moreover have "flow_message_ok cfg ms (Cancel m)"
    using rel i d(2) nth_mem [OF i] by (simp add: flow_message_ok_def m_def gen_rel_def add.commute)
  ultimately show ?thesis using step by simp
next
  case False
  then obtain m g' where mk: "make_new_order cfg dr g = Some (m, g')" "msg = NewOrder m" "g1 = g'"
    using step by (auto simp: next_message_def)
  have m: "n_id m = wg_next_id g" "n_quantity m = dr_quantity dr" "n_timestamp m = wg_logical_clock g + 1"
      "1 \<le> n_price m" "n_price m < MAX_PRICE_TICKS"
      "g' = \<lparr>wg_live_ids = (if n_type m = Limit then wg_live_ids g @ [wg_next_id g] else wg_live_ids g),
        wg_next_id = wg_next_id g + 1, wg_logical_clock = wg_logical_clock g + 1\<rparr>"
    using mk(1) clamp_price_range by (auto simp: make_new_order_def Let_def split: Option.bind_splits)
  have small: "new_orders ms + 1 < 2 ^ 64" using len new_orders_le [of ms] by simp
  have id: "unat (wg_next_id g) = new_orders ms + 1"
    using rel small unat_of_nat_small [where ?'a = 64, of "new_orders ms + 1"] by (simp only: gen_rel_def len_num1) simp
  have fresh: "wg_next_id g \<notin> set (wg_live_ids g)" using rel id by (force simp: gen_rel_def)
  have "gen_rel g' (ms @ [NewOrder m])"
    using rel m(1,6) fresh id by (auto simp: gen_rel_def pending_snoc new_orders_snoc add.commute intro: le_SucI)
  moreover have "flow_message_ok cfg ms (NewOrder m)"
    using rel m ok by (simp add: flow_message_ok_def gen_rel_def draw_ok_def add.commute)
  ultimately show ?thesis using mk(2,3) by simp
qed

lemma flow_rel:
  assumes "flow cfg g ms" "length ms < 2 ^ 64 - 1"
  shows "gen_rel g ms \<and> flow_valid cfg [] ms"
  using assms
proof induction
  case start
  then show ?case by (simp add: gen_rel_def new_generator_def pending_ids_def new_orders_def)
next
  case (step g ms dr m g')
  have "length ms < 2 ^ 64 - 2" using step.prems by simp
  then show ?case using next_message_step [OF _ _ step.hyps(2,3), of ms] step.IH step.prems by (simp add: flow_valid_snoc)
qed

text \<open>
  The draws are in range, each for the state of the generator that uses it, and no price
  draw leaves the range of the conversion.
\<close>

fun draws_ok :: "workload_config \<Rightarrow> draws list \<Rightarrow> generator \<Rightarrow> bool" where
  "draws_ok cfg [] g \<longleftrightarrow> True"
| "draws_ok cfg (dr # drs) g \<longleftrightarrow> draw_ok cfg g dr \<and> price_draw_ok dr \<and> (case next_message cfg dr g of None \<Rightarrow> True | Some (_, g1) \<Rightarrow> draws_ok cfg drs g1)"

lemma generate_flow:
  assumes "flow cfg g ms" "draws_ok cfg drs g" "length ms + length drs < 2 ^ 64 - 1"
  shows "\<exists>ms' g'. generate cfg drs g = Some (ms', g') \<and> flow cfg g' (ms @ ms') \<and> length ms' = length drs"
  using assms
proof (induction drs arbitrary: g ms)
  case (Cons dr drs)
  obtain m g1 where m: "next_message cfg dr g = Some (m, g1)"
    using next_message_defined [of cfg g dr] Cons.prems(2) by auto
  have "flow cfg g1 (ms @ [m])" using flow.step [OF Cons.prems(1) _ m] Cons.prems(2) by simp
  from Cons.IH [OF this] obtain ms' g' where "generate cfg drs g1 = Some (ms', g')" "flow cfg g' ((ms @ [m]) @ ms')" "length ms' = length drs"
    using Cons.prems(2,3) m by auto
  then show ?case using m by simp
qed simp

section \<open>Properties\<close>

text \<open>
  The generator produces sane order flow from any random numbers in range: it never
  gets stuck, new orders have consecutive identifiers, prices inside the grid and
  quantities inside the configured range, time stamps count the messages, and a
  cancellation always names a limit order created before and not cancelled since.
\<close>

lemma generated_flow_valid:
  assumes "flow cfg g ms" "length ms < 2 ^ 64 - 2"
  shows "flow_valid cfg [] ms \<and> live_order_count g = card (pending_ids ms) \<and> orders_created g = of_nat (new_orders ms) \<and>
    (draw_ok cfg g dr \<and> price_draw_ok dr \<longrightarrow> (\<exists>m g'. next_message cfg dr g = Some (m, g')))"
proof -
  have rel: "gen_rel g ms" "flow_valid cfg [] ms" using flow_rel [OF assms(1)] assms(2) by simp_all
  have "live_order_count g = card (pending_ids ms)"
    using rel(1) distinct_card [of "wg_live_ids g"] by (simp add: live_order_count_def gen_rel_def)
  moreover have "orders_created g = of_nat (new_orders ms)" using rel(1) by (simp add: orders_created_def gen_rel_def)
  ultimately show ?thesis using rel(2) next_message_defined by blast
qed

definition sample_draws :: draws where
  "sample_draws = \<lparr>dr_cancel = Fin (1 / 4), dr_side = Fin (3 / 4), dr_type = Fin (1 / 2), dr_price = Fin 100, dr_quantity = 20, dr_index = 0\<rparr>"

text \<open>A file of whole records, possibly followed by a record that is cut short.\<close>

definition price_fits :: "engine_message \<Rightarrow> bool" where
  "price_fits m \<longleftrightarrow> (case m of NewOrder x \<Rightarrow> - (2 ^ 63) \<le> n_price x \<and> n_price x < 2 ^ 63 | Cancel _ \<Rightarrow> True)"

lemma replay_record:
  assumes "price_fits m"
  shows "replay (record_bytes pad m @ bs) c seen =
    replay bs (case m of NewOrder _ \<Rightarrow> c\<lparr>rp_new := rp_new c + 1\<rparr> | Cancel _ \<Rightarrow> c\<lparr>rp_cancel := rp_cancel c + 1\<rparr>) (seen @ [Some m])"
  using assms new_order_round_trip cancel_round_trip
  by (cases m) (simp_all add: price_fits_def kTagNewOrder_def kTagCancel_def)

lemma replay_file:
  assumes "list_all price_fits ms"
  shows "replay (order_file pad ms @ bs) c seen =
    replay bs (c\<lparr>rp_new := rp_new c + new_orders ms, rp_cancel := rp_cancel c + (length ms - new_orders ms)\<rparr>) (seen @ map Some ms)"
  using assms
proof (induction ms arbitrary: c seen)
  case (Cons m ms)
  have "new_orders (m # ms) = new_orders ms + (case m of NewOrder _ \<Rightarrow> 1 | Cancel _ \<Rightarrow> 0)" by (simp add: new_orders_def split: engine_message.splits)
  then show ?case using Cons replay_record [of m pad "order_file pad ms @ bs"] new_orders_le [of ms]
    by (cases m) (simp_all add: order_file_def Suc_diff_le)
qed (simp add: order_file_def new_orders_def)

text \<open>
  A generated order file replays to exactly the generated messages, counted by kind
  and without errors; a file that is cut inside a record replays to the messages before
  the cut and counts one error.
\<close>

lemma replay_round_trip:
  assumes "list_all price_fits ms" "0 < k" "k < length (record_bytes pad m)"
  shows "replay (order_file pad ms) \<lparr>rp_new = 0, rp_cancel = 0, rp_error = 0\<rparr> [] =
      (\<lparr>rp_new = new_orders ms, rp_cancel = length ms - new_orders ms, rp_error = 0\<rparr>, map Some ms) \<and>
    replay (order_file pad ms @ take k (record_bytes pad m)) \<lparr>rp_new = 0, rp_cancel = 0, rp_error = 0\<rparr> [] =
      (\<lparr>rp_new = new_orders ms, rp_cancel = length ms - new_orders ms, rp_error = 1\<rparr>, map Some ms)"
proof -
  obtain j where k: "k = Suc j" using assms(2) by (cases k) auto
  have "length (new_order_bytes pad x) = 40" for x by (simp add: new_order_bytes_def)
  moreover have "length (cancel_bytes x) = 16" for x by (simp add: cancel_bytes_def)
  ultimately have "replay (take k (record_bytes pad m)) c seen = (c\<lparr>rp_error := rp_error c + 1\<rparr>, seen)" for c seen
    using assms(3) k by (cases m) (simp_all add: kTagNewOrder_def kTagCancel_def)
  then show ?thesis using replay_file [OF assms(1), of pad "[]"] replay_file [OF assms(1), of pad "take k (record_bytes pad m)"]
    by simp
qed

end
