(* ===== verification/Map_Book_Equivalence.thy ===== *)
theory Map_Book_Equivalence
  imports Map_Book Synthetic_Workload "HOL-Library.Multiset"
begin

text \<open>
  The baseline book and the engine agree.  The baseline represents the same abstract book
  as the engine, so both report the same number of fills for every message.
\<close>

section \<open>Representation\<close>

type_synonym entry = "Price \<times> nat \<times> resting_entry"

definition entries :: "side_map \<Rightarrow> entry list" where
  "entries book = concat (map (\<lambda>(p, l). map (Pair p) l) book)"

fun entry_maker :: "entry \<Rightarrow> maker" where
  "entry_maker (p, k, x) = \<lparr>m_id = re_id x, m_price = p, m_open = unat (re_qty x)\<rparr>"

fun entry_key :: "entry \<Rightarrow> Price \<times> nat \<times> OrderId" where
  "entry_key (p, k, x) = (p, k, re_id x)"

definition mb_side :: "Side \<Rightarrow> map_book \<Rightarrow> side_map" where
  "mb_side sd b = (case sd of Bid \<Rightarrow> mb_bids b | Ask \<Rightarrow> mb_asks b)"

definition side_ok :: "Side \<Rightarrow> side_map \<Rightarrow> bool" where
  "side_ok sd book \<longleftrightarrow> sorted_wrt (better sd) (map fst book) \<and> (\<forall>(p, l) \<in> set book. l \<noteq> [])"

definition index_ok :: "index \<Rightarrow> (Side \<Rightarrow> side_map) \<Rightarrow> bool" where
  "index_ok idx f \<longleftrightarrow> (\<forall>i loc. idx i = Some loc \<longleftrightarrow> (loc_price loc, loc_it loc, i) \<in> entry_key ` set (entries (f (loc_side loc))))"

definition sides_rep :: "(Side \<Rightarrow> side_map) \<Rightarrow> index \<Rightarrow> nat \<Rightarrow> lob \<Rightarrow> bool" where
  "sides_rep f idx next_node s \<longleftrightarrow> (\<forall>sd. map entry_maker (entries (f sd)) = lob_side sd s \<and> side_ok sd (f sd) \<and>
       distinct (map (fst \<circ> snd) (entries (f sd))) \<and> (\<forall>e \<in> set (entries (f sd)). fst (snd e) < next_node)) \<and> index_ok idx f"

definition map_rep :: "map_book \<Rightarrow> lob \<Rightarrow> bool" where
  "map_rep b s \<longleftrightarrow> sides_rep (\<lambda>sd. mb_side sd b) (mb_index b) (mb_next_node b) s"

lemma entries_simps [simp]:
  "entries [] = []" "entries ((p, l) # book) = map (Pair p) l @ entries book"
  by (simp_all add: entries_def)

lemma mb_side_simps [simp]: "mb_side Bid b = mb_bids b" "mb_side Ask b = mb_asks b"
  by (simp_all add: mb_side_def)

section \<open>Matching\<close>

text \<open>
  A loop over a level is a sweep; the entries it drops leave the index.
\<close>

lemma match_level_sweep:
  assumes "match_level r l idx f = (r', l', idx', f')" "\<forall>(k, x) \<in> set l. 0 < re_qty x" "n = unat r"
  shows "\<exists>ex dropped. sweep (\<lambda>_. True) n (map (\<lambda>y. entry_maker (p, y)) l) =
      (ex, unat r', map (\<lambda>y. entry_maker (p, y)) l') \<and> f' = f + of_nat (length ex) \<and>
    map (\<lambda>y. entry_key (p, y)) l = dropped @ map (\<lambda>y. entry_key (p, y)) l' \<and>
    idx' = idx |` (- set (map (snd \<circ> snd) dropped))"
  using assms
proof (induction r l idx f arbitrary: n rule: match_level.induct)
  case (1 r idx f)
  then show ?case by (intro exI [of _ "[]"]) simp
next
  case (2 r k x q idx f)
  let ?q = "re_qty x"
  consider (stop) "r = 0" | (all) "r \<noteq> 0" "?q \<le> r" | (part) "r \<noteq> 0" "\<not> ?q \<le> r" by blast
  then show ?case
  proof cases
    case stop
    then show ?thesis using 2(3,5) by (intro exI [of _ "[]"]) simp
  next
    case all
    then have mn: "min r ?q = ?q" by (simp add: min_def)
    have id: "re_id (x\<lparr>re_qty := ?q - min r ?q\<rparr>) = re_id x" by simp
    have pre: "0 < r" "re_qty (x\<lparr>re_qty := ?q - min r ?q\<rparr>) = 0" using all(1) mn by (simp_all add: word_gt_0)
    have m: "match_level (r - min r ?q) q (idx(re_id (x\<lparr>re_qty := ?q - min r ?q\<rparr>) := None)) (f + 1) = (r', l', idx', f')"
      using 2(3) pre by (simp add: mn)
    have "\<forall>(k, x) \<in> set q. 0 < re_qty x" using 2(4) by simp
    from 2(1) [OF pre(1) refl refl pre(2) m this refl, unfolded id, unfolded mn]
    obtain ex dr where "sweep (\<lambda>_. True) (unat (r - ?q)) (map (\<lambda>y. entry_maker (p, y)) q) =
        (ex, unat r', map (\<lambda>y. entry_maker (p, y)) l')" "f' = f + 1 + of_nat (length ex)"
        "map (\<lambda>y. entry_key (p, y)) q = dr @ map (\<lambda>y. entry_key (p, y)) l'"
        "idx' = (idx(re_id x := None)) |` (- set (map (snd \<circ> snd) dr))"
      by blast
    moreover have "unat (r - ?q) = n - unat ?q" using all(2) 2(5) by (simp add: unat_sub)
    moreover have "0 < n" "unat ?q \<le> n" using all 2(5) by (auto simp: word_le_nat_alt unat_gt_0)
    ultimately show ?thesis
      by (intro exI [of _ "(entry_maker (p, k, x), unat ?q) # ex"] exI [of _ "entry_key (p, k, x) # dr"])
        (auto simp: restrict_map_def fun_eq_iff)
  next
    case part
    then have "min r ?q = r" "?q - r \<noteq> 0" by (auto simp: min_def)
    then have "(r', l', idx', f') = (0, (k, x\<lparr>re_qty := ?q - r\<rparr>) # q, idx, f + 1)"
      using 2(3) part by (simp add: word_gt_0)
    moreover have "0 < n" "n < unat ?q" "unat (?q - r) = unat ?q - n" using part 2(5)
      by (auto simp: word_le_nat_alt unat_gt_0 unat_sub)
    ultimately show ?thesis
      by (intro exI [of _ "[(entry_maker (p, k, x), n)]"] exI [of _ "[]"]) auto
  qed
qed

lemma match_book_sweep:
  assumes "match_book ok r book idx f = (r', book', idx', f')" "side_ok sd book" "\<forall>(p, k, x) \<in> set (entries book). 0 < re_qty x"
  shows "\<exists>ex dropped. sweep ok (unat r) (map entry_maker (entries book)) = (ex, unat r', map entry_maker (entries book')) \<and>
    f' = f + of_nat (length ex) \<and> map entry_key (entries book) = dropped @ map entry_key (entries book') \<and>
    idx' = idx |` (- set (map (snd \<circ> snd) dropped)) \<and> side_ok sd book'"
  using assms
proof (induction ok r book idx f rule: match_book.induct)
  case (1 ok r idx f)
  then show ?case by (intro exI [of _ "[]"]) simp
next
  case (2 ok r p l book idx f)
  consider (stop) "r = 0" | (no) "r \<noteq> 0" "\<not> ok p" | (go) "r \<noteq> 0" "ok p" by blast
  then show ?case
  proof cases
    case stop
    then show ?thesis using 2(2,3) by (intro exI [of _ "[]"]) auto
  next
    case no
    moreover obtain k x l1 where "l = (k, x) # l1" using 2(3) by (cases l) (auto simp: side_ok_def)
    ultimately show ?thesis using 2(2,3) by (intro exI [of _ "[]"]) (auto simp: word_gt_0)
  next
    case go
    let ?mk = "\<lambda>l. map (\<lambda>y. entry_maker (p, y)) l" and ?key = "\<lambda>l. map (\<lambda>y. entry_key (p, y)) l"
    obtain r1 l1 idx1 f1 where m: "match_level r l idx f = (r1, l1, idx1, f1)" by (cases "match_level r l idx f") auto
    have "\<forall>(k, x) \<in> set l. 0 < re_qty x" using 2(4) by force
    from match_level_sweep [OF m this refl, of p] obtain ex dr where
      lv: "sweep (\<lambda>_. True) (unat r) (?mk l) = (ex, unat r1, ?mk l1)" "f1 = f + of_nat (length ex)" "?key l = dr @ ?key l1"
        "idx1 = idx |` (- set (map (snd \<circ> snd) dr))" by blast
    have prices: "\<forall>m \<in> set (?mk l). ok (m_price m)" using go(2) by auto
    have maps: "map entry_maker (map (Pair p) l) = ?mk l" "map entry_key (map (Pair p) l) = ?key l" for l
      by auto
    have r0: "0 < r" "\<not> \<not> ok p" using go by (simp_all add: word_gt_0)
    note IH = 2(1) [OF r0 m [symmetric] refl refl refl]
    show ?thesis
    proof (cases "l1 = []")
      case True
      have "match_book ok r1 book idx1 f1 = (r', book', idx', f')" using 2(2) go m True by (simp add: word_gt_0)
      moreover have "side_ok sd book" "\<forall>(p, k, x) \<in> set (entries book). 0 < re_qty x" using 2(3,4) by (simp_all add: side_ok_def)
      ultimately obtain ex2 dr2 where "sweep ok (unat r1) (map entry_maker (entries book)) = (ex2, unat r', map entry_maker (entries book'))"
          "f' = f1 + of_nat (length ex2)" "map entry_key (entries book) = dr2 @ map entry_key (entries book')"
          "idx' = idx1 |` (- set (map (snd \<circ> snd) dr2))" "side_ok sd book'"
        using IH [unfolded if_P [OF True]] by blast
      then show ?thesis
        using lv True sweep_append [OF prices lv(1), of "map entry_maker (entries book)"]
        by (intro exI [of _ "ex @ ex2"] exI [of _ "dr @ dr2"]) (simp add: maps o_def add.assoc Int_commute Compl_Un Un_commute)
    next
      case False
      then have "r1 = 0" using match_level_stops [OF m] by simp
      then have "(r', book', idx', f') = (0, (p, l1) # book, idx1, f1)" using 2(2) go m False by (simp add: word_gt_0)
      then show ?thesis
        using lv False \<open>r1 = 0\<close> sweep_append [OF prices lv(1), of "map entry_maker (entries book)"] 2(3)
        by (intro exI [of _ ex] exI [of _ dr]) (simp add: maps o_def side_ok_def)
    qed
  qed
qed

section \<open>Resting and erasing\<close>

lemma better_ops: "better Bid = (>)" "better Ask = (<)"
  by (simp_all add: fun_eq_iff)

lemma better_trans: "better sd p q \<Longrightarrow> better sd q r \<Longrightarrow> better sd p r"
  by (cases sd) auto

lemma better_linear: "p = q \<or> better sd p q \<or> better sd q p"
  by (cases sd) auto

lemma entries_prices: "\<forall>(p, l) \<in> set book. l \<noteq> [] \<Longrightarrow> fst ` set (entries book) = fst ` set book"
proof (induction book)
  case (Cons e book)
  then show ?case by (cases e) (simp add: image_Un image_image image_constant_conv)
qed simp

lemma side_ok_Cons: "side_ok sd ((p, l) # book) \<longleftrightarrow> l \<noteq> [] \<and> side_ok sd book \<and> (\<forall>(q, _, _) \<in> set (entries book). better sd p q)"
proof (cases "side_ok sd book")
  case True
  then have "fst ` set (entries book) = fst ` set book" using entries_prices by (simp add: side_ok_def)
  moreover have "(\<forall>(q, _, _) \<in> set (entries book). better sd p q) \<longleftrightarrow> (\<forall>q \<in> fst ` set (entries book). better sd p q)" by auto
  ultimately show ?thesis using True by (simp add: side_ok_def conj_commute)
qed (auto simp: side_ok_def)

lemma enqueue_append:
  assumes "\<forall>x\<in>set us. \<not> bt (m_price m) (m_price x)"
  shows "enqueue bt m (us @ vs) = us @ enqueue bt m vs"
  using assms by (simp add: enqueue_def takeWhile_append2 dropWhile_append2)

lemma level_append_entries:
  assumes "side_ok sd book"
  shows "map entry_maker (entries (level_append (better sd) p (k, x) book)) = enqueue (better sd) (entry_maker (p, k, x)) (map entry_maker (entries book))"
    and "mset (entries (level_append (better sd) p (k, x) book)) = add_mset (p, k, x) (mset (entries book))"
    and "side_ok sd (level_append (better sd) p (k, x) book)"
proof -
  show ms: "mset (entries (level_append (better sd) p (k, x) book)) = add_mset (p, k, x) (mset (entries book))" for book
    by (induction book) auto
  show "side_ok sd (level_append (better sd) p (k, x) book)" using assms
  proof (induction book)
    case (Cons e book)
    obtain q l where e: "e = (q, l)" by (cases e)
    have "set (entries (level_append (better sd) p (k, x) book)) = insert (p, k, x) (set (entries book))"
      using ms [of book] by (metis set_mset_add_mset_insert set_mset_mset)
    then show ?case using Cons better_linear [of p q sd] better_trans [of sd p q] by (auto simp: e side_ok_Cons)
  qed (simp add: side_ok_def)
  show "map entry_maker (entries (level_append (better sd) p (k, x) book)) = enqueue (better sd) (entry_maker (p, k, x)) (map entry_maker (entries book))"
    using assms
  proof (induction book)
    case Nil
    then show ?case by (simp add: enqueue_def)
  next
    case (Cons e book)
    obtain q l where e: "e = (q, l)" by (cases e)
    let ?ml = "map entry_maker (map (Pair q) l)" and ?m = "entry_maker (p, k, x)"
    have rest: "\<forall>(q', _, _) \<in> set (entries book). better sd q q'" using Cons.prems by (simp add: e side_ok_Cons)
    have skip: "enqueue (better sd) ?m (?ml @ vs) = ?ml @ enqueue (better sd) ?m vs" if "\<not> better sd p q" for vs
      by (rule enqueue_append) (use that in auto)
    have here: "enqueue (better sd) ?m vs = ?m # vs" if "\<forall>y \<in> set vs. better sd p (m_price y)" for vs
      using enqueue_split [of "[]" "better sd" ?m vs] that by simp
    consider "p = q" | "p \<noteq> q" "better sd p q" | "p \<noteq> q" "\<not> better sd p q" by blast
    then show ?case
    proof cases
      case 1
      then show ?thesis using skip [of "map entry_maker (entries book)"] here [of "map entry_maker (entries book)"] rest
        by (fastforce simp: e)
    next
      case 2
      have "\<forall>y \<in> set (?ml @ map entry_maker (entries book)). better sd p (m_price y)"
        using 2 rest better_trans [of sd p q] by auto
      from here [OF this] show ?thesis using 2 by (simp add: e)
    next
      case 3
      then show ?thesis using Cons skip [of "map entry_maker (entries book)"] by (simp add: e side_ok_Cons)
    qed
  qed
qed

lemma erase_from_entries:
  assumes "side_ok sd book" "distinct (map (fst \<circ> snd) (entries book))" "(p, k, x) \<in> set (entries book)"
  shows "\<exists>book'. erase_from p k book = Some book' \<and> entries book' = filter (\<lambda>(_, j, _). j \<noteq> k) (entries book) \<and> side_ok sd book'"
  using assms
proof (induction book)
  case (Cons e book)
  obtain q l where e: "e = (q, l)" by (cases e)
  have ok: "side_ok sd book" "l \<noteq> []" and rest: "\<forall>(q', _, _) \<in> set (entries book). better sd q q'"
    using Cons.prems(1) by (simp_all add: e side_ok_Cons)
  have "set (map (fst \<circ> snd) (map (Pair q) l)) = fst ` set l" by force
  then have disj: "fst ` set l \<inter> set (map (fst \<circ> snd) (entries book)) = {}"
    using Cons.prems(2) unfolding e entries_simps map_append distinct_append by blast
  show ?case
  proof (cases "p = q")
    case True
    have "(p, k, x) \<notin> set (entries book)" using rest True by auto
    then have k: "k \<in> fst ` set l" using Cons.prems(3) by (force simp: e)
    then have "\<forall>(_, j, _) \<in> set (entries book). j \<noteq> k" using disj by force
    then have same: "filter (\<lambda>(_, j, _). j \<noteq> k) (entries book) = entries book" by (auto simp: filter_id_conv)
    have flt: "filter (\<lambda>(_, j, _). j \<noteq> k) (map (Pair q) l) = map (Pair q) (filter (\<lambda>(j, _). j \<noteq> k) l)"
      by (induction l) auto
    show ?thesis using True k ok rest by (auto simp: e side_ok_Cons same flt Let_def)
  next
    case False
    then have x: "(p, k, x) \<in> set (entries book)" using Cons.prems(3) by (auto simp: e)
    then have "k \<notin> fst ` set l" using disj by force
    then have "filter (\<lambda>(_, j, _). j \<noteq> k) (map (Pair q) l) = map (Pair q) l" by (force simp: filter_id_conv)
    then show ?thesis using Cons.IH [OF ok(1) _ x] Cons.prems(2) False ok rest by (auto simp: e side_ok_Cons)
  qed
qed simp

section \<open>The index\<close>

abbreviation eid :: "entry \<Rightarrow> OrderId" where
  "eid e \<equiv> re_id (snd (snd e))"

lemma entry_key_eq: "entry_key e = (fst e, fst (snd e), eid e)"
  by (cases e) simp

lemma m_id_entry [simp]: "m_id (entry_maker e) = eid e"
  by (cases e) simp

text \<open>Identifiers are unique in the whole book.\<close>

definition ids_ok :: "(Side \<Rightarrow> side_map) \<Rightarrow> bool" where
  "ids_ok f \<longleftrightarrow> distinct (map eid (entries (f Bid) @ entries (f Ask)))"

lemma ids_okD:
  assumes "ids_ok f"
  shows "distinct (map eid (entries (f sd)))" "eid ` set (entries (f sd)) \<inter> eid ` set (entries (f (opposite sd))) = {}"
  using assms by (cases sd; auto simp: ids_ok_def)+

lemma index_okD: "index_ok idx f \<Longrightarrow> idx i = Some loc \<longleftrightarrow> (\<exists>e \<in> set (entries (f (loc_side loc))). entry_key e = (loc_price loc, loc_it loc, i))"
  unfolding index_ok_def image_iff by metis

lemma index_dom: "index_ok idx f \<Longrightarrow> idx i = None \<longleftrightarrow> (\<forall>sd. i \<notin> eid ` set (entries (f sd)))"
proof -
  assume ok: "index_ok idx f"
  show ?thesis
  proof (cases "idx i")
    case None
    have "eid e \<noteq> i" if "e \<in> set (entries (f sd))" for e sd
      using index_okD [OF ok, of "eid e" "\<lparr>loc_side = sd, loc_price = fst e, loc_it = fst (snd e)\<rparr>"] that None
      by (auto simp: entry_key_eq)
    then show ?thesis using None by auto
  next
    case (Some loc)
    then obtain e where "e \<in> set (entries (f (loc_side loc)))" "entry_key e = (loc_price loc, loc_it loc, i)"
      using index_okD [OF ok] by blast
    then have "i \<in> eid ` set (entries (f (loc_side loc)))" by (auto simp: entry_key_eq)
    then show ?thesis using Some by auto
  qed
qed

lemma index_drop:
  assumes ok: "index_ok idx f" "ids_ok f" and sfx: "map entry_key (entries (f sd)) = dropped @ map entry_key (entries book)"
  shows "index_ok (idx |` (- set (map (snd \<circ> snd) dropped))) (f(sd := book))"
proof -
  let ?d = "set (map (snd \<circ> snd) dropped)"
  have ids: "map eid (entries (f sd)) = map (snd \<circ> snd) dropped @ map eid (entries book)"
    using arg_cong [OF sfx, of "map (snd \<circ> snd)"] by (simp add: entry_key_eq o_def)
  have "(idx |` (- ?d)) i = Some loc \<longleftrightarrow> (loc_price loc, loc_it loc, i) \<in> entry_key ` set (entries ((f(sd := book)) (loc_side loc)))" for i loc
  proof (cases "loc_side loc = sd")
    case True
    have "entry_key ` set (entries (f sd)) = set dropped \<union> entry_key ` set (entries book)" using arg_cong [OF sfx, of set] by simp
    then have "idx i = Some loc \<longleftrightarrow> (loc_price loc, loc_it loc, i) \<in> set dropped \<or> (loc_price loc, loc_it loc, i) \<in> entry_key ` set (entries book)"
      using ok(1) True by (auto simp: index_ok_def)
    moreover have "(loc_price loc, loc_it loc, i) \<in> set dropped \<Longrightarrow> i \<in> ?d" by force
    moreover have "(loc_price loc, loc_it loc, i) \<in> entry_key ` set (entries book) \<Longrightarrow> i \<notin> ?d"
      using ids_okD(1) [OF ok(2), of sd] unfolding ids by (force simp: entry_key_eq)
    ultimately show ?thesis using True by (auto simp: restrict_map_def)
  next
    case False
    then have "loc_side loc = opposite sd" by (cases sd; cases "loc_side loc") auto
    then have "idx i = Some loc \<Longrightarrow> i \<notin> ?d"
      using ids_okD(2) [OF ok(2), of sd] index_okD [OF ok(1), of i loc] arg_cong [OF ids, of set] by (force simp: entry_key_eq)
    then show ?thesis using ok(1) False by (auto simp: index_ok_def restrict_map_def)
  qed
  then show ?thesis by (simp add: index_ok_def)
qed

lemma index_add:
  assumes ok: "index_ok idx f" and es: "set (entries book) = insert (p, k, x) (set (entries (f sd)))" and new: "idx (re_id x) = None"
  shows "index_ok (idx(re_id x \<mapsto> \<lparr>loc_side = sd, loc_price = p, loc_it = k\<rparr>)) (f(sd := book))"
proof -
  have fresh: "(q, j, re_id x) \<notin> entry_key ` set (entries (f sd'))" for q j sd'
    using index_dom [OF ok] new by (auto simp: entry_key_eq image_iff)
  show ?thesis unfolding index_ok_def es
  proof (intro allI)
    fix i loc
    show "(idx(re_id x \<mapsto> \<lparr>loc_side = sd, loc_price = p, loc_it = k\<rparr>)) i = Some loc \<longleftrightarrow>
      (loc_price loc, loc_it loc, i) \<in> entry_key ` set (entries ((f(sd := book)) (loc_side loc)))"
      using ok fresh es by (cases loc) (auto simp: index_ok_def)
  qed
qed

lemma index_remove:
  assumes ok: "index_ok idx f" "ids_ok f" and nodes: "distinct (map (fst \<circ> snd) (entries (f (loc_side loc))))"
    and loc: "idx i = Some loc" and es: "entries book = filter (\<lambda>(_, j, _). j \<noteq> loc_it loc) (entries (f (loc_side loc)))"
  shows "index_ok (idx(i := None)) (f(loc_side loc := book))"
    and "\<And>e. e \<in> set (entries (f (loc_side loc))) \<Longrightarrow> fst (snd e) = loc_it loc \<longleftrightarrow> eid e = i"
proof -
  obtain e0 where e0: "e0 \<in> set (entries (f (loc_side loc)))" "entry_key e0 = (loc_price loc, loc_it loc, i)"
    using index_okD [OF ok(1)] loc by blast
  show same: "fst (snd e) = loc_it loc \<longleftrightarrow> eid e = i" if "e \<in> set (entries (f (loc_side loc)))" for e
  proof
    assume "fst (snd e) = loc_it loc"
    then have "e = e0" using nodes e0 that by (simp add: distinct_map inj_on_def entry_key_eq)
    then show "eid e = i" using e0(2) by (simp add: entry_key_eq)
  next
    assume "eid e = i"
    then have "e = e0" using ids_okD(1) [OF ok(2), of "loc_side loc"] e0 that by (simp add: distinct_map inj_on_def entry_key_eq)
    then show "fst (snd e) = loc_it loc" using e0(2) by (simp add: entry_key_eq)
  qed
  have other: "i \<notin> eid ` set (entries (f (opposite (loc_side loc))))"
    using ids_okD(2) [OF ok(2), of "loc_side loc"] e0 by (force simp: entry_key_eq)
  have keys: "(q, j, i') \<in> entry_key ` set (entries book) \<longleftrightarrow> i' \<noteq> i \<and> (q, j, i') \<in> entry_key ` set (entries (f (loc_side loc)))" for q j i'
    using same by (force simp: es entry_key_eq image_iff)
  show "index_ok (idx(i := None)) (f(loc_side loc := book))" unfolding index_ok_def
  proof (intro allI)
    fix i' loc'
    show "(idx(i := None)) i' = Some loc' \<longleftrightarrow> (loc_price loc', loc_it loc', i') \<in> entry_key ` set (entries ((f(loc_side loc := book)) (loc_side loc')))"
    proof (cases "loc_side loc' = loc_side loc")
      case True
      then show ?thesis using ok(1) keys by (auto simp: index_ok_def)
    next
      case False
      then have "loc_side loc' = opposite (loc_side loc)" by (cases "loc_side loc"; cases "loc_side loc'") auto
      then show ?thesis using ok(1) False other by (auto simp: index_ok_def entry_key_eq image_iff)
    qed
  qed
qed

section \<open>Simulation\<close>

lemma sides_repD:
  assumes "sides_rep f idx k s"
  shows "map entry_maker (entries (f sd)) = lob_side sd s" "side_ok sd (f sd)" "distinct (map (fst \<circ> snd) (entries (f sd)))"
    "\<And>e. e \<in> set (entries (f sd)) \<Longrightarrow> fst (snd e) < k" "index_ok idx f" "map eid (entries (f sd)) = map m_id (lob_side sd s)"
proof -
  show all: "map entry_maker (entries (f sd)) = lob_side sd s" "side_ok sd (f sd)" "distinct (map (fst \<circ> snd) (entries (f sd)))"
    "\<And>e. e \<in> set (entries (f sd)) \<Longrightarrow> fst (snd e) < k" "index_ok idx f"
    using assms by (auto simp: sides_rep_def)
  show "map eid (entries (f sd)) = map m_id (lob_side sd s)" by (simp flip: all(1))
qed

lemma rep_ids_ok: "sides_rep f idx k s \<Longrightarrow> distinct (map m_id (lob_bids s @ lob_asks s)) \<Longrightarrow> ids_ok f"
  using sides_repD(6) [of f idx k s Bid] sides_repD(6) [of f idx k s Ask] by (simp add: ids_ok_def del: distinct_append)

lemma rep_absent: "sides_rep f idx k s \<Longrightarrow> idx i = None \<longleftrightarrow> i \<notin> lob_ids s"
proof -
  assume r: "sides_rep f idx k s"
  have "eid ` set (entries (f sd)) = m_id ` set (lob_side sd s)" for sd using arg_cong [OF sides_repD(6) [OF r, of sd], of set] by simp
  then have "idx i = None \<longleftrightarrow> (\<forall>sd. i \<notin> m_id ` set (lob_side sd s))" using index_dom [OF sides_repD(5) [OF r]] by simp
  also have "\<dots> \<longleftrightarrow> i \<notin> lob_ids s" by (auto simp: lob_ids_def lob_side_def split: Side.splits)
  finally show ?thesis .
qed

lemma rep_match:
  assumes r: "sides_rep f idx k s" and ids: "distinct (map m_id (lob_bids s @ lob_asks s))"
    and pos: "\<forall>m \<in> set (lob_side sd s). 0 < m_open m" and m: "match_book ok q (f sd) idx 0 = (q', book, idx', n)"
  shows "\<exists>ex ms. sweep ok (unat q) (lob_side sd s) = (ex, unat q', ms) \<and> n = of_nat (length ex) \<and>
    sides_rep (f(sd := book)) idx' k (set_lob_side sd ms s)"
proof -
  note D = sides_repD [OF r]
  have "\<forall>(p, k, x) \<in> set (entries (f sd)). 0 < re_qty x"
  proof clarify
    fix p k x assume "(p, k, x) \<in> set (entries (f sd))"
    then have "entry_maker (p, k, x) \<in> set (lob_side sd s)" unfolding D(1) [of sd, symmetric] by force
    then show "0 < re_qty x" using pos by (force simp: word_gt_0_unat)
  qed
  from match_book_sweep [OF m D(2) this] obtain ex dr where
    x: "sweep ok (unat q) (lob_side sd s) = (ex, unat q', map entry_maker (entries book))" "n = of_nat (length ex)"
      "map entry_key (entries (f sd)) = dr @ map entry_key (entries book)" "idx' = idx |` (- set (map (snd \<circ> snd) dr))" "side_ok sd book"
    unfolding D(1) by auto
  have nodes: "map (fst \<circ> snd) (entries (f sd)) = map (fst \<circ> snd) dr @ map (fst \<circ> snd) (entries book)"
    using arg_cong [OF x(3), of "map (fst \<circ> snd)"] by (simp add: entry_key_eq o_def)
  have "fst (snd e) < k" if "e \<in> set (entries book)" for e
  proof -
    have "fst (snd e) \<in> set (map (fst \<circ> snd) (entries (f sd)))" unfolding nodes using that by force
    then show ?thesis using D(4) by auto
  qed
  moreover have "distinct (map (fst \<circ> snd) (entries book))" using D(3) [of sd] unfolding nodes by simp
  moreover have "index_ok idx' (f(sd := book))" unfolding x(4) using index_drop [OF D(5) rep_ids_ok [OF r ids] x(3)] .
  ultimately have "sides_rep (f(sd := book)) idx' k (set_lob_side sd (map entry_maker (entries book)) s)"
    using D(1-4) x(5) unfolding sides_rep_def by simp
  then show ?thesis using x(1,2) by blast
qed

lemma rep_add:
  assumes r: "sides_rep f idx k s" and new: "re_id x \<notin> lob_ids s"
  shows "sides_rep (f(sd := level_append (better sd) p (k, x) (f sd))) (idx(re_id x \<mapsto> \<lparr>loc_side = sd, loc_price = p, loc_it = k\<rparr>)) (k + 1)
    (rest_maker sd (entry_maker (p, k, x)) s)"
proof -
  note D = sides_repD [OF r]
  let ?book = "level_append (better sd) p (k, x) (f sd)"
  note L = level_append_entries [OF D(2), of sd p k x]
  have es: "set (entries ?book) = insert (p, k, x) (set (entries (f sd)))"
    using arg_cong [OF L(2), of set_mset] by simp
  have "mset (map (fst \<circ> snd) (entries ?book)) = mset (k # map (fst \<circ> snd) (entries (f sd)))" using L(2) by simp
  moreover have "distinct (k # map (fst \<circ> snd) (entries (f sd)))" using D(4) D(3) [of sd] by fastforce
  ultimately have "distinct (map (fst \<circ> snd) (entries ?book))" using mset_eq_imp_distinct_iff by blast
  moreover have "index_ok (idx(re_id x \<mapsto> \<lparr>loc_side = sd, loc_price = p, loc_it = k\<rparr>)) (f(sd := ?book))"
    using index_add [OF D(5) es] rep_absent [OF r] new by simp
  ultimately show ?thesis using D(1-4) L(1,3) es unfolding sides_rep_def rest_maker_def by (auto simp: less_Suc_eq)
qed

lemma rep_remove:
  assumes r: "sides_rep f idx k s" and ids: "distinct (map m_id (lob_bids s @ lob_asks s))" and loc: "idx i = Some loc"
  shows "\<exists>book. erase_from (loc_price loc) (loc_it loc) (f (loc_side loc)) = Some book \<and>
    sides_rep (f(loc_side loc := book)) (idx(i := None)) k (lob_cancel i s)"
proof -
  note D = sides_repD [OF r]
  let ?sd = "loc_side loc"
  obtain x where x: "(loc_price loc, loc_it loc, x) \<in> set (entries (f ?sd))" "re_id x = i" using index_okD [OF D(5)] loc by force
  obtain book where book: "erase_from (loc_price loc) (loc_it loc) (f ?sd) = Some book"
      "entries book = filter (\<lambda>(_, j, _). j \<noteq> loc_it loc) (entries (f ?sd))" "side_ok ?sd book"
    using erase_from_entries [OF D(2,3) x(1)] by blast
  note R = index_remove [OF D(5) rep_ids_ok [OF r ids] D(3) loc book(2)]
  have "filter (\<lambda>(_, j, _). j \<noteq> loc_it loc) (entries (f ?sd)) = filter (\<lambda>e. eid e \<noteq> i) (entries (f ?sd))"
    by (rule filter_cong) (simp_all add: case_prod_unfold R(2))
  then have "map entry_maker (entries book) = filter (\<lambda>m. m_id m \<noteq> i) (lob_side ?sd s)"
    unfolding D(1) [of ?sd, symmetric] book(2) by (simp add: filter_map o_def)
  moreover have "filter (\<lambda>m. m_id m \<noteq> i) (lob_side sd s) = lob_side sd s" if "sd \<noteq> ?sd" for sd
  proof -
    have "sd = opposite ?sd" using that by (cases sd; cases "?sd") auto
    then have "i \<notin> eid ` set (entries (f sd))"
      using ids_okD(2) [OF rep_ids_ok [OF r ids], of ?sd] x by force
    then show ?thesis unfolding D(1) [of sd, symmetric] by (force simp: filter_id_conv)
  qed
  moreover have "lob_side sd (lob_cancel i s) = filter (\<lambda>m. m_id m \<noteq> i) (lob_side sd s)" for sd by (cases sd) (simp_all add: lob_cancel_def)
  moreover have "distinct (map (fst \<circ> snd) (entries book))" using D(3) [of ?sd] unfolding book(2) by (simp add: distinct_map_filter)
  ultimately have "sides_rep (f(?sd := book)) (idx(i := None)) k (lob_cancel i s)"
    using D(1-4) R(1) book(2,3) unfolding sides_rep_def by auto
  then show ?thesis using book(1) by blast
qed

text \<open>Both kinds of messages, and streams.\<close>

definition set_mb_side :: "Side \<Rightarrow> side_map \<Rightarrow> map_book \<Rightarrow> map_book" where
  "set_mb_side sd x b = (case sd of Bid \<Rightarrow> b\<lparr>mb_bids := x\<rparr> | Ask \<Rightarrow> b\<lparr>mb_asks := x\<rparr>)"

lemma set_mb_side_sel [simp]:
  "mb_side sd (set_mb_side sd' x b) = (if sd = sd' then x else mb_side sd b)"
  "mb_index (set_mb_side sd x b) = mb_index b" "mb_next_node (set_mb_side sd x b) = mb_next_node b"
  "mb_side sd (b\<lparr>mb_index := idx\<rparr>) = mb_side sd b" "mb_side sd (b\<lparr>mb_next_node := k\<rparr>) = mb_side sd b"
  by (cases sd; cases sd'; simp add: set_mb_side_def)+

lemma handle_new_order_eq:
  assumes "match_book (accepts m) (n_quantity m) (mb_side (opposite (n_side m)) b) (mb_index b) 0 = (r, book, idx, f)" "idx (n_id m) = None"
  shows "handle_new_order m b = (let b1 = set_mb_side (opposite (n_side m)) book (b\<lparr>mb_index := idx\<rparr>); k = mb_next_node b in
    (f, if r > 0 \<and> n_type m = Limit
      then (set_mb_side (n_side m) (level_append (better (n_side m)) (n_price m) (k, \<lparr>re_id = n_id m, re_qty = r\<rparr>) (mb_side (n_side m) b1)) b1)
        \<lparr>mb_next_node := k + 1, mb_index := idx(n_id m \<mapsto> \<lparr>loc_side = n_side m, loc_price = n_price m, loc_it = k\<rparr>)\<rparr>
      else b1))"
proof -
  have acc: "accepts m = (\<lambda>p. n_type m = Market \<or> (case n_side m of Bid \<Rightarrow> p \<le> n_price m | Ask \<Rightarrow> n_price m \<le> p))"
    by (simp add: accepts_def fun_eq_iff)
  have lim: "n_type m = Limit \<longleftrightarrow> n_type m \<noteq> Market" by (cases "n_type m") auto
  show ?thesis using assms
    by (cases "n_side m") (simp_all add: handle_new_order_def acc lim set_mb_side_def better_ops Let_def)
qed

lemma new_order_sim:
  assumes rep: "map_rep b s" "lob_ok n s" and fresh: "n_id m \<notin> lob_ids s" "n_type m = Limit \<longrightarrow> lob_size s < n"
    and grid: "n_type m = Limit \<longrightarrow> 0 \<le> n_price m \<and> n_price m < MAX_PRICE_TICKS"
  shows "\<exists>b'. handle_new_order m b = (of_nat (length (fst (lob_new n m s))), b') \<and> map_rep b' (snd (lob_new n m s))"
proof -
  let ?sd = "n_side m" and ?op = "opposite (n_side m)" and ?f = "\<lambda>sd. mb_side sd b"
  have ids: "distinct (map m_id (lob_bids s @ lob_asks s))" and pos: "\<forall>m \<in> set (lob_side ?op s). 0 < m_open m"
    using rep(2) by (auto simp: lob_ok_def lob_side_def split: Side.splits)
  have r: "sides_rep ?f (mb_index b) (mb_next_node b) s" using rep(1) by (simp add: map_rep_def)
  obtain r' book idx f where mb: "match_book (accepts m) (n_quantity m) (?f ?op) (mb_index b) 0 = (r', book, idx, f)" by (metis prod_cases4)
  from rep_match [OF r ids pos mb] obtain ex ms where x: "sweep (accepts m) (unat (n_quantity m)) (lob_side ?op s) = (ex, unat r', ms)"
      "f = of_nat (length ex)" and r1: "sides_rep (?f(?op := book)) idx (mb_next_node b) (set_lob_side ?op ms s)" by blast
  let ?s1 = "set_lob_side ?op ms s"
  have "lob_ids ?s1 \<subseteq> lob_ids s" "lob_size ?s1 \<le> lob_size s"
    using sweep_ids [OF x(1)] by (cases "n_side m"; auto simp: lob_ids_def lob_size_def)+
  then have s1: "n_id m \<notin> lob_ids ?s1" "n_type m = Limit \<longrightarrow> lob_size ?s1 < n" using fresh by auto
  have new: "lob_new n m s = (map (to_fill m) ex, rest_remainder n m (unat r') ?s1)"
  proof (cases "n_quantity m = 0")
    case True
    then have "ex = []" "unat r' = 0" "ms = lob_side ?op s" using x(1) by auto
    then show ?thesis using True by (cases "n_side m") (simp_all add: lob_new_def rejected_def rest_remainder_def)
  qed (use grid x(1) in \<open>auto simp: lob_new_def rejected_def\<close>)
  have none: "idx (n_id m) = None" using rep_absent [OF r1] s1(1) by simp
  define b1 where "b1 = set_mb_side ?op book (b\<lparr>mb_index := idx\<rparr>)"
  have f1: "(\<lambda>sd. mb_side sd b1) = ?f(?op := book)" "mb_index b1 = idx" "mb_next_node b1 = mb_next_node b"
    by (auto simp: b1_def fun_eq_iff)
  note eq = handle_new_order_eq [OF mb none, folded b1_def]
  show ?thesis
  proof (cases "r' > 0 \<and> n_type m = Limit")
    case True
    let ?x = "\<lparr>re_id = n_id m, re_qty = r'\<rparr>"
    have "rest_remainder n m (unat r') ?s1 = rest_maker ?sd (entry_maker (n_price m, mb_next_node b, ?x)) ?s1"
      using True s1 by (simp add: rest_remainder_def word_gt_0_unat)
    moreover have "(\<lambda>sd. mb_side sd (snd (handle_new_order m b))) =
        (?f(?op := book))(?sd := level_append (better ?sd) (n_price m) (mb_next_node b, ?x) ((?f(?op := book)) ?sd))"
      using True by (auto simp: eq fun_eq_iff b1_def Let_def)
    ultimately show ?thesis using rep_add [OF r1, of ?x ?sd "n_price m"] s1(1) True x(2)
      by (simp add: new map_rep_def eq Let_def)
  next
    case False
    then have "rest_remainder n m (unat r') ?s1 = ?s1" by (auto simp: rest_remainder_def word_gt_0_unat)
    then show ?thesis using r1 f1 x(2) False by (auto simp: new map_rep_def eq Let_def)
  qed
qed

lemma cancel_sim:
  assumes rep: "map_rep b s" "lob_ok n s"
  shows "\<exists>b'. handle_cancel m b = Some (0, b') \<and> map_rep b' (lob_cancel (c_id m) s)"
proof -
  have ids: "distinct (map m_id (lob_bids s @ lob_asks s))" using rep(2) by (auto simp: lob_ok_def)
  have r: "sides_rep (\<lambda>sd. mb_side sd b) (mb_index b) (mb_next_node b) s" using rep(1) by (simp add: map_rep_def)
  show ?thesis
  proof (cases "mb_index b (c_id m)")
    case None
    then have "c_id m \<notin> lob_ids s" using rep_absent [OF r] by simp
    then have "\<forall>x \<in> set (lob_bids s) \<union> set (lob_asks s). m_id x \<noteq> c_id m" by (force simp: lob_ids_def)
    then have "lob_cancel (c_id m) s = s" by (simp add: lob_cancel_def filter_id_conv)
    then show ?thesis using None rep(1) by (simp add: handle_cancel_def)
  next
    case (Some loc)
    from rep_remove [OF r ids Some] obtain book where book: "erase_from (loc_price loc) (loc_it loc) (mb_side (loc_side loc) b) = Some book"
      and r1: "sides_rep ((\<lambda>sd. mb_side sd b)(loc_side loc := book)) ((mb_index b)(c_id m := None)) (mb_next_node b) (lob_cancel (c_id m) s)"
      by blast
    let ?b = "(set_mb_side (loc_side loc) book b)\<lparr>mb_index := (mb_index b)(c_id m := None)\<rparr>"
    have "handle_cancel m b = Some (0, ?b)" using Some book by (cases "loc_side loc") (simp_all add: handle_cancel_def set_mb_side_def)
    moreover have "(\<lambda>sd. mb_side sd ?b) = (\<lambda>sd. mb_side sd b)(loc_side loc := book)" by (auto simp: fun_eq_iff)
    ultimately show ?thesis using r1 by (simp add: map_rep_def)
  qed
qed

lemma set_enqueue: "set (enqueue bt m ms) = insert m (set ms)" "length (enqueue bt m ms) = Suc (length ms)"
proof -
  have "set ms = set (takeWhile P ms) \<union> set (dropWhile P ms)" "length ms = length (takeWhile P ms) + length (dropWhile P ms)" for P
    by (metis set_append takeWhile_dropWhile_id, metis length_append takeWhile_dropWhile_id)
  then show "set (enqueue bt m ms) = insert m (set ms)" "length (enqueue bt m ms) = Suc (length ms)" by (simp_all add: enqueue_def)
qed

lemma lob_new_ids: "lob_ids (snd (lob_new n m s)) \<subseteq> (if n_type m = Limit then insert (n_id m) (lob_ids s) else lob_ids s)"
proof -
  obtain ex r ms where x: "sweep (accepts m) (unat (n_quantity m)) (lob_side (opposite (n_side m)) s) = (ex, r, ms)" by (metis prod_cases3)
  let ?s1 = "set_lob_side (opposite (n_side m)) ms s"
  have "lob_ids ?s1 \<subseteq> lob_ids s" using sweep_ids [OF x] by (cases "n_side m"; auto simp: lob_ids_def)
  moreover have "lob_ids (rest_remainder n m r ?s1) \<subseteq> (if n_type m = Limit then insert (n_id m) (lob_ids ?s1) else lob_ids ?s1)"
    by (cases "n_side m"; auto simp: rest_remainder_def rest_maker_def lob_ids_def set_enqueue)
  moreover have "snd (lob_new n m s) = (if rejected m then s else rest_remainder n m r ?s1)" using x by (simp add: lob_new_def)
  ultimately show ?thesis by (auto split: if_splits)
qed

lemma lob_cancel_ids: "lob_ids (lob_cancel i s) \<subseteq> lob_ids s - {i}"
  by (auto simp: lob_cancel_def lob_ids_def)

lemma lob_size_ids: "lob_ok n s \<Longrightarrow> lob_size s = card (lob_ids s)"
  using distinct_card [of "map m_id (lob_bids s @ lob_asks s)"] by (auto simp: lob_ok_def lob_size_def lob_ids_def image_Un)

section \<open>Streams\<close>

text \<open>
  Streams on which the two books are meant to agree: identifiers are not reused and limit
  prices are on the grid.  The baseline has no bound on the number of orders and does not check
  prices.
\<close>

fun stream_ok :: "OrderId set \<Rightarrow> engine_message list \<Rightarrow> bool" where
  "stream_ok used [] \<longleftrightarrow> True"
| "stream_ok used (NewOrder m # ms) \<longleftrightarrow> n_id m \<notin> used \<and> (n_type m = Limit \<longrightarrow> 0 \<le> n_price m \<and> n_price m < MAX_PRICE_TICKS) \<and>
     stream_ok (insert (n_id m) used) ms"
| "stream_ok used (Cancel m # ms) \<longleftrightarrow> stream_ok used ms"

text \<open>
  The limit orders of a stream that are not cancelled yet never number more than \<open>n\<close>.  Orders that
  were executed count as well, so this says nothing about the matching.
\<close>

definition pending_after :: "engine_message \<Rightarrow> OrderId set \<Rightarrow> OrderId set" where
  "pending_after m ids = (case m of NewOrder x \<Rightarrow> if n_type x = Limit then insert (n_id x) ids else ids | Cancel x \<Rightarrow> ids - {c_id x})"

fun fits_pool :: "nat \<Rightarrow> OrderId set \<Rightarrow> engine_message list \<Rightarrow> bool" where
  "fits_pool n ids [] \<longleftrightarrow> True"
| "fits_pool n ids (m # ms) \<longleftrightarrow> card (pending_after m ids) \<le> n \<and> fits_pool n (pending_after m ids) ms"

lemma pending_ids_fold: "pending_ids ms = fold pending_after ms {}"
  by (simp add: pending_ids_def pending_after_def [abs_def])

text \<open>The condition in terms of the prefixes of the stream.\<close>

lemma fits_pool_prefixes: "fits_pool n {} ms \<longleftrightarrow> (\<forall>k < length ms. card (pending_ids (take (Suc k) ms)) \<le> n)"
proof -
  have "fits_pool n ids ms \<longleftrightarrow> (\<forall>k < length ms. card (fold pending_after (take (Suc k) ms) ids) \<le> n)" for ids
    by (induction ms arbitrary: ids) (auto simp: less_Suc_eq_0_disj)
  then show ?thesis by (simp add: pending_ids_fold)
qed

lemma one_message_sim:
  assumes "map_rep b s" "lob_ok n s" "stream_ok used (msg # ms)" "lob_ids s \<subseteq> ids" "ids \<subseteq> used" "finite ids" "fits_pool n ids (msg # ms)"
  shows "\<exists>b'. map_process msg b = Some (of_nat (length (fst (lob_process n msg s))), b') \<and> map_rep b' (snd (lob_process n msg s))"
    and "lob_ids (snd (lob_process n msg s)) \<subseteq> pending_after msg ids"
proof -
  show "\<exists>b'. map_process msg b = Some (of_nat (length (fst (lob_process n msg s))), b') \<and> map_rep b' (snd (lob_process n msg s))"
  proof (cases msg)
    case (NewOrder m)
    have "lob_size s < n" if "n_type m = Limit"
    proof -
      have "card (insert (n_id m) ids) \<le> n" "n_id m \<notin> ids" using that assms(3,5,7) NewOrder by (auto simp: pending_after_def)
      then show ?thesis using card_mono [OF assms(6,4)] lob_size_ids [OF assms(2)] assms(6) by simp
    qed
    then show ?thesis using new_order_sim [OF assms(1,2), of m] assms(3-5) NewOrder by auto
  qed (use cancel_sim [OF assms(1,2)] in auto)
  show "lob_ids (snd (lob_process n msg s)) \<subseteq> pending_after msg ids"
  proof (cases msg)
    case (NewOrder m)
    then show ?thesis using lob_new_ids [of n m s] assms(4) by (auto simp: pending_after_def split: if_splits)
  next
    case (Cancel m)
    then show ?thesis using lob_cancel_ids [of "c_id m" s] assms(4) by (auto simp: pending_after_def)
  qed
qed

lemma map_run_sim:
  assumes "implements n e s" "map_rep b s" "stream_ok used ms" "lob_ids s \<subseteq> ids" "ids \<subseteq> used" "finite ids" "fits_pool n ids ms"
  shows "\<exists>fss e' b'. run_messages ms e = Some (fss, e') \<and> map_run ms b = Some (map (of_nat \<circ> length) fss, b')"
  using assms
proof (induction ms arbitrary: e s b used ids)
  case (Cons msg ms)
  have ok: "lob_ok n s" using implements_view(1) [OF Cons.prems(1)] .
  obtain e1 where e1: "process msg e = Some e1" "e_fills e1 = fst (lob_process n msg s)" "implements n e1 (snd (lob_process n msg s))"
    using process_implements [OF Cons.prems(1)] by blast
  obtain b1 where b1: "map_process msg b = Some (of_nat (length (fst (lob_process n msg s))), b1)" "map_rep b1 (snd (lob_process n msg s))"
    using one_message_sim(1) [OF Cons.prems(2) ok Cons.prems(3-7)] by blast
  note ids = one_message_sim(2) [OF Cons.prems(2) ok Cons.prems(3-7)]
  obtain used' where u: "stream_ok used' ms" "pending_after msg ids \<subseteq> used'" "finite (pending_after msg ids)"
  proof (cases msg)
    case (NewOrder m)
    then have "pending_after msg ids \<subseteq> insert (n_id m) used" using Cons.prems(5) by (auto simp: pending_after_def)
    then show ?thesis using that [of "insert (n_id m) used"] Cons.prems(3,6) NewOrder by (simp add: pending_after_def)
  next
    case (Cancel m)
    then show ?thesis using that [of used] Cons.prems(3,5,6) by (auto simp: pending_after_def)
  qed
  from Cons.IH [OF e1(3) b1(2) u(1) ids u(2,3)] obtain fss e2 b2 where
    "run_messages ms e1 = Some (fss, e2)" "map_run ms b1 = Some (map (of_nat \<circ> length) fss, b2)" using Cons.prems(7) by auto
  then show ?case using e1(1,2) b1(1) by simp
qed simp

lemma new_map_rep: "map_rep new_map_book empty_lob"
  by (auto simp: map_rep_def sides_rep_def new_map_book_def empty_lob_def side_ok_def index_ok_def mb_side_def lob_side_def split: Side.splits)

text \<open>The generator's streams are of this kind.\<close>

lemma flow_valid_stream_ok:
  assumes "flow_valid cfg before ms" "new_orders before + length ms < 2 ^ 64"
  shows "stream_ok (of_nat ` {1..new_orders before}) ms"
  using assms
proof (induction ms arbitrary: before)
  case (Cons msg ms)
  have "new_orders (before @ [msg]) + length ms < 2 ^ 64" using Cons.prems(2) by (simp add: new_orders_snoc split: engine_message.splits)
  moreover have "flow_valid cfg (before @ [msg]) ms" using Cons.prems(1) by simp
  ultimately have IH: "stream_ok (of_nat ` {1..new_orders (before @ [msg])}) ms" using Cons.IH by blast
  show ?case
  proof (cases msg)
    case (NewOrder m)
    let ?k = "new_orders before"
    have m: "n_id m = of_nat (?k + 1)" "0 \<le> n_price m" "n_price m < MAX_PRICE_TICKS"
      using Cons.prems(1) NewOrder by (auto simp: flow_message_ok_def)
    have "of_nat (?k + 1) \<noteq> (of_nat i :: OrderId)" if "i \<in> {1..?k}" for i
    proof -
      have "unat (of_nat (?k + 1) :: OrderId) = ?k + 1" "unat (of_nat i :: OrderId) = i"
        by (rule unat_of_nat_small; use that Cons.prems(2) in simp)+
      then show ?thesis using that by auto
    qed
    then have "n_id m \<notin> of_nat ` {1..?k}" unfolding m(1) by blast
    moreover have "(of_nat ` {1..new_orders (before @ [msg])} :: OrderId set) = insert (n_id m) (of_nat ` {1..?k})"
      using NewOrder m(1) by (simp add: new_orders_snoc atLeastAtMostSuc_conv)
    ultimately show ?thesis using NewOrder IH m by simp
  qed (use IH in \<open>simp add: new_orders_snoc\<close>)
qed simp

lemma flow_stream_ok:
  assumes "flow cfg g ms" "length ms < 2 ^ 64 - 1"
  shows "stream_ok {} ms"
  using flow_valid_stream_ok [of cfg "[]" ms] flow_rel [OF assms] assms(2) by (simp add: new_orders_def)

section \<open>Agreement\<close>

text \<open>
  C19: The engine and the baseline of the benchmark report the same number of fills for
  every message of a stream that does not reuse identifiers, keeps its limit prices on the
  grid and at no point has more limit orders that are not cancelled than the engine's pool has slots.
  The generator's streams meet the first two conditions (\<open>flow_stream_ok\<close>); whether one meets the third depends
  on its length and its draws.  It is needed: the engine discards the remainder of an order when its pool is
  exhausted, the baseline has no pool (\<open>exhausted_pool_differs\<close>).
\<close>

theorem map_book_agrees:
  assumes "n < 2 ^ 32" "stream_ok {} ms" "fits_pool n {} ms"
  shows "\<exists>fss e b. run_messages ms (new_engine n) = Some (fss, e) \<and> map_run ms new_map_book = Some (map (of_nat \<circ> length) fss, b)"
  using map_run_sim [OF new_engine_implements [OF assms(1)] new_map_rep assms(2) _ _ _ assms(3)]
  by (simp add: lob_ids_def empty_lob_def)

definition sample_stream :: "engine_message list" where
  "sample_stream = [NewOrder \<lparr>n_id = 1, n_side = Ask, n_type = Limit, n_price = 101, n_quantity = 5, n_timestamp = 1\<rparr>,
     NewOrder \<lparr>n_id = 2, n_side = Ask, n_type = Limit, n_price = 100, n_quantity = 5, n_timestamp = 2\<rparr>,
     NewOrder \<lparr>n_id = 3, n_side = Bid, n_type = Limit, n_price = 101, n_quantity = 7, n_timestamp = 3\<rparr>,
     Cancel \<lparr>c_id = 1, c_timestamp = 4\<rparr>,
     NewOrder \<lparr>n_id = 4, n_side = Bid, n_type = Market, n_price = 0, n_quantity = 1, n_timestamp = 5\<rparr>]"

theorem map_book_agrees_witness:
  "\<exists>fss e. run_messages sample_stream (new_engine 3) = Some (fss, e) \<and> map (of_nat \<circ> length) fss = [0, 0, 2, 0, 0 :: 64 word]"
proof -
  have "stream_ok {} sample_stream" "fits_pool 3 {} sample_stream"
    by (simp_all add: sample_stream_def pending_after_def MAX_PRICE_TICKS_def card_insert_if)
  then have "\<exists>fss e b. run_messages sample_stream (new_engine 3) = Some (fss, e) \<and>
      map_run sample_stream new_map_book = Some (map (of_nat \<circ> length) fss, b)"
    using map_book_agrees [of 3 sample_stream] by simp
  moreover have "map_option fst (map_run sample_stream new_map_book) = Some [0, 0, 2, 0, 0]" by code_simp
  ultimately show ?thesis by auto
qed

text \<open>With a pool of one slot the second of two asks is discarded, and the order that crosses both trades once instead of twice.\<close>

lemma exhausted_pool_differs:
  "map_option (map length \<circ> fst) (run_messages (take 3 sample_stream) (new_engine 1)) = Some [0, 0, 1]"
  "map_option fst (map_run (take 3 sample_stream) new_map_book) = Some [0, 0, 2]"
  by code_simp+

end
