(* ===== verification/Pipeline_Shutdown.thy ===== *)
theory Pipeline_Shutdown
  imports Pipeline_System
begin

text \<open>
  The staged shutdown of \<^verbatim>\<open>main.cpp\<close> after each join: what the engine thread and the output
  thread still do with the queues they read from, and that each of them ends.
  \<open>Pipeline_System\<close> shows how a message can be left behind when the engine thread is between its
  failed pop and its look at the stop flag; here the thread is at its pop, and its loads see what the joined
  thread has done and the flag.
\<close>

section \<open>The engine thread after the join of the ingest thread\<close>

text \<open>
  A turn of the engine thread that sees the current indices of the queues and the stop flag, and runs with a number
  of such turns between which the other threads take any number of steps.
\<close>

definition engine_turn :: "pipeline \<Rightarrow> pipeline \<Rightarrow> bool" where
  "engine_turn p p' \<longleftrightarrow> (\<exists>r. \<not> er_miss r \<and> er_stop r \<and> engine_step r p = Some p')"

inductive turns :: "nat \<Rightarrow> pipeline \<Rightarrow> pipeline \<Rightarrow> bool" where
  none: "turns 0 p p"
| engine: "turns k p q \<Longrightarrow> engine_turn q r \<Longrightarrow> turns (Suc k) p r"
| others: "turns k p q \<Longrightarrow> pipeline_step q r \<Longrightarrow> pl_epc r = pl_epc q \<Longrightarrow> pl_popped r = pl_popped q \<Longrightarrow> turns k p r"

text \<open>
  The turns left at a program counter, when the messages still waiting take \<open>W\<close> turns: eight for a message and two for
  each of its fills.
\<close>

definition message_turns :: "engine_message list \<Rightarrow> fill_message list list \<Rightarrow> nat" where
  "message_turns xs fss = 8 * length xs + 2 * length (concat fss)"

definition turns_left :: "engine_pc \<Rightarrow> engine \<Rightarrow> nat \<Rightarrow> nat" where
  "turns_left pc e W = (case pc of
       EngEmit ss \<Rightarrow> length ss + 2 * length (e_fills e) + W + 9 | EngSend fs \<Rightarrow> 2 * length fs + W + 8 | EngCount _ fs \<Rightarrow> 2 * length fs + W + 9
     | EngPublish \<Rightarrow> W + 7 | EngServe \<Rightarrow> W + 6 | EngBook \<Rightarrow> W + 5 | EngPop \<Rightarrow> W + 4
     | EngCheck \<Rightarrow> 3 | EngPool \<Rightarrow> 2 | EngLat \<Rightarrow> 1 | EngDone \<Rightarrow> 0)"

text \<open>
  What holds from the stop flag on: the ingest thread is joined, the messages not taken yet will bring the engine to
  the state \<open>e\<close>, and the thread is past its pop only when there are none.
\<close>

definition draining :: "engine_message list \<Rightarrow> engine \<Rightarrow> nat \<Rightarrow> pipeline \<Rightarrow> bool" where
  "draining ms e N p \<longleftrightarrow> pl_engine_stop p \<and> pl_ingest_joined p \<and> pl_phase p = PushNext \<and> pl_ingested p = ms \<and>
     (\<exists>xs fss. ms = pl_popped p @ xs \<and> run_messages xs (et_engine (pl_engine p)) = Some (fss, e) \<and>
       (pl_epc p \<in> {EngCheck, EngPool, EngLat, EngDone} \<longrightarrow> xs = []) \<and>
       N = turns_left (pl_epc p) (et_engine (pl_engine p)) (message_turns xs fss))"

lemma pop_turn:
  assumes "engine_turn p p'" "pl_epc p = EngPop" "history_ok n p" "n < 2 ^ 32" "draining ms e N p"
  shows "\<exists>N' < N. draining ms e N' p'"
proof -
  obtain r where r: "\<not> er_miss r" "engine_pop r p = Some p'" using assms(1,2) by (auto simp: engine_turn_def engine_step_def)
  obtain ys fs gss where h: "history n ys fs gss p" using assms(3) by (auto simp: history_ok_def)
  obtain xs fss where d: "pl_engine_stop p" "pl_ingest_joined p" "pl_phase p = PushNext" "pl_ingested p = ms" "ms = pl_popped p @ xs"
      "run_messages xs (et_engine (pl_engine p)) = Some (fss, e)" "N = message_turns xs fss + 4"
    using assms(2,5) by (auto simp: draining_def turns_left_def)
  have ys: "ys = xs" using historyD(2) [OF h] d(4,5) by simp
  show ?thesis
  proof (cases rule: engine_popE [OF h assms(4), of r, case_names none some])
    case (none q)
    then have "draining ms e 3 p'" using d r ys by (auto simp: draining_def turns_left_def)
    then show ?thesis using d(7) by (intro exI [of _ 3]) simp
  next
    case (some msg zs q e1)
    then obtain gss where g: "run_messages zs e1 = Some (gss, e)" "fss = e_fills e1 # gss" using d(6) ys by (auto split: Option.bind_splits)
    let ?ss = "message_samples (er_t0 r) (er_t1 r) msg"
    have "draining ms e (turns_left (EngEmit ?ss) e1 (message_turns zs gss)) p'"
      using d some r(2) g(1) ys by (auto simp: draining_def)
    moreover have "length ?ss \<le> 2" by (simp add: message_samples_def Let_def)
    moreover have "length xs = Suc (length zs)" using ys some(1) by auto
    ultimately show ?thesis using d(7) g(2)
      by (intro exI [of _ "turns_left (EngEmit ?ss) e1 (message_turns zs gss)"]) (simp add: turns_left_def message_turns_def)
  qed
qed

lemma emit_engine: "emit miss s (th, w) = Some (th', w') \<Longrightarrow> et_engine th' = et_engine th"
  by (auto simp: emit_def split: Option.bind_splits)

lemma other_turn:
  assumes "engine_turn p p'" "pl_epc p \<noteq> EngPop" "draining ms e N p"
  shows "\<exists>N' < N. draining ms e N' p'"
proof -
  obtain r where r: "er_stop r" "engine_step r p = Some p'" using assms(1) by (auto simp: engine_turn_def)
  obtain xs fss where d: "pl_engine_stop p" "pl_ingest_joined p" "pl_phase p = PushNext" "pl_ingested p = ms" "ms = pl_popped p @ xs"
      "run_messages xs (et_engine (pl_engine p)) = Some (fss, e)" "pl_epc p \<in> {EngCheck, EngPool, EngLat, EngDone} \<longrightarrow> xs = []"
      "N = turns_left (pl_epc p) (et_engine (pl_engine p)) (message_turns xs fss)"
    using assms(3) by (auto simp: draining_def)
  note f = engine_frame [OF r(2)]
  have s: "et_engine (pl_engine p') = et_engine (pl_engine p) \<and> pl_popped p' = pl_popped p \<and>
      (pl_epc p' \<in> {EngCheck, EngPool, EngLat, EngDone} \<longrightarrow> pl_epc p \<in> {EngCheck, EngPool, EngLat}) \<and>
      turns_left (pl_epc p') (et_engine (pl_engine p)) W < turns_left (pl_epc p) (et_engine (pl_engine p)) W" for W
  proof (cases "pl_epc p")
    case (EngEmit ss)
    then show ?thesis using r by (cases ss) (auto simp: engine_step_def turns_left_def emit_engine Let_def split: Option.bind_splits)
  next
    case (EngSend fs)
    then show ?thesis using r by (cases fs) (auto simp: engine_step_def turns_left_def Let_def split: Option.bind_splits)
  qed (use r assms(2) in \<open>auto simp: engine_step_def turns_left_def publish_pool_def Let_def split: Option.bind_splits prod.splits if_splits\<close>)
  have "draining ms e (turns_left (pl_epc p') (et_engine (pl_engine p)) (message_turns xs fss)) p'"
    using d f s [of 0] unfolding draining_def by (intro conjI exI [of _ xs] exI [of _ fss]) auto
  then show ?thesis using s [of "message_turns xs fss"] d(8) by auto
qed

lemma engine_busy: "engine_step r p = Some p' \<Longrightarrow> pl_epc p' \<noteq> pl_epc p"
proof (cases "pl_epc p")
  case (EngEmit ss)
  then show "engine_step r p = Some p' \<Longrightarrow> ?thesis" by (cases ss) (auto simp: engine_step_def split: Option.bind_splits)
qed (auto simp: engine_step_def engine_pop_def Let_def split: list.splits option.splits prod.splits Option.bind_splits if_splits)

text \<open>The other threads change nothing of this.\<close>

lemma others_drain:
  assumes "pipeline_step p p'" "pl_epc p' = pl_epc p" "draining ms e N p"
  shows "draining ms e N p'"
  using assms(1)
proof cases
  case (ingest miss now msg)
  then show ?thesis using assms(3) by (simp add: draining_def)
next
  case (ingested ok)
  then show ?thesis using assms(3) by (simp add: draining_def)
next
  case (engine r)
  then show ?thesis using engine_busy assms(2) by blast
qed (use assms(3) in \<open>simp_all add: draining_def signal_handler_def\<close>)

lemma turn_step:
  assumes "engine_turn p p'" "pl_engine_stop p"
  shows "pipeline_step p p'"
  using assms by (auto simp: engine_turn_def intro: pipeline_step.engine)

lemma turns_run:
  assumes "turns k p p'" "pipeline_reachable n p" "n < 2 ^ 32" "draining ms e N p"
  shows "pipeline_reachable n p' \<and> (\<exists>N'. k + N' \<le> N \<and> draining ms e N' p')"
  using assms
proof induction
  case (engine k p q r)
  then obtain M where q: "pipeline_reachable n q" "k + M \<le> N" "draining ms e M q" by blast
  have "history_ok n q" using pipeline_inv [OF q(1) assms(3)] by blast
  then obtain M' where "M' < M" "draining ms e M' r"
    using pop_turn [OF engine.hyps(2) _ _ assms(3) q(3)] other_turn [OF engine.hyps(2) _ q(3)] by blast
  moreover have "pipeline_step q r" by (rule turn_step [OF engine.hyps(2)]) (use q(3) in \<open>simp add: draining_def\<close>)
  ultimately show ?case using pipeline_reachable.step [OF q(1)] q(2) by (intro conjI exI [of _ M']) auto
next
  case (others k p q r)
  then show ?case using others_drain [OF others.hyps(2,3)] pipeline_reachable.step by blast
qed auto

section \<open>The output thread after the join of the engine thread\<close>

definition samples_empty :: "wires \<Rightarrow> bool" where
  "samples_empty w \<longleftrightarrow> queue_rep LATENCY_QUEUE_SIZE (w_lat w) []"

definition fills_empty :: "wires \<Rightarrow> bool" where
  "fills_empty w \<longleftrightarrow> queue_rep FEED_QUEUE_SIZE (w_out w) []"

lemma queue_rep_empty:
  assumes "capacity_ok cap" "queue_rep cap q []" "queue_rep cap q xs"
  shows "xs = []"
  using ring.pop_rep [of cap q "[]"] ring.pop_rep [of cap q xs] assms by (cases xs) auto

text \<open>
  A turn of the output thread that sees the current indices of the queues and its stop flag, and runs with a
  number of such turns between which the other threads take any number of steps.
\<close>

definition output_turn :: "pipeline \<Rightarrow> pipeline \<Rightarrow> bool" where
  "output_turn p p' \<longleftrightarrow> (case pl_opc p of
      OutSamples \<Rightarrow> (\<exists>got t w. output_sample False (pl_batch p) (pl_output p, pl_wires p) = Some (got, t, w) \<and>
        p' = p\<lparr>pl_output := t, pl_wires := w, pl_did_work := pl_did_work p \<or> got,
          pl_batch := (if got then Suc (pl_batch p) else 0), pl_opc := (if got then OutSamples else OutPop)\<rparr>)
    | OutPop \<Rightarrow> (\<exists>pad written now_ms did t w. output_message_step False pad written now_ms (pl_did_work p) (pl_output p, pl_wires p) = Some (did, t, w) \<and>
        p' = p\<lparr>pl_output := t, pl_wires := w, pl_did_work := did, pl_opc := OutTimers\<rparr>)
    | OutTimers \<Rightarrow> (\<exists>clients now print_now t w. output_timers clients now print_now (ingested_fn p) (pl_did_work p) (pl_output p, pl_wires p) = Some (t, w) \<and>
        p' = p\<lparr>pl_output := t, pl_wires := w, pl_opc := (if pl_did_work p then OutSamples else OutCheck), pl_did_work := False\<rparr>)
    | OutCheck \<Rightarrow> (\<exists>now t w. finish_output now (ingested_fn p) (pl_output p, pl_wires p) = Some (t, w) \<and>
        p' = p\<lparr>pl_output := t, pl_wires := w, pl_opc := OutDone\<rparr>)
    | OutDone \<Rightarrow> False)"

inductive output_turns :: "nat \<Rightarrow> pipeline \<Rightarrow> pipeline \<Rightarrow> bool" where
  none: "output_turns 0 p p"
| own: "output_turns k p q \<Longrightarrow> output_turn q r \<Longrightarrow> output_turns (Suc k) p r"
| others: "output_turns k p q \<Longrightarrow> pipeline_step q r \<Longrightarrow> pl_opc r = pl_opc q \<Longrightarrow> pl_batch r = pl_batch q \<Longrightarrow> output_turns k p r"

text \<open>The number of samples and fills that wait, and a bound on the turns left with so many.\<close>

definition items :: "wires \<Rightarrow> nat \<Rightarrow> bool" where
  "items w N \<longleftrightarrow> (\<exists>zs fs. queue_rep LATENCY_QUEUE_SIZE (w_lat w) zs \<and> queue_rep FEED_QUEUE_SIZE (w_out w) (map FillOut fs) \<and> N = length zs + length fs)"

definition output_rank :: "output_pc \<Rightarrow> bool \<Rightarrow> nat \<Rightarrow> nat" where
  "output_rank pc did N = (case pc of OutSamples \<Rightarrow> 4 * N + (if did then 7 else 4) | OutPop \<Rightarrow> 4 * N + (if did then 6 else 3)
     | OutTimers \<Rightarrow> 4 * N + (if did then 5 else 2) | OutCheck \<Rightarrow> 4 * N + 1 | OutDone \<Rightarrow> 0)"

text \<open>
  What holds from the stop flag on, with \<open>R\<close> turns left: an iteration that has done no work has found the queues it
  has looked at empty.
\<close>

definition output_settled :: "nat \<Rightarrow> pipeline \<Rightarrow> bool" where
  "output_settled R p \<longleftrightarrow> pl_output_stop p \<and> (\<exists>N. items (pl_wires p) N \<and> R = output_rank (pl_opc p) (pl_did_work p) N) \<and>
     (\<not> pl_did_work p \<longrightarrow> (pl_opc p \<noteq> OutSamples \<longrightarrow> samples_empty (pl_wires p)) \<and> (pl_opc p \<notin> {OutSamples, OutPop} \<longrightarrow> fills_empty (pl_wires p))) \<and>
     (pl_did_work p \<longrightarrow> pl_opc p \<notin> {OutCheck, OutDone})"

lemma itemsI:
  "queue_rep LATENCY_QUEUE_SIZE (w_lat w) zs \<Longrightarrow> queue_rep FEED_QUEUE_SIZE (w_out w) (map FillOut fs) \<Longrightarrow> items w (length zs + length fs)"
  by (auto simp: items_def)

lemma sample_turn:
  assumes "output_sample False i (t, w) = Some (got, t', w')" "items w N"
  shows "\<exists>N'. items w' N' \<and> N' + (if got then 1 else 0) = N \<and> (\<not> got \<longrightarrow> i < 4096 \<longrightarrow> samples_empty w')"
proof (cases "i < 4096")
  case True
  obtain zs fs where r: "queue_rep LATENCY_QUEUE_SIZE (w_lat w) zs" "queue_rep FEED_QUEUE_SIZE (w_out w) (map FillOut fs)" "N = length zs + length fs"
    using assms(2) by (auto simp: items_def)
  show ?thesis
  proof (cases rule: attempt_pop_rep [OF latency_capacity r(1), of False, case_names none some])
    case (none q)
    then show ?thesis using assms(1) r itemsI [of w' "[]" fs] True by (intro exI [of _ N]) (auto simp: output_sample_def samples_empty_def)
  next
    case (some x ys q)
    then show ?thesis using assms(1) r itemsI [of w' ys fs] True by (intro exI [of _ "length ys + length fs"]) (auto simp: output_sample_def)
  qed
qed (use assms in \<open>auto simp: output_sample_def\<close>)

lemma message_turn:
  assumes "output_message_step False pad written now_ms did (t, w) = Some (did', t', w')" "items w N"
  shows "\<exists>N'. items w' N' \<and> w_lat w' = w_lat w \<and> (did' \<and> N = Suc N' \<or> did' = did \<and> N = N' \<and> fills_empty w')"
proof -
  obtain zs fs where r: "queue_rep LATENCY_QUEUE_SIZE (w_lat w) zs" "queue_rep FEED_QUEUE_SIZE (w_out w) (map FillOut fs)" "N = length zs + length fs"
    using assms(2) by (auto simp: items_def)
  show ?thesis
  proof (cases rule: attempt_pop_rep [OF feed_capacity(1) r(2), of False, case_names none some])
    case (none q)
    then show ?thesis using assms(1) r by (intro exI [of _ N]) (auto simp: output_message_step_def items_def fills_empty_def)
  next
    case (some x ys q)
    then obtain f fs1 where f: "fs = f # fs1" "x = FillOut f" "ys = map FillOut fs1" by (cases fs) auto
    then show ?thesis using assms(1) r some itemsI [of w' zs fs1]
      by (intro exI [of _ "length zs + length fs1"]) (auto simp: output_message_step_def)
  qed
qed

lemma timers_queues:
  assumes "output_timers clients now print_now ing did (t, w) = Some (t', w')"
  shows "w_lat w' = w_lat w \<and> w_out w' = w_out w"
  using assms stats_timer_ok(1)
  by (fastforce simp: output_timers_def publish_timer_def publish_dashboard_def Let_def split: if_splits Option.bind_splits option.splits)

lemma items_cong: "w_lat w' = w_lat w \<Longrightarrow> w_out w' = w_out w \<Longrightarrow> items w' N = items w N"
  by (simp add: items_def)

lemma output_turn_less:
  assumes "output_turn p p'" "output_settled R p" "batch_ok p"
  shows "\<exists>R' < R. output_settled R' p'"
proof -
  obtain N where N: "items (pl_wires p) N" "R = output_rank (pl_opc p) (pl_did_work p) N" using assms(2) by (auto simp: output_settled_def)
  have reach: "\<exists>R' < R. output_settled R' p'" if "items (pl_wires p') N'" "output_rank (pl_opc p') (pl_did_work p') N' < R" "pl_output_stop p' = pl_output_stop p"
      "\<not> pl_did_work p' \<longrightarrow> (pl_opc p' \<noteq> OutSamples \<longrightarrow> samples_empty (pl_wires p')) \<and> (pl_opc p' \<notin> {OutSamples, OutPop} \<longrightarrow> fills_empty (pl_wires p'))"
      "pl_did_work p' \<longrightarrow> pl_opc p' \<notin> {OutCheck, OutDone}" for N'
    using that assms(2) unfolding output_settled_def by blast
  show ?thesis
  proof (cases "pl_opc p")
    case OutSamples
    then obtain got t w where s: "output_sample False (pl_batch p) (pl_output p, pl_wires p) = Some (got, t, w)"
        "p' = p\<lparr>pl_output := t, pl_wires := w, pl_did_work := pl_did_work p \<or> got,
          pl_batch := (if got then Suc (pl_batch p) else 0), pl_opc := (if got then OutSamples else OutPop)\<rparr>" using assms(1) by (auto simp: output_turn_def)
    obtain N' where "items w N'" "N' + (if got then 1 else 0) = N" "\<not> got \<longrightarrow> pl_batch p < 4096 \<longrightarrow> samples_empty w" using sample_turn [OF s(1) N(1)] by blast
    then show ?thesis using OutSamples s(2) N(2) assms(3) by (intro reach [of N']) (auto simp: output_rank_def batch_ok_def split: if_splits)
  next
    case OutPop
    then obtain pad written now_ms did t w where s: "output_message_step False pad written now_ms (pl_did_work p) (pl_output p, pl_wires p) = Some (did, t, w)"
        "p' = p\<lparr>pl_output := t, pl_wires := w, pl_did_work := did, pl_opc := OutTimers\<rparr>" using assms(1) by (auto simp: output_turn_def)
    obtain N' where "items w N'" "w_lat w = w_lat (pl_wires p)" "did \<and> N = Suc N' \<or> did = pl_did_work p \<and> N = N' \<and> fills_empty w" using message_turn [OF s(1) N(1)] by blast
    then show ?thesis using OutPop s(2) N(2) assms(2) by (intro reach [of N']) (auto simp: output_rank_def output_settled_def samples_empty_def)
  next
    case OutTimers
    then obtain clients now print_now t w where s: "output_timers clients now print_now (ingested_fn p) (pl_did_work p) (pl_output p, pl_wires p) = Some (t, w)"
        "p' = p\<lparr>pl_output := t, pl_wires := w, pl_opc := (if pl_did_work p then OutSamples else OutCheck), pl_did_work := False\<rparr>"
      using assms(1) by (auto simp: output_turn_def)
    then show ?thesis using timers_queues [OF s(1)] items_cong [of w "pl_wires p" N] OutTimers N assms(2)
      by (intro reach [of N]) (auto simp: output_rank_def output_settled_def samples_empty_def fills_empty_def)
  next
    case OutCheck
    then obtain now t w where s: "finish_output now (ingested_fn p) (pl_output p, pl_wires p) = Some (t, w)" "p' = p\<lparr>pl_output := t, pl_wires := w, pl_opc := OutDone\<rparr>"
      using assms(1) by (auto simp: output_turn_def)
    then show ?thesis using finish_output_ok(2) [OF s(1)] OutCheck N assms(2) by (intro reach [of N]) (auto simp: output_rank_def output_settled_def)
  qed (use assms(1) in \<open>simp add: output_turn_def\<close>)
qed

text \<open>The next turn is always defined: the queues are well formed and the statistics can be computed.\<close>

lemma print_stats_defined: "\<exists>t'. print_stats now ing c t = Some t'"
proof -
  obtain v50 v99 where "p50 (match_latency (ot_metrics t)) = Some v50" "p99 (match_latency (ot_metrics t)) = Some v99" using percentiles_defined by metis
  then show ?thesis by (simp add: print_stats_def Let_def)
qed

lemma publish_dashboard_defined: "\<exists>r. publish_dashboard clients (t, w) = Some r"
proof -
  obtain a b c d e where "p50 (match_latency (ot_metrics t)) = Some a" "p95 (match_latency (ot_metrics t)) = Some b" "p99 (match_latency (ot_metrics t)) = Some c"
      "p50 (order_latency (ot_metrics t)) = Some d" "p99 (order_latency (ot_metrics t)) = Some e" using percentiles_defined by metis
  then show ?thesis by (auto simp: publish_dashboard_def dashboard_stats_def Let_def split: option.splits)
qed

lemma output_timers_defined: "\<exists>r. output_timers clients now print_now ing did (t, w) = Some r"
proof -
  let ?t = "if did then t\<lparr>ot_iter := ot_iter t + 1\<rparr> else t"
  obtain st where "publish_timer clients now (?t, w) = Some st"
    using publish_dashboard_defined [of clients ?t w] that by (cases "ot_next_pub ?t \<le> now") (auto simp: publish_timer_def Let_def)
  moreover obtain r where "stats_timer now print_now ing st = Some r"
    using print_stats_defined [of print_now ing "w_counters (snd st)" "fst st"] that by (cases "ot_next_stat (fst st) \<le> now") (auto simp: stats_timer_def)
  ultimately show ?thesis by (simp add: output_timers_def Let_def)
qed

lemma output_ready:
  assumes "history_ok n p" "pl_opc p \<noteq> OutDone"
  shows "\<exists>p'. output_turn p p'"
proof -
  obtain xs fs fss where h: "history n xs fs fss p" using assms(1) by (auto simp: history_ok_def)
  show ?thesis
  proof (cases "pl_opc p")
    case OutSamples
    obtain zs where zs: "queue_rep LATENCY_QUEUE_SIZE (w_lat (pl_wires p)) zs" using historyD(1) [OF h] by (auto simp: wires_ok_def)
    have "\<exists>st. output_sample False (pl_batch p) (pl_output p, pl_wires p) = Some st"
      by (cases rule: attempt_pop_rep [OF latency_capacity zs, of False]) (auto simp: output_sample_def)
    then show ?thesis using OutSamples by (auto simp: output_turn_def)
  next
    case OutPop
    have "\<exists>st. output_message_step False pad written now_ms (pl_did_work p) (pl_output p, pl_wires p) = Some st" for pad written now_ms
      by (cases rule: attempt_pop_rep [OF feed_capacity(1) historyD(9) [OF h], of False]) (auto simp: output_message_step_def)
    then show ?thesis using OutPop by (auto simp: output_turn_def)
  next
    case OutTimers
    obtain t w where "output_timers 0 0 0 (ingested_fn p) (pl_did_work p) (pl_output p, pl_wires p) = Some (t, w)" using output_timers_defined by fast
    then show ?thesis using OutTimers unfolding output_turn_def by (simp only: output_pc.case) blast
  next
    case OutCheck
    obtain t where "print_stats 0 (ingested_fn p) (w_counters (pl_wires p)) (pl_output p) = Some t" using print_stats_defined by blast
    then have "finish_output 0 (ingested_fn p) (pl_output p, pl_wires p) =
        Some (t\<lparr>ot_metrics := note_dropped_samples (ct_lat_dropped (w_counters (pl_wires p))) (ot_metrics t)\<rparr>, pl_wires p)" by (simp add: finish_output_def)
    then show ?thesis using OutCheck unfolding output_turn_def by (simp only: output_pc.case) blast
  qed (use assms(2) in simp)
qed

lemma output_turn_step: "output_turn p p' \<Longrightarrow> pl_output_stop p \<Longrightarrow> pipeline_step p p'"
  by (auto simp: output_turn_def simp del: if_split split: output_pc.splits
      intro: pipeline_step.output_sample pipeline_step.output_pop pipeline_step.output_timers pipeline_step.output_done)

text \<open>After the stop of the output thread the other threads leave its queues alone.\<close>

lemma others_quiet:
  assumes "pipeline_step p p'" "pl_opc p' = pl_opc p" "pl_batch p' = pl_batch p" "output_settled R p" "shutdown_order p"
  shows "output_settled R p'"
proof -
  have finished: "pl_epc p = EngDone" using assms(4,5) by (simp add: output_settled_def shutdown_order_def)
  have "w_lat (pl_wires p') = w_lat (pl_wires p) \<and> w_out (pl_wires p') = w_out (pl_wires p) \<and> pl_did_work p' = pl_did_work p \<and> pl_output_stop p' = pl_output_stop p
      \<or> pl_output_stop p' \<and> pl_wires p' = pl_wires p \<and> pl_did_work p' = pl_did_work p"
    using assms(1)
  proof cases
    case (ingest miss now msg)
    then show ?thesis using ingest_frame [OF ingest(3)] by simp
  next
    case (ingested ok)
    then show ?thesis using count_frame [of p] by simp
  next
    case (engine r)
    then show ?thesis using finished by (simp add: engine_step_def)
  next
    case (output_sample miss got t w)
    then show ?thesis using assms(2,3) by (auto split: if_splits)
  qed (use assms(2) in \<open>auto simp: signal_handler_def split: if_splits\<close>)
  then show ?thesis using assms(2,4) items_cong [of "pl_wires p'" "pl_wires p"]
    unfolding output_settled_def samples_empty_def fills_empty_def by auto
qed

lemma output_turns_run:
  assumes "output_turns k p p'" "pipeline_reachable n p" "n < 2 ^ 32" "output_settled R p"
  shows "pipeline_reachable n p' \<and> (\<exists>R'. k + R' \<le> R \<and> output_settled R' p')"
  using assms
proof induction
  case (own k p q r)
  then obtain M where q: "pipeline_reachable n q" "k + M \<le> R" "output_settled M q" by blast
  obtain M' where "M' < M" "output_settled M' r" using output_turn_less [OF own.hyps(2) q(3) batch_inv [OF q(1)]] by blast
  moreover have "pipeline_step q r" by (rule output_turn_step [OF own.hyps(2)]) (use q(3) in \<open>simp add: output_settled_def\<close>)
  ultimately show ?case using pipeline_reachable.step [OF q(1)] q(2) by (intro conjI exI [of _ M']) auto
next
  case (others k p q r)
  then obtain M where q: "pipeline_reachable n q" "k + M \<le> R" "output_settled M q" by blast
  have "shutdown_order q" using pipeline_inv [OF q(1) assms(3)] by blast
  then show ?case using others_quiet [OF others.hyps(2-4) q(3)] pipeline_reachable.step [OF q(1) others.hyps(2)] q(2) by blast
qed auto

section \<open>Properties\<close>

text \<open>
  C33: Shutdown drains the input queue when the engine thread is at its pop as the stop
  flag is set, and its loads see the current indices and the flag.  Whatever the other threads do in between, the thread
  ends after at most eight steps for each message that waits, two for each of their fills, and
  four more; it can always take its next step; no message is added;
  and when it has ended, every message that was ever accepted has been processed, so that the engine is
  in the state that the waiting messages lead to.
\<close>

theorem shutdown_drains:
  assumes "pipeline_reachable n p" "n < 2 ^ 32" "pl_engine_stop p" "pl_epc p = EngPop" "pl_ingested p = pl_popped p @ waiting" "turns k p p'"
  shows "\<exists>fss e. run_messages waiting (et_engine (pl_engine p)) = Some (fss, e) \<and>
    k \<le> 8 * length waiting + 2 * length (concat fss) + 4 \<and> pl_ingested p' = pl_ingested p \<and>
    (if pl_epc p' = EngDone then pl_popped p' = pl_ingested p \<and> et_engine (pl_engine p') = e else \<exists>p''. engine_turn p' p'')"
proof -
  have order: "shutdown_order p" using pipeline_inv [OF assms(1,2)] by blast
  obtain xs fs gss where h: "history n xs fs gss p" using any_ingest.accounts [OF assms(1,2)] by (auto simp: history_ok_def)
  obtain s where "implements n (et_engine (pl_engine p)) s" using reachable_implements [OF historyD(10) [OF h] assms(2)] by blast
  then obtain fss e where run: "run_messages waiting (et_engine (pl_engine p)) = Some (fss, e)"
    using eng.run_sim unfolding run_messages_eng by blast
  have "draining (pl_ingested p) e (8 * length waiting + 2 * length (concat fss) + 4) p"
    using assms(3-5) order run by (auto simp: draining_def shutdown_order_def turns_left_def message_turns_def)
  from turns_run [OF assms(6,1,2) this]
  have p': "pipeline_reachable n p'" "k \<le> 8 * length waiting + 2 * length (concat fss) + 4" "\<exists>N. draining (pl_ingested p) e N p'" by auto
  let ?r = "\<lparr>er_miss = False, er_stop = True, er_lock = True, er_t0 = 0, er_t1 = 0\<rparr>"
  have "\<exists>p''. engine_turn p' p''" if "pl_epc p' \<noteq> EngDone"
    using any_ingest.engine_ready [OF p'(1) assms(2) that, of ?r] unfolding engine_turn_def by (auto intro!: exI [of _ ?r])
  then show ?thesis using p'(2,3) run by (intro exI [of _ fss] exI [of _ e]) (auto simp: draining_def)
qed

text \<open>A shutdown with one message waiting.\<close>

definition shut :: "pipeline \<Rightarrow> pipeline" where
  "shut p = p\<lparr>pl_shutdown := True, pl_ingest_joined := True, pl_engine_stop := True\<rparr>"

lemma shut_reachable:
  assumes "pipeline_reachable n p" "pl_phase p = PushNext"
  shows "pipeline_reachable n (shut p)"
proof -
  have "pipeline_reachable n (signal_handler p)" by (rule pipeline_reachable.step [OF assms(1) pipeline_step.signal])
  then have "pipeline_reachable n ((signal_handler p)\<lparr>pl_ingest_joined := True\<rparr>)"
    by (rule pipeline_reachable.step) (rule pipeline_step.join_ingest, simp_all add: signal_handler_def assms(2))
  then have "pipeline_reachable n ((signal_handler p)\<lparr>pl_ingest_joined := True, pl_engine_stop := True\<rparr>)"
    by (rule pipeline_reachable.step) (rule pipeline_step.stop_engine [of "(signal_handler p)\<lparr>pl_ingest_joined := True\<rparr>", simplified])
  then show ?thesis by (simp add: shut_def signal_handler_def)
qed

theorem shutdown_drains_witness:
  "pl_ingested one_waiting \<noteq> [] \<and> (\<exists>k p'. turns k (shut one_waiting) p' \<and> pl_epc p' = EngDone \<and> pl_popped p' = pl_ingested one_waiting)"
proof -
  let ?p = "shut one_waiting" and ?w = "pl_ingested one_waiting"
  have p: "pipeline_reachable 4 ?p" "pl_engine_stop ?p" "pl_epc ?p = EngPop" "pl_ingested ?p = pl_popped ?p @ ?w"
    using shut_reachable one_waiting_reachable by (simp_all add: shut_def)
  note t = shutdown_drains [OF p(1) _ p(2-4)]
  obtain fss e where run: "run_messages ?w (et_engine (pl_engine ?p)) = Some (fss, e)" using t [OF _ turns.none] by auto
  have bound: "k \<le> 8 * length ?w + 2 * length (concat fss) + 4"
      "if pl_epc p' = EngDone then pl_popped p' = ?w else \<exists>p''. engine_turn p' p''" if "turns k ?p p'" for k p'
    using t [OF _ that] run by (auto simp: shut_def)
  have "\<exists>p'. turns k ?p p'" if never: "\<nexists>j p'. turns j ?p p' \<and> pl_epc p' = EngDone" for k
  proof (induction k)
    case (Suc k)
    then obtain p' where p': "turns k ?p p'" by blast
    then obtain p'' where "engine_turn p' p''" using bound(2) [OF p'] never by auto
    then show ?case using turns.engine [OF p'] by blast
  qed (use turns.none in blast)
  then obtain k p' where "turns k ?p p'" "pl_epc p' = EngDone" using bound(1) not_less_eq_eq by metis
  then show ?thesis using bound(2) one_waiting_reachable(2) by fastforce
qed

text \<open>
  C34: Shutdown drains the two queues the output thread reads, when that thread is at the start of
  its loop body, or between two samples, as its stop flag is set, and its loads see the current indices and the flag.
  Whatever the other threads do in between, it ends
  after at most four steps for each sample and fill that waits and four more, or seven in an iteration that has already
  done work; its next step is always defined; and when it has ended, both queues are empty, so that every fill that was
  sent has been handled and counted.
\<close>

theorem output_drains:
  assumes "pipeline_reachable n p" "n < 2 ^ 32" "pl_output_stop p" "pl_opc p = OutSamples"
    and "queue_rep LATENCY_QUEUE_SIZE (w_lat (pl_wires p)) samples" "queue_rep FEED_QUEUE_SIZE (w_out (pl_wires p)) (map FillOut fills)"
    and "output_turns k p p'"
  shows "k \<le> 4 * (length samples + length fills) + (if pl_did_work p then 7 else 4) \<and>
    (if pl_opc p' = OutDone
     then queue_rep LATENCY_QUEUE_SIZE (w_lat (pl_wires p')) [] \<and> queue_rep FEED_QUEUE_SIZE (w_out (pl_wires p')) [] \<and>
       total_matches (ot_metrics (pl_output p')) = ct_fills (w_counters (pl_wires p'))
     else \<exists>p''. output_turn p' p'')"
proof -
  let ?R = "4 * (length samples + length fills) + (if pl_did_work p then 7 else 4)"
  have "output_settled ?R p" using assms(3,4) itemsI [OF assms(5,6)] unfolding output_settled_def by (auto simp: output_rank_def)
  from output_turns_run [OF assms(7,1,2) this]
  obtain R' where r: "pipeline_reachable n p'" "k + R' \<le> ?R" "output_settled R' p'" by blast
  have inv: "history_ok n p'" "shutdown_order p'" using pipeline_inv [OF r(1) assms(2)] by blast+
  have "queue_rep LATENCY_QUEUE_SIZE (w_lat (pl_wires p')) [] \<and> queue_rep FEED_QUEUE_SIZE (w_out (pl_wires p')) [] \<and>
      total_matches (ot_metrics (pl_output p')) = ct_fills (w_counters (pl_wires p'))" if "pl_opc p' = OutDone"
  proof -
    have e: "samples_empty (pl_wires p')" "fills_empty (pl_wires p')" using r(3) that by (auto simp: output_settled_def)
    have pc: "pl_epc p' = EngDone" using inv(2) that by (simp add: shutdown_order_def)
    obtain xs fs fss where h: "history n xs fs fss p'" using inv(1) by (auto simp: history_ok_def)
    have "fs = []" using queue_rep_empty [OF feed_capacity(1) _ historyD(9) [OF h]] e(2) by (simp add: fills_empty_def)
    then show ?thesis using e historyD(7) [OF h] pc by (simp add: samples_empty_def fills_empty_def total_matches_def fill_uncounted_def)
  qed
  then show ?thesis using r(2) output_ready [OF inv(1)] by simp
qed

text \<open>A run in which no message arrives, up to the stop of the output thread.\<close>

definition start_synthetic :: pipeline where
  "start_synthetic = start_pipeline 4 (default_config\<lparr>cfg_live := False\<rparr>) True False 0"

lemma idle_stop:
  obtains w where "wires_ok w [] []" "samples_empty w" "pipeline_reachable 4 ((shut start_synthetic)\<lparr>pl_wires := w, pl_epc := EngDone, pl_output_stop := True\<rparr>)"
proof -
  let ?p = "shut start_synthetic" and ?w = "pl_wires (shut start_synthetic)" and ?th = "pl_engine (shut start_synthetic)"
  let ?r = "\<lparr>er_miss = False, er_stop = True, er_lock = True, er_t0 = 0, er_t1 = 0\<rparr>"
  have r: "pipeline_reachable 4 ?p" using shut_reachable [OF pipeline_reachable.start] by (simp add: start_synthetic_def start_pipeline_sel)
  have w: "wires_ok ?w [] []" "samples_empty ?w"
    by (auto simp: wires_ok_def samples_empty_def shut_def start_synthetic_def start_pipeline_def start_engine_def new_wires_def
      init_hub_def default_config_def Let_def intro!: exI [of _ "[]"] new_queue_rep feed_capacity(1) latency_capacity)
  obtain q where q: "try_pop FEED_QUEUE_SIZE (w_in ?w) = Some (None, q)" "queue_rep FEED_QUEUE_SIZE q []"
    using ring.pop_rep [of FEED_QUEUE_SIZE "w_in ?w" "[]"] feed_capacity w(1) by (auto simp: wires_ok_def)
  have pc: "pl_epc ?p = EngPop" "pl_engine_stop ?p" by (simp_all add: shut_def start_synthetic_def start_pipeline_sel)
  let ?w1 = "?w\<lparr>w_in := q\<rparr>" and ?w2 = "store_pool_free ?th (?w\<lparr>w_in := q\<rparr>)"
  let ?w3 = "store_lat_dropped ?th ?w2"
  have step: "pipeline_reachable 4 p'" if "pipeline_reachable 4 p" "engine_step ?r p = Some p'" "pl_engine_stop p" for p p'
    using pipeline_reachable.step [OF that(1) pipeline_step.engine [OF that(2)]] that(3) by simp
  have "pipeline_reachable 4 (?p\<lparr>pl_wires := ?w1, pl_epc := EngCheck\<rparr>)"
    by (rule step [OF r]) (simp_all add: pc engine_step_def engine_pop_def attempt_pop_def q(1))
  then have "pipeline_reachable 4 (?p\<lparr>pl_wires := ?w1, pl_epc := EngPool\<rparr>)" by (rule step) (simp_all add: engine_step_def pc)
  then have "pipeline_reachable 4 (?p\<lparr>pl_wires := ?w2, pl_epc := EngLat\<rparr>)" by (rule step) (simp_all add: engine_step_def pc)
  then have "pipeline_reachable 4 (?p\<lparr>pl_wires := ?w3, pl_epc := EngDone\<rparr>)" by (rule step) (simp_all add: engine_step_def pc)
  then have "pipeline_reachable 4 (?p\<lparr>pl_wires := ?w3, pl_epc := EngDone, pl_output_stop := True\<rparr>)"
    by (rule pipeline_reachable.step) (use pipeline_step.stop_output [of "?p\<lparr>pl_wires := ?w3, pl_epc := EngDone\<rparr>"] in \<open>simp add: pc\<close>)
  moreover have "wires_ok ?w3 [] []" "samples_empty ?w3" using w q(2) by (auto simp: wires_ok_def samples_empty_def store_lat_dropped_def store_pool_free_def)
  ultimately show thesis using that [of ?w3] by blast
qed

theorem output_drains_witness:
  "\<exists>p k p'. pipeline_reachable 4 p \<and> output_turns k p p' \<and> pl_opc p' = OutDone \<and> queue_rep FEED_QUEUE_SIZE (w_out (pl_wires p')) [] \<and>
    total_matches (ot_metrics (pl_output p')) = ct_fills (w_counters (pl_wires p'))"
proof -
  obtain w where w: "wires_ok w [] []" "samples_empty w" "pipeline_reachable 4 ((shut start_synthetic)\<lparr>pl_wires := w, pl_epc := EngDone, pl_output_stop := True\<rparr>)"
    by (rule idle_stop)
  let ?p = "(shut start_synthetic)\<lparr>pl_wires := w, pl_epc := EngDone, pl_output_stop := True\<rparr>"
  have p: "pl_output_stop ?p" "pl_opc ?p = OutSamples" by (simp_all add: shut_def start_synthetic_def start_pipeline_def start_engine_def Let_def)
  have did: "pl_did_work ?p = False" by (simp add: shut_def start_synthetic_def start_pipeline_def start_engine_def Let_def)
  have q: "queue_rep LATENCY_QUEUE_SIZE (w_lat (pl_wires ?p)) []" "queue_rep FEED_QUEUE_SIZE (w_out (pl_wires ?p)) (map FillOut [])"
    using w(1,2) by (simp_all add: wires_ok_def samples_empty_def)
  note t = output_drains [OF w(3) _ p q]
  have "\<exists>p'. output_turns k ?p p'" if never: "\<nexists>j p'. output_turns j ?p p' \<and> pl_opc p' = OutDone" for k
  proof (induction k)
    case (Suc k)
    then obtain p' where p': "output_turns k ?p p'" by blast
    then obtain p'' where "output_turn p' p''" using t [OF _ p'] never by auto
    then show ?case using output_turns.own [OF p'] by blast
  qed (use output_turns.none in blast)
  then obtain k p' where p': "output_turns k ?p p'" "pl_opc p' = OutDone" using t [of 5] did by force
  then show ?thesis using t [OF _ p'(1)] w(3) by (intro exI [of _ ?p] exI [of _ k] exI [of _ p']) simp
qed

end
