(* ===== verification/Synthetic_Ingest.thy ===== *)
theory Synthetic_Ingest
  imports Pipeline_System Synthetic_Workload
begin

text \<open>
  \<^verbatim>\<open>main.cpp\<close>, \<^verbatim>\<open>run_synthetic_ingest\<close>: the ingest thread of the synthetic mode, which draws
  messages from the generator, stamps them and pushes them, waiting when the queue is
  full.  It runs here with the other threads of the pipeline.  \<open>si_drawn\<close> records the
  messages the generator has produced, as it produced them.
\<close>

definition synthetic_workload :: workload_config where
  "synthetic_workload = default_workload\<lparr>wc_cancel_rate := round_dbl (35 / 100)\<rparr>"

text \<open>
  The test of the flag at the loop head, the push, the test of the flag after a refused push, the
  update of the counter after one that succeeded.
\<close>

datatype ingest_pc = IngTop | IngPush | IngRetry | IngCount | IngReturned

record synthetic_ingest =
  si_gen :: generator
  si_pc :: ingest_pc
  si_msg :: engine_message
  si_now :: Timestamp
  si_drawn :: "engine_message list"

record synthetic_system =
  ss_pipe :: pipeline
  ss_ingest :: synthetic_ingest

definition start_synthetic_ingest :: synthetic_ingest where
  "start_synthetic_ingest = \<lparr>si_gen = new_generator, si_pc = IngTop, si_msg = no_message, si_now = 0, si_drawn = []\<rparr>"

text \<open>
  The turns of the thread.  The first argument tells whether a load of the shutdown flag in
  the turn sees it set; a load may miss a flag that was just set.  A draw from the normal
  distribution has no bound, and the conversion of a huge one to ticks is undefined; such a draw has no turn.
\<close>

inductive ingest_turn :: "bool \<Rightarrow> synthetic_system \<Rightarrow> synthetic_system \<Rightarrow> bool" where
  draw: "i = ss_ingest s \<Longrightarrow> si_pc i = IngTop \<Longrightarrow> draw_ok synthetic_workload (si_gen i) dr \<Longrightarrow>
    next_message synthetic_workload dr (si_gen i) = Some (msg, g) \<Longrightarrow>
    ingest_turn False s (s\<lparr>ss_ingest := \<lparr>si_gen = g, si_pc = IngPush, si_msg = msg, si_now = now, si_drawn = si_drawn i @ [msg]\<rparr>\<rparr>)"
| leave: "i = ss_ingest s \<Longrightarrow> si_pc i = IngTop \<or> si_pc i = IngRetry \<Longrightarrow> pl_shutdown (ss_pipe s) \<Longrightarrow>
    ingest_turn True s (s\<lparr>ss_ingest := i\<lparr>si_pc := IngReturned\<rparr>\<rparr>)"
| push: "i = ss_ingest s \<Longrightarrow> si_pc i = IngPush \<Longrightarrow> ingest_push miss (si_now i) (si_msg i) (ss_pipe s) = Some p \<Longrightarrow>
    ingest_turn seen s (s\<lparr>ss_pipe := p, ss_ingest := i\<lparr>si_pc := (if pl_phase p = PushNext then IngRetry else IngCount)\<rparr>\<rparr>)"
| counted: "i = ss_ingest s \<Longrightarrow> si_pc i = IngCount \<Longrightarrow>
    ingest_turn seen s (s\<lparr>ss_pipe := ingest_count (ss_pipe s), ss_ingest := i\<lparr>si_pc := IngTop\<rparr>\<rparr>)"
| again: "i = ss_ingest s \<Longrightarrow> si_pc i = IngRetry \<Longrightarrow> ingest_turn False s (s\<lparr>ss_ingest := i\<lparr>si_pc := IngPush\<rparr>\<rparr>)"

text \<open>
  The system: the ingest thread, the other threads, whose steps are the ones of the
  pipeline that neither ingest nor join, and the join, which waits for the thread to return.
\<close>

inductive synthetic_step :: "synthetic_system \<Rightarrow> synthetic_system \<Rightarrow> bool" where
  ingest: "ingest_turn seen s s' \<Longrightarrow> synthetic_step s s'"
| others: "pipeline_step (ss_pipe s) p \<Longrightarrow> pl_ingested p = pl_ingested (ss_pipe s) \<Longrightarrow> pl_ingest_joined p = pl_ingest_joined (ss_pipe s) \<Longrightarrow>
    pl_phase p = pl_phase (ss_pipe s) \<Longrightarrow> synthetic_step s (s\<lparr>ss_pipe := p\<rparr>)"
| join: "pl_shutdown (ss_pipe s) \<Longrightarrow> si_pc (ss_ingest s) = IngReturned \<Longrightarrow>
    synthetic_step s (s\<lparr>ss_pipe := (ss_pipe s)\<lparr>pl_ingest_joined := True\<rparr>\<rparr>)"

inductive synthetic_reachable :: "nat \<Rightarrow> synthetic_system \<Rightarrow> bool" for n where
  start: "\<not> cfg_live cfg \<Longrightarrow>
    synthetic_reachable n \<lparr>ss_pipe = start_pipeline n cfg opened started now, ss_ingest = start_synthetic_ingest\<rparr>"
| step: "synthetic_reachable n s \<Longrightarrow> synthetic_step s s' \<Longrightarrow> synthetic_reachable n s'"

inductive_cases ingest_turnE: "ingest_turn seen s s'"

section \<open>The invariant\<close>

text \<open>Messages without the time stamps the threads put into them.\<close>

abbreviation unstamped :: "engine_message list \<Rightarrow> engine_message list" where
  "unstamped ms \<equiv> map (stamp 0) ms"

lemma stamp_stamp [simp]: "stamp t (stamp t' m) = stamp t m"
  by (cases m) simp_all

definition in_hand :: "synthetic_ingest \<Rightarrow> engine_message list" where
  "in_hand i = (if si_pc i = IngPush \<or> si_pc i = IngRetry then [si_msg i] else [])"

definition synthetic_inv :: "nat \<Rightarrow> synthetic_system \<Rightarrow> bool" where
  "synthetic_inv n s \<longleftrightarrow> (let p = ss_pipe s; i = ss_ingest s in
     pipeline_reachable n p \<and> \<not> pl_live p \<and> pl_phase p = (if si_pc i = IngCount then PushCount True else PushNext) \<and> (pl_ingest_joined p \<longrightarrow> si_pc i = IngReturned) \<and>
     flow synthetic_workload (si_gen i) (si_drawn i) \<and>
     (\<exists>rest. unstamped (si_drawn i) = unstamped (pl_ingested p @ rest) \<and> length rest \<le> 1 \<and> (si_pc i \<noteq> IngReturned \<longrightarrow> rest = in_hand i)))"

lemma push_outcome:
  assumes "ingest_push miss now msg p = Some p'" "\<not> pl_live p"
  shows "pl_phase p' = PushCount True \<and> pl_ingested p' = pl_ingested p @ [stamp now msg] \<or> pl_phase p' = PushNext \<and> pl_ingested p' = pl_ingested p"
  using assms by (auto simp: ingest_push_def split: Option.bind_splits if_splits)

lemma turn_inv:
  assumes "ingest_turn seen s s'" "synthetic_inv n s"
  shows "synthetic_inv n s'"
  using assms(1)
proof cases
  case (draw i dr msg g now)
  have "flow synthetic_workload g (si_drawn i @ [msg])" using assms(2) draw by (auto simp: synthetic_inv_def Let_def intro: flow.step)
  then show ?thesis using assms(2) draw by (auto simp: synthetic_inv_def in_hand_def Let_def)
next
  case (push i miss p)
  have inv: "\<not> pl_ingest_joined (ss_pipe s)" "\<not> pl_live (ss_pipe s)" "pl_phase (ss_pipe s) = PushNext"
    using assms(2) push by (auto simp: synthetic_inv_def Let_def)
  have step: "pipeline_step (ss_pipe s) p" by (rule pipeline_step.ingest [OF inv(1,3) push(4)])
  show ?thesis using assms(2) push(1-3) push_outcome [OF push(4) inv(2)] ingest_frame(1) [OF push(4)] pipeline_live [OF step] pipeline_reachable.step [OF _ step]
    by (auto simp: synthetic_inv_def in_hand_def Let_def)
next
  case (counted i)
  have "pl_phase (ss_pipe s) = PushCount True" using assms(2) counted by (auto simp: synthetic_inv_def Let_def)
  then have "pipeline_step (ss_pipe s) (ingest_count (ss_pipe s))" by (rule pipeline_step.ingested)
  then show ?thesis using assms(2) counted count_frame [of "ss_pipe s"] pipeline_reachable.step [of n "ss_pipe s"]
    by (auto simp: synthetic_inv_def in_hand_def Let_def)
qed (use assms(2) in \<open>auto simp: synthetic_inv_def in_hand_def Let_def\<close>)

lemma synthetic_invariant: "synthetic_reachable n s \<Longrightarrow> synthetic_inv n s"
proof (induction rule: synthetic_reachable.induct)
  case (start cfg opened started now)
  then show ?case using pipeline_reachable.start flow.start
    by (simp add: synthetic_inv_def start_synthetic_ingest_def in_hand_def)
      (simp add: start_pipeline_sel)
next
  case (step s s')
  from step.hyps(2) show ?case
  proof cases
    case (ingest seen)
    then show ?thesis using turn_inv step.IH by blast
  next
    case (others p)
    then show ?thesis using step.IH pipeline_live [OF others(2)] pipeline_reachable.step [OF _ others(2)]
      by (auto simp: synthetic_inv_def in_hand_def Let_def)
  next
    case join
    then show ?thesis using step.IH pipeline_reachable.step [OF _ pipeline_step.join_ingest, of n "ss_pipe s"]
      by (auto simp: synthetic_inv_def in_hand_def Let_def)
  qed
qed

interpretation synthetic: ingest_system n "synthetic_reachable n" ss_pipe for n
  by unfold_locales (use synthetic_invariant in \<open>auto simp: synthetic_inv_def Let_def\<close>)

section \<open>Progress\<close>

text \<open>The number of turns that see the flag until the thread has returned.\<close>

definition ingest_rank :: "synthetic_ingest \<Rightarrow> nat" where
  "ingest_rank i = (case si_pc i of IngReturned \<Rightarrow> 0 | IngPush \<Rightarrow> 3 | IngCount \<Rightarrow> 2 | _ \<Rightarrow> 1)"

lemma turn_rank: "ingest_turn True s s' \<Longrightarrow> ingest_rank (ss_ingest s') < ingest_rank (ss_ingest s)"
  by (erule ingest_turnE) (auto simp: ingest_rank_def split: ingest_pc.splits)

lemma returning_turn:
  assumes "synthetic_reachable n s" "n < 2 ^ 32" "pl_shutdown (ss_pipe s)" "si_pc (ss_ingest s) \<noteq> IngReturned"
  shows "\<exists>s'. ingest_turn True s s'"
proof (cases "si_pc (ss_ingest s)")
  case IngPush
  then have "pl_phase (ss_pipe s) = PushNext" using synthetic_invariant [OF assms(1)] by (simp add: synthetic_inv_def Let_def)
  then show ?thesis using synthetic.push_ready [OF assms(1,2)] ingest_turn.push [OF refl IngPush] by blast
next
  case IngCount
  then show ?thesis using ingest_turn.counted [OF refl IngCount] by blast
qed (use assms(3,4) ingest_turn.leave in \<open>blast+\<close>)

lemma flow_accepted:
  assumes "flow_valid cfg before ms" "1 \<le> wc_min_quantity cfg" "NewOrder m \<in> set ms"
  shows "\<not> rejected m"
  using assms
proof (induction ms arbitrary: before)
  case (Cons x ms)
  have "\<not> rejected m" if "x = NewOrder m"
    using Cons.prems(1,2) that by (auto simp: flow_message_ok_def rejected_def)
  then show ?case using Cons.IH [of "before @ [x]"] Cons.prems by auto
qed simp

lemma stamped_member:
  assumes "unstamped ms = unstamped (xs @ rest)" "NewOrder m \<in> set xs"
  shows "\<exists>m'. NewOrder m' \<in> set ms \<and> rejected m' = rejected m"
proof -
  have "stamp 0 (NewOrder m) \<in> set (unstamped ms)" using assms by (metis image_eqI image_set set_append Un_iff map_append)
  then obtain x where x: "x \<in> set ms" "stamp 0 x = stamp 0 (NewOrder m)" by auto
  obtain m' where m': "x = NewOrder m'" "m'\<lparr>n_timestamp := 0\<rparr> = m\<lparr>n_timestamp := 0\<rparr>" using x(2) by (cases x) auto
  have "rejected (y\<lparr>n_timestamp := 0\<rparr>) = rejected y" for y by (simp add: rejected_def)
  from this [of m] this [of m'] show ?thesis using x(1) m' by (intro exI [of _ m']) simp
qed

section \<open>Properties\<close>

text \<open>
  C31: The synthetic mode from the generator to the engine.  In every state that the threads can reach,
  the input queue has accepted exactly the messages the generator has produced, in their
  order and changed in nothing but the time stamp, except for at most one message that the ingest
  thread holds, or held when it returned; so nothing is dropped under backpressure.  This flow is
  valid order flow, and the engine rejects none of its orders.  The count of ingested
  messages is the number of accepted ones, except that it is one behind while the thread is between a push and the
  update of the counter.  The thread is joined only after it has returned, and once the shutdown
  flag is set it returns within three of its own steps, when its loads see the flag.
\<close>

theorem synthetic_ingest_sound:
  assumes "synthetic_reachable n s" "n < 2 ^ 32" "length (si_drawn (ss_ingest s)) < 2 ^ 64 - 2"
  shows "let p = ss_pipe s; i = ss_ingest s in pipeline_reachable n p \<and>
    (\<exists>rest. unstamped (si_drawn i) = unstamped (pl_ingested p @ rest) \<and> length rest \<le> 1 \<and> (si_pc i \<noteq> IngReturned \<longrightarrow> rest = in_hand i)) \<and>
    flow_valid synthetic_workload [] (si_drawn i) \<and> (\<forall>m. NewOrder m \<in> set (pl_ingested p) \<longrightarrow> \<not> rejected m) \<and>
    ct_ingested (w_counters (pl_wires p)) + (if si_pc i = IngCount then 1 else 0) = of_nat (length (pl_ingested p)) \<and> (pl_ingest_joined p \<longrightarrow> si_pc i = IngReturned) \<and>
    (pl_shutdown p \<and> si_pc i \<noteq> IngReturned \<longrightarrow> (\<exists>s'. ingest_turn True s s')) \<and>
    ingest_rank i \<le> 3 \<and> (\<forall>s'. ingest_turn True s s' \<longrightarrow> ingest_rank (ss_ingest s') < ingest_rank i)"
proof -
  let ?p = "ss_pipe s" and ?i = "ss_ingest s"
  have inv: "synthetic_inv n s" by (rule synthetic_invariant [OF assms(1)])
  then obtain rest where r: "pipeline_reachable n ?p" "\<not> pl_live ?p" "pl_phase ?p = (if si_pc ?i = IngCount then PushCount True else PushNext)" "pl_ingest_joined ?p \<longrightarrow> si_pc ?i = IngReturned"
      "flow synthetic_workload (si_gen ?i) (si_drawn ?i)" "unstamped (si_drawn ?i) = unstamped (pl_ingested ?p @ rest)"
      "length rest \<le> 1" "si_pc ?i \<noteq> IngReturned \<longrightarrow> rest = in_hand ?i"
    by (auto simp: synthetic_inv_def Let_def)
  have valid: "flow_valid synthetic_workload [] (si_drawn ?i)" using flow_rel [OF r(5)] assms(3) by simp
  have "\<not> rejected m" if "NewOrder m \<in> set (pl_ingested ?p)" for m
    using stamped_member [OF r(6) that] flow_accepted [OF valid] by (auto simp: synthetic_workload_def default_workload_def)
  moreover have "ct_ingested (w_counters (pl_wires ?p)) + (if si_pc ?i = IngCount then 1 else 0) = of_nat (length (pl_ingested ?p))"
    using synthetic.counted [OF assms(1,2)] r(2,3) by (simp add: ingested_fn_def push_uncounted_def split: if_splits)
  moreover have "ingest_rank ?i \<le> 3" by (simp add: ingest_rank_def split: ingest_pc.splits)
  ultimately show ?thesis using r valid returning_turn [OF assms(1,2)] turn_rank by (auto simp: Let_def simp del: map_append)
qed

text \<open>A run that draws one message, pushes it and counts it.\<close>

theorem synthetic_ingest_sound_witness:
  "\<exists>s m. synthetic_reachable 4 s \<and> si_drawn (ss_ingest s) = [m] \<and> unstamped (pl_ingested (ss_pipe s)) = [stamp 0 m] \<and>
    flow_valid synthetic_workload [] [m] \<and> ct_ingested (w_counters (pl_wires (ss_pipe s))) = 1"
proof -
  let ?s0 = "\<lparr>ss_pipe = start_pipeline 4 (default_config\<lparr>cfg_live := False\<rparr>) True False 0, ss_ingest = start_synthetic_ingest\<rparr>"
  have r0: "synthetic_reachable 4 ?s0" by (rule synthetic_reachable.start) simp
  have ok: "draw_ok synthetic_workload new_generator sample_draws"
    by (simp add: draw_ok_def synthetic_workload_def default_workload_def sample_draws_def new_generator_def)
  have "price_draw_ok sample_draws" by (simp add: price_draw_ok_def sample_draws_def)
  then obtain r where "make_new_order synthetic_workload sample_draws new_generator = Some r" using make_new_order_defined by blast
  then obtain m g where m: "next_message synthetic_workload sample_draws new_generator = Some (m, g)"
    by (cases r) (auto simp: next_message_def new_generator_def)
  let ?i1 = "\<lparr>si_gen = g, si_pc = IngPush, si_msg = m, si_now = 7, si_drawn = [m]\<rparr>"
  have "synthetic_step ?s0 (?s0\<lparr>ss_ingest := ?i1\<rparr>)"
    using ingest_turn.draw [of start_synthetic_ingest ?s0 sample_draws m g 7] ok m
    by (intro synthetic_step.ingest) (simp add: start_synthetic_ingest_def)
  then have r1: "synthetic_reachable 4 (?s0\<lparr>ss_ingest := ?i1\<rparr>)" by (rule synthetic_reachable.step [OF r0])
  obtain p where p: "ingest_push False 7 m (ss_pipe ?s0) = Some p" "pl_phase p = PushCount True" "pl_ingested p = pl_ingested (ss_pipe ?s0) @ [stamp 7 m]"
    by (rule first_push [OF synthetic.accounts [OF r0], of 7 m]) (simp_all add: start_pipeline_sel)
  let ?s2 = "\<lparr>ss_pipe = p, ss_ingest = ?i1\<lparr>si_pc := IngCount\<rparr>\<rparr>"
  have "synthetic_step (?s0\<lparr>ss_ingest := ?i1\<rparr>) ?s2"
    using ingest_turn.push [of ?i1 "?s0\<lparr>ss_ingest := ?i1\<rparr>" False p] p(1,2) by (intro synthetic_step.ingest) simp
  then have r2: "synthetic_reachable 4 ?s2" by (rule synthetic_reachable.step [OF r1])
  let ?s3 = "\<lparr>ss_pipe = ingest_count p, ss_ingest = ?i1\<lparr>si_pc := IngTop\<rparr>\<rparr>"
  have "synthetic_step ?s2 ?s3" using ingest_turn.counted [of "?i1\<lparr>si_pc := IngCount\<rparr>" ?s2] by (intro synthetic_step.ingest) simp
  then have r3: "synthetic_reachable 4 ?s3" by (rule synthetic_reachable.step [OF r2])
  have "pl_ingested (ingest_count p) = [stamp 7 m]" using p(3) by (simp add: count_frame start_pipeline_sel)
  then show ?thesis using synthetic_ingest_sound [OF r3] r3
    by (intro exI [of _ ?s3] exI [of _ m]) (simp add: Let_def)
qed

end
