(* ===== verification/Dashboard_Server.thy ===== *)
theory Dashboard_Server
  imports Io_Context
begin

text \<open>
  The broadcast server of \<^verbatim>\<open>ws_server.cpp\<close>: a \<^verbatim>\<open>DashboardServer\<close> with its acceptor, its timer
  and the set of live sessions, and one \<^verbatim>\<open>DashboardSession\<close> per connected browser.

  Each asynchronous operation the code starts becomes an element of \<open>sv_pending\<close>, and each
  completion handler is a function of the error code its operation finished with.  A write
  carries the buffer it was started with.  Session objects are numbered in the order of
  their creation; \<open>sv_sessions\<close> is the set \<^verbatim>\<open>sessions_\<close>.  The source iterates over it in the
  order of addresses, which is immaterial because each iteration touches one session only.
  What \<^verbatim>\<open>is_open()\<close> answers is Beast's business and hence an argument.  The fields
  \<open>se_sent\<close> and \<open>se_written\<close> record history: the frames \<open>session_send\<close> accepted and the
  frames whose write succeeded.

  Reading the front of an empty deque, or popping it, is undefined in C++: such a handler
  returns \<open>None\<close>.
\<close>

section \<open>Sessions\<close>

type_synonym frame = string

datatype server_op =
    AcceptOp | TimerOp | StopTask
  | HandshakeOp nat | ReadOp nat | WriteOp nat frame | CloseOp nat

record session =
  se_queue :: "frame list"
  se_ready :: bool
  se_writing :: bool
  se_sent :: "frame list"
  se_written :: "frame list"

record server =
  sv_objects :: "nat \<Rightarrow> session"
  sv_created :: nat
  sv_sessions :: "nat list"
  sv_clients :: "64 word"
  sv_thread :: bool
  sv_stopping :: bool
  sv_pending :: "server_op multiset"

definition MAX_QUEUED :: nat where
  "MAX_QUEUED = 64"

definition new_session :: session where
  "new_session = \<lparr>se_queue = [], se_ready = False, se_writing = False, se_sent = [], se_written = []\<rparr>"

definition begin_op :: "server_op \<Rightarrow> server \<Rightarrow> server" where
  "begin_op x sv = sv\<lparr>sv_pending := add_mset x (sv_pending sv)\<rparr>"

definition set_session :: "nat \<Rightarrow> session \<Rightarrow> server \<Rightarrow> server" where
  "set_session sid x sv = sv\<lparr>sv_objects := (sv_objects sv)(sid := x)\<rparr>"

definition session_start :: "nat \<Rightarrow> server \<Rightarrow> server" where
  "session_start sid = begin_op (HandshakeOp sid)"

definition session_read :: "nat \<Rightarrow> server \<Rightarrow> server" where
  "session_read sid = begin_op (ReadOp sid)"

definition session_write :: "nat \<Rightarrow> server \<Rightarrow> server option" where
  "session_write sid sv = (let x = sv_objects sv sid in
     case se_queue x of
       [] \<Rightarrow> None
     | f # _ \<Rightarrow> Some (begin_op (WriteOp sid f) (set_session sid (x\<lparr>se_writing := True\<rparr>) sv)))"

definition session_close :: "(nat \<Rightarrow> bool) \<Rightarrow> nat \<Rightarrow> server \<Rightarrow> server" where
  "session_close is_open sid sv = (if is_open sid then begin_op (CloseOp sid) sv else sv)"

definition session_send :: "(nat \<Rightarrow> bool) \<Rightarrow> frame \<Rightarrow> nat \<Rightarrow> server \<Rightarrow> server option" where
  "session_send is_open f sid sv = (let x = sv_objects sv sid in
     if length (se_queue x) \<ge> MAX_QUEUED then Some (session_close is_open sid sv)
     else let x1 = x\<lparr>se_queue := se_queue x @ [f], se_sent := se_sent x @ [f]\<rparr>;
              sv1 = set_session sid x1 sv in
       if se_ready x1 \<and> \<not> se_writing x1 then session_write sid sv1 else Some sv1)"

definition drop_session :: "nat \<Rightarrow> server \<Rightarrow> server" where
  "drop_session sid sv = (let ss = removeAll sid (sv_sessions sv) in
     sv\<lparr>sv_sessions := ss, sv_clients := of_nat (length ss)\<rparr>)"

text \<open>The completion handlers of a session: handshake, read and write.\<close>

definition on_handshake :: "bool \<Rightarrow> nat \<Rightarrow> server \<Rightarrow> server option" where
  "on_handshake ec sid sv =
     (if ec then Some (drop_session sid sv)
      else let sv1 = session_read sid (set_session sid ((sv_objects sv sid)\<lparr>se_ready := True\<rparr>) sv) in
        if se_queue (sv_objects sv1 sid) \<noteq> [] then session_write sid sv1 else Some sv1)"

definition on_read :: "bool \<Rightarrow> nat \<Rightarrow> server \<Rightarrow> server option" where
  "on_read ec sid sv = Some (if ec then drop_session sid sv else session_read sid sv)"

definition on_write :: "bool \<Rightarrow> nat \<Rightarrow> frame \<Rightarrow> server \<Rightarrow> server option" where
  "on_write ec sid f sv = (let x = (sv_objects sv sid)\<lparr>se_writing := False\<rparr>; sv1 = set_session sid x sv in
     if ec then Some (drop_session sid sv1)
     else case se_queue x of
       [] \<Rightarrow> None
     | _ # rest \<Rightarrow>
         let sv2 = set_session sid (x\<lparr>se_queue := rest, se_written := se_written x @ [f]\<rparr>) sv1 in
         if rest \<noteq> [] then session_write sid sv2 else Some sv2)"

section \<open>The server\<close>

definition new_server :: server where
  "new_server = \<lparr>sv_objects = (\<lambda>_. new_session), sv_created = 0, sv_sessions = [], sv_clients = 0,
     sv_thread = False, sv_stopping = False, sv_pending = {#}\<rparr>"

definition client_count :: "server \<Rightarrow> 64 word" where
  "client_count sv = sv_clients sv"

definition do_accept :: "server \<Rightarrow> server" where
  "do_accept = begin_op AcceptOp"

definition arm_timer :: "server \<Rightarrow> server" where
  "arm_timer = begin_op TimerOp"

text \<open>\<^verbatim>\<open>start()\<close>, given whether opening, binding and listening succeeded.\<close>

definition start_server :: "bool \<Rightarrow> server \<Rightarrow> bool \<times> server" where
  "start_server listening sv =
     (if \<not> listening then (False, sv) else (True, (arm_timer (do_accept sv))\<lparr>sv_thread := True\<rparr>))"

definition on_accept :: "bool \<Rightarrow> server \<Rightarrow> server option" where
  "on_accept ec sv =
     (if ec \<or> sv_stopping sv then Some sv
      else let sid = sv_created sv; ss = insort sid (sv_sessions sv) in
        Some (do_accept (session_start sid
          (set_session sid new_session sv\<lparr>sv_created := Suc sid, sv_sessions := ss, sv_clients := of_nat (length ss)\<rparr>))))"

primrec broadcast :: "(nat \<Rightarrow> bool) \<Rightarrow> frame \<Rightarrow> nat list \<Rightarrow> server \<Rightarrow> server option" where
  "broadcast is_open f [] sv = Some sv"
| "broadcast is_open f (sid # sids) sv = do { sv1 \<leftarrow> session_send is_open f sid sv; broadcast is_open f sids sv1 }"

definition on_timer :: "bool \<Rightarrow> (nat \<Rightarrow> bool) \<Rightarrow> frame \<Rightarrow> server \<Rightarrow> server option" where
  "on_timer ec is_open f sv =
     (if ec \<or> sv_stopping sv then Some sv
      else do {
        sv1 \<leftarrow> (if sv_sessions sv \<noteq> [] then broadcast is_open f (sv_sessions sv) sv else Some sv);
        Some (arm_timer sv1) })"

text \<open>
  \<^verbatim>\<open>stop()\<close> posts a task and joins the thread; the caller is blocked from then on, so the
  thread is not joinable any more.
\<close>

definition stop_server :: "server \<Rightarrow> server" where
  "stop_server sv = (if \<not> sv_thread sv then sv else (begin_op StopTask sv)\<lparr>sv_thread := False\<rparr>)"

definition stop_task :: "(nat \<Rightarrow> bool) \<Rightarrow> server \<Rightarrow> server option" where
  "stop_task is_open sv =
     (let sv1 = fold (session_close is_open) (sv_sessions sv) (sv\<lparr>sv_stopping := True\<rparr>) in
      Some (sv1\<lparr>sv_sessions := [], sv_clients := 0\<rparr>))"

text \<open>One turn of the server thread: the handler of a finished operation.\<close>

fun complete :: "bool \<Rightarrow> (nat \<Rightarrow> bool) \<Rightarrow> frame \<Rightarrow> server_op \<Rightarrow> server \<Rightarrow> server option" where
  "complete ec is_open f AcceptOp sv = on_accept ec sv"
| "complete ec is_open f TimerOp sv = on_timer ec is_open f sv"
| "complete ec is_open f StopTask sv = stop_task is_open sv"
| "complete ec is_open f (HandshakeOp sid) sv = on_handshake ec sid sv"
| "complete ec is_open f (ReadOp sid) sv = on_read ec sid sv"
| "complete ec is_open f (WriteOp sid g) sv = on_write ec sid g sv"
| "complete ec is_open f (CloseOp sid) sv = Some sv"

text \<open>
  A turn of the server.  A WebSocket stream is open only once its handshake succeeded, and
  the wait on the timer fails only when it is cancelled, which \<open>stop_task\<close> alone does.
\<close>

definition take_op :: "server_op \<Rightarrow> server \<Rightarrow> server" where
  "take_op x sv = sv\<lparr>sv_pending := sv_pending sv - {#x#}\<rparr>"

inductive server_step :: "server \<Rightarrow> server \<Rightarrow> bool" where
  turn: "x \<in># sv_pending sv \<Longrightarrow> (\<And>sid. is_open sid \<Longrightarrow> se_ready (sv_objects sv sid)) \<Longrightarrow>
    (x = TimerOp \<Longrightarrow> ec \<Longrightarrow> sv_stopping sv) \<Longrightarrow>
    complete ec is_open f x (take_op x sv) = Some sv' \<Longrightarrow> server_step sv sv'"
| stop: "server_step sv (stop_server sv)"

inductive_cases server_stepE: "server_step sv sv'"

definition started :: "server \<Rightarrow> bool" where
  "started sv \<longleftrightarrow> sv = snd (start_server True new_server)"

end
