(* ===== verification/Server_Properties.thy ===== *)
theory Server_Properties
  imports Dashboard_Server
begin

text \<open>
  What the dashboard server keeps in every reachable state: one invariant per session and
  one for the server, preserved by every handler, and the properties of the broadcast that
  follow from them.
\<close>

section \<open>The invariant of a session\<close>

definition is_write_of :: "nat \<Rightarrow> server_op \<Rightarrow> bool" where
  "is_write_of sid x = (case x of WriteOp s _ \<Rightarrow> s = sid | _ \<Rightarrow> False)"

lemma is_write_of_simps [simp]:
  "is_write_of sid (WriteOp s f) \<longleftrightarrow> s = sid" "\<not> is_write_of sid AcceptOp" "\<not> is_write_of sid TimerOp"
  "\<not> is_write_of sid StopTask" "\<not> is_write_of sid (HandshakeOp s)" "\<not> is_write_of sid (ReadOp s)"
  "\<not> is_write_of sid (CloseOp s)"
  by (simp_all add: is_write_of_def)

text \<open>
  \<open>session_ok sid x member P\<close>: the object \<open>x\<close> with number \<open>sid\<close>, a member of
  \<^verbatim>\<open>sessions_\<close> or not, with the operations \<open>P\<close> in flight.
\<close>

definition session_ok :: "nat \<Rightarrow> session \<Rightarrow> bool \<Rightarrow> server_op multiset \<Rightarrow> bool" where
  "session_ok sid x member P \<longleftrightarrow>
     length (se_queue x) \<le> MAX_QUEUED \<and> se_sent x = se_written x @ se_queue x \<and>
     filter_mset (is_write_of sid) P = (if se_writing x then {#WriteOp sid (hd (se_queue x))#} else {#}) \<and>
     count P (HandshakeOp sid) \<le> 1 \<and> count P (ReadOp sid) \<le> 1 \<and>
     (se_ready x \<longrightarrow> HandshakeOp sid \<notin># P) \<and> (\<not> se_ready x \<longrightarrow> ReadOp sid \<notin># P) \<and>
     (if member then (se_writing x \<longleftrightarrow> se_ready x \<and> se_queue x \<noteq> []) \<and>
        (if se_ready x then ReadOp sid else HandshakeOp sid) \<in># P
      else se_writing x \<longrightarrow> se_ready x \<and> se_queue x \<noteq> [])"

definition sessions_ok :: "server \<Rightarrow> bool" where
  "sessions_ok sv \<longleftrightarrow>
     (\<forall>sid. session_ok sid (sv_objects sv sid) (sid \<in> set (sv_sessions sv)) (sv_pending sv)) \<and>
     (\<forall>sid. sid \<ge> sv_created sv \<longrightarrow> sv_objects sv sid = new_session \<and> HandshakeOp sid \<notin># sv_pending sv \<and>
        sid \<notin> set (sv_sessions sv)) \<and>
     distinct (sv_sessions sv) \<and> sv_clients sv = of_nat (length (sv_sessions sv)) \<and>
     (sv_stopping sv \<longrightarrow> sv_sessions sv = [])"

definition server_ok :: "server \<Rightarrow> bool" where
  "server_ok sv \<longleftrightarrow> sessions_ok sv \<and> count (sv_pending sv) TimerOp \<le> 1 \<and>
     (\<not> sv_stopping sv \<longrightarrow> TimerOp \<in># sv_pending sv)"

lemma begin_op_simps [simp]:
  "sv_objects (begin_op x sv) = sv_objects sv" "sv_created (begin_op x sv) = sv_created sv"
  "sv_sessions (begin_op x sv) = sv_sessions sv" "sv_clients (begin_op x sv) = sv_clients sv"
  "sv_thread (begin_op x sv) = sv_thread sv" "sv_stopping (begin_op x sv) = sv_stopping sv"
  "sv_pending (begin_op x sv) = add_mset x (sv_pending sv)"
  by (simp_all add: begin_op_def)

lemma take_op_simps [simp]:
  "sv_objects (take_op x sv) = sv_objects sv" "sv_created (take_op x sv) = sv_created sv"
  "sv_sessions (take_op x sv) = sv_sessions sv" "sv_clients (take_op x sv) = sv_clients sv"
  "sv_thread (take_op x sv) = sv_thread sv" "sv_stopping (take_op x sv) = sv_stopping sv"
  "sv_pending (take_op x sv) = sv_pending sv - {#x#}"
  by (simp_all add: take_op_def)

text \<open>An operation of another session, or of the server, is nothing to a session.\<close>

definition concerns :: "server_op \<Rightarrow> nat \<Rightarrow> bool" where
  "concerns x sid \<longleftrightarrow> is_write_of sid x \<or> x = HandshakeOp sid \<or> x = ReadOp sid"

lemma concerns_simps [simp]:
  "concerns (HandshakeOp s) sid \<longleftrightarrow> s = sid" "concerns (ReadOp s) sid \<longleftrightarrow> s = sid"
  "concerns (WriteOp s f) sid \<longleftrightarrow> s = sid" "\<not> concerns AcceptOp sid" "\<not> concerns TimerOp sid"
  "\<not> concerns StopTask sid" "\<not> concerns (CloseOp s) sid"
  by (auto simp: concerns_def)

lemma session_ok_cong:
  assumes "filter_mset (\<lambda>x. concerns x sid) P = filter_mset (\<lambda>x. concerns x sid) Q"
  shows "session_ok sid y member P \<longleftrightarrow> session_ok sid y member Q"
proof -
  have c: "count P x = count Q x" if "concerns x sid" for x
    using arg_cong [OF assms, of "\<lambda>M. count M x"] that by simp
  have "filter_mset (is_write_of sid) P = filter_mset (is_write_of sid) Q"
    by (rule multiset_eqI) (use c in \<open>auto simp: concerns_def\<close>)
  moreover have "x \<in># P \<longleftrightarrow> x \<in># Q" if "concerns x sid" for x
    using c [OF that] by (metis count_eq_zero_iff)
  ultimately show ?thesis using c by (simp add: session_ok_def)
qed

lemma session_ok_leave: "session_ok sid x member P \<Longrightarrow> session_ok sid x False P"
  by (auto simp: session_ok_def split: if_splits)

section \<open>What one operation does to its session\<close>

lemma session_ok_handshake_fails:
  "session_ok sid x member P \<Longrightarrow> session_ok sid x False (P - {#HandshakeOp sid#})"
  by (auto simp: session_ok_def in_diff_count split: if_splits)

lemma session_ok_read_fails:
  "session_ok sid x member P \<Longrightarrow> session_ok sid x False (P - {#ReadOp sid#})"
  by (auto simp: session_ok_def in_diff_count split: if_splits)

lemma session_ok_write_ends:
  assumes "session_ok sid x member P" and "WriteOp sid f \<in># P"
  shows "se_writing x" "se_ready x" "\<exists>q. se_queue x = f # q" "member \<Longrightarrow> ReadOp sid \<in># P"
    and "session_ok sid (x\<lparr>se_writing := False\<rparr>) False (P - {#WriteOp sid f#})"
proof -
  have "WriteOp sid f \<in># filter_mset (is_write_of sid) P" using assms(2) by simp
  with assms(1) have w: "se_writing x" "f = hd (se_queue x)" "se_ready x" "se_queue x \<noteq> []"
    by (auto simp: session_ok_def split: if_splits)
  then show "se_writing x" "se_ready x" "\<exists>q. se_queue x = f # q" by (auto intro: list.collapse [symmetric])
  show "member \<Longrightarrow> ReadOp sid \<in># P" using assms(1) w by (simp add: session_ok_def)
  show "session_ok sid (x\<lparr>se_writing := False\<rparr>) False (P - {#WriteOp sid f#})"
    using assms w by (auto simp: session_ok_def in_diff_count split: if_splits)
qed

text \<open>An idle session whose queue is empty, or which is about to write.\<close>

lemma session_ok_idle:
  assumes "session_ok sid x False P" and "\<not> se_writing x" and "se_ready x" and "member \<Longrightarrow> ReadOp sid \<in># P"
  shows "se_queue x = [] \<Longrightarrow> session_ok sid x member P"
    and "se_queue x = f # q \<Longrightarrow> session_ok sid (x\<lparr>se_writing := True\<rparr>) member (add_mset (WriteOp sid f) P)"
  using assms by (auto simp: session_ok_def)

lemma session_ok_pop:
  "session_ok sid x False P \<Longrightarrow> \<not> se_writing x \<Longrightarrow> se_queue x = f # q \<Longrightarrow>
   session_ok sid (x\<lparr>se_queue := q, se_written := se_written x @ [f]\<rparr>) False P"
  by (auto simp: session_ok_def)

lemma session_ok_push:
  assumes "session_ok sid x member P" and "length (se_queue x) < MAX_QUEUED"
  shows "\<not> (se_ready x \<and> \<not> se_writing x) \<Longrightarrow>
      session_ok sid (x\<lparr>se_queue := se_queue x @ [f], se_sent := se_sent x @ [f]\<rparr>) member P"
    and "se_ready x \<Longrightarrow> \<not> se_writing x \<Longrightarrow>
      session_ok sid (x\<lparr>se_queue := se_queue x @ [f], se_sent := se_sent x @ [f]\<rparr>) False P"
  using assms by (auto simp: session_ok_def split: if_splits)

lemma session_ok_handshake:
  assumes "session_ok sid x member P" and "HandshakeOp sid \<in># P"
  shows "\<not> se_ready x" "\<not> se_writing x"
    and "session_ok sid (x\<lparr>se_ready := True\<rparr>) False (add_mset (ReadOp sid) (P - {#HandshakeOp sid#}))"
  using assms by (auto simp: session_ok_def in_diff_count not_in_iff split: if_splits)

section \<open>Handlers keep the invariant\<close>

lemma sessions_okD:
  assumes "sessions_ok sv"
  shows "session_ok sid (sv_objects sv sid) (sid \<in> set (sv_sessions sv)) (sv_pending sv)"
    and "concerns x sid \<Longrightarrow> x \<in># sv_pending sv \<Longrightarrow> sid < sv_created sv"
    and "sid \<in> set (sv_sessions sv) \<Longrightarrow> sid < sv_created sv"
proof -
  show ok: "session_ok sid (sv_objects sv sid) (sid \<in> set (sv_sessions sv)) (sv_pending sv)" for sid
    using assms by (simp add: sessions_ok_def)
  show "sid \<in> set (sv_sessions sv) \<Longrightarrow> sid < sv_created sv"
    using assms by (meson not_le sessions_ok_def)
  assume x: "concerns x sid" "x \<in># sv_pending sv"
  show "sid < sv_created sv"
  proof (rule ccontr)
    assume "\<not> sid < sv_created sv"
    with assms have fresh: "sv_objects sv sid = new_session" "HandshakeOp sid \<notin># sv_pending sv"
      by (auto simp: sessions_ok_def)
    with ok [of sid] have "ReadOp sid \<notin># sv_pending sv" "filter_mset (is_write_of sid) (sv_pending sv) = {#}"
      by (auto simp: session_ok_def new_session_def)
    with x fresh show False by (auto simp: concerns_def filter_mset_none)
  qed
qed

text \<open>A handler that changes one session, and the operations in flight of that session only.\<close>

lemma sessions_ok_change:
  assumes ok: "sessions_ok sv" and sid: "sid < sv_created sv"
    and x: "session_ok sid x (sid \<in> set ss) P"
    and others: "\<And>s. s \<noteq> sid \<Longrightarrow> filter_mset (\<lambda>z. concerns z s) P = filter_mset (\<lambda>z. concerns z s) (sv_pending sv)"
    and ss: "ss = sv_sessions sv \<or> ss = removeAll sid (sv_sessions sv)"
    and sv': "sv' = sv\<lparr>sv_objects := (sv_objects sv)(sid := x), sv_sessions := ss, sv_clients := of_nat (length ss), sv_pending := P\<rparr>"
  shows "sessions_ok sv'"
proof -
  have mem: "s \<in> set ss \<longleftrightarrow> s \<in> set (sv_sessions sv)" if "s \<noteq> sid" for s
    using ss that by auto
  have "session_ok s (((sv_objects sv)(sid := x)) s) (s \<in> set ss) P" for s
    using x sessions_okD(1) [OF ok, of s] session_ok_cong [OF others] mem by (cases "s = sid") auto
  moreover have "((sv_objects sv)(sid := x)) s = new_session \<and> HandshakeOp s \<notin># P \<and> s \<notin> set ss"
    if "s \<ge> sv_created sv" for s
  proof -
    have s: "s \<noteq> sid" using that sid by simp
    have "sv_objects sv s = new_session" "HandshakeOp s \<notin># sv_pending sv" "s \<notin> set (sv_sessions sv)"
      using ok that by (auto simp: sessions_ok_def)
    moreover have "count P (HandshakeOp s) = count (sv_pending sv) (HandshakeOp s)"
      using arg_cong [OF others [OF s], of "\<lambda>M. count M (HandshakeOp s)"] by simp
    ultimately show ?thesis using mem [OF s] s by (metis count_eq_zero_iff fun_upd_other)
  qed
  moreover have "distinct ss" "sv_stopping sv \<longrightarrow> ss = []"
    using ok ss by (auto simp: sessions_ok_def distinct_removeAll)
  ultimately show ?thesis by (simp add: sessions_ok_def sv')
qed

lemmas session_defs = session_write_def session_read_def session_start_def session_close_def begin_op_def
  set_session_def drop_session_def take_op_def Let_def

text \<open>
  \<open>session_change sv sid sv'\<close>: the step from \<open>sv\<close> to \<open>sv'\<close> kept the invariant, the timer and
  the control state of the server, and dropped at most \<open>sid\<close>.
\<close>

definition same_control :: "server \<Rightarrow> server \<Rightarrow> bool" where
  "same_control sv sv' \<longleftrightarrow> sv_stopping sv' = sv_stopping sv \<and> sv_created sv' = sv_created sv \<and>
     sv_thread sv' = sv_thread sv \<and> count (sv_pending sv') TimerOp = count (sv_pending sv) TimerOp \<and>
     count (sv_pending sv') AcceptOp = count (sv_pending sv) AcceptOp"

lemma server_ok_same_control:
  assumes "server_ok sv" and "same_control sv sv'" and "sessions_ok sv'"
  shows "server_ok sv'"
  using assms by (auto simp: server_ok_def same_control_def) (metis count_eq_zero_iff)+

text \<open>An operation that concerns no session: accepting, the timer, a close, the posted stop.\<close>

lemma sessions_ok_begin:
  assumes "\<And>s. \<not> concerns x s"
  shows "sessions_ok (begin_op x sv) \<longleftrightarrow> sessions_ok sv"
proof -
  have "session_ok s y m (add_mset x P) \<longleftrightarrow> session_ok s y m P" for s y m P
    by (rule session_ok_cong) (simp add: assms)
  moreover have "HandshakeOp s \<noteq> x" for s using assms [of s] by auto
  ultimately show ?thesis by (simp add: sessions_ok_def begin_op_def)
qed

lemma sessions_ok_take:
  assumes "\<And>s. \<not> concerns x s" and "x \<in># sv_pending sv"
  shows "sessions_ok (take_op x sv) \<longleftrightarrow> sessions_ok sv"
proof -
  have "begin_op x (take_op x sv) = sv" using assms(2) by (simp add: begin_op_def take_op_def)
  with sessions_ok_begin [OF assms(1), of "take_op x sv"] show ?thesis by simp
qed

lemma session_close_ok:
  "sessions_ok (session_close is_open sid sv) \<longleftrightarrow> sessions_ok sv"
  "same_control sv (session_close is_open sid sv)"
  "sv_sessions (session_close is_open sid sv) = sv_sessions sv"
  "sv_objects (session_close is_open sid sv) = sv_objects sv"
  by (simp_all add: session_close_def sessions_ok_begin) (simp_all add: same_control_def begin_op_def)

lemma on_read_ok:
  assumes "sessions_ok sv" and "ReadOp sid \<in># sv_pending sv"
  shows "\<exists>sv'. on_read ec sid (take_op (ReadOp sid) sv) = Some sv' \<and> sessions_ok sv' \<and> same_control sv sv'"
proof -
  have sid: "sid < sv_created sv" using sessions_okD(2) [OF assms(1), of "ReadOp sid" sid] assms(2) by simp
  note ok = sessions_okD(1) [OF assms(1), of sid]
  have "sessions_ok (drop_session sid (take_op (ReadOp sid) sv))"
    by (rule sessions_ok_change [OF assms(1) sid, where ss = "removeAll sid (sv_sessions sv)"
          and x = "sv_objects sv sid" and P = "sv_pending sv - {#ReadOp sid#}"])
      (use session_ok_read_fails [OF ok] in \<open>auto simp: session_defs\<close>)
  moreover have "session_read sid (take_op (ReadOp sid) sv) = sv" using assms(2) by (simp add: session_defs)
  ultimately show ?thesis
    using assms by (auto simp: on_read_def same_control_def session_defs)
qed

lemma on_handshake_ok:
  assumes "sessions_ok sv" and "HandshakeOp sid \<in># sv_pending sv"
  shows "\<exists>sv'. on_handshake ec sid (take_op (HandshakeOp sid) sv) = Some sv' \<and> sessions_ok sv' \<and> same_control sv sv'"
proof -
  let ?sv = "take_op (HandshakeOp sid) sv" and ?x = "(sv_objects sv sid)\<lparr>se_ready := True\<rparr>"
  let ?P = "add_mset (ReadOp sid) (sv_pending sv - {#HandshakeOp sid#})"
  have sid: "sid < sv_created sv" using sessions_okD(2) [OF assms(1), of "HandshakeOp sid" sid] assms(2) by simp
  note ok = sessions_okD(1) [OF assms(1), of sid]
  note hs = session_ok_handshake [OF ok assms(2)]
  have "sessions_ok (drop_session sid ?sv)"
    by (rule sessions_ok_change [OF assms(1) sid, where ss = "removeAll sid (sv_sessions sv)"
          and x = "sv_objects sv sid" and P = "sv_pending sv - {#HandshakeOp sid#}"])
      (use session_ok_handshake_fails [OF ok] in \<open>auto simp: session_defs\<close>)
  moreover have "sessions_ok (session_read sid (set_session sid ?x ?sv))" if "se_queue ?x = []"
    by (rule sessions_ok_change [OF assms(1) sid, where ss = "sv_sessions sv" and x = ?x and P = ?P])
      (use session_ok_idle(1) [OF hs(3)] hs that assms(1) in \<open>auto simp: session_defs sessions_ok_def\<close>)
  moreover have "sessions_ok (begin_op (WriteOp sid f) (set_session sid (?x\<lparr>se_writing := True\<rparr>) (session_read sid (set_session sid ?x ?sv))))"
    if "se_queue ?x = f # q" for f q
    by (rule sessions_ok_change [OF assms(1) sid, where ss = "sv_sessions sv" and x = "?x\<lparr>se_writing := True\<rparr>"
          and P = "add_mset (WriteOp sid f) ?P"])
      (use session_ok_idle(2) [OF hs(3)] hs that assms(1) in \<open>auto simp: session_defs sessions_ok_def\<close>)
  ultimately show ?thesis
    by (auto simp: on_handshake_def same_control_def session_defs split: list.splits)
qed

lemma on_write_ok:
  assumes "sessions_ok sv" and "WriteOp sid f \<in># sv_pending sv"
  shows "\<exists>sv'. on_write ec sid f (take_op (WriteOp sid f) sv) = Some sv' \<and> sessions_ok sv' \<and> same_control sv sv'"
proof -
  let ?sv = "take_op (WriteOp sid f) sv" and ?x = "(sv_objects sv sid)\<lparr>se_writing := False\<rparr>"
  let ?P = "sv_pending sv - {#WriteOp sid f#}" and ?mem = "sid \<in> set (sv_sessions sv)"
  have sid: "sid < sv_created sv" using sessions_okD(2) [OF assms(1), of "WriteOp sid f" sid] assms(2) by simp
  note ok = sessions_okD(1) [OF assms(1), of sid]
  note w = session_ok_write_ends [OF ok assms(2)]
  obtain q where q: "se_queue ?x = f # q" using w(3) by auto
  let ?y = "?x\<lparr>se_queue := q, se_written := se_written ?x @ [f]\<rparr>"
  have y: "session_ok sid ?y False ?P" by (rule session_ok_pop [OF w(5)]) (use q in auto)
  have read: "ReadOp sid \<in># ?P" if ?mem using w(4) [OF that] by (simp add: in_diff_count)
  have "sessions_ok (drop_session sid (set_session sid ?x ?sv))"
    by (rule sessions_ok_change [OF assms(1) sid, where ss = "removeAll sid (sv_sessions sv)" and x = ?x and P = ?P])
      (use w(5) in \<open>auto simp: session_defs\<close>)
  moreover have "sessions_ok (set_session sid ?y (set_session sid ?x ?sv))" if "q = []"
    by (rule sessions_ok_change [OF assms(1) sid, where ss = "sv_sessions sv" and x = ?y and P = ?P])
      (use session_ok_idle(1) [OF y] w(2) read that assms(1) in \<open>auto simp: session_defs sessions_ok_def\<close>)
  moreover have "sessions_ok (begin_op (WriteOp sid g) (set_session sid (?y\<lparr>se_writing := True\<rparr>) (set_session sid ?y (set_session sid ?x ?sv))))"
    if "q = g # q'" for g q'
    by (rule sessions_ok_change [OF assms(1) sid, where ss = "sv_sessions sv" and x = "?y\<lparr>se_writing := True\<rparr>"
          and P = "add_mset (WriteOp sid g) ?P"])
      (use session_ok_idle(2) [OF y] w(2) read that assms(1) in \<open>auto simp: session_defs sessions_ok_def\<close>)
  ultimately show ?thesis
    using q by (auto simp: on_write_def same_control_def session_defs split: list.splits)
qed

text \<open>
  \<open>session_send\<close> in detail: the queue grows by the frame or, at the cap, stays as it is, and
  no other session changes.
\<close>

definition accept_frame :: "frame \<Rightarrow> session \<Rightarrow> session" where
  "accept_frame f x = (if length (se_queue x) \<ge> MAX_QUEUED then x
     else x\<lparr>se_queue := se_queue x @ [f], se_sent := se_sent x @ [f], se_writing := se_ready x\<rparr>)"

text \<open>The operations that handing a frame to a session starts.\<close>

definition send_ops :: "(nat \<Rightarrow> bool) \<Rightarrow> frame \<Rightarrow> session \<Rightarrow> nat \<Rightarrow> server_op multiset" where
  "send_ops is_open f x sid =
     (if length (se_queue x) \<ge> MAX_QUEUED then (if is_open sid then {#CloseOp sid#} else {#})
      else if se_ready x \<and> \<not> se_writing x then {#WriteOp sid f#} else {#})"

lemma session_send_ok:
  assumes "sessions_ok sv" and "sid \<in> set (sv_sessions sv)"
  shows "\<exists>sv'. session_send is_open f sid sv = Some sv' \<and> sessions_ok sv' \<and>
    sv' = sv\<lparr>sv_objects := (sv_objects sv)(sid := accept_frame f (sv_objects sv sid)),
      sv_pending := sv_pending sv + send_ops is_open f (sv_objects sv sid) sid\<rparr>"
proof -
  let ?x = "sv_objects sv sid" and ?P = "sv_pending sv"
  let ?x1 = "?x\<lparr>se_queue := se_queue ?x @ [f], se_sent := se_sent ?x @ [f]\<rparr>"
  have sid: "sid < sv_created sv" using sessions_okD(3) [OF assms] .
  note ok = sessions_okD(1) [OF assms(1), of sid]
  have mem: "se_writing ?x \<longleftrightarrow> se_ready ?x \<and> se_queue ?x \<noteq> []" "se_ready ?x \<Longrightarrow> ReadOp sid \<in># ?P"
    using ok assms(2) by (auto simp: session_ok_def)
  consider (full) "length (se_queue ?x) \<ge> MAX_QUEUED" | (keep) "length (se_queue ?x) < MAX_QUEUED" "\<not> (se_ready ?x \<and> \<not> se_writing ?x)"
    | (idle) "length (se_queue ?x) < MAX_QUEUED" "se_ready ?x" "\<not> se_writing ?x" by force
  then show ?thesis
  proof cases
    case full
    then show ?thesis
      using assms(1) by (simp add: session_send_def accept_frame_def session_close_ok) (simp add: session_close_def send_ops_def begin_op_def)
  next
    case keep
    have "sessions_ok (set_session sid ?x1 sv)"
      by (rule sessions_ok_change [OF assms(1) sid, where ss = "sv_sessions sv" and x = ?x1 and P = ?P])
        (use session_ok_push(1) [OF ok keep] assms(1) in \<open>auto simp: session_defs sessions_ok_def\<close>)
    moreover have "se_writing ?x = se_ready ?x" using keep(2) mem(1) by blast
    then have "accept_frame f ?x = ?x1" using keep(1) by (simp add: accept_frame_def)
    ultimately show ?thesis using keep by (auto simp: session_send_def send_ops_def session_defs)
  next
    case idle
    let ?x2 = "?x1\<lparr>se_writing := True\<rparr>" and ?Q = "add_mset (WriteOp sid f) ?P"
    have q: "se_queue ?x1 = [f]" using idle mem(1) by simp
    have "session_ok sid ?x2 (sid \<in> set (sv_sessions sv)) ?Q"
      by (rule session_ok_idle(2) [OF session_ok_push(2) [OF ok idle], where q = "[]"]) (use idle mem q in simp_all)
    then have "sessions_ok (begin_op (WriteOp sid f) (set_session sid ?x2 (set_session sid ?x1 sv)))"
      by (intro sessions_ok_change [OF assms(1) sid, where ss = "sv_sessions sv" and x = ?x2 and P = ?Q])
        (use assms(1) in \<open>auto simp: session_defs sessions_ok_def\<close>)
    moreover have "accept_frame f ?x = ?x2" using idle by (auto simp: accept_frame_def)
    ultimately show ?thesis using idle q by (auto simp: session_send_def send_ops_def session_defs)
  qed
qed

definition delivered :: "(nat \<Rightarrow> bool) \<Rightarrow> frame \<Rightarrow> nat list \<Rightarrow> server \<Rightarrow> server" where
  "delivered is_open f sids sv = sv\<lparr>sv_objects := (\<lambda>s. if s \<in> set sids then accept_frame f (sv_objects sv s) else sv_objects sv s),
     sv_pending := sv_pending sv + (\<Sum>s\<leftarrow>sids. send_ops is_open f (sv_objects sv s) s)\<rparr>"

lemma broadcast_ok:
  assumes "sessions_ok sv" and "set sids \<subseteq> set (sv_sessions sv)" and "distinct sids"
  shows "broadcast is_open f sids sv = Some (delivered is_open f sids sv) \<and> sessions_ok (delivered is_open f sids sv)"
  using assms
proof (induction sids arbitrary: sv)
  case Nil
  then show ?case by (simp add: delivered_def)
next
  case (Cons sid sids)
  obtain sv1 where 1: "session_send is_open f sid sv = Some sv1" "sessions_ok sv1"
      "sv1 = sv\<lparr>sv_objects := (sv_objects sv)(sid := accept_frame f (sv_objects sv sid)),
        sv_pending := sv_pending sv + send_ops is_open f (sv_objects sv sid) sid\<rparr>"
    using session_send_ok [OF Cons.prems(1), of sid is_open f] Cons.prems(2) by auto
  have new: "sid \<notin> set sids" using Cons.prems(3) by simp
  then have "(\<Sum>s\<leftarrow>sids. send_ops is_open f (sv_objects sv1 s) s) = (\<Sum>s\<leftarrow>sids. send_ops is_open f (sv_objects sv s) s)"
    by (intro arg_cong [where f = sum_list] map_cong) (auto simp: 1(3))
  then have "delivered is_open f sids sv1 = delivered is_open f (sid # sids) sv"
    using new by (auto simp: delivered_def 1(3) add.assoc fun_eq_iff)
  then show ?case using Cons.IH [OF 1(2)] Cons.prems(2,3) 1(1,3) by simp
qed

lemma same_control_trans: "same_control a b \<Longrightarrow> same_control b c \<Longrightarrow> same_control a c"
  by (simp add: same_control_def)

lemma send_ops_control: "count (\<Sum>s\<leftarrow>sids. send_ops is_open f (x s) s) TimerOp = 0" "count (\<Sum>s\<leftarrow>sids. send_ops is_open f (x s) s) AcceptOp = 0"
  by (induction sids) (simp_all add: send_ops_def)

lemma delivered_control: "same_control sv (delivered is_open f sids sv)"
  by (simp add: same_control_def delivered_def send_ops_control)

lemma close_started:
  assumes "sid \<in> set sids" "length (se_queue (sv_objects sv sid)) \<ge> MAX_QUEUED" "is_open sid"
  shows "CloseOp sid \<in># (\<Sum>s\<leftarrow>sids. send_ops is_open f (sv_objects sv s) s)"
  using assms by (induction sids) (auto simp: send_ops_def)

lemma on_timer_ok:
  assumes "server_ok sv" and "TimerOp \<in># sv_pending sv" and "ec \<Longrightarrow> sv_stopping sv"
  shows "\<exists>sv'. on_timer ec is_open f (take_op TimerOp sv) = Some sv' \<and> server_ok sv'"
proof (cases "sv_stopping sv")
  case True
  then show ?thesis using assms by (simp add: on_timer_def server_ok_def sessions_ok_take)
next
  case False
  let ?sv = "take_op TimerOp sv"
  have ok: "sessions_ok ?sv" and one: "count (sv_pending ?sv) TimerOp = 0"
    using assms by (simp_all add: server_ok_def sessions_ok_take)
  have "distinct (sv_sessions ?sv)" using ok by (simp add: sessions_ok_def)
  then obtain sv1 where sv1: "broadcast is_open f (sv_sessions ?sv) ?sv = Some sv1" "sessions_ok sv1" "same_control ?sv sv1"
    using broadcast_ok [OF ok subset_refl, of is_open f] delivered_control by blast
  then have "server_ok (arm_timer sv1)"
    using one by (simp add: server_ok_def arm_timer_def sessions_ok_begin same_control_def)
  moreover have "server_ok (arm_timer ?sv)"
    using ok one by (simp add: server_ok_def arm_timer_def sessions_ok_begin)
  moreover have "\<not> ec" using assms(3) False by blast
  ultimately show ?thesis using False sv1(1) by (simp add: on_timer_def)
qed

lemma on_accept_ok:
  assumes "server_ok sv" and "AcceptOp \<in># sv_pending sv"
  shows "\<exists>sv'. on_accept ec (take_op AcceptOp sv) = Some sv' \<and> server_ok sv'"
proof (cases "ec \<or> sv_stopping sv")
  case True
  then show ?thesis
    using assms by (auto simp: on_accept_def server_ok_def sessions_ok_take in_diff_count)
next
  case False
  let ?sid = "sv_created sv" and ?sv = "take_op AcceptOp sv"
  let ?ss = "insort ?sid (sv_sessions sv)" and ?P = "add_mset (HandshakeOp ?sid) (sv_pending ?sv)"
  let ?sv' = "?sv\<lparr>sv_objects := (sv_objects ?sv)(?sid := new_session), sv_created := Suc ?sid, sv_sessions := ?ss,
    sv_clients := of_nat (length ?ss), sv_pending := ?P\<rparr>"
  have ok: "sessions_ok ?sv" using assms by (simp add: server_ok_def sessions_ok_take)
  have fresh: "sv_objects ?sv s = new_session" "HandshakeOp s \<notin># sv_pending ?sv" "s \<notin> set (sv_sessions sv)" if "s \<ge> ?sid" for s
    using ok that by (auto simp: sessions_ok_def)
  have "session_ok s (((sv_objects ?sv)(?sid := new_session)) s) (s \<in> set ?ss) ?P" for s
  proof (cases "s = ?sid")
    case True
    then show ?thesis using sessions_okD(1) [OF ok, of s] fresh [of ?sid]
      by (auto simp: session_ok_def new_session_def set_insort_key not_in_iff)
  next
    case False
    have "session_ok s y m ?P \<longleftrightarrow> session_ok s y m (sv_pending ?sv)" for y m
      by (rule session_ok_cong) (use False in simp)
    with sessions_okD(1) [OF ok, of s] False show ?thesis by (simp add: set_insort_key)
  qed
  moreover have "((sv_objects ?sv)(?sid := new_session)) s = new_session \<and> HandshakeOp s \<notin># ?P \<and> s \<notin> set ?ss" if "s \<ge> Suc ?sid" for s
    using fresh [of s] that by (auto simp: set_insort_key)
  moreover have "distinct ?ss" using ok fresh [of ?sid] by (simp add: sessions_ok_def distinct_insort)
  ultimately have "sessions_ok ?sv'" using False by (simp add: sessions_ok_def)
  then have "server_ok (do_accept ?sv')"
    using assms(1) by (auto simp: server_ok_def do_accept_def sessions_ok_begin in_diff_count)
  moreover have "on_accept ec ?sv = Some (do_accept ?sv')"
    using False by (simp add: on_accept_def session_defs)
  ultimately show ?thesis by simp
qed

lemma close_all_sessions_ok: "sessions_ok (fold (session_close is_open) sids sv) \<longleftrightarrow> sessions_ok sv"
  by (induction sids arbitrary: sv) (simp_all add: session_close_ok)

lemma close_all_control: "same_control sv (fold (session_close is_open) sids sv)"
proof (induction sids arbitrary: sv)
  case (Cons sid sids)
  show ?case using same_control_trans [OF session_close_ok(2) Cons.IH] by simp
qed (simp add: same_control_def)

lemma close_all_clear:
  "(fold (session_close is_open) sids sv)\<lparr>sv_sessions := ss, sv_clients := c\<rparr> =
   fold (session_close is_open) sids (sv\<lparr>sv_sessions := ss, sv_clients := c\<rparr>)"
proof (induction sids arbitrary: sv)
  case (Cons sid sids)
  have "(session_close is_open sid sv)\<lparr>sv_sessions := ss, sv_clients := c\<rparr> =
    session_close is_open sid (sv\<lparr>sv_sessions := ss, sv_clients := c\<rparr>)"
    by (simp add: session_close_def begin_op_def)
  with Cons.IH [of "session_close is_open sid sv"] show ?case by simp
qed simp

lemma stop_task_ok:
  assumes "server_ok sv" and "StopTask \<in># sv_pending sv"
  shows "\<exists>sv'. stop_task is_open (take_op StopTask sv) = Some sv' \<and> server_ok sv'"
proof -
  let ?sv = "take_op StopTask sv"
  let ?cleared = "?sv\<lparr>sv_stopping := True, sv_sessions := [], sv_clients := 0\<rparr>"
  let ?sv' = "fold (session_close is_open) (sv_sessions ?sv) ?cleared"
  have "sessions_ok ?sv" using assms by (simp add: server_ok_def sessions_ok_take)
  then have "sessions_ok ?cleared" by (auto simp: sessions_ok_def intro: session_ok_leave)
  then have "sessions_ok ?sv'" by (simp add: close_all_sessions_ok)
  moreover have "same_control ?cleared ?sv'" by (rule close_all_control)
  moreover have "stop_task is_open ?sv = Some ?sv'" by (simp add: stop_task_def close_all_clear)
  ultimately show ?thesis using assms(1) by (auto simp: server_ok_def same_control_def in_diff_count)
qed

section \<open>Reachable states\<close>

lemma complete_ok:
  assumes "server_ok sv" and "x \<in># sv_pending sv" and "x = TimerOp \<Longrightarrow> ec \<Longrightarrow> sv_stopping sv"
  shows "\<exists>sv'. complete ec is_open f x (take_op x sv) = Some sv' \<and> server_ok sv'"
proof -
  have ok: "sessions_ok sv" using assms(1) by (simp add: server_ok_def)
  show ?thesis
  proof (cases x)
    case (HandshakeOp sid)
    then show ?thesis
      using on_handshake_ok [OF ok, of sid ec] assms server_ok_same_control by auto
  next
    case (ReadOp sid)
    then show ?thesis using on_read_ok [OF ok, of sid ec] assms server_ok_same_control by auto
  next
    case (WriteOp sid g)
    then show ?thesis using on_write_ok [OF ok, of sid g ec] assms server_ok_same_control by auto
  next
    case (CloseOp sid)
    then have "server_ok (take_op x sv)"
      using assms by (auto simp: server_ok_def sessions_ok_take in_diff_count)
    with CloseOp show ?thesis by simp
  qed (use assms on_accept_ok on_timer_ok stop_task_ok in simp_all)
qed

lemma stop_server_ok: "server_ok sv \<Longrightarrow> server_ok (stop_server sv)"
proof (cases "sv_thread sv")
  case True
  assume "server_ok sv"
  then have "server_ok (begin_op StopTask sv)" by (simp add: server_ok_def sessions_ok_begin)
  moreover have "server_ok (sv'\<lparr>sv_thread := False\<rparr>) \<longleftrightarrow> server_ok sv'" for sv'
    by (simp add: server_ok_def sessions_ok_def)
  ultimately show ?thesis using True by (simp add: stop_server_def)
qed (simp add: stop_server_def)

lemma started_ok:
  assumes "started sv"
  shows "server_ok sv"
proof -
  have "session_ok sid new_session False {#}" for sid
    by (simp add: session_ok_def new_session_def)
  then have "sessions_ok new_server" by (simp add: sessions_ok_def new_server_def)
  then have "sessions_ok (arm_timer (do_accept new_server))"
    by (simp add: arm_timer_def do_accept_def sessions_ok_begin)
  moreover have "sessions_ok (sv'\<lparr>sv_thread := True\<rparr>) \<longleftrightarrow> sessions_ok sv'" for sv' by (simp add: sessions_ok_def)
  ultimately show ?thesis
    using assms by (simp add: started_def start_server_def server_ok_def arm_timer_def do_accept_def new_server_def)
qed

lemma server_step_ok:
  assumes ok: "server_ok sv" and step: "server_step sv sv'"
  shows "server_ok sv'"
proof (rule server_stepE [OF step])
  show "sv' = stop_server sv \<Longrightarrow> server_ok sv'" using stop_server_ok [OF ok] by simp
  fix x is_open ec f
  assume "x \<in># sv_pending sv" "x = TimerOp \<Longrightarrow> ec \<Longrightarrow> sv_stopping sv"
    "complete ec is_open f x (take_op x sv) = Some sv'"
  then show "server_ok sv'" using complete_ok [OF ok, of x ec is_open f] by auto
qed

interpretation server_run: invariant_system started server_step server_ok
  by unfold_locales (rule started_ok, assumption, rule server_step_ok)

section \<open>Two runs\<close>

text \<open>A turn in which every stream answers that it is not open.\<close>

lemma reachable_turn:
  assumes "reachable started server_step sv" and "x \<in># sv_pending sv" and "x = TimerOp \<Longrightarrow> ec \<Longrightarrow> sv_stopping sv"
    and "complete ec (\<lambda>_. False) f x (take_op x sv) = Some sv'"
  shows "reachable started server_step sv'"
proof -
  have "server_step sv sv'" by (rule server_step.turn [where is_open = "\<lambda>_. False"]) (use assms in auto)
  with assms(1) show ?thesis by (rule reachable_step)
qed

lemmas server_defs = on_accept_def on_timer_def on_handshake_def on_read_def stop_task_def stop_server_def
  session_send_def session_defs do_accept_def arm_timer_def new_session_def MAX_QUEUED_def

text \<open>A browser has just connected.\<close>

definition one_connecting :: server where
  "one_connecting = \<lparr>sv_objects = (\<lambda>_. new_session)(0 := new_session), sv_created = 1, sv_sessions = [0], sv_clients = 1,
     sv_thread = True, sv_stopping = False, sv_pending = {#AcceptOp, TimerOp, HandshakeOp 0#}\<rparr>"

lemma one_connecting_reachable: "reachable started server_step one_connecting"
proof -
  have "reachable started server_step (snd (start_server True new_server))"
    by (rule reachable_start) (simp add: started_def)
  then show ?thesis
    by (rule reachable_turn [where x = AcceptOp and ec = False])
      (simp_all add: start_server_def new_server_def one_connecting_def server_defs)
qed

text \<open>It has completed its handshake and a frame was broadcast.\<close>

definition one_writing :: server where
  "one_writing = one_connecting\<lparr>sv_objects := (\<lambda>_. new_session)(0 := \<lparr>se_queue = [''{}''], se_ready = True,
     se_writing = True, se_sent = [''{}''], se_written = []\<rparr>), sv_pending := {#AcceptOp, TimerOp, ReadOp 0, WriteOp 0 ''{}''#}\<rparr>"

lemma one_writing_reachable: "reachable started server_step one_writing"
proof -
  let ?sv = "one_connecting\<lparr>sv_objects := (\<lambda>_. new_session)(0 := new_session\<lparr>se_ready := True\<rparr>),
    sv_pending := {#AcceptOp, TimerOp, ReadOp 0#}\<rparr>"
  have "reachable started server_step ?sv"
    by (rule reachable_turn [OF one_connecting_reachable, where x = "HandshakeOp 0" and ec = False])
      (simp_all add: one_connecting_def server_defs)
  then show ?thesis
    by (rule reachable_turn [where x = TimerOp and ec = False and f = "''{}''"])
      (simp_all add: one_connecting_def one_writing_def server_defs)
qed

section \<open>Properties\<close>

text \<open>
  C35: in every state the dashboard server can reach, each session buffers at most
  \<^verbatim>\<open>MAX_QUEUED\<close> frames, has at most one handshake, one read and one write in flight (what Beast
  requires of its callers), the flag \<^verbatim>\<open>writing_\<close> says exactly whether a write is in flight, that
  write sends the front of the queue, and the frames written so far followed by the ones
  still queued are the frames its queue accepted: a browser sees the accepted frames in order,
  none twice and none left out.  (A frame offered to a full queue is not accepted; the server then closes the session.)
\<close>

theorem sessions_sound:
  assumes "reachable started server_step sv"
  shows "length (se_queue (sv_objects sv sid)) \<le> MAX_QUEUED \<and>
    count (sv_pending sv) (HandshakeOp sid) + count (sv_pending sv) (ReadOp sid) \<le> 1 \<and>
    filter_mset (is_write_of sid) (sv_pending sv) =
      (if se_writing (sv_objects sv sid) then {#WriteOp sid (hd (se_queue (sv_objects sv sid)))#} else {#}) \<and>
    (se_writing (sv_objects sv sid) \<longrightarrow> se_queue (sv_objects sv sid) \<noteq> []) \<and>
    se_sent (sv_objects sv sid) = se_written (sv_objects sv sid) @ se_queue (sv_objects sv sid)"
proof -
  let ?x = "sv_objects sv sid"
  have ok: "session_ok sid ?x (sid \<in> set (sv_sessions sv)) (sv_pending sv)"
    using server_run.always [OF assms] by (simp add: server_ok_def sessions_ok_def)
  have "count (sv_pending sv) (HandshakeOp sid) + count (sv_pending sv) (ReadOp sid) \<le> 1"
    using ok by (cases "se_ready ?x") (auto simp: session_ok_def not_in_iff)
  moreover have "se_writing ?x \<longrightarrow> se_queue ?x \<noteq> []"
    using ok by (auto simp: session_ok_def split: if_splits)
  ultimately show ?thesis using ok by (simp add: session_ok_def)
qed

theorem sessions_sound_witness:
  "reachable started server_step one_writing \<and>
   se_sent (sv_objects one_writing 0) = se_written (sv_objects one_writing 0) @ se_queue (sv_objects one_writing 0)"
  using one_writing_reachable sessions_sound [OF one_writing_reachable, of 0] by simp

text \<open>A ready session with something in its queue has the write of its front in flight.\<close>

lemma accepted_is_written:
  assumes "sessions_ok sv" and "sid \<in> set (sv_sessions sv)" and "se_ready (sv_objects sv sid)" and "se_queue (sv_objects sv sid) \<noteq> []"
  shows "WriteOp sid (hd (se_queue (sv_objects sv sid))) \<in># sv_pending sv"
proof -
  have "filter_mset (is_write_of sid) (sv_pending sv) = {#WriteOp sid (hd (se_queue (sv_objects sv sid)))#}"
    using sessions_okD(1) [OF assms(1), of sid] assms(2-4) by (simp add: session_ok_def)
  then show ?thesis by (blast dest: filter_mset_single(1))
qed

text \<open>
  C36: the broadcast.  While the server is not stopping its timer is armed, and when it
  fires the handler is defined and hands the frame to every connected session: a session with
  room has it at the end of its queue and, if its handshake is done, a write of its front in flight;
  a session at the cap keeps its queue and is closed.  Nothing else changes: the sessions that are not
  connected, the remaining fields of the server, the flag of the handshake of every session, and the
  operations in flight, to which are added exactly one write for each session with room that was ready and
  not writing and one close for each open session at the cap; the timer is armed again.
  \<^verbatim>\<open>client_count()\<close> is the number of connected sessions.
\<close>

theorem broadcast_delivers:
  assumes "reachable started server_step sv" and "\<not> sv_stopping sv"
  shows "TimerOp \<in># sv_pending sv \<and> client_count sv = of_nat (length (sv_sessions sv)) \<and>
    (\<exists>sv'. on_timer False is_open f (take_op TimerOp sv) = Some sv' \<and>
      sv' = sv\<lparr>sv_objects := sv_objects sv', sv_pending := sv_pending sv + (\<Sum>sid\<leftarrow>sv_sessions sv. send_ops is_open f (sv_objects sv sid) sid)\<rparr> \<and>
      (\<forall>sid. let x = sv_objects sv sid; y = sv_objects sv' sid in
        if sid \<notin> set (sv_sessions sv) then y = x
        else if length (se_queue x) < MAX_QUEUED
        then y = x\<lparr>se_queue := se_queue x @ [f], se_sent := se_sent x @ [f], se_writing := se_ready x\<rparr> \<and>
          (se_ready x \<longrightarrow> WriteOp sid (hd (se_queue y)) \<in># sv_pending sv')
        else y = x \<and> (is_open sid \<longrightarrow> CloseOp sid \<in># sv_pending sv')))"
proof -
  let ?sv = "take_op TimerOp sv" and ?ss = "sv_sessions sv"
  let ?D = "delivered is_open f ?ss ?sv"
  have inv: "server_ok sv" by (rule server_run.always [OF assms(1)])
  with assms(2) have timer: "TimerOp \<in># sv_pending sv" by (simp add: server_ok_def)
  with inv have ok: "sessions_ok ?sv" by (simp add: server_ok_def sessions_ok_take)
  then have d: "broadcast is_open f ?ss ?sv = Some ?D" "sessions_ok ?D"
    using broadcast_ok [OF ok, of ?ss is_open f] by (simp_all add: sessions_ok_def take_op_def)
  define sv' where "sv' = sv\<lparr>sv_objects := sv_objects ?D, sv_pending := sv_pending sv + (\<Sum>sid\<leftarrow>?ss. send_ops is_open f (sv_objects sv sid) sid)\<rparr>"
  have armed: "arm_timer ?D = sv'"
    using timer by (simp add: sv'_def arm_timer_def begin_op_def delivered_def take_op_def)
  have run: "on_timer False is_open f ?sv = Some sv'"
    using assms(2) d(1) armed by (auto simp: on_timer_def take_op_def delivered_def)
  have obj: "sv_objects ?D sid = (if sid \<in> set ?ss then accept_frame f (sv_objects sv sid) else sv_objects sv sid)" for sid
    by (simp add: delivered_def take_op_def)
  have D: "sv_sessions ?D = ?ss" "sv_pending ?D \<subseteq># sv_pending sv'" using armed by (auto simp: delivered_def take_op_def arm_timer_def begin_op_def)
  have close: "CloseOp sid \<in># sv_pending sv'" if "sid \<in> set ?ss" "\<not> length (se_queue (sv_objects sv sid)) < MAX_QUEUED" "is_open sid" for sid
    using close_started [of sid ?ss sv is_open f] that by (simp add: sv'_def)
  have "let x = sv_objects sv sid; y = sv_objects ?D sid in
      if sid \<notin> set ?ss then y = x
      else if length (se_queue x) < MAX_QUEUED
      then y = x\<lparr>se_queue := se_queue x @ [f], se_sent := se_sent x @ [f], se_writing := se_ready x\<rparr> \<and>
        (se_ready x \<longrightarrow> WriteOp sid (hd (se_queue y)) \<in># sv_pending sv')
      else y = x \<and> (is_open sid \<longrightarrow> CloseOp sid \<in># sv_pending sv')" for sid
    using mset_subset_eqD [OF D(2) accepted_is_written [OF d(2), of sid]] D(1) close [of sid]
    by (auto simp: Let_def obj accept_frame_def)
  note each = this
  have count: "client_count sv = of_nat (length ?ss)" using inv by (simp add: server_ok_def sessions_ok_def client_count_def)
  have objects: "sv_objects ?D = sv_objects sv'" by (simp add: sv'_def)
  show ?thesis
    by (intro conjI exI [of _ sv'] timer count run allI each [unfolded objects]) (simp add: sv'_def)
qed

theorem broadcast_delivers_witness:
  "reachable started server_step one_writing \<and> \<not> sv_stopping one_writing \<and>
   (\<exists>sv'. on_timer False (\<lambda>_. True) ''[]'' (take_op TimerOp one_writing) = Some sv' \<and>
      se_queue (sv_objects sv' 0) = [''{}'', ''[]''])"
proof -
  have "\<not> sv_stopping one_writing" "sv_sessions one_writing = [0]" "se_queue (sv_objects one_writing 0) = [''{}'']"
    by (simp_all add: one_writing_def one_connecting_def)
  with broadcast_delivers [OF one_writing_reachable, of "\<lambda>_. True" "''[]''"] one_writing_reachable show ?thesis
    by (fastforce simp: MAX_QUEUED_def Let_def dest: spec [of _ 0])
qed

text \<open>
  \<^verbatim>\<open>stop()\<close> does not reach a session that is still in its handshake: \<^verbatim>\<open>close()\<close> does nothing on
  a stream that is not open yet, and the handshake handler does not look at \<^verbatim>\<open>stopping_\<close>.  The
  server can reach a state where it is stopping, every other operation has unwound and the
  read of that session is the one thing in flight; as long as the browser keeps talking,
  each read starts the next one, and \<^verbatim>\<open>thread_.join()\<close> in \<^verbatim>\<open>stop()\<close> waits for it.
\<close>

lemma stop_misses_handshake:
  "\<exists>sv. reachable started server_step sv \<and> sv_stopping sv \<and> sv_sessions sv = [] \<and> sv_pending sv = {#ReadOp 0#} \<and>
     (\<forall>is_open f. complete False is_open f (ReadOp 0) (take_op (ReadOp 0) sv) = Some sv)"
proof -
  let ?asked = "one_connecting\<lparr>sv_thread := False, sv_pending := {#StopTask, AcceptOp, TimerOp, HandshakeOp 0#}\<rparr>"
  let ?stopped = "\<lambda>P. ?asked\<lparr>sv_stopping := True, sv_sessions := [], sv_clients := 0, sv_pending := P\<rparr>"
  let ?last = "(?stopped {#ReadOp 0#})\<lparr>sv_objects := (\<lambda>_. new_session)(0 := new_session\<lparr>se_ready := True\<rparr>)\<rparr>"
  have "stop_server one_connecting = ?asked" by (simp add: one_connecting_def server_defs)
  then have "reachable started server_step ?asked"
    using reachable_step [OF one_connecting_reachable server_step.stop] by simp
  then have "reachable started server_step (?stopped {#AcceptOp, TimerOp, HandshakeOp 0#})"
    by (rule reachable_turn [where x = StopTask]) (simp_all add: one_connecting_def server_defs)
  then have "reachable started server_step (?stopped {#TimerOp, HandshakeOp 0#})"
    by (rule reachable_turn [where x = AcceptOp and ec = True]) (simp_all add: one_connecting_def server_defs)
  then have "reachable started server_step (?stopped {#HandshakeOp 0#})"
    by (rule reachable_turn [where x = TimerOp and ec = True]) (simp_all add: one_connecting_def server_defs)
  then have "reachable started server_step ?last"
    by (rule reachable_turn [where x = "HandshakeOp 0" and ec = False]) (simp_all add: one_connecting_def server_defs)
  moreover have "complete False is_open f (ReadOp 0) (take_op (ReadOp 0) ?last) = Some ?last" for is_open f
    by (simp add: one_connecting_def server_defs)
  ultimately show ?thesis by (intro exI [of _ ?last]) (simp add: one_connecting_def)
qed

end
