(* ===== verification/Client_Smoke.thy ===== *)
theory Client_Smoke
  imports Client_Properties Pipeline
begin

text \<open>
  \<^verbatim>\<open>tools/ws_client_smoke.cpp\<close>: a program around the WebSocket client whose handlers print what
  happens and stop the client, after a number of messages or, in the reconnect demo, after
  the third failure.  \<open>sk_out\<close> is the console.  A handler runs inside the turn of the client that
  calls it; all it does to the client is to post a call, so it is put at the end of the turn.
  The text of the elapsed time in a line about a failure is an argument.
\<close>

record client_smoke =
  sk_client :: ws_client
  sk_max :: int
  sk_messages :: int
  sk_disconnects :: int
  sk_out :: "string list"

definition reconnect_demo :: "client_smoke \<Rightarrow> bool" where
  "reconnect_demo s \<longleftrightarrow> sk_max s \<le> 0"

text \<open>The arguments: number of messages, host and port.\<close>

definition smoke_max :: "string list \<Rightarrow> int option" where
  "smoke_max args = (if args \<noteq> [] then atoi (hd args) else Some 10)"

definition smoke_ws_config :: "string list \<Rightarrow> int \<Rightarrow> ws_config" where
  "smoke_ws_config args max_messages =
     (let cfg = (default_ws_config (if length args > 1 then args ! 1 else ''ws-feed.exchange.coinbase.com''))
            \<lparr>ws_port := (if length args > 2 then args ! 2 else ''443'')\<rparr>
      in if max_messages \<le> 0 then cfg\<lparr>ws_reconnect_base_delay := 200, ws_handshake_timeout := 2\<rparr> else cfg)"

definition TICKER_SUBSCRIPTION :: string where
  \<open>TICKER_SUBSCRIPTION = ''{"type":"subscribe","product_ids":["BTC-USD"],"channels":["ticker"]}''\<close>

definition print_line :: "string \<Rightarrow> client_smoke \<Rightarrow> client_smoke" where
  "print_line l s = s\<lparr>sk_out := sk_out s @ [l]\<rparr>"

definition smoke_stop :: "client_smoke \<Rightarrow> client_smoke" where
  "smoke_stop s = s\<lparr>sk_client := stop (sk_client s)\<rparr>"

definition on_smoke_connect :: "client_smoke \<Rightarrow> client_smoke" where
  "on_smoke_connect = print_line ''[connected] TLS + websocket handshake OK, subscribing''"

definition on_smoke_disconnect :: "string \<Rightarrow> string \<Rightarrow> client_smoke \<Rightarrow> client_smoke" where
  "on_smoke_disconnect elapsed reason s =
     (let n = sk_disconnects s + 1;
          s1 = print_line (''[disconnected #'' @ deci n @ '' t='' @ elapsed @ ''s] '' @ reason @ '' (will retry)'') (s\<lparr>sk_disconnects := n\<rparr>)
      in if reconnect_demo s \<and> n \<ge> 3 then smoke_stop s1 else s1)"

definition on_smoke_message :: "string \<Rightarrow> client_smoke \<Rightarrow> client_smoke" where
  "on_smoke_message msg s =
     (let n = sk_messages s + 1;
          s1 = print_line (''[msg '' @ deci n @ ''] '' @ take 160 msg @ (if length msg > 160 then ''...'' else [])) (s\<lparr>sk_messages := n\<rparr>)
      in if \<not> reconnect_demo s \<and> n \<ge> sk_max s then smoke_stop s1 else s1)"

definition start_client_smoke :: "string list \<Rightarrow> client_smoke option" where
  "start_client_smoke args = do {
     max_messages \<leftarrow> smoke_max args;
     let cfg = smoke_ws_config args max_messages;
     Some \<lparr>sk_client = run_client (new_client cfg), sk_max = max_messages, sk_messages = 0, sk_disconnects = 0,
       sk_out = [''connecting to wss://'' @ ws_host cfg @ '':'' @ ws_port cfg @ ws_target cfg @
         (if max_messages \<le> 0 then '' (reconnect demo, 3 attempts)'' else [])]\<rparr> }"

definition smoke_report :: "client_smoke \<Rightarrow> string" where
  "smoke_report s = ''clean shutdown after '' @ deci (sk_messages s) @ '' messages, '' @ deci (sk_disconnects s) @ '' disconnects\<newline>''"

text \<open>The handlers that the turn from \<open>c\<close> to \<open>c'\<close> has called.\<close>

definition notify :: "string \<Rightarrow> ws_client \<Rightarrow> ws_client \<Rightarrow> client_smoke \<Rightarrow> client_smoke" where
  "notify elapsed c c' s =
     fold on_smoke_message (drop (length (wc_received c)) (wc_received c'))
       (fold (on_smoke_disconnect elapsed) (drop (length (wc_disconnects c)) (wc_disconnects c')) (s\<lparr>sk_client := c'\<rparr>))"

inductive smoke_step :: "client_smoke \<Rightarrow> client_smoke \<Rightarrow> bool" where
  completion: "c = sk_client s \<Longrightarrow> x \<in># wc_pending c \<Longrightarrow> (phase x \<Longrightarrow> ec = Aborted \<Longrightarrow> wc_closed c \<or> wc_stopping c) \<Longrightarrow>
    (x = Waiting \<Longrightarrow> wc_tasks c = [] \<and> (\<forall>y \<in># wc_pending c. \<not> phase y \<and> \<not> is_write y)) \<Longrightarrow>
    client_complete [TICKER_SUBSCRIPTION] ec sni data x (finish x c) = Some c' \<Longrightarrow>
    smoke_step s (notify elapsed c c' (if x = WsHandshake \<and> ec = NoError then on_smoke_connect s else s))"
| task: "c = sk_client s \<Longrightarrow> wc_tasks c = t # ts \<Longrightarrow> (is_open \<Longrightarrow> wc_established c \<and> \<not> wc_closed c) \<Longrightarrow>
    run_task is_open t (c\<lparr>wc_tasks := ts\<rparr>) = Some c' \<Longrightarrow> smoke_step s (notify elapsed c c' s)"

inductive smoke_reachable :: "string list \<Rightarrow> client_smoke \<Rightarrow> bool" for args where
  start: "start_client_smoke args = Some s \<Longrightarrow> smoke_reachable args s"
| step: "smoke_reachable args s \<Longrightarrow> smoke_step s s' \<Longrightarrow> smoke_reachable args s'"

section \<open>Facts\<close>

text \<open>A stop is asked for: it has run or it is posted.\<close>

definition stop_asked :: "ws_client \<Rightarrow> bool" where
  "stop_asked c \<longleftrightarrow> wc_stopping c \<or> StopTask \<in> set (wc_tasks c)"

definition stop_due :: "client_smoke \<Rightarrow> bool" where
  "stop_due s \<longleftrightarrow> (if reconnect_demo s then sk_disconnects s \<ge> 3 else sk_messages s \<ge> sk_max s)"

definition client_smoke_ok :: "client_smoke \<Rightarrow> bool" where
  "client_smoke_ok s \<longleftrightarrow> sk_messages s = int (length (wc_received (sk_client s))) \<and>
     sk_disconnects s = int (length (wc_disconnects (sk_client s))) \<and> (stop_asked (sk_client s) \<longleftrightarrow> stop_due s)"

lemma stop_simps [simp]:
  "stop_asked (stop c)" "wc_received (stop c) = wc_received c" "wc_disconnects (stop c) = wc_disconnects c"
  by (simp_all add: stop_asked_def stop_def)

text \<open>A turn of the client neither asks for a stop nor forgets one, and it only adds messages and failures.\<close>

definition turn_keeps :: "ws_client \<Rightarrow> ws_client \<Rightarrow> bool" where
  "turn_keeps c c' \<longleftrightarrow> stop_asked c' = stop_asked c \<and> (\<exists>ms. wc_received c' = wc_received c @ ms) \<and> (\<exists>rs. wc_disconnects c' = wc_disconnects c @ rs)"

lemma turn_keeps_refl [simp]: "turn_keeps c c"
  by (simp add: turn_keeps_def)

lemma turn_keeps_cong:
  "wc_stopping c' = wc_stopping c \<Longrightarrow> wc_tasks c' = wc_tasks c \<Longrightarrow> wc_received c' = wc_received c \<Longrightarrow> wc_disconnects c' = wc_disconnects c \<Longrightarrow> turn_keeps c c'"
  by (simp add: turn_keeps_def stop_asked_def)

lemma turn_keeps_update [simp]:
  "turn_keeps (c\<lparr>wc_writing := b\<rparr>) c' = turn_keeps c c'" "turn_keeps (c\<lparr>wc_write_queue := q\<rparr>) c' = turn_keeps c c'"
  "turn_keeps (c\<lparr>wc_written := w\<rparr>) c' = turn_keeps c c'"
  by (simp_all add: turn_keeps_def stop_asked_def)

lemma schedule_keeps: "turn_keeps c (schedule_reconnect ec stage c)"
  by (simp add: schedule_reconnect_def turn_keeps_def stop_asked_def)

lemma client_write_keeps: "client_write c = Some c' \<Longrightarrow> turn_keeps c c'"
  by (auto simp: client_write_def intro!: turn_keeps_cong split: list.splits)

lemma client_complete_keeps:
  assumes "client_complete h ec sni data x c = Some c'"
  shows "turn_keeps c c'"
proof (cases x)
  case WsHandshake
  show ?thesis
  proof (cases "ec = NoError")
    case True
    let ?c1 = "fold send h (c\<lparr>wc_established := True, wc_attempts := 0\<rparr>)"
    obtain c2 where c2: "(if wc_write_queue ?c1 \<noteq> [] \<and> \<not> wc_writing ?c1 then client_write ?c1 else Some ?c1) = Some c2" "c' = client_read c2"
      using assms WsHandshake True by (auto simp: on_ws_handshake_def Let_def split: Option.bind_splits)
    have "turn_keeps ?c1 c2" using c2(1) client_write_keeps by (auto split: if_splits)
    then show ?thesis using c2(2) by (auto simp: turn_keeps_def stop_asked_def client_read_def fold_send)
  qed (use assms WsHandshake schedule_keeps in \<open>auto simp: on_ws_handshake_def\<close>)
next
  case (Writing f)
  let ?c1 = "c\<lparr>wc_writing := False\<rparr>"
  have "turn_keeps ?c1 c'"
  proof (cases "ec = NoError")
    case True
    then obtain g rest where q: "wc_write_queue c = g # rest"
        "(if rest \<noteq> [] then client_write (?c1\<lparr>wc_write_queue := rest, wc_written := wc_written c @ [f]\<rparr>)
          else Some (?c1\<lparr>wc_write_queue := rest, wc_written := wc_written c @ [f]\<rparr>)) = Some c'"
      using assms Writing by (auto simp: on_client_write_def Let_def split: list.splits)
    have "turn_keeps (?c1\<lparr>wc_write_queue := rest, wc_written := wc_written c @ [f]\<rparr>) c'"
      using q(2) client_write_keeps by (metis option.inject turn_keeps_refl)
    then show ?thesis by simp
  qed (use assms Writing schedule_keeps [of ?c1] in \<open>auto simp: on_client_write_def\<close>)
  then show ?thesis by simp
qed (use assms in \<open>auto simp: on_resolve_def on_tcp_connect_def on_tcp_connected_def on_tls_handshake_def on_client_read_def client_read_def
    on_wait_def start_connect_def schedule_reconnect_def turn_keeps_def stop_asked_def Let_def split: option.splits if_splits\<close>)

lemma run_task_keeps:
  assumes "run_task is_open t (c\<lparr>wc_tasks := ts\<rparr>) = Some c'" "wc_tasks c = t # ts"
  shows "turn_keeps c c'"
proof (cases t)
  case (SendTask msg)
  let ?c1 = "c\<lparr>wc_tasks := ts, wc_write_queue := wc_write_queue c @ [msg], wc_sent := wc_sent c @ [msg]\<rparr>"
  have "turn_keeps ?c1 c'" using assms(1) SendTask client_write_keeps by (auto simp: Let_def split: if_splits)
  then show ?thesis using assms(2) SendTask by (auto simp: turn_keeps_def stop_asked_def)
qed (use assms in \<open>auto simp: turn_keeps_def stop_asked_def Let_def\<close>)

section \<open>The handlers\<close>

lemma handler_simps [simp]:
  "sk_max (on_smoke_disconnect e r s) = sk_max s" "sk_max (on_smoke_message m s) = sk_max s"
  "sk_messages (on_smoke_disconnect e r s) = sk_messages s" "sk_messages (on_smoke_message m s) = sk_messages s + 1"
  "sk_disconnects (on_smoke_disconnect e r s) = sk_disconnects s + 1" "sk_disconnects (on_smoke_message m s) = sk_disconnects s"
  "wc_received (sk_client (on_smoke_disconnect e r s)) = wc_received (sk_client s)"
  "wc_received (sk_client (on_smoke_message m s)) = wc_received (sk_client s)"
  "wc_disconnects (sk_client (on_smoke_disconnect e r s)) = wc_disconnects (sk_client s)"
  "wc_disconnects (sk_client (on_smoke_message m s)) = wc_disconnects (sk_client s)"
  by (simp_all add: on_smoke_disconnect_def on_smoke_message_def print_line_def smoke_stop_def Let_def)

text \<open>What the handlers keep: a stop is asked for exactly when it is due.\<close>

lemma handler_due:
  assumes "stop_asked (sk_client s) \<longleftrightarrow> stop_due s"
  shows "stop_asked (sk_client (on_smoke_disconnect e r s)) \<longleftrightarrow> stop_due (on_smoke_disconnect e r s)"
    "stop_asked (sk_client (on_smoke_message m s)) \<longleftrightarrow> stop_due (on_smoke_message m s)"
  using assms by (auto simp: on_smoke_disconnect_def on_smoke_message_def print_line_def smoke_stop_def stop_due_def reconnect_demo_def Let_def)

lemma disconnects_handled:
  assumes "stop_asked (sk_client s) \<longleftrightarrow> stop_due s"
  shows "let s' = fold (on_smoke_disconnect e) rs s in (stop_asked (sk_client s') \<longleftrightarrow> stop_due s') \<and> sk_messages s' = sk_messages s \<and>
    sk_disconnects s' = sk_disconnects s + int (length rs) \<and> wc_received (sk_client s') = wc_received (sk_client s) \<and>
    wc_disconnects (sk_client s') = wc_disconnects (sk_client s)"
  using assms by (induction rs arbitrary: s) (simp_all add: Let_def handler_due)

lemma messages_handled:
  assumes "stop_asked (sk_client s) \<longleftrightarrow> stop_due s"
  shows "let s' = fold on_smoke_message ms s in (stop_asked (sk_client s') \<longleftrightarrow> stop_due s') \<and> sk_disconnects s' = sk_disconnects s \<and>
    sk_messages s' = sk_messages s + int (length ms) \<and> wc_received (sk_client s') = wc_received (sk_client s) \<and>
    wc_disconnects (sk_client s') = wc_disconnects (sk_client s)"
  using assms by (induction ms arbitrary: s) (simp_all add: Let_def handler_due)

lemma notify_ok:
  assumes "client_smoke_ok s" "sk_client s = c" "turn_keeps c c'"
  shows "client_smoke_ok (notify e c c' s)"
proof -
  obtain ms rs where r: "wc_received c' = wc_received c @ ms" "wc_disconnects c' = wc_disconnects c @ rs" "stop_asked c' = stop_asked c"
    using assms(3) by (auto simp: turn_keeps_def)
  have "stop_asked (sk_client (s\<lparr>sk_client := c'\<rparr>)) \<longleftrightarrow> stop_due (s\<lparr>sk_client := c'\<rparr>)"
    using assms(1,2) r(3) by (simp add: client_smoke_ok_def stop_due_def reconnect_demo_def)
  note d = disconnects_handled [OF this, of e rs, unfolded Let_def]
  note m = messages_handled [OF conjunct1 [OF d], of ms, unfolded Let_def]
  show ?thesis using d m assms(1,2) r by (simp add: client_smoke_ok_def notify_def)
qed

lemma connect_ok: "client_smoke_ok (on_smoke_connect s) = client_smoke_ok s" "sk_client (on_smoke_connect s) = sk_client s"
  by (simp_all add: on_smoke_connect_def print_line_def client_smoke_ok_def stop_due_def reconnect_demo_def)

text \<open>A handler adds at most stops, which any thread may post.\<close>

lemma handlers_reachable:
  assumes "reachable (running cfg) (client_step h {}) (sk_client s)"
  shows "reachable (running cfg) (client_step h {}) (sk_client (fold (on_smoke_disconnect e) rs s))"
    "reachable (running cfg) (client_step h {}) (sk_client (fold on_smoke_message ms s))"
proof -
  have step: "reachable (running cfg) (client_step h {}) (stop c)" if "reachable (running cfg) (client_step h {}) c" for c
    using that by (rule reachable_step) (rule client_step.stopping)
  show "reachable (running cfg) (client_step h {}) (sk_client (fold (on_smoke_disconnect e) rs s))"
    using assms step by (induction rs arbitrary: s) (auto simp: on_smoke_disconnect_def print_line_def smoke_stop_def Let_def)
  show "reachable (running cfg) (client_step h {}) (sk_client (fold on_smoke_message ms s))"
    using assms step by (induction ms arbitrary: s) (auto simp: on_smoke_message_def print_line_def smoke_stop_def Let_def)
qed

section \<open>The program\<close>

text \<open>
  The program runs the client as the feed does, with its own subscription and stops from its
  handlers.  Its counts are the numbers of messages and failures the client reported, and
  the client has been asked to stop exactly when the wanted number of messages has come, or the
  third failure in the reconnect demo.
\<close>

lemma smoke_sound:
  assumes "smoke_reachable args s" "smoke_max args = Some m"
  shows "sk_max s = m \<and> reachable (running (smoke_ws_config args m)) (client_step [TICKER_SUBSCRIPTION] {}) (sk_client s) \<and> client_smoke_ok s"
  using assms(1)
proof induction
  case (start s)
  then show ?case using assms(2)
    by (auto simp: start_client_smoke_def Let_def running_def client_smoke_ok_def stop_asked_def stop_due_def reconnect_demo_def
        run_client_def start_connect_def new_client_def launch_def intro: reachable_start)
next
  case (step s s')
  have notified: "sk_max (notify e c c' r) = sk_max r" for e c c' r
  proof -
    have "sk_max (fold (on_smoke_disconnect e) rs x) = sk_max x" for rs x by (induction rs arbitrary: x) simp_all
    moreover have "sk_max (fold on_smoke_message ms x) = sk_max x" for ms x by (induction ms arbitrary: x) simp_all
    ultimately show ?thesis by (simp add: notify_def)
  qed
  have next_ok: "sk_max (notify e (sk_client s) c' r) = m \<and>
      reachable (running (smoke_ws_config args m)) (client_step [TICKER_SUBSCRIPTION] {}) (sk_client (notify e (sk_client s) c' r)) \<and>
      client_smoke_ok (notify e (sk_client s) c' r)"
    if "client_step [TICKER_SUBSCRIPTION] {} (sk_client s) c'" "turn_keeps (sk_client s) c'" "r = s \<or> r = on_smoke_connect s" for e c' r
  proof -
    have r: "sk_client r = sk_client s" "client_smoke_ok r" "sk_max r = m" using step.IH that(3) connect_ok by (auto simp: on_smoke_connect_def print_line_def)
    have "reachable (running (smoke_ws_config args m)) (client_step [TICKER_SUBSCRIPTION] {}) (sk_client (r\<lparr>sk_client := c'\<rparr>))"
      using that(1) step.IH by (auto intro: reachable_step)
    then show ?thesis using notify_ok [OF r(2,1) that(2)] r(3) notified by (simp add: notify_def handlers_reachable)
  qed
  from step.hyps(2) show ?case
  proof cases
    case (completion c x ec sni data c' e)
    have "turn_keeps c c'" using client_complete_keeps [OF completion(6)] by (simp add: turn_keeps_def stop_asked_def)
    moreover have "client_step [TICKER_SUBSCRIPTION] {} c c'" by (rule client_step.completion) (use completion in auto)
    ultimately show ?thesis unfolding completion(1,2) by (intro next_ok) (auto simp: completion(2))
  next
    case (task c t ts is_open c' e)
    have "client_step [TICKER_SUBSCRIPTION] {} c c'" by (rule client_step.task) (use task in auto)
    then show ?thesis unfolding task(1,2) using run_task_keeps [OF task(5,3)] by (intro next_ok) (auto simp: task(2))
  qed
qed

end
