(* ===== verification/Tsc_Clock.thy ===== *)
theory Tsc_Clock
  imports Ieee_Double Prelude
begin

text \<open>
  \<^verbatim>\<open>metrics/tsc_clock.h\<close>: nanoseconds from the time-stamp counter.  The counter readings, and the
  clock readings of the calibration as counts of nanoseconds, are arguments.  The rate is a
  double, computed once and kept in a function-local static; the conversion of a double that
  does not fit \<^verbatim>\<open>uint64_t\<close> is undefined behaviour and \<open>None\<close> here.
\<close>

definition calibrate_ns_per_tick :: "int \<Rightarrow> 64 word \<Rightarrow> int \<Rightarrow> 64 word \<Rightarrow> dbl" where
  "calibrate_ns_per_tick t0 c0 t1 c1 = (let ns = t1 - t0 in ddiv (dbl_of_int ns) (dbl_of_int (uint (c1 - c0))))"

definition ns_per_tick :: "dbl \<Rightarrow> dbl option \<Rightarrow> dbl \<times> dbl option" where
  "ns_per_tick calibration v = (case v of Some r \<Rightarrow> (r, v) | None \<Rightarrow> (calibration, Some calibration))"

definition calibrate :: "dbl \<Rightarrow> dbl option \<Rightarrow> dbl option" where
  "calibrate calibration v = snd (ns_per_tick calibration v)"

definition now_ns :: "dbl \<Rightarrow> 64 word \<Rightarrow> dbl option \<Rightarrow> 64 word option \<times> dbl option" where
  "now_ns calibration tsc v = (let (r, v') = ns_per_tick calibration v in
     (case dmul (dbl_of_int (uint tsc)) r of
        Fin x \<Rightarrow> if 0 \<le> trunc_int x \<and> trunc_int x < 2 ^ 64 then Some (of_int (trunc_int x)) else None
      | _ \<Rightarrow> None, v'))"

section \<open>Rounding is monotone\<close>

lemma round_even_mono:
  assumes "y \<le> z"
  shows "round_even y \<le> round_even z"
proof (cases "\<lfloor>y\<rfloor> = \<lfloor>z\<rfloor>")
  case True
  then show ?thesis using assms by (auto simp: round_even_def Let_def)
next
  case False
  then have "\<lfloor>y\<rfloor> + 1 \<le> \<lfloor>z\<rfloor>" using floor_mono [OF assms] by linarith
  moreover have "round_even y \<le> \<lfloor>y\<rfloor> + 1" "\<lfloor>z\<rfloor> \<le> round_even z" by (auto simp: round_even_def Let_def)
  ultimately show ?thesis by linarith
qed

lemma exponent_mono:
  assumes "0 < x" "x \<le> y"
  shows "exponent x \<le> exponent y"
proof -
  have "(2::rat) powi exponent x < 2 powi (exponent y + 1)"
    using exponent_bounds(1) [OF assms(1)] exponent_bounds(2) [of y] assms by linarith
  moreover have "(2::rat) powi (exponent y + 1) \<le> 2 powi exponent x" if "exponent y + 1 \<le> exponent x"
    using that by (intro power_int_increasing) simp_all
  ultimately show ?thesis by linarith
qed

text \<open>A power of two that is a multiple of the unit in the last place is a bound rounding respects.\<close>

lemma power_multiple_of_ulp:
  assumes "max (exponent \<bar>x\<bar> - 52) (- 1074) \<le> e"
  obtains m where "(2::rat) powi e = of_int m * ulp x"
proof
  let ?u = "max (exponent \<bar>x\<bar> - 52) (- 1074)"
  have "(2::rat) powi e = 2 powi (e - ?u) * 2 powi ?u" by (simp flip: power_int_add)
  also have "2 powi (e - ?u) = (of_int (2 ^ nat (e - ?u)) :: rat)" using assms by (simp add: power_int_def)
  finally show "(2::rat) powi e = of_int (2 ^ nat (e - ?u)) * ulp x" by (simp add: ulp_def)
qed

lemma fl_mono_pos:
  assumes "0 < x" "x \<le> y"
  shows "fl x \<le> fl y"
proof (cases "ulp x = ulp y")
  case True
  have "x / ulp y \<le> y / ulp y" using assms(2) by (simp add: divide_right_mono less_imp_le)
  then have "round_even (x / ulp y) \<le> round_even (y / ulp y)" by (rule round_even_mono)
  then show ?thesis using True assms by (simp add: fl_def mult_right_mono less_imp_le)
next
  case False
  let ?e = "exponent y" and ?B = "(2::rat) powi exponent y"
  have ee: "exponent x \<le> ?e" by (rule exponent_mono [OF assms])
  have "exponent x \<noteq> ?e" using False assms by (auto simp: ulp_def)
  with ee have "exponent x < ?e" by simp
  moreover have "- 1074 < ?e - 52" using False assms ee by (auto simp: ulp_def max_def split: if_splits)
  ultimately have lt: "exponent x < ?e" "- 1074 < ?e - 52" by blast+
  have xB: "x < ?B"
    using exponent_bounds(2) [OF assms(1)] lt(1) power_int_increasing [of "exponent x + 1" ?e "2::rat"] by linarith
  have By: "?B \<le> y" using exponent_bounds(1) [of y] assms by simp
  obtain m where m: "?B = of_int m * ulp x" by (rule power_multiple_of_ulp [of x ?e]) (use lt assms in auto)
  obtain k where k: "?B = of_int k * ulp y" by (rule power_multiple_of_ulp [of y ?e]) (use lt assms in auto)
  have "fl x \<le> ?B"
    using round_even_le [of "x / ulp x" m] xB m assms by (simp add: fl_def pos_divide_le_eq mult_right_mono less_imp_le)
  also have "?B \<le> fl y"
    using round_even_ge [of k "y / ulp y"] By k assms by (simp add: fl_def pos_le_divide_eq mult_right_mono less_imp_le)
  finally show ?thesis .
qed

lemma fl_mono:
  assumes "0 \<le> x" "x \<le> y"
  shows "fl x \<le> fl y"
  using fl_mono_pos [of x y] fl_nonneg [of y] assms by (cases "x = 0") simp_all

section \<open>The clock\<close>

lemma fl_relative_error:
  assumes "x = 0 \<or> 1 / 2 ^ 11 \<le> x"
  shows "\<bar>fl x - x\<bar> \<le> x / 2 ^ 53"
proof (cases "x = 0")
  case False
  with assms have x: "1 / 2 ^ 11 \<le> x" by simp
  have "(2::rat) powi (- 1022) \<le> 2 powi (- int 11)" by (rule power_int_increasing) simp_all
  also have "(2::rat) powi (- int 11) = 1 / 2 ^ 11" unfolding power_int_minus power_int_of_nat by (simp only: divide_inverse mult_1)
  also note x
  finally have "2 powi (- 1022) \<le> x" .
  moreover have ax: "\<bar>x\<bar> = x" by (rule abs_of_nonneg, rule order_trans [OF _ x]) simp
  ultimately have "\<bar>fl x - x\<bar> \<le> \<bar>x\<bar> / 2 ^ 53" by (intro fl_error) (simp only: ax)
  then show ?thesis by (simp only: ax)
qed simp

lemma abs_diff_le_parts: "\<bar>a - b\<bar> \<le> (e :: rat) \<longleftrightarrow> a \<le> b + e \<and> b \<le> a + e"
  by (auto simp: abs_le_iff algebra_simps)

lemma error_of_two_roundings:
  fixes p m t :: rat
  assumes "\<bar>p - m\<bar> \<le> m / 2 ^ 53" and "\<bar>m - t\<bar> \<le> t / 2 ^ 53" and "0 \<le> t" and "m \<le> 2 * t"
  shows "\<bar>p - t\<bar> \<le> t / 2 ^ 51"
  using assms unfolding abs_diff_le_parts by simp

lemma near_small:
  fixes p t :: rat
  assumes "\<bar>p - t\<bar> \<le> t / 2 ^ 51" and "t < 2 ^ k"
  shows "p < 2 ^ Suc k"
proof -
  have "0 \<le> t" using order_trans [OF abs_ge_zero assms(1)] by simp
  then have "t / 2 ^ 51 \<le> t" by simp
  moreover have "p \<le> t + t / 2 ^ 51" using assms(1) unfolding abs_diff_le_parts by simp
  ultimately have "p \<le> 2 * t" by simp
  also have "\<dots> < 2 * 2 ^ k" using assms(2) by simp
  finally show ?thesis by simp
qed

text \<open>A product of doubles of moderate size: defined, and off by two roundings at most.\<close>

lemma scaled_count:
  fixes r :: rat
  assumes r: "1 / 2 ^ 10 \<le> r" and T: "0 \<le> T" "of_int T * r < 2 ^ 62"
  shows "dmul (dbl_of_int T) (Fin r) = Fin (fl (fl (of_int T) * r))"
    and "\<bar>fl (fl (of_int T) * r) - of_int T * r\<bar> \<le> of_int T * r / 2 ^ 51"
    and "0 \<le> fl (fl (of_int T) * r)" and "fl (fl (of_int T) * r) < 2 ^ 63"
proof -
  let ?T = "of_int T :: rat" and ?a = "fl (of_int T)"
  have r0: "0 < r" using r by (rule less_le_trans [rotated]) simp
  have T1: "T = 0 \<or> 1 \<le> ?T" using T(1) by auto
  then have "?T = 0 \<or> 1 / 2 ^ 11 \<le> ?T" by auto
  then have a: "\<bar>?a - ?T\<bar> \<le> ?T / 2 ^ 53" by (rule fl_relative_error)
  have T0: "0 \<le> ?T" using T(1) by simp
  have a_le: "?a \<le> 2 * ?T" using a T0 unfolding abs_diff_le_parts by simp
  have a_ge: "?T / 2 \<le> ?a" using a T0 unfolding abs_diff_le_parts by simp
  have "?a * r = 0 \<or> 1 / 2 ^ 11 \<le> ?a * r"
  proof (cases "T = 0")
    case False
    then have "1 / 2 \<le> ?a" using T1 a_ge by simp
    then show ?thesis using mult_mono [OF _ r, of "1 / 2" ?a] a_ge T0 by simp
  qed simp
  then have p: "\<bar>fl (?a * r) - ?a * r\<bar> \<le> ?a * r / 2 ^ 53" by (rule fl_relative_error)
  have ar: "\<bar>?a * r - ?T * r\<bar> \<le> ?T * r / 2 ^ 53"
    using mult_right_mono [OF a, of r] r0 by (simp add: abs_mult flip: left_diff_distrib)
  have ar_le: "?a * r \<le> 2 * (?T * r)" using mult_right_mono [OF a_le, of r] r0 by simp
  show err: "\<bar>fl (?a * r) - ?T * r\<bar> \<le> ?T * r / 2 ^ 51"
    using p ar _ ar_le by (rule error_of_two_roundings) (use T0 r0 in simp)
  show "0 \<le> fl (?a * r)" using a_ge T0 r0 by (intro fl_nonneg) simp
  show lt: "fl (?a * r) < 2 ^ 63" using near_small [OF err T(2)] by simp
  have "?T \<le> 2 ^ 10 * (?T * r)" using mult_left_mono [OF r T0] by simp
  also have "\<dots> < 2 ^ 10 * 2 ^ 62" using T(2) by (simp add: mult.commute)
  finally have "?a < 2 ^ 73" using a_le by simp
  then have "dbl_of_int T = Fin ?a"
    unfolding dbl_of_int_def using a_ge T0 by (intro round_dbl_fin small_power [of _ 73]) simp_all
  moreover have "round_dbl (?a * r) = Fin (fl (?a * r))"
    using lt \<open>0 \<le> fl (?a * r)\<close> by (intro round_dbl_fin small_power [of _ 63]) simp_all
  ultimately show "dmul (dbl_of_int T) (Fin r) = Fin (fl (?a * r))" by simp
qed

text \<open>The calibrated rate: one rounding away from the measured one.\<close>

lemma rounded_quotient:
  fixes n d :: int
  assumes "0 < n" "n < 2 ^ 53" "0 < d" "d < 2 ^ 53" and "1 / 2 ^ 9 \<le> (of_int n / of_int d :: rat)"
  shows "ddiv (dbl_of_int n) (dbl_of_int d) = Fin (fl (of_int n / of_int d))"
    and "\<bar>fl (of_int n / of_int d) - of_int n / of_int d\<bar> \<le> (of_int n / of_int d :: rat) / 2 ^ 53"
proof -
  let ?q = "of_int n / of_int d :: rat"
  have "?q \<le> of_int n / 1" using assms(1,3) by (intro divide_left_mono) simp_all
  also have "\<dots> < of_int (2 ^ 53)" using assms(2) by (simp only: of_int_less_iff div_by_1)
  finally have lt: "?q < 2 ^ 53" by simp
  have "(1::rat) / 2 ^ 11 \<le> 1 / 2 ^ 9" by simp
  with assms(5) have "?q = 0 \<or> 1 / 2 ^ 11 \<le> ?q" by linarith
  then show err: "\<bar>fl ?q - ?q\<bar> \<le> ?q / 2 ^ 53" by (rule fl_relative_error)
  have q: "0 \<le> ?q" using assms(1,3) by simp
  have "?q / 2 ^ 53 \<le> ?q / 2 ^ 51" using q by (intro divide_left_mono) simp_all
  then have "fl ?q < 2 ^ 54" using near_small [OF _ lt, of "fl ?q"] err by simp
  then have "round_dbl ?q = Fin (fl ?q)"
    using fl_nonneg [OF q] by (intro round_dbl_fin small_power [of _ 54]) simp_all
  moreover have "dbl_of_int n = Fin (of_int n)" "dbl_of_int d = Fin (of_int d)"
    using assms(1-4) by (auto intro: dbl_of_int_exact)
  ultimately show "ddiv (dbl_of_int n) (dbl_of_int d) = Fin (fl ?q)" using assms(3) by simp
qed

section \<open>Properties\<close>

lemma converted_count:
  fixes r :: rat
  assumes r: "1 / 2 ^ 10 \<le> r" and T: "of_int (uint tsc) * r < 2 ^ 62"
  obtains n where "\<And>v. v = None \<or> v = Some (Fin r) \<Longrightarrow> now_ns (Fin r) tsc v = (Some n, Some (Fin r))"
    and "uint n = \<lfloor>fl (fl (of_int (uint tsc)) * r)\<rfloor>"
    and "\<bar>of_int (uint n) - of_int (uint tsc) * r\<bar> \<le> of_int (uint tsc) * r / 2 ^ 51 + 1"
proof -
  let ?x = "fl (fl (of_int (uint tsc)) * r)"
  note sc = scaled_count [OF r uint_ge_0 T]
  have tr: "trunc_int ?x = \<lfloor>?x\<rfloor>" "0 \<le> \<lfloor>?x\<rfloor>" "\<lfloor>?x\<rfloor> < 2 ^ 63"
    using sc(3,4) by (simp_all add: trunc_int_def floor_less_iff)
  have u: "uint (of_int \<lfloor>?x\<rfloor> :: 64 word) = \<lfloor>?x\<rfloor>"
    by (subst uint_word_of_int_eq) (use tr in \<open>simp add: take_bit_eq_mod\<close>)
  show thesis
  proof (rule that [of "of_int \<lfloor>?x\<rfloor>"])
    show "now_ns (Fin r) tsc v = (Some (of_int \<lfloor>?x\<rfloor>), Some (Fin r))" if "v = None \<or> v = Some (Fin r)" for v
      using that sc(1) tr by (auto simp: now_ns_def ns_per_tick_def)
    have "\<bar>of_int \<lfloor>?x\<rfloor> - ?x\<bar> \<le> 1" using floor_correct [of ?x] by (simp add: abs_le_iff)
    then show "\<bar>of_int (uint (of_int \<lfloor>?x\<rfloor> :: 64 word)) - of_int (uint tsc) * r\<bar> \<le> of_int (uint tsc) * r / 2 ^ 51 + 1"
      using sc(2) u by linarith
  qed (rule u)
qed

lemma combined_error:
  fixes n m t :: rat
  assumes "\<bar>n - m\<bar> \<le> m / 2 ^ 51 + 1" and "\<bar>m - t\<bar> \<le> t / 2 ^ 53" and "0 \<le> t"
  shows "\<bar>n - t\<bar> \<le> t / 2 ^ 50 + 1"
  using assms unfolding abs_diff_le_parts by simp

text \<open>
  C40: the clock is monotone and accurate.  Calibrated over intervals below \<open>2 ^ 53\<close> and a rate of
  at least \<open>1 / 512\<close> nanosecond per tick, every counter reading that stands for less than
  \<open>2 ^ 61\<close> nanoseconds (73 years of uptime) converts to a 64-bit count without undefined
  behaviour; a later reading never converts to a smaller count; and the count is within one
  nanosecond and a relative error of \<open>2 ^ - 50\<close> of the measured rate times the reading.
\<close>

theorem tsc_clock_sound:
  fixes q :: rat
  assumes cal: "0 < t1 - t0" "t1 - t0 < 2 ^ 53" "0 < uint (c1 - c0)" "uint (c1 - c0) < 2 ^ 53"
    and q: "q = of_int (t1 - t0) / of_int (uint (c1 - c0))" "1 / 2 ^ 9 \<le> q"
    and T: "tsc \<le> tsc'" "of_int (uint tsc') * q < 2 ^ 61"
  shows "\<exists>n n'. let rate = calibrate_ns_per_tick t0 c0 t1 c1; v = calibrate rate None in
    now_ns rate tsc v = (Some n, v) \<and> now_ns rate tsc' v = (Some n', v) \<and> n \<le> n' \<and>
    \<bar>of_int (uint n) - of_int (uint tsc) * q\<bar> \<le> of_int (uint tsc) * q / 2 ^ 50 + 1"
proof -
  let ?r = "fl q" and ?t = "of_int (uint tsc) :: rat" and ?t' = "of_int (uint tsc') :: rat"
  have rate: "calibrate_ns_per_tick t0 c0 t1 c1 = Fin ?r" and err: "\<bar>?r - q\<bar> \<le> q / 2 ^ 53"
    using rounded_quotient [OF cal] q by (simp_all add: calibrate_ns_per_tick_def)
  have q0: "0 < q" using q(2) by (rule less_le_trans [rotated]) simp
  have r: "1 / 2 ^ 10 \<le> ?r" "?r \<le> 2 * q" using err q(2) q0 unfolding abs_diff_le_parts by simp_all
  have t: "0 \<le> ?t" "?t \<le> ?t'" using T(1) by (simp_all only: of_int_0_le_iff uint_ge_0 of_int_le_iff word_le_def)
  have t'r: "?t' * ?r < 2 ^ 62"
    using mult_left_mono [OF r(2), of ?t'] t T(2) by simp
  have tr: "?t * ?r < 2 ^ 62"
    by (rule order_le_less_trans [OF mult_right_mono [OF t(2)] t'r], rule order_trans [OF _ r(1)]) simp
  obtain n where n: "now_ns (Fin ?r) tsc (Some (Fin ?r)) = (Some n, Some (Fin ?r))" "uint n = \<lfloor>fl (fl ?t * ?r)\<rfloor>"
      "\<bar>of_int (uint n) - ?t * ?r\<bar> \<le> ?t * ?r / 2 ^ 51 + 1"
    by (rule converted_count [OF r(1) tr]) blast
  obtain n' where n': "now_ns (Fin ?r) tsc' (Some (Fin ?r)) = (Some n', Some (Fin ?r))" "uint n' = \<lfloor>fl (fl ?t' * ?r)\<rfloor>"
    by (rule converted_count [OF r(1) t'r]) blast
  have "fl ?t * ?r \<le> fl ?t' * ?r" using fl_mono [OF t] r(1) by (intro mult_right_mono) simp_all
  then have "n \<le> n'" using fl_nonneg [OF t(1)] r(1) n(2) n'(2)
    by (simp add: word_le_def floor_mono fl_mono)
  moreover have "\<bar>?t * ?r - ?t * q\<bar> \<le> ?t * q / 2 ^ 53"
    using mult_left_mono [OF err t(1)] t(1) by (simp add: abs_mult flip: right_diff_distrib)
  then have "\<bar>of_int (uint n) - ?t * q\<bar> \<le> ?t * q / 2 ^ 50 + 1"
    by (rule combined_error [OF n(3)]) (use t(1) q0 in simp)
  ultimately show ?thesis using n(1) n'(1) by (auto simp: rate calibrate_def ns_per_tick_def)
qed

theorem tsc_clock_sound_witness:
  "\<exists>n n'. let rate = calibrate_ns_per_tick 100 1000 20000100 60001000; v = calibrate rate None in
    now_ns rate 30 v = (Some n, v) \<and> now_ns rate 3000000000 v = (Some n', v) \<and> n \<le> n' \<and>
    \<bar>of_int (uint n) - of_int (uint (30 :: 64 word)) * (1 / 3 :: rat)\<bar> \<le> of_int (uint (30 :: 64 word)) * (1 / 3) / 2 ^ 50 + 1"
  by (rule tsc_clock_sound [where tsc = 30 and tsc' = 3000000000]) simp_all

end
