(* ===== verification/Ring_Bench.thy ===== *)
theory Ring_Bench
  imports Spsc_Queue Io_Context
begin

text \<open>
  \<^verbatim>\<open>bench/ring_buffer_bench.cpp\<close>: the three workloads that measure the ring buffer, as
  programs.  A benchmark is meaningful only if every iteration does the work it is
  timed for: the single-threaded loop gets its value back, an iteration of the
  throughput benchmark ends when the consumer has all items and not before, and a round trip returns the
  value that was sent.  The number of iterations, which the benchmark library chooses, is an argument.

  The threads are step relations over whole queue operations.  An atomic load may return
  any value the variable had earlier: the counter \<open>consumed\<close> only grows, so a load sees
  at most its current value, and a load of \<open>stop\<close> may miss that it was set.
\<close>

definition kCapacity :: "64 word" where
  "kCapacity = 65536"

lemma kCapacity_ok: "capacity_ok kCapacity" and unat_kCapacity [simp]: "unat kCapacity = 65536"
  by (simp_all add: kCapacity_def capacity_ok_def)

section \<open>Push and pop by one thread\<close>

definition push_pop_iteration :: "64 word spsc \<times> 64 word \<Rightarrow> (64 word spsc \<times> 64 word) option" where
  "push_pop_iteration = (\<lambda>(q, val). do {
     (_, q1) \<leftarrow> try_push kCapacity val q;
     (r, q2) \<leftarrow> try_pop kCapacity q1;
     Some (q2, case r of None \<Rightarrow> val | Some x \<Rightarrow> x) })"

fun push_pop_loop :: "nat \<Rightarrow> 64 word spsc \<times> 64 word \<Rightarrow> (64 word spsc \<times> 64 word) option" where
  "push_pop_loop 0 s = Some s"
| "push_pop_loop (Suc n) s = do { s1 \<leftarrow> push_pop_iteration s; push_pop_loop n s1 }"

definition BM_SPSC_PushPop_SingleThread :: "nat \<Rightarrow> (64 word spsc \<times> 64 word) option" where
  "BM_SPSC_PushPop_SingleThread iterations = push_pop_loop iterations (new_spsc kCapacity 0, 0)"

lemma push_pop_iteration_rep:
  assumes "queue_rep kCapacity q []"
  shows "\<exists>q'. push_pop_iteration (q, val) = Some (q', val) \<and> queue_rep kCapacity q' []"
proof -
  obtain q1 where q1: "try_push kCapacity val q = Some (True, q1)" "queue_rep kCapacity q1 [val]"
    using ring.push_rep [of kCapacity q "[]" val] assms kCapacity_ok by auto
  obtain q2 where q2: "try_pop kCapacity q1 = Some (Some val, q2)" "queue_rep kCapacity q2 []"
    using ring.pop_rep [of kCapacity q1 "[val]"] q1(2) kCapacity_ok by auto
  show ?thesis using q1(1) q2 by (simp add: push_pop_iteration_def)
qed

text \<open>Every iteration pushes and pops its value: the loop never meets a full or an empty ring.\<close>

lemma push_pop_loop_rep:
  "queue_rep kCapacity q [] \<Longrightarrow> \<exists>q'. push_pop_loop n (q, val) = Some (q', val) \<and> queue_rep kCapacity q' []"
proof (induction n arbitrary: q)
  case (Suc n)
  obtain q1 where "push_pop_iteration (q, val) = Some (q1, val)" "queue_rep kCapacity q1 []"
    using push_pop_iteration_rep [OF Suc.prems] by blast
  then show ?case using Suc.IH [of q1] by simp
qed simp

lemma push_pop_single_thread:
  "\<exists>q. BM_SPSC_PushPop_SingleThread n = Some (q, 0) \<and> queue_rep kCapacity q []"
  unfolding BM_SPSC_PushPop_SingleThread_def
  using push_pop_loop_rep [OF new_queue_rep [OF kCapacity_ok]] by blast

section \<open>Throughput\<close>

datatype consumer_pc = ConPop | ConBatch | ConDrained | ConCheck | ConReturned
datatype producer_pc = Between | Filling | Waiting | Joining | Joined

record 'a transfer =
  tr_queue :: "'a spsc"
  tr_consumed :: "64 word"
  tr_stop :: bool
  tr_local :: "64 word"
  tr_tmp :: 'a
  tr_cpc :: consumer_pc
  tr_produced :: "64 word"
  tr_target :: "64 word"
  tr_left :: nat
  tr_ppc :: producer_pc

definition start_transfer :: "'a \<Rightarrow> nat \<Rightarrow> 'a transfer" where
  "start_transfer zero iterations = \<lparr>tr_queue = new_spsc kCapacity zero, tr_consumed = 0, tr_stop = False,
     tr_local = 0, tr_tmp = zero, tr_cpc = ConPop, tr_produced = 0, tr_target = 0, tr_left = iterations, tr_ppc = Between\<rparr>"

text \<open>The consumer: it publishes its progress every 1024 items and whenever the ring is empty.\<close>

definition consumer_step :: "bool \<Rightarrow> 'a transfer \<Rightarrow> 'a transfer option" where
  "consumer_step seen_stop s = (case tr_cpc s of
     ConPop \<Rightarrow> do {
       (r, q) \<leftarrow> try_pop kCapacity (tr_queue s);
       Some (case r of
         Some x \<Rightarrow> let local = tr_local s + 1 in
           s\<lparr>tr_queue := q, tr_tmp := x, tr_local := local, tr_cpc := (if and local 1023 = 0 then ConBatch else ConPop)\<rparr>
       | None \<Rightarrow> s\<lparr>tr_queue := q, tr_cpc := ConDrained\<rparr>) }
   | ConBatch \<Rightarrow> Some (s\<lparr>tr_consumed := tr_local s, tr_cpc := ConPop\<rparr>)
   | ConDrained \<Rightarrow> Some (s\<lparr>tr_consumed := tr_local s, tr_cpc := ConCheck\<rparr>)
   | ConCheck \<Rightarrow> Some (s\<lparr>tr_cpc := (if seen_stop then ConReturned else ConPop)\<rparr>)
   | ConReturned \<Rightarrow> Some s)"

text \<open>The producer: \<open>seen\<close> is what a load of \<open>consumed\<close> returns.\<close>

definition producer_step :: "'a \<Rightarrow> 64 word \<Rightarrow> 64 word \<Rightarrow> 'a transfer \<Rightarrow> 'a transfer option" where
  "producer_step val items seen s = (case tr_ppc s of
     Between \<Rightarrow> Some (case tr_left s of
         0 \<Rightarrow> s\<lparr>tr_stop := True, tr_ppc := Joining\<rparr>
       | Suc n \<Rightarrow> s\<lparr>tr_left := n, tr_target := tr_produced s + items, tr_ppc := Filling\<rparr>)
   | Filling \<Rightarrow> (if tr_produced s < tr_target s
       then do { (ok, q) \<leftarrow> try_push kCapacity val (tr_queue s);
                 Some (s\<lparr>tr_queue := q, tr_produced := (if ok then tr_produced s + 1 else tr_produced s)\<rparr>) }
       else Some (s\<lparr>tr_ppc := Waiting\<rparr>))
   | Waiting \<Rightarrow> Some (if seen < tr_target s then s else s\<lparr>tr_ppc := Between\<rparr>)
   | Joining \<Rightarrow> Some (if tr_cpc s = ConReturned then s\<lparr>tr_ppc := Joined\<rparr> else s)
   | Joined \<Rightarrow> Some s)"

inductive transfer_step :: "'a \<Rightarrow> 64 word \<Rightarrow> 'a transfer \<Rightarrow> 'a transfer \<Rightarrow> bool" for val items where
  consumer: "seen_stop \<longrightarrow> tr_stop s \<Longrightarrow> consumer_step seen_stop s = Some s' \<Longrightarrow> transfer_step val items s s'"
| producer: "seen \<le> tr_consumed s \<Longrightarrow> producer_step val items seen s = Some s' \<Longrightarrow> transfer_step val items s s'"

text \<open>
  What is in the ring is what was produced and not yet taken; the published count is
  at most what was taken, and exact after an empty ring; between two iterations everything was taken.
\<close>

definition transfer_at :: "'a \<Rightarrow> 64 word \<Rightarrow> nat \<Rightarrow> nat \<Rightarrow> 'a transfer \<Rightarrow> bool" where
  "transfer_at val items whole n s \<longleftrightarrow> queue_rep kCapacity (tr_queue s) (replicate n val) \<and>
     unat (tr_produced s) = unat (tr_local s) + n \<and> unat (tr_consumed s) \<le> unat (tr_local s) \<and>
     unat (tr_produced s) \<le> unat (tr_target s) \<and>
     unat (tr_target s) + unat items * tr_left s = whole \<and> tr_tmp s = val \<and>
     (tr_ppc s \<noteq> Filling \<longrightarrow> tr_produced s = tr_target s) \<and>
     (tr_ppc s \<in> {Between, Joining, Joined} \<longrightarrow> n = 0 \<and> tr_consumed s = tr_local s) \<and>
     (tr_stop s \<longleftrightarrow> tr_ppc s \<in> {Joining, Joined}) \<and> (tr_stop s \<longrightarrow> tr_left s = 0) \<and>
     (tr_cpc s = ConReturned \<longrightarrow> tr_stop s) \<and> (tr_ppc s = Joined \<longrightarrow> tr_cpc s = ConReturned)"

definition transfer_ok :: "'a \<Rightarrow> 64 word \<Rightarrow> nat \<Rightarrow> 'a transfer \<Rightarrow> bool" where
  "transfer_ok val items whole s \<longleftrightarrow> (\<exists>n. transfer_at val items whole n s)"

lemma start_transfer_ok: "transfer_ok val items (unat items * n) (start_transfer val n)"
  unfolding transfer_ok_def transfer_at_def using new_queue_rep [OF kCapacity_ok, of val]
  by (intro exI [of _ 0]) (simp add: start_transfer_def)

lemma unat_Suc_below: "unat (w :: 64 word) < unat (v :: 64 word) \<Longrightarrow> unat (w + 1) = Suc (unat w)"
  using unsigned_less [of v, where ?'a = nat] by (simp add: unat_word_ariths(1))

lemma same_count: "unat (v :: 64 word) = unat w \<Longrightarrow> v = w"
  by (rule unsigned_word_eqI)

lemma pop_ok:
  assumes at: "transfer_at val items whole n s" and pc: "tr_cpc s = ConPop"
  shows "\<exists>s'. consumer_step seen_stop s = Some s' \<and> tr_ppc s' = tr_ppc s \<and> tr_target s' = tr_target s \<and>
    (if n = 0 then tr_cpc s' = ConDrained else tr_cpc s' \<in> {ConPop, ConBatch}) \<and> transfer_at val items whole (n - 1) s'"
proof (cases n)
  case 0
  obtain q' where q: "try_pop kCapacity (tr_queue s) = Some (None, q')" "queue_rep kCapacity q' []"
    using ring.pop_rep [of kCapacity "tr_queue s" "[]"] at 0 kCapacity_ok by (auto simp: transfer_at_def)
  show ?thesis using q(1) pc 0 at by (simp add: consumer_step_def transfer_at_def q(2))
next
  case (Suc m)
  obtain q' where q: "try_pop kCapacity (tr_queue s) = Some (Some val, q')" "queue_rep kCapacity q' (replicate m val)"
    using ring.pop_rep [of kCapacity "tr_queue s" "replicate n val"] at Suc kCapacity_ok by (auto simp: transfer_at_def)
  have up: "unat (tr_local s + 1) = Suc (unat (tr_local s))"
    using unat_Suc_below [of "tr_local s" "tr_produced s"] at Suc by (simp add: transfer_at_def)
  show ?thesis using q(1) pc Suc at by (simp add: consumer_step_def transfer_at_def Let_def up q(2))
qed

lemma consumer_step_at:
  assumes at: "transfer_at val items whole n s" and stop: "seen_stop \<longrightarrow> tr_stop s" and pc: "tr_cpc s \<noteq> ConPop"
  shows "\<exists>s'. consumer_step seen_stop s = Some s' \<and> tr_ppc s' = tr_ppc s \<and> tr_target s' = tr_target s \<and>
    tr_cpc s' = (case tr_cpc s of ConDrained \<Rightarrow> ConCheck | ConCheck \<Rightarrow> if seen_stop then ConReturned else ConPop | ConReturned \<Rightarrow> ConReturned | _ \<Rightarrow> ConPop) \<and>
    transfer_at val items whole n s'"
  using assms by (cases "tr_cpc s") (auto simp: consumer_step_def transfer_at_def)

lemma consumer_step_ok:
  assumes "transfer_ok val items whole s" and "seen_stop \<longrightarrow> tr_stop s"
  shows "\<exists>s'. consumer_step seen_stop s = Some s' \<and> transfer_ok val items whole s'"
  using assms pop_ok [of val items whole _ s seen_stop] consumer_step_at [of val items whole _ s seen_stop]
  unfolding transfer_ok_def by meson

lemma transfer_stepI:
  "f = Some t \<Longrightarrow> transfer_at val items whole n t \<Longrightarrow> \<exists>s'. f = Some s' \<and> transfer_ok val items whole s'"
  by (auto simp: transfer_ok_def)

lemma push_ok:
  assumes at: "transfer_at val items whole n s" and pc: "tr_ppc s = Filling" and less: "tr_produced s < tr_target s"
  shows "\<exists>s'. producer_step val items seen s = Some s' \<and> transfer_ok val items whole s'"
proof (cases "n < 65535")
  case True
  obtain q' where q: "try_push kCapacity val (tr_queue s) = Some (True, q')" "queue_rep kCapacity q' (replicate (Suc n) val)"
    using ring.push_rep [of kCapacity "tr_queue s" "replicate n val" val] at True kCapacity_ok
    by (auto simp: transfer_at_def replicate_append_same)
  have lt: "unat (tr_produced s) < unat (tr_target s)" using less by (simp add: word_less_nat_alt)
  show ?thesis using q(1) pc less at lt
    by - (rule transfer_stepI [where n = "Suc n"], simp add: producer_step_def, insert q(2), auto simp: transfer_at_def unat_Suc_below)
next
  case False
  obtain q' where q: "try_push kCapacity val (tr_queue s) = Some (False, q')" "queue_rep kCapacity q' (replicate n val)"
    using ring.push_rep [of kCapacity "tr_queue s" "replicate n val" val] at False kCapacity_ok
    by (auto simp: transfer_at_def)
  show ?thesis using q(1) pc less at
    by - (rule transfer_stepI [where n = "n"], simp add: producer_step_def, insert q(2), auto simp: transfer_at_def)
qed

lemma producer_step_ok:
  assumes ok: "transfer_ok val items whole s" and seen: "seen \<le> tr_consumed s" and bound: "whole < 2 ^ 64"
  shows "\<exists>s'. producer_step val items seen s = Some s' \<and> transfer_ok val items whole s'"
proof -
  obtain n where at: "transfer_at val items whole n s" using ok by (auto simp: transfer_ok_def)
  consider "tr_ppc s = Between" | "tr_ppc s = Filling" "tr_produced s < tr_target s"
    | "tr_ppc s = Filling" "\<not> tr_produced s < tr_target s" | "tr_ppc s = Waiting" | "tr_ppc s \<in> {Joining, Joined}"
    by (cases "tr_ppc s") auto
  then show ?thesis
  proof cases
    case 1
    have "unat (tr_produced s + items) = unat (tr_produced s) + unat items" if "tr_left s = Suc k" for k
      using at that bound 1 by (intro unat_add_lem [THEN iffD1]) (auto simp: transfer_at_def)
    then show ?thesis using 1 at
      by - (rule transfer_stepI [where n = "n"], simp add: producer_step_def, auto simp: transfer_at_def split: nat.split)
  next
    case 2
    then show ?thesis using push_ok [OF at] by simp
  next
    case 3
    then have "tr_produced s = tr_target s" using at by (simp add: transfer_at_def word_le_nat_alt [symmetric])
    with 3 at show ?thesis
      by - (rule transfer_stepI [where n = "n"], simp add: producer_step_def, auto simp: transfer_at_def)
  next
    case 4
    have "n = 0 \<and> tr_consumed s = tr_local s" if "\<not> seen < tr_target s"
    proof -
      have "unat (tr_target s) \<le> unat (tr_consumed s)" using that seen by (simp add: word_le_nat_alt word_less_nat_alt)
      then have "n = 0 \<and> unat (tr_consumed s) = unat (tr_local s)" using 4 at by (auto simp: transfer_at_def)
      then show ?thesis by (simp add: same_count)
    qed
    with 4 at show ?thesis
      by - (rule transfer_stepI [where n = "n"], simp add: producer_step_def, auto simp: transfer_at_def)
  next
    case 5
    have step: "producer_step val items seen s = Some (if tr_cpc s = ConReturned then s\<lparr>tr_ppc := Joined\<rparr> else s)"
      if "tr_ppc s = Joining" using that by (simp add: producer_step_def)
    have "transfer_at val items whole n (s\<lparr>tr_ppc := Joined\<rparr>)" if "tr_ppc s = Joining" "tr_cpc s = ConReturned"
      using at that by (auto simp: transfer_at_def)
    with 5 at step show ?thesis by (auto simp: producer_step_def transfer_ok_def)
  qed
qed

interpretation transfer_run: invariant_system "\<lambda>s. unat items * iterations < 2 ^ 64 \<and> s = start_transfer val iterations"
  "transfer_step val items" "\<lambda>s. unat items * iterations < 2 ^ 64 \<and> transfer_ok val items (unat items * iterations) s"
  for val items iterations
proof unfold_locales
  let ?whole = "unat items * iterations"
  show "?whole < 2 ^ 64 \<and> transfer_ok val items ?whole t"
    if "?whole < 2 ^ 64 \<and> transfer_ok val items ?whole s" "transfer_step val items s t" for s t
    using that(2,1)
  proof cases
    case (consumer seen_stop)
    then show ?thesis using that(1) consumer_step_ok [of val items ?whole s seen_stop] by simp
  next
    case (producer seen)
    then show ?thesis using that(1) producer_step_ok [of val items ?whole s seen] by simp
  qed
qed (simp add: start_transfer_ok)

text \<open>
  In every state of the throughput benchmark both threads can go on without a memory fault, and whenever the
  producer is between two iterations the consumer has received and published every item of the iterations
  so far, so that no iteration is timed short; when the consumer has been joined, all items were transferred.
\<close>

lemma throughput_sound:
  assumes run: "reachable (\<lambda>s. s = start_transfer val iterations) (transfer_step val items) s"
    and bound: "unat items * iterations < 2 ^ 64"
  shows "\<exists>t. consumer_step (tr_stop s) s = Some t" and "\<exists>t. producer_step val items (tr_consumed s) s = Some t"
    and "tr_ppc s \<in> {Between, Joining, Joined} \<Longrightarrow> queue_rep kCapacity (tr_queue s) [] \<and>
      tr_local s = tr_produced s \<and> tr_consumed s = tr_produced s \<and>
      unat (tr_produced s) = unat items * iterations - unat items * tr_left s"
    and "tr_ppc s = Joined \<Longrightarrow> tr_cpc s = ConReturned \<and> unat (tr_produced s) = unat items * iterations"
proof -
  let ?whole = "unat items * iterations"
  have "transfer_ok val items ?whole s"
    using transfer_run.always [of items iterations val s] run bound by simp
  then obtain n where at: "transfer_at val items ?whole n s" by (auto simp: transfer_ok_def)
  then have ok: "transfer_ok val items ?whole s" by (auto simp: transfer_ok_def)
  show "\<exists>t. consumer_step (tr_stop s) s = Some t" using consumer_step_ok [OF ok] by blast
  show "\<exists>t. producer_step val items (tr_consumed s) s = Some t" using producer_step_ok [OF ok _ bound] by blast
  show "queue_rep kCapacity (tr_queue s) [] \<and> tr_local s = tr_produced s \<and> tr_consumed s = tr_produced s \<and>
      unat (tr_produced s) = ?whole - unat items * tr_left s" if "tr_ppc s \<in> {Between, Joining, Joined}"
    using at that same_count [of "tr_local s" "tr_produced s"] by (auto simp: transfer_at_def)
  show "tr_cpc s = ConReturned \<and> unat (tr_produced s) = ?whole" if "tr_ppc s = Joined"
    using at that by (auto simp: transfer_at_def)
qed

text \<open>
  The wait of the producer ends: although progress is published in batches, the consumer alone reaches a state in
  which the published count is the target, since it also publishes on an empty ring.
\<close>

fun consumer_run :: "nat \<Rightarrow> 'a transfer \<Rightarrow> 'a transfer option" where
  "consumer_run 0 s = Some s"
| "consumer_run (Suc k) s = do { s1 \<leftarrow> consumer_step False s; consumer_run k s1 }"

definition caught_up :: "'a transfer \<Rightarrow> bool" where
  "caught_up s \<longleftrightarrow> (\<exists>k t. consumer_run k s = Some t \<and> tr_target t = tr_target s \<and> tr_consumed t = tr_target s)"

lemma caught_up_step: "consumer_step False s = Some t \<Longrightarrow> tr_target t = tr_target s \<Longrightarrow> caught_up t \<Longrightarrow> caught_up s"
  unfolding caught_up_def by (metis bind.bind_lunit consumer_run.simps(2))

lemma drained_caught_up:
  assumes at: "transfer_at val items whole 0 s" and "tr_ppc s = Waiting" and pc: "tr_cpc s = ConDrained"
  shows "caught_up s"
proof -
  have "tr_local s = tr_target s" using at assms(2) by (intro same_count) (auto simp: transfer_at_def)
  then show ?thesis unfolding caught_up_def using pc
    by (intro exI [of _ 1] exI [of _ "s\<lparr>tr_consumed := tr_local s, tr_cpc := ConCheck\<rparr>"]) (simp add: consumer_step_def)
qed

lemma pop_caught_up:
  "transfer_at val items whole n s \<Longrightarrow> tr_ppc s = Waiting \<Longrightarrow> tr_cpc s = ConPop \<Longrightarrow> caught_up s"
proof (induction n arbitrary: s)
  case 0
  then show ?case using pop_ok [OF 0(1,3), of False] drained_caught_up caught_up_step by fastforce
next
  case (Suc n)
  obtain t where t: "consumer_step False s = Some t" "tr_ppc t = Waiting" "tr_target t = tr_target s"
      "tr_cpc t \<in> {ConPop, ConBatch}" "transfer_at val items whole n t"
    using pop_ok [OF Suc.prems(1,3), of False] Suc.prems(2) by auto
  have "caught_up t"
  proof (cases "tr_cpc t = ConPop")
    case True
    then show ?thesis using Suc.IH t by blast
  next
    case False
    then obtain u where "consumer_step False t = Some u" "tr_ppc u = Waiting" "tr_target u = tr_target t" "tr_cpc u = ConPop"
        "transfer_at val items whole n u"
      using consumer_step_at [OF t(5), of False] t(2,4) by (auto simp: consumer_step_def)
    then show ?thesis using Suc.IH caught_up_step by blast
  qed
  then show ?case using caught_up_step t by blast
qed

lemma throughput_catches_up:
  assumes run: "reachable (\<lambda>s. s = start_transfer val iterations) (transfer_step val items) s"
    and bound: "unat items * iterations < 2 ^ 64" and wait: "tr_ppc s = Waiting"
  shows "caught_up s"
proof -
  let ?at = "transfer_at val items (unat items * iterations)"
  obtain n where at: "?at n s"
    using transfer_run.always [of items iterations val s] run bound by (auto simp: transfer_ok_def)
  have ready: "caught_up t" if t: "?at n t" "tr_ppc t = Waiting" "tr_cpc t \<in> {ConPop, ConBatch, ConCheck}" for t
  proof (cases "tr_cpc t = ConPop")
    case False
    then obtain u where u: "consumer_step False t = Some u" "tr_target u = tr_target t" "tr_ppc u = Waiting" "tr_cpc u = ConPop" "?at n u"
      using consumer_step_at [OF t(1), of False] t(2,3) by auto
    show ?thesis by (rule caught_up_step [OF u(1,2) pop_caught_up [OF u(5,3,4)]])
  qed (rule pop_caught_up [OF t(1,2)])
  show ?thesis
  proof (cases "tr_cpc s = ConDrained")
    case True
    then obtain t where "consumer_step False s = Some t" "tr_target t = tr_target s" "tr_ppc t = Waiting" "tr_cpc t = ConCheck" "?at n t"
      using consumer_step_at [OF at, of False] wait by auto
    then show ?thesis using ready [of t] caught_up_step by blast
  next
    case False
    moreover have "tr_cpc s \<noteq> ConReturned" using at wait by (auto simp: transfer_at_def)
    ultimately show ?thesis using ready [OF at wait] by (cases "tr_cpc s") auto
  qed
qed

section \<open>Round trip\<close>

definition ping_capacity :: "64 word" where
  "ping_capacity = 1024"

lemma ping_capacity_ok: "capacity_ok ping_capacity" and unat_ping_capacity [simp]: "unat ping_capacity = 1024"
  by (simp_all add: ping_capacity_def capacity_ok_def)

datatype echo_pc = EchoTest | EchoPop | EchoPush | EchoReturned
datatype caller_pc = NextTrip | PushPing | PopPong | JoinEcho | EchoJoined

record round_trip =
  rt_ping :: "64 word spsc"
  rt_pong :: "64 word spsc"
  rt_stop :: bool
  rt_echo_v :: "64 word"
  rt_epc :: echo_pc
  rt_v :: "64 word"
  rt_r :: "64 word"
  rt_left :: nat
  rt_cpc :: caller_pc

definition start_round_trip :: "nat \<Rightarrow> round_trip" where
  "start_round_trip iterations = \<lparr>rt_ping = new_spsc ping_capacity 0, rt_pong = new_spsc ping_capacity 0, rt_stop = False,
     rt_echo_v = 0, rt_epc = EchoTest, rt_v = 0, rt_r = 0, rt_left = iterations, rt_cpc = NextTrip\<rparr>"

definition echo_step :: "bool \<Rightarrow> round_trip \<Rightarrow> round_trip option" where
  "echo_step seen_stop s = (case rt_epc s of
     EchoTest \<Rightarrow> Some (s\<lparr>rt_epc := (if seen_stop then EchoReturned else EchoPop)\<rparr>)
   | EchoPop \<Rightarrow> do {
       (r, q) \<leftarrow> try_pop ping_capacity (rt_ping s);
       Some (case r of None \<Rightarrow> s\<lparr>rt_ping := q, rt_epc := EchoTest\<rparr>
                     | Some x \<Rightarrow> s\<lparr>rt_ping := q, rt_echo_v := x, rt_epc := EchoPush\<rparr>) }
   | EchoPush \<Rightarrow> do {
       (ok, q) \<leftarrow> try_push ping_capacity (rt_echo_v s) (rt_pong s);
       Some (s\<lparr>rt_pong := q, rt_epc := (if ok then EchoTest else EchoPush)\<rparr>) }
   | EchoReturned \<Rightarrow> Some s)"

definition caller_step :: "round_trip \<Rightarrow> round_trip option" where
  "caller_step s = (case rt_cpc s of
     NextTrip \<Rightarrow> Some (case rt_left s of
         0 \<Rightarrow> s\<lparr>rt_stop := True, rt_cpc := JoinEcho\<rparr>
       | Suc n \<Rightarrow> s\<lparr>rt_left := n, rt_cpc := PushPing\<rparr>)
   | PushPing \<Rightarrow> do {
       (ok, q) \<leftarrow> try_push ping_capacity (rt_v s) (rt_ping s);
       Some (s\<lparr>rt_ping := q, rt_cpc := (if ok then PopPong else PushPing)\<rparr>) }
   | PopPong \<Rightarrow> do {
       (r, q) \<leftarrow> try_pop ping_capacity (rt_pong s);
       Some (case r of None \<Rightarrow> s\<lparr>rt_pong := q\<rparr>
                     | Some x \<Rightarrow> s\<lparr>rt_pong := q, rt_r := x, rt_v := rt_v s + 1, rt_cpc := NextTrip\<rparr>) }
   | JoinEcho \<Rightarrow> Some (if rt_epc s = EchoReturned then s\<lparr>rt_cpc := EchoJoined\<rparr> else s)
   | EchoJoined \<Rightarrow> Some s)"

inductive round_trip_step :: "round_trip \<Rightarrow> round_trip \<Rightarrow> bool" where
  echo: "seen_stop \<longrightarrow> rt_stop s \<Longrightarrow> echo_step seen_stop s = Some s' \<Longrightarrow> round_trip_step s s'"
| caller: "caller_step s = Some s' \<Longrightarrow> round_trip_step s s'"

text \<open>
  While a trip is under way the value is in exactly one of three places: the first ring, the
  variable of the echo thread, the second ring.  Outside a trip it is nowhere, and the last reply is the
  value of the last trip.
\<close>

definition trip_at :: "64 word list \<Rightarrow> 64 word list \<Rightarrow> round_trip \<Rightarrow> bool" where
  "trip_at xs ys s \<longleftrightarrow> queue_rep ping_capacity (rt_ping s) xs \<and> queue_rep ping_capacity (rt_pong s) ys \<and>
     xs @ (if rt_epc s = EchoPush then [rt_echo_v s] else []) @ ys = (if rt_cpc s = PopPong then [rt_v s] else []) \<and>
     (rt_v s \<noteq> 0 \<longrightarrow> rt_r s = rt_v s - 1) \<and> (rt_stop s \<longleftrightarrow> rt_cpc s \<in> {JoinEcho, EchoJoined}) \<and>
     (rt_epc s = EchoReturned \<longrightarrow> rt_stop s) \<and> (rt_cpc s = EchoJoined \<longrightarrow> rt_epc s = EchoReturned)"

definition trip_ok :: "round_trip \<Rightarrow> bool" where
  "trip_ok s \<longleftrightarrow> (\<exists>xs ys. trip_at xs ys s)"

lemma trip_stepI: "f = Some t \<Longrightarrow> trip_at xs ys t \<Longrightarrow> \<exists>s'. f = Some s' \<and> trip_ok s'"
  by (auto simp: trip_ok_def)

lemma start_round_trip_ok: "trip_ok (start_round_trip n)"
  unfolding trip_ok_def using new_queue_rep [OF ping_capacity_ok, of "0 :: 64 word"]
  by (intro exI [of _ "[]"]) (simp add: trip_at_def start_round_trip_def)

lemma ping_push:
  assumes "queue_rep ping_capacity q xs" and "length xs \<le> 1"
  shows "\<exists>q'. try_push ping_capacity x q = Some (True, q') \<and> queue_rep ping_capacity q' (xs @ [x])"
  using ring.push_rep [of ping_capacity q xs x] assms ping_capacity_ok by auto

lemma ping_pop:
  assumes "queue_rep ping_capacity q xs"
  shows "\<exists>q'. try_pop ping_capacity q = Some (case xs of [] \<Rightarrow> None | x # _ \<Rightarrow> Some x, q') \<and> queue_rep ping_capacity q' (tl xs)"
  using ring.pop_rep [of ping_capacity q xs] assms ping_capacity_ok by (cases xs) auto

lemma echo_step_ok:
  assumes ok: "trip_ok s" and stop: "seen_stop \<longrightarrow> rt_stop s"
  shows "\<exists>s'. echo_step seen_stop s = Some s' \<and> trip_ok s'"
proof -
  obtain xs ys where at: "trip_at xs ys s" using ok by (auto simp: trip_ok_def)
  show ?thesis
  proof (cases "rt_epc s")
    case EchoTest
    have "trip_at xs ys (s\<lparr>rt_epc := (if seen_stop then EchoReturned else EchoPop)\<rparr>)"
      using at EchoTest stop by (auto simp: trip_at_def)
    then show ?thesis by (rule trip_stepI [rotated]) (simp add: echo_step_def EchoTest)
  next
    case EchoPop
    obtain q where q: "try_pop ping_capacity (rt_ping s) = Some (case xs of [] \<Rightarrow> None | x # _ \<Rightarrow> Some x, q)" "queue_rep ping_capacity q (tl xs)"
      using ping_pop at by (auto simp: trip_at_def)
    show ?thesis
    proof (cases xs)
      case Nil
      have "trip_at [] ys (s\<lparr>rt_ping := q, rt_epc := EchoTest\<rparr>)" using at EchoPop q(2) Nil by (auto simp: trip_at_def)
      then show ?thesis by (rule trip_stepI [rotated]) (simp add: echo_step_def EchoPop q(1) Nil)
    next
      case (Cons x zs)
      have "trip_at zs ys (s\<lparr>rt_ping := q, rt_echo_v := x, rt_epc := EchoPush\<rparr>)"
        using at EchoPop q(2) Cons by (auto simp: trip_at_def split: if_splits)
      then show ?thesis by (rule trip_stepI [rotated]) (simp add: echo_step_def EchoPop q(1) Cons)
    qed
  next
    case EchoPush
    then have "rt_cpc s = PopPong" using at by (cases "rt_cpc s = PopPong") (auto simp: trip_at_def)
    with at EchoPush have "xs = []" "ys = []" "rt_echo_v s = rt_v s" by (auto simp: trip_at_def append_eq_Cons_conv)
    moreover obtain q where q: "try_push ping_capacity (rt_echo_v s) (rt_pong s) = Some (True, q)" "queue_rep ping_capacity q (ys @ [rt_echo_v s])"
      using ping_push [of "rt_pong s" ys "rt_echo_v s"] at \<open>ys = []\<close> by (auto simp: trip_at_def)
    ultimately have "trip_at [] [rt_echo_v s] (s\<lparr>rt_pong := q, rt_epc := EchoTest\<rparr>)"
      using at EchoPush \<open>rt_cpc s = PopPong\<close> by (auto simp: trip_at_def)
    then show ?thesis by (rule trip_stepI [rotated]) (simp add: echo_step_def EchoPush q(1))
  next
    case EchoReturned
    then show ?thesis using ok by (simp add: echo_step_def)
  qed
qed

lemma caller_step_ok:
  assumes ok: "trip_ok s"
  shows "\<exists>s'. caller_step s = Some s' \<and> trip_ok s'"
proof -
  obtain xs ys where at: "trip_at xs ys s" using ok by (auto simp: trip_ok_def)
  show ?thesis
  proof (cases "rt_cpc s")
    case NextTrip
    have "trip_at xs ys (s\<lparr>rt_stop := True, rt_cpc := JoinEcho\<rparr>)" "trip_at xs ys (s\<lparr>rt_left := n, rt_cpc := PushPing\<rparr>)" for n
      using at NextTrip by (auto simp: trip_at_def)
    then show ?thesis using NextTrip by (cases "rt_left s") (auto simp: caller_step_def trip_ok_def)
  next
    case PushPing
    then have e: "xs = []" "ys = []" "rt_epc s \<noteq> EchoPush" using at by (auto simp: trip_at_def split: if_splits)
    obtain q where q: "try_push ping_capacity (rt_v s) (rt_ping s) = Some (True, q)" "queue_rep ping_capacity q [rt_v s]"
      using ping_push [of "rt_ping s" xs "rt_v s"] at e by (auto simp: trip_at_def)
    have "trip_at [rt_v s] [] (s\<lparr>rt_ping := q, rt_cpc := PopPong\<rparr>)" using at PushPing q(2) e by (auto simp: trip_at_def)
    then show ?thesis by (rule trip_stepI [rotated]) (simp add: caller_step_def PushPing q(1))
  next
    case PopPong
    obtain q where q: "try_pop ping_capacity (rt_pong s) = Some (case ys of [] \<Rightarrow> None | y # _ \<Rightarrow> Some y, q)" "queue_rep ping_capacity q (tl ys)"
      using ping_pop at by (auto simp: trip_at_def)
    show ?thesis
    proof (cases ys)
      case Nil
      have "trip_at xs [] (s\<lparr>rt_pong := q\<rparr>)" using at PopPong q(2) Nil by (auto simp: trip_at_def)
      then show ?thesis by (rule trip_stepI [rotated]) (simp add: caller_step_def PopPong q(1) Nil)
    next
      case (Cons y zs)
      then have e: "xs = []" "y = rt_v s" "zs = []" "rt_epc s \<noteq> EchoPush"
        using at PopPong by (auto simp: trip_at_def append_eq_Cons_conv split: if_splits)
      have "trip_at [] [] (s\<lparr>rt_pong := q, rt_r := y, rt_v := rt_v s + 1, rt_cpc := NextTrip\<rparr>)"
        using at PopPong q(2) Cons e by (auto simp: trip_at_def)
      then show ?thesis by (rule trip_stepI [rotated]) (simp add: caller_step_def PopPong q(1) Cons)
    qed
  next
    case JoinEcho
    have "trip_at xs ys (s\<lparr>rt_cpc := EchoJoined\<rparr>)" if "rt_epc s = EchoReturned" using at JoinEcho that by (auto simp: trip_at_def)
    then show ?thesis using JoinEcho ok by (auto simp: caller_step_def trip_ok_def)
  next
    case EchoJoined
    then show ?thesis using ok by (simp add: caller_step_def)
  qed
qed

interpretation trip_run: invariant_system "\<lambda>s. s = start_round_trip iterations" round_trip_step trip_ok for iterations
proof unfold_locales
  show "trip_ok t" if "trip_ok s" "round_trip_step s t" for s t
    using that(2)
  proof cases
    case (echo seen_stop)
    then show ?thesis using echo_step_ok [OF that(1), of seen_stop] by simp
  next
    case caller
    then show ?thesis using caller_step_ok [OF that(1)] by simp
  qed
qed (simp add: start_round_trip_ok)

text \<open>
  Every push of the round-trip benchmark succeeds at once, so the spin loops around the
  pushes never spin; the reply of a trip is the value sent; and when the echo thread
  is told to stop both rings are empty and it holds no value, so that it loses nothing.
\<close>

lemma round_trip_sound:
  assumes run: "reachable (\<lambda>s. s = start_round_trip iterations) round_trip_step s"
  shows "rt_cpc s = PushPing \<Longrightarrow> \<exists>t. caller_step s = Some t \<and> rt_cpc t = PopPong"
    and "rt_epc s = EchoPush \<Longrightarrow> \<exists>t. echo_step (rt_stop s) s = Some t \<and> rt_epc t = EchoTest"
    and "caller_step s = Some t \<Longrightarrow> rt_cpc s = PopPong \<Longrightarrow> rt_cpc t = NextTrip \<Longrightarrow> rt_r t = rt_v s"
    and "rt_stop s \<Longrightarrow> queue_rep ping_capacity (rt_ping s) [] \<and> queue_rep ping_capacity (rt_pong s) [] \<and> rt_epc s \<noteq> EchoPush"
proof -
  have ok: "trip_ok s" using trip_run.always [OF run] .
  then obtain xs ys where at: "trip_at xs ys s" by (auto simp: trip_ok_def)
  show "\<exists>t. caller_step s = Some t \<and> rt_cpc t = PopPong" if "rt_cpc s = PushPing"
    using ping_push [of "rt_ping s" xs "rt_v s"] at that by (auto simp: trip_at_def caller_step_def)
  show "\<exists>t. echo_step (rt_stop s) s = Some t \<and> rt_epc t = EchoTest" if "rt_epc s = EchoPush"
    using ping_push [of "rt_pong s" ys "rt_echo_v s"] at that
    by (auto simp: trip_at_def echo_step_def append_eq_Cons_conv split: if_splits)
  show "rt_r t = rt_v s" if "caller_step s = Some t" "rt_cpc s = PopPong" "rt_cpc t = NextTrip"
  proof -
    have "trip_ok t" using caller_step_ok [OF ok] that(1) by simp
    have "rt_v t = rt_v s + 1" "rt_r t \<in> set ys" 
      using that ping_pop [of "rt_pong s" ys] at by (auto simp: trip_at_def caller_step_def split: list.splits)
    then show ?thesis using at that(2) by (auto simp: trip_at_def append_eq_Cons_conv split: if_splits)
  qed
  show "queue_rep ping_capacity (rt_ping s) [] \<and> queue_rep ping_capacity (rt_pong s) [] \<and> rt_epc s \<noteq> EchoPush" if "rt_stop s"
    using at that by (auto simp: trip_at_def split: if_splits)
qed

end
