(* ===== verification/Book_Bench.thy ===== *)
theory Book_Bench
  imports Engine_Contract "HOL-Library.Multiset"
begin

text \<open>
  The workloads of \<^verbatim>\<open>bench/order_book_bench.cpp\<close> that drive the book without a matcher, and the
  allocation loops of \<^verbatim>\<open>bench/memory_pool_bench.cpp\<close>.  The book is correct only for orders
  that do not cross and whose identifiers are new; the benchmarks rely on disjoint price bands and on running
  identifiers for that.  The theory shows that they are right to: every timed call to
  \<open>add_order\<close> or \<open>cancel_order\<close> does its work and returns true, for any number of iterations.

  The truncated samples of the normal distribution (\<open>off\<close>, by identifier) and the shuffle are
  arguments.  An arena of \<open>n\<close> orders occupies the addresses below \<open>n\<close>; the program's
  \<open>n\<close> is \<open>kBatch\<close>.
\<close>

section \<open>Batches of orders\<close>

definition kBatch :: nat where "kBatch = 65536"
definition kMid :: Price where "kMid = 10000"
definition kBidMean :: Price where "kBidMean = 9950"
definition kAskMean :: Price where "kAskMean = 10050"

definition clamp :: "Price \<Rightarrow> Price \<Rightarrow> Price \<Rightarrow> Price" where
  "clamp v lo hi = (if v < lo then lo else if hi < v then hi else v)"

definition bench_order :: "(OrderId \<Rightarrow> int) \<Rightarrow> OrderId \<Rightarrow> order" where
  "bench_order off i = (let is_bid = (and i 1 = 0); mean = (if is_bid then kBidMean else kAskMean); p = mean + off i in
     default_order\<lparr>o_id := i, o_side := (if is_bid then Bid else Ask), o_type := Limit, o_quantity := 100,
       o_price := (if is_bid then clamp p 1 (kMid - 1) else clamp p (kMid + 1) (2 * kMid))\<rparr>)"

fun regenerate :: "(OrderId \<Rightarrow> int) \<Rightarrow> addr list \<Rightarrow> heap \<times> OrderId \<Rightarrow> heap \<times> OrderId" where
  "regenerate off [] s = s"
| "regenerate off (a # arena) (h, next_id) = regenerate off arena (h(a := Object (bench_order off next_id)), next_id + 1)"

text \<open>The orders of a batch are on the grid, and a bid never reaches an ask.\<close>

lemma bench_order_simps [simp]:
  "o_id (bench_order off i) = i" "o_side (bench_order off i) = (if and i 1 = 0 then Bid else Ask)"
  by (simp_all add: bench_order_def Let_def)

lemma bench_order_band:
  "o_side (bench_order off i) = Bid \<Longrightarrow> 1 \<le> o_price (bench_order off i) \<and> o_price (bench_order off i) < kMid"
  "o_side (bench_order off i) = Ask \<Longrightarrow> kMid < o_price (bench_order off i) \<and> o_price (bench_order off i) \<le> 2 * kMid"
  by (auto simp: bench_order_def Let_def clamp_def kMid_def split: if_splits)

text \<open>An order in the heap that agrees with an order of the batch in all but its links.\<close>

definition is_order :: "heap \<Rightarrow> addr \<Rightarrow> order \<Rightarrow> bool" where
  "is_order h a x \<longleftrightarrow> live h a \<and> payload (obj h a) = payload x"

lemma is_order_frame: "same_payloads h h' \<Longrightarrow> is_order h a x \<Longrightarrow> is_order h' a x"
  by (auto simp: is_order_def same_payloads_def)

lemma regenerate_frame: "a \<notin> set arena \<Longrightarrow> fst (regenerate off arena (h, i)) a = h a"
  by (induction arena arbitrary: h i) (simp_all add: fun_upd_apply)

lemma regenerate_at:
  assumes "distinct arena" and "k < length arena"
  shows "fst (regenerate off arena (h, i)) (arena ! k) = Object (bench_order off (i + of_nat k))"
  using assms
proof (induction arena arbitrary: h i k)
  case (Cons a arena)
  then show ?case by (cases k) (auto simp: regenerate_frame add.assoc)
qed simp

lemma regenerate_next: "snd (regenerate off arena (h, i)) = i + of_nat (length arena)"
  by (induction arena arbitrary: h i) (simp_all add: add.assoc)

section \<open>A book over a batch\<close>

text \<open>
  The arena holds the orders with the identifiers from \<open>base\<close> on, and those at the
  addresses \<open>R\<close> rest in the book.
\<close>

definition batch_rep :: "(OrderId \<Rightarrow> int) \<Rightarrow> OrderId \<Rightarrow> nat \<Rightarrow> heap \<Rightarrow> order_book \<Rightarrow> addr set \<Rightarrow> bool" where
  "batch_rep off base n h b R \<longleftrightarrow> (\<exists>Q. book_rep h b Q \<and> resting Q = R) \<and> R \<subseteq> {..<n} \<and>
     (\<forall>a<n. is_order h a (bench_order off (base + of_nat a)))"

definition idle_book :: "nat \<Rightarrow> heap \<Rightarrow> order_book \<Rightarrow> bool" where
  "idle_book n h b \<longleftrightarrow> (\<exists>Q. book_rep h b Q \<and> resting Q = {}) \<and> (\<forall>a<n. live h a)"

lemma batch_id_inject:
  assumes "a < n" "c < n" "n < 2 ^ 32"
  shows "base + of_nat a = base + (of_nat c :: OrderId) \<longleftrightarrow> a = c"
proof -
  have "unat (of_nat a :: OrderId) = a" "unat (of_nat c :: OrderId) = c"
    by (rule unat_of_nat_small; use assms in simp)+
  then show ?thesis by (metis add_left_cancel)
qed

lemma batch_order:
  assumes "batch_rep off base n h b R" "a < n"
  shows "live h a" "o_id (obj h a) = base + of_nat a"
    "o_side (obj h a) = o_side (bench_order off (base + of_nat a))" "o_price (obj h a) = o_price (bench_order off (base + of_nat a))"
  using assms payload_eqD(1,2,4) [of "obj h a" "bench_order off (base + of_nat a)"]
  by (auto simp: batch_rep_def is_order_def simp del: bench_order_simps(2))

lemma batch_idle: "batch_rep off base n h b {} \<Longrightarrow> idle_book n h b"
  by (auto simp: batch_rep_def idle_book_def is_order_def)

lemma batch_band:
  assumes "batch_rep off base n h b R" "a < n"
  shows "o_side (obj h a) = Bid \<Longrightarrow> o_price (obj h a) < kMid" "o_side (obj h a) = Ask \<Longrightarrow> kMid < o_price (obj h a)"
    "0 \<le> o_price (obj h a)" "o_price (obj h a) < MAX_PRICE_TICKS"
  using batch_order(3,4) [OF assms] bench_order_band [of off "base + of_nat a"]
  by (cases "o_side (obj h a)"; simp add: kMid_def MAX_PRICE_TICKS_def)+

lemma book_rep_no_orders:
  assumes "book_rep h b Q" "resting Q = {}"
  shows "book_rep h' b Q"
proof -
  have Q: "Q = (\<lambda>_. [])" using assms(2) by (auto simp: resting_def)
  show ?thesis using assms(1) unfolding Q
    by (simp add: book_rep_def book_links_def uncrossed_def best_prices_def resting_def side_set_def prices_def level_rep_def open_sum_def)
qed

lemma regenerate_batch:
  assumes "idle_book n h b"
  shows "batch_rep off base n (fst (regenerate off [0..<n] (h, base))) b {}"
proof -
  have "is_order (fst (regenerate off [0..<n] (h, base))) a (bench_order off (base + of_nat a))" if "a < n" for a
    using regenerate_at [of "[0..<n]" a off h base] that by (simp add: is_order_def live_def obj_def)
  then show ?thesis using assms book_rep_no_orders unfolding batch_rep_def idle_book_def by blast
qed

lemma batch_add:
  assumes rep: "batch_rep off base n h b R" and a: "a < n" "a \<notin> R" and n: "n < 2 ^ 32"
  shows "\<exists>h' b'. add_order h b a = Some (True, h', b') \<and> batch_rep off base n h' b' (insert a R)"
proof -
  obtain Q where Q: "book_rep h b Q" "resting Q = R" and R: "R \<subseteq> {..<n}" using rep by (auto simp: batch_rep_def)
  then have bl: "book_links h b Q" by (simp add: book_rep_def)
  have "o_id (obj h c) \<noteq> o_id (obj h a)" if "c \<in> R" for c
    using that R a n batch_order(2) [OF rep] batch_id_inject [of c n a base] by (metis lessThan_iff subsetD)
  then have new: "get_order b (o_id (obj h a)) = None" using get_order_None_rep [OF bl] Q(2) by simp
  have less: "o_price (obj h c) < o_price (obj h d)" if "o_side (obj h c) = Bid" "o_side (obj h d) = Ask" "c \<in> insert a R" "d \<in> insert a R" for c d
  proof -
    have "c < n" "d < n" using that(3,4) a(1) R by auto
    then show ?thesis using batch_band(1) [OF rep, of c] batch_band(2) [OF rep, of d] that(1,2) by simp
  qed
  have "not_crossing h Q (obj h a)"
    using less by (cases "o_side (obj h a)") (auto simp: not_crossing_def prices_def side_set_def Q(2))
  moreover have "card R < n" using R a by (metis card_lessThan finite_lessThan lessThan_iff psubset_card_mono psubsetI)
  ultimately obtain h' b' where r: "add_order h b a = Some (True, h', b')"
      "book_rep h' b' (Q(o_price (obj h a) := Q (o_price (obj h a)) @ [a]))" "touches_only (insert a (set (Q (o_price (obj h a))))) h h'"
    using add_order_rep [OF Q(1) batch_order(1) [OF rep a(1)] _ refl batch_band(3,4) [OF rep a(1)] new] a(2) Q(2) n by auto
  have "is_order h' c (bench_order off (base + of_nat c))" if "c < n" for c
    using rep that is_order_frame [OF touches_onlyD(1) [OF r(3)]] by (simp add: batch_rep_def)
  then have "batch_rep off base n h' b' (insert a R)"
    using r(2) R a(1) Q(2) resting_snoc [of Q "o_price (obj h a)" a] unfolding batch_rep_def by auto
  then show ?thesis using r(1) by blast
qed

lemma batch_cancel:
  assumes rep: "batch_rep off base n h b R" and a: "a \<in> R"
  shows "\<exists>h' b'. cancel_order h b (base + of_nat a) = Some (True, h', b') \<and> batch_rep off base n h' b' (R - {a})"
proof -
  obtain Q where Q: "book_rep h b Q" "resting Q = R" and R: "R \<subseteq> {..<n}" using rep by (auto simp: batch_rep_def)
  then have bl: "book_links h b Q" by (simp add: book_rep_def)
  have "get_order b (base + of_nat a) = Some a"
    using get_order_rep [OF bl] batch_order(2) [OF rep, of a] a R Q(2) by auto
  then obtain h' b' where r: "cancel_order h b (base + of_nat a) = Some (True, h', b')"
      "book_rep h' b' (Q(o_price (obj h a) := remove1 a (Q (o_price (obj h a)))))" "touches_only (set (Q (o_price (obj h a)))) h h'"
    using cancel_order_rep [OF Q(1)] by blast
  have "is_order h' c (bench_order off (base + of_nat c))" if "c < n" for c
    using rep that is_order_frame [OF touches_onlyD(1) [OF r(3)]] by (simp add: batch_rep_def)
  then have "batch_rep off base n h' b' (R - {a})"
    using r(2) R a Q(2) resting_remove1 [OF bl, of a] unfolding batch_rep_def by auto
  then show ?thesis using r(1) by blast
qed

section \<open>The benchmark loop\<close>

text \<open>
  The library runs the body of a benchmark a number of times of its own choosing.  A body returns
  the result of the operation under test.
\<close>

fun bench_loop :: "('s \<Rightarrow> ('r \<times> 's) option) \<Rightarrow> nat \<Rightarrow> 's \<Rightarrow> ('r list \<times> 's) option" where
  "bench_loop body 0 s = Some ([], s)"
| "bench_loop body (Suc k) s = do { (r, s1) \<leftarrow> body s; (rs, s2) \<leftarrow> bench_loop body k s1; Some (r # rs, s2) }"

locale benchmark_body =
  fixes body :: "'s \<Rightarrow> ('r \<times> 's) option" and result :: 'r and inv :: "'s \<Rightarrow> bool"
  assumes body_ok: "inv s \<Longrightarrow> \<exists>s'. body s = Some (result, s') \<and> inv s'"
begin

lemma loop_ok: "inv s \<Longrightarrow> \<exists>s'. bench_loop body k s = Some (replicate k result, s') \<and> inv s'"
proof (induction k arbitrary: s)
  case (Suc k)
  then obtain s1 where "body s = Some (result, s1)" "inv s1" using body_ok by blast
  then show ?case using Suc.IH [of s1] by auto
qed simp

end

section \<open>BM\_AddOrder\<close>

record book_bench =
  bb_heap :: heap
  bb_book :: order_book
  bb_next_id :: OrderId
  bb_i :: nat

definition new_arena :: "nat \<Rightarrow> heap" where
  "new_arena n = (\<lambda>a. if a < n then Object default_order else Raw)"

definition start_book_bench :: "nat \<Rightarrow> book_bench" where
  "start_book_bench n = \<lparr>bb_heap = new_arena n, bb_book = new_book, bb_next_id = 1, bb_i = n\<rparr>"

fun drain_book :: "addr list \<Rightarrow> heap \<times> order_book \<Rightarrow> (heap \<times> order_book) option" where
  "drain_book [] s = Some s"
| "drain_book (a # arena) (h, b) = do {
     x \<leftarrow> deref h a;
     (_, h1, b1) \<leftarrow> cancel_order h b (o_id x);
     drain_book arena (h1, b1) }"

definition refill :: "nat \<Rightarrow> (OrderId \<Rightarrow> int) \<Rightarrow> book_bench \<Rightarrow> book_bench option" where
  "refill n off s = do {
     (h, b) \<leftarrow> drain_book [0..<n] (bb_heap s, bb_book s);
     let (h1, next_id) = regenerate off [0..<n] (h, bb_next_id s);
     Some (s\<lparr>bb_heap := h1, bb_book := b, bb_next_id := next_id, bb_i := 0\<rparr>) }"

definition BM_AddOrder :: "nat \<Rightarrow> (OrderId \<Rightarrow> int) \<Rightarrow> book_bench \<Rightarrow> (bool \<times> book_bench) option" where
  "BM_AddOrder n off s = do {
     s1 \<leftarrow> (if bb_i s = n then refill n off s else Some s);
     (r, h, b) \<leftarrow> add_order (bb_heap s1) (bb_book s1) (bb_i s1);
     Some (r, s1\<lparr>bb_heap := h, bb_book := b, bb_i := bb_i s1 + 1\<rparr>) }"

definition add_bench_ok :: "nat \<Rightarrow> (OrderId \<Rightarrow> int) \<Rightarrow> book_bench \<Rightarrow> bool" where
  "add_bench_ok n off s \<longleftrightarrow> 0 < n \<and> n < 2 ^ 32 \<and> bb_i s \<le> n \<and>
     (bb_i s = n \<and> idle_book n (bb_heap s) (bb_book s) \<or> (\<exists>base. batch_rep off base n (bb_heap s) (bb_book s) {..<bb_i s}))"

lemma start_idle: "idle_book n (new_arena n) new_book"
  unfolding idle_book_def using new_book_rep [of "new_arena n"]
  by (auto simp: resting_def new_arena_def live_def intro!: exI [of _ "\<lambda>_. []"])

lemma drain_batch:
  assumes "batch_rep off base n h b R" and "set arena \<subseteq> {..<n}" and "n < 2 ^ 32"
  shows "\<exists>h' b'. drain_book arena (h, b) = Some (h', b') \<and> batch_rep off base n h' b' (R - set arena)"
  using assms(1,2)
proof (induction arena arbitrary: h b R)
  case (Cons a arena)
  have a: "a < n" using Cons.prems(2) by simp
  have id: "deref h a = Some (obj h a)" "o_id (obj h a) = base + of_nat a"
    using batch_order(1,2) [OF Cons.prems(1) a] by (auto simp: deref_live)
  have "\<exists>r h1 b1. cancel_order h b (base + of_nat a) = Some (r, h1, b1) \<and> batch_rep off base n h1 b1 (R - {a})"
  proof (cases "a \<in> R")
    case True
    then show ?thesis using batch_cancel [OF Cons.prems(1)] by blast
  next
    case False
    obtain Q where Q: "book_rep h b Q" "resting Q = R" "R \<subseteq> {..<n}" using Cons.prems(1) by (auto simp: batch_rep_def)
    have "o_id (obj h c) \<noteq> base + of_nat a" if "c \<in> R" for c
    proof -
      have "c < n" "c \<noteq> a" using that False Q(3) by auto
      then show ?thesis using batch_order(2) [OF Cons.prems(1), of c] batch_id_inject [of c n a base] a assms(3) by simp
    qed
    then have "get_order b (base + of_nat a) = None"
      using get_order_None_rep [of h b Q] Q by (simp add: book_rep_def)
    then show ?thesis using cancel_order_missing [of b] False Cons.prems(1) by auto
  qed
  then obtain r h1 b1 where c: "cancel_order h b (base + of_nat a) = Some (r, h1, b1)" "batch_rep off base n h1 b1 (R - {a})" by blast
  have "R - {a} - set arena = R - set (a # arena)" by auto
  then show ?case using Cons.IH [OF c(2)] Cons.prems(2) c(1) id by simp
qed simp

lemma drain_idle:
  assumes "idle_book n h b" and "set arena \<subseteq> {..<n}"
  shows "drain_book arena (h, b) = Some (h, b)"
  using assms(2)
proof (induction arena)
  case (Cons a arena)
  obtain Q where Q: "book_rep h b Q" "resting Q = {}" using assms(1) by (auto simp: idle_book_def)
  have "get_order b i = None" for i using get_order_None_rep [of h b Q i] Q by (simp add: book_rep_def)
  then have "cancel_order h b i = Some (False, h, b)" for i by (rule cancel_order_missing)
  then show ?case using Cons assms(1) by (auto simp: idle_book_def deref_live)
qed simp

lemma refill_ok:
  assumes "add_bench_ok n off s" and "bb_i s = n"
  shows "\<exists>s'. refill n off s = Some s' \<and> bb_i s' = 0 \<and> (\<exists>base. batch_rep off base n (bb_heap s') (bb_book s') {})"
proof -
  have n: "n < 2 ^ 32" using assms(1) by (simp add: add_bench_ok_def)
  have "\<exists>h b. drain_book [0..<n] (bb_heap s, bb_book s) = Some (h, b) \<and> idle_book n h b"
  proof (cases "idle_book n (bb_heap s) (bb_book s)")
    case True
    then show ?thesis using drain_idle [OF True, of "[0..<n]"] by (simp add: lessThan_atLeast0)
  next
    case False
    then obtain base where "batch_rep off base n (bb_heap s) (bb_book s) {..<n}" using assms by (auto simp: add_bench_ok_def)
    from drain_batch [OF this, of "[0..<n]"] show ?thesis using n by (auto simp: lessThan_atLeast0 intro: batch_idle)
  qed
  then obtain h b where d: "drain_book [0..<n] (bb_heap s, bb_book s) = Some (h, b)" "idle_book n h b" by blast
  obtain h1 i1 where g: "regenerate off [0..<n] (h, bb_next_id s) = (h1, i1)" by fastforce
  from regenerate_batch [OF d(2), of off "bb_next_id s"] have "batch_rep off (bb_next_id s) n h1 b {}" by (simp add: g)
  then show ?thesis using d(1) g by (auto simp: refill_def)
qed

lemma add_body_ok:
  assumes ok: "add_bench_ok n off s"
  shows "\<exists>s'. BM_AddOrder n off s = Some (True, s') \<and> add_bench_ok n off s'"
proof -
  have "\<exists>s1 base. (if bb_i s = n then refill n off s else Some s) = Some s1 \<and> bb_i s1 < n \<and>
      batch_rep off base n (bb_heap s1) (bb_book s1) {..<bb_i s1}"
    using refill_ok [OF ok] ok by (cases "bb_i s = n") (auto simp: add_bench_ok_def)
  then obtain s1 base where s1: "(if bb_i s = n then refill n off s else Some s) = Some s1" "bb_i s1 < n"
      "batch_rep off base n (bb_heap s1) (bb_book s1) {..<bb_i s1}" by blast
  obtain h b where r: "add_order (bb_heap s1) (bb_book s1) (bb_i s1) = Some (True, h, b)" "batch_rep off base n h b (insert (bb_i s1) {..<bb_i s1})"
    using batch_add [OF s1(3,2)] ok by (auto simp: add_bench_ok_def)
  then show ?thesis using s1(1,2) ok by (auto simp: BM_AddOrder_def add_bench_ok_def lessThan_Suc)
qed

interpretation add_bench: benchmark_body "BM_AddOrder n off" True "add_bench_ok n off" for n off
  by unfold_locales (rule add_body_ok)

text \<open>Every timed call of the benchmark rests an order.\<close>

lemma add_bench_all_rest:
  "\<exists>s. bench_loop (BM_AddOrder kBatch off) k (start_book_bench kBatch) = Some (replicate k True, s)"
proof -
  have "add_bench_ok kBatch off (start_book_bench kBatch)"
    using start_idle by (simp add: add_bench_ok_def start_book_bench_def kBatch_def)
  from add_bench.loop_ok [OF this] show ?thesis by blast
qed

section \<open>BM\_CancelOrder\<close>

record cancel_bench =
  cb_heap :: heap
  cb_book :: order_book
  cb_ids :: "OrderId list"
  cb_next_id :: OrderId
  cb_i :: nat

definition start_cancel_bench :: "nat \<Rightarrow> cancel_bench" where
  "start_cancel_bench n = \<lparr>cb_heap = new_arena n, cb_book = new_book, cb_ids = replicate n 0, cb_next_id = 1, cb_i = n\<rparr>"

fun rest_batch :: "addr list \<Rightarrow> heap \<times> order_book \<Rightarrow> (OrderId list \<times> heap \<times> order_book) option" where
  "rest_batch [] s = Some ([], s)"
| "rest_batch (a # arena) (h, b) = do {
     (_, h1, b1) \<leftarrow> add_order h b a;
     x \<leftarrow> deref h1 a;
     (ids, s2) \<leftarrow> rest_batch arena (h1, b1);
     Some (o_id x # ids, s2) }"

definition cancel_refill :: "nat \<Rightarrow> (OrderId \<Rightarrow> int) \<Rightarrow> (OrderId list \<Rightarrow> OrderId list) \<Rightarrow> cancel_bench \<Rightarrow> cancel_bench option" where
  "cancel_refill n off shuffle s = (let (h, next_id) = regenerate off [0..<n] (cb_heap s, cb_next_id s) in do {
     (ids, h1, b1) \<leftarrow> rest_batch [0..<n] (h, cb_book s);
     Some (s\<lparr>cb_heap := h1, cb_book := b1, cb_ids := shuffle ids, cb_next_id := next_id, cb_i := 0\<rparr>) })"

definition BM_CancelOrder :: "nat \<Rightarrow> (OrderId \<Rightarrow> int) \<Rightarrow> (OrderId list \<Rightarrow> OrderId list) \<Rightarrow> cancel_bench \<Rightarrow> (bool \<times> cancel_bench) option" where
  "BM_CancelOrder n off shuffle s = do {
     s1 \<leftarrow> (if cb_i s = n then cancel_refill n off shuffle s else Some s);
     i \<leftarrow> (if cb_i s1 < length (cb_ids s1) then Some (cb_ids s1 ! cb_i s1) else None);
     (r, h, b) \<leftarrow> cancel_order (cb_heap s1) (cb_book s1) i;
     Some (r, s1\<lparr>cb_heap := h, cb_book := b, cb_i := cb_i s1 + 1\<rparr>) }"

definition is_shuffle :: "(OrderId list \<Rightarrow> OrderId list) \<Rightarrow> bool" where
  "is_shuffle f \<longleftrightarrow> (\<forall>ids. mset (f ids) = mset ids)"

text \<open>The orders that rest are those whose identifiers are still to come.\<close>

definition cancels_left :: "nat \<Rightarrow> (OrderId \<Rightarrow> int) \<Rightarrow> cancel_bench \<Rightarrow> bool" where
  "cancels_left n off s \<longleftrightarrow> cb_i s < n \<and> length (cb_ids s) = n \<and> distinct (cb_ids s) \<and>
     (\<exists>base R. batch_rep off base n (cb_heap s) (cb_book s) R \<and> set (drop (cb_i s) (cb_ids s)) = (\<lambda>a. base + of_nat a) ` R)"

definition cancel_bench_ok :: "nat \<Rightarrow> (OrderId \<Rightarrow> int) \<Rightarrow> cancel_bench \<Rightarrow> bool" where
  "cancel_bench_ok n off s \<longleftrightarrow> 0 < n \<and> n < 2 ^ 32 \<and>
     (cb_i s = n \<and> idle_book n (cb_heap s) (cb_book s) \<or> cancels_left n off s)"

lemma rest_batch_ok:
  assumes "batch_rep off base n h b R" and "set arena \<subseteq> {..<n} - R" and "distinct arena" and "n < 2 ^ 32"
  shows "\<exists>h' b'. rest_batch arena (h, b) = Some (map (\<lambda>a. base + of_nat a) arena, h', b') \<and> batch_rep off base n h' b' (R \<union> set arena)"
  using assms(1-3)
proof (induction arena arbitrary: h b R)
  case (Cons a arena)
  have a: "a < n" "a \<notin> R" using Cons.prems(2) by auto
  obtain h1 b1 where r: "add_order h b a = Some (True, h1, b1)" "batch_rep off base n h1 b1 (insert a R)"
    using batch_add [OF Cons.prems(1) a assms(4)] by blast
  have "deref h1 a = Some (obj h1 a)" "o_id (obj h1 a) = base + of_nat a"
    using batch_order(1,2) [OF r(2) a(1)] by (auto simp: deref_live)
  moreover obtain h2 b2 where "rest_batch arena (h1, b1) = Some (map (\<lambda>a. base + of_nat a) arena, h2, b2)"
      "batch_rep off base n h2 b2 (insert a R \<union> set arena)"
    using Cons.IH [OF r(2)] Cons.prems(2,3) by auto
  ultimately show ?case using r(1) by simp
qed simp

lemma cancel_refill_ok:
  assumes "idle_book n (cb_heap s) (cb_book s)" and n: "0 < n" "n < 2 ^ 32" and "is_shuffle shuffle"
  shows "\<exists>s'. cancel_refill n off shuffle s = Some s' \<and> cancels_left n off s'"
proof -
  let ?id = "\<lambda>a. cb_next_id s + of_nat a"
  obtain h i where g: "regenerate off [0..<n] (cb_heap s, cb_next_id s) = (h, i)" by fastforce
  have "batch_rep off (cb_next_id s) n h (cb_book s) {}" using regenerate_batch [OF assms(1), of off "cb_next_id s"] g by simp
  from rest_batch_ok [OF this, of "[0..<n]"] obtain h1 b1 where
    r: "rest_batch [0..<n] (h, cb_book s) = Some (map ?id [0..<n], h1, b1)" "batch_rep off (cb_next_id s) n h1 b1 {0..<n}"
    using n(2) by (auto simp: lessThan_atLeast0)
  have m: "mset (shuffle (map ?id [0..<n])) = mset (map ?id [0..<n])" using assms(4) by (simp add: is_shuffle_def)
  have "inj_on ?id {0..<n}" using batch_id_inject [OF _ _ n(2)] by (intro inj_onI) auto
  then have "distinct (map ?id [0..<n])" by (simp add: distinct_map)
  then have "distinct (shuffle (map ?id [0..<n]))" using m by (metis mset_eq_imp_distinct_iff)
  moreover have "length (shuffle (map ?id [0..<n])) = n" "set (shuffle (map ?id [0..<n])) = ?id ` {0..<n}"
    using mset_eq_length [OF m] mset_eq_setD [OF m] by simp_all
  ultimately show ?thesis using r n(1) unfolding cancels_left_def by (auto simp: cancel_refill_def g)
qed

lemma cancel_next_ok:
  assumes "cancels_left n off s" and n: "n < 2 ^ 32"
  shows "\<exists>h b. cancel_order (cb_heap s) (cb_book s) (cb_ids s ! cb_i s) = Some (True, h, b) \<and>
    (let s' = s\<lparr>cb_heap := h, cb_book := b, cb_i := cb_i s + 1\<rparr> in
       if cb_i s' = n then idle_book n h b else cancels_left n off s')"
proof -
  obtain base R where rep: "batch_rep off base n (cb_heap s) (cb_book s) R"
      and left: "set (drop (cb_i s) (cb_ids s)) = (\<lambda>a. base + of_nat a) ` R"
      and i: "cb_i s < n" "length (cb_ids s) = n" "distinct (cb_ids s)"
    using assms(1) by (auto simp: cancels_left_def)
  let ?id = "\<lambda>a. base + of_nat a" and ?next = "cb_ids s ! cb_i s"
  have split: "drop (cb_i s) (cb_ids s) = ?next # drop (Suc (cb_i s)) (cb_ids s)" using i by (simp add: Cons_nth_drop_Suc)
  have "?next \<in> ?id ` R" using left split by (metis list.set_intros(1))
  then obtain a where a: "a \<in> R" "?next = ?id a" by auto
  obtain h b where c: "cancel_order (cb_heap s) (cb_book s) ?next = Some (True, h, b)" "batch_rep off base n h b (R - {a})"
    using batch_cancel [OF rep a(1)] a(2) by auto
  have R: "R \<subseteq> {..<n}" using rep by (simp add: batch_rep_def)
  have inj: "inj_on ?id R" using R batch_id_inject [OF _ _ n] by (intro inj_onI) auto
  have "distinct (drop (cb_i s) (cb_ids s))" using i(3) by (rule distinct_drop)
  then have "?next \<notin> set (drop (Suc (cb_i s)) (cb_ids s))" using split by simp
  then have "set (drop (Suc (cb_i s)) (cb_ids s)) = ?id ` R - {?next}" using left split by (metis Diff_insert_absorb list.simps(15))
  also have "\<dots> = ?id ` (R - {a})" using inj_on_image_set_diff [OF inj, of R "{a}"] a by simp
  finally have rest: "set (drop (Suc (cb_i s)) (cb_ids s)) = ?id ` (R - {a})" .
  show ?thesis
  proof (cases "Suc (cb_i s) = n")
    case True
    then have "R - {a} = {}" using rest i(2) by simp
    then show ?thesis using c True batch_idle by (metis Let_def Suc_eq_plus1 cancel_bench.select_convs(5) cancel_bench.surjective cancel_bench.update_convs(5))
  next
    case False
    then show ?thesis using c i rest by (auto simp: Let_def cancels_left_def)
  qed
qed

lemma cancel_body_ok:
  assumes ok: "cancel_bench_ok n off s" and sh: "is_shuffle shuffle"
  shows "\<exists>s'. BM_CancelOrder n off shuffle s = Some (True, s') \<and> cancel_bench_ok n off s'"
proof -
  have n: "0 < n" "n < 2 ^ 32" using ok by (auto simp: cancel_bench_ok_def)
  have "\<exists>s1. (if cb_i s = n then cancel_refill n off shuffle s else Some s) = Some s1 \<and> cancels_left n off s1"
  proof (cases "cb_i s = n")
    case True
    then show ?thesis using cancel_refill_ok [OF _ n sh] ok by (auto simp: cancel_bench_ok_def cancels_left_def)
  qed (use ok in \<open>auto simp: cancel_bench_ok_def\<close>)
  then obtain s1 where s1: "(if cb_i s = n then cancel_refill n off shuffle s else Some s) = Some s1" "cancels_left n off s1" by blast
  then have "cb_i s1 < length (cb_ids s1)" by (auto simp: cancels_left_def)
  moreover obtain h b where "cancel_order (cb_heap s1) (cb_book s1) (cb_ids s1 ! cb_i s1) = Some (True, h, b)"
    "let s' = s1\<lparr>cb_heap := h, cb_book := b, cb_i := cb_i s1 + 1\<rparr> in if cb_i s' = n then idle_book n h b else cancels_left n off s'"
    using cancel_next_ok [OF s1(2) n(2)] by blast
  ultimately show ?thesis using s1(1) n by (auto simp: BM_CancelOrder_def cancel_bench_ok_def Let_def split: if_splits)
qed

interpretation cancel_bench: benchmark_body "BM_CancelOrder n off shuffle" True "\<lambda>s. is_shuffle shuffle \<and> cancel_bench_ok n off s" for n off shuffle
  by unfold_locales (use cancel_body_ok in blast)

text \<open>Every timed call of the benchmark cancels a resting order, in whatever order the shuffle puts them.\<close>

lemma cancel_bench_all_cancel:
  assumes "is_shuffle shuffle"
  shows "\<exists>s. bench_loop (BM_CancelOrder kBatch off shuffle) k (start_cancel_bench kBatch) = Some (replicate k True, s)"
proof -
  have "is_shuffle shuffle \<and> cancel_bench_ok kBatch off (start_cancel_bench kBatch)"
    using assms start_idle by (simp add: cancel_bench_ok_def start_cancel_bench_def kBatch_def)
  from cancel_bench.loop_ok [OF this] show ?thesis by blast
qed

section \<open>BM\_AddCancel\_PoolVsMalloc\<close>

text \<open>
  Pool and operator \<^verbatim>\<open>new\<close> share one store: the slots of the pool are the addresses below
  1024, and \<open>fresh\<close>, the general-purpose allocator, returns memory outside of it.
\<close>

definition kBenchPool :: nat where "kBenchPool = 1024"

record pool_vs_malloc =
  pm_pool :: "order pool"
  pm_book :: order_book
  pm_next_id :: OrderId

definition start_pool_vs_malloc :: pool_vs_malloc where
  "start_pool_vs_malloc = \<lparr>pm_pool = new_pool kBenchPool, pm_book = new_book, pm_next_id = 1\<rparr>"

definition BM_AddCancel_PoolVsMalloc :: "bool \<Rightarrow> (heap \<Rightarrow> addr) \<Rightarrow> pool_vs_malloc \<Rightarrow> (bool \<times> pool_vs_malloc) option" where
  "BM_AddCancel_PoolVsMalloc use_pool fresh s = do {
     (a, p) \<leftarrow> (if use_pool then do { (r, p) \<leftarrow> allocate (pm_pool s); a \<leftarrow> r; Some (a, p) }
               else Some (fresh (mp_storage (pm_pool s)), pm_pool s));
     h \<leftarrow> update_at (mp_storage (construct default_order a p)) a
       (\<lambda>x. x\<lparr>o_id := pm_next_id s, o_side := Bid, o_type := Limit, o_price := kBidMean, o_quantity := 100\<rparr>);
     (added, h1, b1) \<leftarrow> add_order h (pm_book s) a;
     x \<leftarrow> deref h1 a;
     (cancelled, h2, b2) \<leftarrow> cancel_order h1 b1 (o_id x);
     let p2 = destroy a (p\<lparr>mp_storage := h2\<rparr>);
     Some (added \<and> cancelled,
       s\<lparr>pm_pool := (if use_pool then deallocate a p2 else p2), pm_book := b2, pm_next_id := pm_next_id s + 1\<rparr>) }"

definition is_allocator :: "(heap \<Rightarrow> addr) \<Rightarrow> bool" where
  "is_allocator fresh \<longleftrightarrow> (\<forall>h. kBenchPool \<le> fresh h)"

definition pool_vs_malloc_ok :: "pool_vs_malloc \<Rightarrow> bool" where
  "pool_vs_malloc_ok s \<longleftrightarrow> pool_rep kBenchPool (pm_pool s) [0..<kBenchPool] \<and>
     (\<exists>Q. book_rep (mp_storage (pm_pool s)) (pm_book s) Q \<and> resting Q = {})"

text \<open>One order into an empty book and out again: the book is empty and other memory is as before.\<close>

lemma add_cancel_alone:
  assumes Q: "book_rep h b Q" "resting Q = {}" and a: "live h a" "o_id (obj h a) = i"
    and p: "0 \<le> o_price (obj h a)" "o_price (obj h a) < MAX_PRICE_TICKS"
  shows "\<exists>h1 b1 h2 b2. add_order h b a = Some (True, h1, b1) \<and> live h1 a \<and> o_id (obj h1 a) = i \<and>
    cancel_order h1 b1 i = Some (True, h2, b2) \<and> same_payloads h h2 \<and> (\<exists>Q'. book_rep h2 b2 Q' \<and> resting Q' = {})"
proof -
  let ?p = "o_price (obj h a)"
  have bl: "book_links h b Q" using Q(1) by (simp add: book_rep_def)
  have "get_order b (o_id (obj h a)) = None" using get_order_None_rep [OF bl] Q(2) by simp
  moreover have "not_crossing h Q (obj h a)" using Q(2) by (cases "o_side (obj h a)") (auto simp: not_crossing_def prices_def side_set_def)
  ultimately obtain h1 b1 where r: "add_order h b a = Some (True, h1, b1)" "book_rep h1 b1 (Q(?p := Q ?p @ [a]))" "same_payloads h h1"
    using add_order_rep [OF Q(1) a(1) _ refl p] Q(2) touches_onlyD(1) by fastforce
  let ?Q = "Q(?p := Q ?p @ [a])"
  have rest: "resting ?Q = {a}" using resting_snoc [of Q ?p a] Q(2) by simp
  have a1: "live h1 a" "o_id (obj h1 a) = i" using same_payloads_live [OF r(3)] same_payloads_obj(1) [OF r(3) a(1)] a by auto
  have bl1: "book_links h1 b1 ?Q" using r(2) by (simp add: book_rep_def)
  have "get_order b1 i = Some a" using get_order_rep [OF bl1] rest a1 by simp
  from cancel_order_rep [OF r(2) this] obtain h2 b2 where c: "cancel_order h1 b1 i = Some (True, h2, b2)"
      "book_rep h2 b2 (?Q(o_price (obj h1 a) := remove1 a (?Q (o_price (obj h1 a)))))" "same_payloads h1 h2"
    using touches_onlyD(1) by blast
  have "resting (?Q(o_price (obj h1 a) := remove1 a (?Q (o_price (obj h1 a))))) = {}"
    using resting_remove1 [OF bl1, of a] rest by simp
  then show ?thesis using r(1,3) a1 c same_payloads_trans by blast
qed

lemma pool_vs_malloc_body_ok:
  assumes ok: "pool_vs_malloc_ok s" and alloc: "is_allocator fresh"
  shows "\<exists>s'. BM_AddCancel_PoolVsMalloc use_pool fresh s = Some (True, s') \<and> pool_vs_malloc_ok s'"
proof -
  obtain Q where rep: "pool_rep kBenchPool (pm_pool s) [0..<kBenchPool]"
      and Q: "book_rep (mp_storage (pm_pool s)) (pm_book s) Q" "resting Q = {}"
    using ok by (auto simp: pool_vs_malloc_ok_def)
  have "0 < kBenchPool" by (simp add: kBenchPool_def)
  note split = upt_conv_Cons [OF this]
  have "\<exists>a p fl. (if use_pool then do { (r, p) \<leftarrow> allocate (pm_pool s); a \<leftarrow> r; Some (a, p) }
      else Some (fresh (mp_storage (pm_pool s)), pm_pool s)) = Some (a, p) \<and> pool_rep kBenchPool p fl \<and> a \<notin> set fl \<and>
      (if use_pool then a < kBenchPool \<and> [0..<kBenchPool] = a # fl else fl = [0..<kBenchPool])"
  proof (cases use_pool)
    case True
    obtain p where "allocate (pm_pool s) = Some (Some 0, p)" "pool_rep kBenchPool p [Suc 0..<kBenchPool]"
      using mp.alloc_slot [of kBenchPool "pm_pool s" 0 "[Suc 0..<kBenchPool]"] rep split by auto
    then show ?thesis using True split \<open>0 < kBenchPool\<close> by auto
  next
    case False
    have "\<not> fresh (mp_storage (pm_pool s)) < kBenchPool" using alloc by (simp add: is_allocator_def not_less)
    then show ?thesis using False rep by (auto intro!: exI [of _ "[0..<kBenchPool]"])
  qed
  then obtain a p fl where al: "(if use_pool then do { (r, p) \<leftarrow> allocate (pm_pool s); a \<leftarrow> r; Some (a, p) }
      else Some (fresh (mp_storage (pm_pool s)), pm_pool s)) = Some (a, p)"
    and fl: "pool_rep kBenchPool p fl" "a \<notin> set fl" "if use_pool then a < kBenchPool \<and> [0..<kBenchPool] = a # fl else fl = [0..<kBenchPool]"
    by blast
  define x where "x = default_order\<lparr>o_id := pm_next_id s, o_side := Bid, o_type := Limit, o_price := kBidMean, o_quantity := 100\<rparr>"
  define p1 where "p1 = construct x a p"
  let ?h = "mp_storage p1"
  have h: "update_at (mp_storage (construct default_order a p)) a
      (\<lambda>x. x\<lparr>o_id := pm_next_id s, o_side := Bid, o_type := Limit, o_price := kBidMean, o_quantity := 100\<rparr>) = Some ?h"
    by (simp add: update_at_def construct_def p1_def x_def)
  have at: "live ?h a" "obj ?h a = x" by (simp_all add: p1_def construct_def store_simps)
  have pr1: "pool_rep kBenchPool p1 fl" unfolding p1_def by (rule construct_rep [OF fl(1,2)])
  obtain h1 b1 h2 b2 Q2 where r: "add_order ?h (pm_book s) a = Some (True, h1, b1)" "live h1 a" "o_id (obj h1 a) = pm_next_id s"
      "cancel_order h1 b1 (pm_next_id s) = Some (True, h2, b2)" "same_payloads ?h h2" "book_rep h2 b2 Q2" "resting Q2 = {}"
    using add_cancel_alone [OF book_rep_no_orders [OF Q, of ?h] Q(2) at(1)] at(2) by (auto simp: x_def kBidMean_def MAX_PRICE_TICKS_def)
  have "pool_rep kBenchPool (p1\<lparr>mp_storage := h2\<rparr>) fl"
    using pool_rep_frame [OF pr1] same_payloads_free [OF pr1 r(5)] by blast
  then have pr2: "pool_rep kBenchPool (destroy a (p\<lparr>mp_storage := h2\<rparr>)) fl"
    using destroy_rep [of kBenchPool "p1\<lparr>mp_storage := h2\<rparr>" fl a] fl(2) by (simp add: p1_def construct_def)
  have pr3: "pool_rep kBenchPool (if use_pool then deallocate a (destroy a (p\<lparr>mp_storage := h2\<rparr>)) else destroy a (p\<lparr>mp_storage := h2\<rparr>)) [0..<kBenchPool]"
    using deallocate_rep [OF pr2 fl(2)] fl(3) pr2 by (auto split: if_splits)
  show ?thesis using book_rep_no_orders [OF r(6,7)] r(7) pr3
    by (simp add: BM_AddCancel_PoolVsMalloc_def al h r(1,3,4) deref_live [OF r(2)] pool_vs_malloc_ok_def Let_def) blast
qed

interpretation pool_bench: benchmark_body "BM_AddCancel_PoolVsMalloc use_pool fresh" True "\<lambda>s. is_allocator fresh \<and> pool_vs_malloc_ok s" for use_pool fresh
  by unfold_locales (use pool_vs_malloc_body_ok in blast)

text \<open>Both variants add and cancel one order per iteration, and the pool ends every iteration with all its slots.\<close>

lemma pool_vs_malloc_sound:
  assumes "is_allocator fresh"
  shows "\<exists>s. bench_loop (BM_AddCancel_PoolVsMalloc use_pool fresh) k start_pool_vs_malloc = Some (replicate k True, s) \<and>
    available (pm_pool s) = 1024"
proof -
  have "is_allocator fresh \<and> pool_vs_malloc_ok start_pool_vs_malloc"
    using assms new_pool_rep [of kBenchPool] new_book_rep
    by (auto simp: pool_vs_malloc_ok_def start_pool_vs_malloc_def resting_def intro!: exI [of _ "\<lambda>_. []"])
  from pool_bench.loop_ok [OF this] obtain s where s: "bench_loop (BM_AddCancel_PoolVsMalloc use_pool fresh) k start_pool_vs_malloc = Some (replicate k True, s)"
      "pool_rep kBenchPool (pm_pool s) [0..<kBenchPool]" unfolding pool_vs_malloc_ok_def by blast
  have "available (pm_pool s) = of_nat kBenchPool" using available_rep [OF s(2)] by simp
  then show ?thesis using s(1) by (simp add: kBenchPool_def)
qed

section \<open>Windows of live allocations\<close>

text \<open>
  \<^verbatim>\<open>memory_pool_bench.cpp\<close> keeps 256 allocations alive; each iteration frees the oldest one
  and allocates again.
\<close>

definition kPoolCapacity :: nat where "kPoolCapacity = 65536"
definition kWindow :: "64 word" where "kWindow = 256"

record pool_window =
  pw_pool :: "order pool"
  pw_window :: "addr option list"
  pw_i :: "64 word"

fun fill_window :: "nat \<Rightarrow> order pool \<Rightarrow> (addr option list \<times> order pool) option" where
  "fill_window 0 p = Some ([], p)"
| "fill_window (Suc k) p = do { (r, p1) \<leftarrow> allocate p; (rs, p2) \<leftarrow> fill_window k p1; Some (r # rs, p2) }"

definition window_iteration :: "pool_window \<Rightarrow> pool_window option" where
  "window_iteration s = do {
     r \<leftarrow> (if unat (pw_i s) < length (pw_window s) then Some (pw_window s ! unat (pw_i s)) else None);
     a \<leftarrow> r;
     (r1, p) \<leftarrow> allocate (deallocate a (pw_pool s));
     Some \<lparr>pw_pool = p, pw_window = (pw_window s)[unat (pw_i s) := r1], pw_i = and (pw_i s + 1) (kWindow - 1)\<rparr> }"

fun window_loop :: "nat \<Rightarrow> pool_window \<Rightarrow> pool_window option" where
  "window_loop 0 s = Some s"
| "window_loop (Suc k) s = do { s1 \<leftarrow> window_iteration s; window_loop k s1 }"

fun free_window :: "addr option list \<Rightarrow> order pool \<Rightarrow> order pool option" where
  "free_window [] p = Some p"
| "free_window (r # rs) p = do { a \<leftarrow> r; free_window rs (deallocate a p) }"

definition BM_PoolCycle_Windowed :: "nat \<Rightarrow> (pool_window \<times> order pool) option" where
  "BM_PoolCycle_Windowed iterations = do {
     (w, p) \<leftarrow> fill_window (unat kWindow) (new_pool kPoolCapacity);
     s \<leftarrow> window_loop iterations \<lparr>pw_pool = p, pw_window = w, pw_i = 0\<rparr>;
     p1 \<leftarrow> free_window (pw_window s) (pw_pool s);
     Some (s, p1) }"

definition window_ok :: "nat \<Rightarrow> addr list \<Rightarrow> addr list \<Rightarrow> pool_window \<Rightarrow> bool" where
  "window_ok n ws fl s \<longleftrightarrow> pool_rep n (pw_pool s) fl \<and> pw_window s = map Some ws \<and> unat (pw_i s) < length ws \<and>
     set ws \<inter> set fl = {} \<and> set ws \<subseteq> {..<n} \<and> distinct ws \<and> length ws = 256"

lemma fill_window_rep:
  "pool_rep n p (xs @ ys) \<Longrightarrow> \<exists>p'. fill_window (length xs) p = Some (map Some xs, p') \<and> pool_rep n p' ys"
proof (induction xs arbitrary: p)
  case (Cons a xs)
  then obtain p1 where "allocate p = Some (Some a, p1)" "pool_rep n p1 (xs @ ys)"
    using mp.alloc_slot [of n p a "xs @ ys"] by auto
  then show ?case using Cons.IH [of p1] by auto
qed simp

text \<open>
  The free list of the pool is a stack: the slot just freed is the one handed out next.
  So an iteration puts the same pointer back into the window and leaves the free
  list as it was.
\<close>

lemma window_iteration_same:
  assumes ok: "window_ok n ws fl s"
  shows "\<exists>s'. window_iteration s = Some s' \<and> window_ok n ws fl s' \<and> pw_window s' = pw_window s \<and>
    mp_free_head (pw_pool s') = mp_free_head (pw_pool s) \<and> mp_available (pw_pool s') = mp_available (pw_pool s)"
proof -
  let ?a = "ws ! unat (pw_i s)"
  have w: "pool_rep n (pw_pool s) fl" "pw_window s = map Some ws" "unat (pw_i s) < length ws" "length ws = 256"
    using ok by (auto simp: window_ok_def)
  have a: "?a \<notin> set fl" "?a < n" using ok nth_mem [OF w(3)] unfolding window_ok_def by blast+
  obtain p where p: "allocate (deallocate ?a (pw_pool s)) = Some (Some ?a, p)" "pool_rep n p fl"
    using mp.dealloc_alloc [OF w(1) a] by blast
  have "unat (and (pw_i s + 1) 255) \<le> unat (255 :: 64 word)" by (metis word_and_le1 word_le_nat_alt)
  then have i: "unat (and (pw_i s + 1) (kWindow - 1)) < length ws" using w(4) by (simp add: kWindow_def)
  let ?s = "\<lparr>pw_pool = p, pw_window = map Some ws, pw_i = and (pw_i s + 1) (kWindow - 1)\<rparr>"
  have "(map Some ws)[unat (pw_i s) := Some ?a] = map Some ws"
    using w(3) by (metis list_update_id nth_map)
  then have "window_iteration s = Some ?s" using w p(1) by (simp add: window_iteration_def)
  moreover have "window_ok n ws fl ?s" using ok p(2) i by (simp add: window_ok_def)
  moreover have "mp_free_head p = mp_free_head (pw_pool s)" "mp_available p = mp_available (pw_pool s)"
    using p(2) w(1) by (simp_all add: pool_rep_def)
  ultimately show ?thesis using w(2) by simp
qed

lemma window_loop_same: "window_ok n ws fl s \<Longrightarrow> \<exists>s'. window_loop k s = Some s' \<and> window_ok n ws fl s'"
proof (induction k arbitrary: s)
  case (Suc k)
  then obtain s1 where "window_iteration s = Some s1" "window_ok n ws fl s1" using window_iteration_same by blast
  then show ?case using Suc.IH [of s1] by auto
qed auto

lemma free_window_rep:
  "pool_rep n p fl \<Longrightarrow> set ws \<inter> set fl = {} \<Longrightarrow> set ws \<subseteq> {..<n} \<Longrightarrow> distinct ws \<Longrightarrow>
    \<exists>p'. free_window (map Some ws) p = Some p' \<and> pool_rep n p' (rev ws @ fl)"
proof (induction ws arbitrary: p fl)
  case (Cons a ws)
  have "pool_rep n (deallocate a p) (a # fl)" using Cons.prems by (intro deallocate_rep) auto
  then show ?case using Cons.IH [of "deallocate a p" "a # fl"] Cons.prems by auto
qed simp

text \<open>
  However long the benchmark runs, its window holds the slots 0 to 255 it started with; at the end
  every slot is back in the pool.
\<close>

lemma windowed_cycle_reuses_slots:
  "\<exists>s p. BM_PoolCycle_Windowed k = Some (s, p) \<and> pw_window s = map Some [0..<256] \<and> mp_free_head (pw_pool s) = Some 256 \<and>
    available p = of_nat kPoolCapacity"
proof -
  let ?ws = "[0..<256]" and ?fl = "[256..<kPoolCapacity]"
  have split: "[0..<kPoolCapacity] = ?ws @ ?fl" using upt_add_eq_append [of 0 256 65280] by (simp add: kPoolCapacity_def del: upt_rec_numeral)
  then have "pool_rep kPoolCapacity (new_pool kPoolCapacity) (?ws @ ?fl)" using new_pool_rep [of kPoolCapacity] by (simp only: split)
  from fill_window_rep [OF this] obtain p0 where p0: "fill_window (unat kWindow) (new_pool kPoolCapacity) = Some (map Some ?ws, p0)" "pool_rep kPoolCapacity p0 ?fl"
    by (auto simp: kWindow_def simp del: upt_rec_numeral)
  have "window_ok kPoolCapacity ?ws ?fl \<lparr>pw_pool = p0, pw_window = map Some ?ws, pw_i = 0\<rparr>"
    using p0(2) by (auto simp: window_ok_def kPoolCapacity_def simp del: upt_rec_numeral)
  from window_loop_same [OF this, of k] obtain s where
    s: "window_loop k \<lparr>pw_pool = p0, pw_window = map Some ?ws, pw_i = 0\<rparr> = Some s" "window_ok kPoolCapacity ?ws ?fl s" by blast
  then obtain p1 where p1: "free_window (map Some ?ws) (pw_pool s) = Some p1" "pool_rep kPoolCapacity p1 (rev ?ws @ ?fl)"
    using free_window_rep [of kPoolCapacity "pw_pool s" ?fl ?ws] by (auto simp: window_ok_def simp del: upt_rec_numeral)
  have "mp_free_head (pw_pool s) = first_or None ?fl" using s(2) by (simp add: window_ok_def pool_rep_def del: upt_rec_numeral)
  also have "?fl = 256 # [257..<kPoolCapacity]" using upt_conv_Cons [of 256 kPoolCapacity] by (simp add: kPoolCapacity_def del: upt_rec_numeral)
  finally have "mp_free_head (pw_pool s) = Some 256" by simp
  moreover have "available p1 = of_nat kPoolCapacity"
    using available_rep [OF p1(2)] by (simp add: kPoolCapacity_def del: upt_rec_numeral)
  ultimately show ?thesis using p0(1) s p1(1) by (simp add: BM_PoolCycle_Windowed_def window_ok_def del: upt_rec_numeral)
qed

text \<open>
  The same loop on operator \<^verbatim>\<open>new\<close>, whose choice of an unused address is \<open>fresh\<close>;
  deleting anything but a live object is a fault.
\<close>

record heap_window =
  hw_heap :: heap
  hw_window :: "addr list"
  hw_i :: "64 word"

definition new_object :: "(heap \<Rightarrow> addr) \<Rightarrow> heap \<Rightarrow> addr \<times> heap" where
  "new_object fresh h = (fresh h, h(fresh h := Object default_order))"

definition delete_object :: "addr \<Rightarrow> heap \<Rightarrow> heap option" where
  "delete_object a h = do { _ \<leftarrow> deref h a; Some (h(a := Raw)) }"

fun new_window :: "(heap \<Rightarrow> addr) \<Rightarrow> nat \<Rightarrow> heap \<Rightarrow> addr list \<times> heap" where
  "new_window fresh 0 h = ([], h)"
| "new_window fresh (Suc k) h = (let (a, h1) = new_object fresh h; (as, h2) = new_window fresh k h1 in (a # as, h2))"

definition heap_window_iteration :: "(heap \<Rightarrow> addr) \<Rightarrow> heap_window \<Rightarrow> heap_window option" where
  "heap_window_iteration fresh s = do {
     a \<leftarrow> (if unat (hw_i s) < length (hw_window s) then Some (hw_window s ! unat (hw_i s)) else None);
     h \<leftarrow> delete_object a (hw_heap s);
     let (a1, h1) = new_object fresh h;
     Some \<lparr>hw_heap = h1, hw_window = (hw_window s)[unat (hw_i s) := a1], hw_i = and (hw_i s + 1) (kWindow - 1)\<rparr> }"

fun heap_window_loop :: "(heap \<Rightarrow> addr) \<Rightarrow> nat \<Rightarrow> heap_window \<Rightarrow> heap_window option" where
  "heap_window_loop fresh 0 s = Some s"
| "heap_window_loop fresh (Suc k) s = do { s1 \<leftarrow> heap_window_iteration fresh s; heap_window_loop fresh k s1 }"

fun delete_window :: "addr list \<Rightarrow> heap \<Rightarrow> heap option" where
  "delete_window [] h = Some h"
| "delete_window (a # as) h = do { h1 \<leftarrow> delete_object a h; delete_window as h1 }"

definition BM_NewDeleteCycle_Windowed :: "(heap \<Rightarrow> addr) \<Rightarrow> nat \<Rightarrow> heap \<Rightarrow> heap option" where
  "BM_NewDeleteCycle_Windowed fresh iterations h = (let (w, h1) = new_window fresh (unat kWindow) h in do {
     s \<leftarrow> heap_window_loop fresh iterations \<lparr>hw_heap = h1, hw_window = w, hw_i = 0\<rparr>;
     delete_window (hw_window s) (hw_heap s) })"

definition finds_unused :: "(heap \<Rightarrow> addr) \<Rightarrow> bool" where
  "finds_unused fresh \<longleftrightarrow> (\<forall>h. \<not> live h (fresh h))"

definition all_live :: "addr list \<Rightarrow> heap \<Rightarrow> heap \<Rightarrow> bool" where
  "all_live ws h0 h \<longleftrightarrow> distinct ws \<and> (\<forall>a. live h a \<longleftrightarrow> live h0 a \<or> a \<in> set ws) \<and> (\<forall>a \<in> set ws. \<not> live h0 a)"

lemma live_raw: "live (h(a := Raw)) b \<longleftrightarrow> b \<noteq> a \<and> live h b"
  by (simp add: live_def fun_upd_apply)

lemma new_window_live:
  assumes "finds_unused fresh" and "all_live ws h0 h"
  shows "\<exists>as h'. new_window fresh k h = (as, h') \<and> length as = k \<and> all_live (ws @ as) h0 h'"
  using assms(2)
proof (induction k arbitrary: ws h)
  case (Suc k)
  let ?a = "fresh h"
  have "\<not> live h ?a" using assms(1) by (simp add: finds_unused_def)
  then have "all_live (ws @ [?a]) h0 (h(?a := Object default_order))"
    using Suc.prems by (auto simp: all_live_def live_upd)
  from Suc.IH [OF this] obtain as h' where "new_window fresh k (h(?a := Object default_order)) = (as, h')"
      "length as = k" "all_live ((ws @ [?a]) @ as) h0 h'" by blast
  then show ?case by (simp add: new_object_def)
qed simp

lemma delete_live:
  assumes "all_live (a # ws) h0 h"
  shows "\<exists>h'. delete_object a h = Some h' \<and> all_live ws h0 h'"
proof -
  have "live h a" using assms by (simp add: all_live_def)
  then show ?thesis using assms by (auto simp: delete_object_def all_live_def deref_live live_raw)
qed

lemma delete_window_live: "all_live ws h0 h \<Longrightarrow> \<exists>h'. delete_window ws h = Some h' \<and> all_live [] h0 h'"
proof (induction ws arbitrary: h)
  case (Cons a ws)
  then show ?case using delete_live [OF Cons.prems] by auto
qed simp

lemma heap_iteration_live:
  assumes fresh: "finds_unused fresh" and ok: "all_live (hw_window s) h0 (hw_heap s)" "unat (hw_i s) < length (hw_window s)" "length (hw_window s) = 256"
  shows "\<exists>s'. heap_window_iteration fresh s = Some s' \<and> all_live (hw_window s') h0 (hw_heap s') \<and>
    unat (hw_i s') < length (hw_window s') \<and> length (hw_window s') = 256"
proof -
  let ?k = "unat (hw_i s)" and ?w = "hw_window s"
  define us vs where "us = take ?k ?w" and "vs = drop (Suc ?k) ?w"
  have w: "?w = us @ ?w ! ?k # vs" "length us = ?k" using ok(2) by (simp_all add: us_def vs_def id_take_nth_drop)
  have "all_live (?w ! ?k # us @ vs) h0 (hw_heap s)"
    using ok(1) unfolding all_live_def by (subst (asm) w(1), subst (asm) w(1), subst (asm) w(1)) auto
  then obtain h where h: "delete_object (?w ! ?k) (hw_heap s) = Some h" "all_live (us @ vs) h0 h" using delete_live by blast
  have "\<not> live h (fresh h)" using fresh by (simp add: finds_unused_def)
  then have "all_live (us @ fresh h # vs) h0 (h(fresh h := Object default_order))"
    using h(2) by (auto simp: all_live_def live_upd)
  moreover have "length us + length vs = 255" using ok(2,3) by (simp add: us_def vs_def)
  moreover have "?w[?k := fresh h] = us @ fresh h # vs" using w by (metis list_update_length)
  moreover have "unat (and (hw_i s + 1) 255) \<le> unat (255 :: 64 word)" by (metis word_and_le1 word_le_nat_alt)
  ultimately show ?thesis using h(1) ok(2,3) by (auto simp: heap_window_iteration_def new_object_def kWindow_def)
qed

text \<open>No object is deleted twice and none is leaked: the live objects are the ones before the benchmark.\<close>

lemma new_delete_balanced:
  assumes fresh: "finds_unused fresh"
  shows "\<exists>h'. BM_NewDeleteCycle_Windowed fresh k h = Some h' \<and> {a. live h' a} = {a. live h a}"
proof -
  have loop: "\<exists>s'. heap_window_loop fresh k s = Some s' \<and> all_live (hw_window s') h (hw_heap s')"
    if "all_live (hw_window s) h (hw_heap s)" "unat (hw_i s) < length (hw_window s)" "length (hw_window s) = 256" for k s
    using that
  proof (induction k arbitrary: s)
    case (Suc k)
    then obtain s1 where "heap_window_iteration fresh s = Some s1" "all_live (hw_window s1) h (hw_heap s1)"
        "unat (hw_i s1) < length (hw_window s1)" "length (hw_window s1) = 256"
      using heap_iteration_live [OF fresh Suc.prems] by blast
    then show ?case using Suc.IH [of s1] by simp
  qed simp
  have "all_live [] h h" by (simp add: all_live_def)
  from new_window_live [OF fresh this, of 256] obtain w h1 where w: "new_window fresh 256 h = (w, h1)" "length w = 256" "all_live w h h1" by auto
  then obtain s where s: "heap_window_loop fresh k \<lparr>hw_heap = h1, hw_window = w, hw_i = 0\<rparr> = Some s" "all_live (hw_window s) h (hw_heap s)"
    using loop [of "\<lparr>hw_heap = h1, hw_window = w, hw_i = 0\<rparr>" k] by auto
  obtain h2 where "delete_window (hw_window s) (hw_heap s) = Some h2" "all_live [] h h2" using delete_window_live [OF s(2)] by blast
  then show ?thesis using w(1) s(1) by (auto simp: BM_NewDeleteCycle_Windowed_def kWindow_def all_live_def)
qed

end
