(* ===== verification/Stream_Bench.thy ===== *)
theory Stream_Bench
  imports Book_Bench Map_Book_Equivalence
begin

text \<open>
  The benchmarks that drive a whole engine: \<^verbatim>\<open>BM_MatchOrder\<close> and \<^verbatim>\<open>BM_SyntheticStream\<close> of
  \<^verbatim>\<open>bench/order_book_bench.cpp\<close>, and the two sides of the comparison in
  \<^verbatim>\<open>bench/matching_bench.cpp\<close>.  Every iteration of the first one is one fill; the comparison
  runs two engines that report the same number of fills for the same generated stream.
\<close>

section \<open>BM\_MatchOrder\<close>

record match_bench =
  mt_engine :: engine
  mt_maker_id :: OrderId
  mt_remaining :: "64 word"

definition start_match_bench :: "nat \<Rightarrow> match_bench" where
  "start_match_bench n = \<lparr>mt_engine = new_engine n, mt_maker_id = 1, mt_remaining = 0\<rparr>"

definition bench_taker :: new_order_message where
  "bench_taker = \<lparr>n_id = 0xFFFFFFFFFFFFFFFF, n_side = Bid, n_type = Limit, n_price = kMid, n_quantity = 1, n_timestamp = 0\<rparr>"

definition bench_maker :: "OrderId \<Rightarrow> new_order_message" where
  "bench_maker i = \<lparr>n_id = i, n_side = Ask, n_type = Limit, n_price = kMid, n_quantity = 1000000000, n_timestamp = 0\<rparr>"

definition replenish :: "match_bench \<Rightarrow> match_bench option" where
  "replenish s = do {
     e \<leftarrow> process_new_order (bench_maker (mt_maker_id s)) (mt_engine s);
     Some (s\<lparr>mt_engine := e, mt_maker_id := mt_maker_id s + 1,
       mt_remaining := ucast (n_quantity (bench_maker (mt_maker_id s)))\<rparr>) }"

definition BM_MatchOrder :: "match_bench \<Rightarrow> (nat \<times> match_bench) option" where
  "BM_MatchOrder s = do {
     s1 \<leftarrow> (if mt_remaining s = 0 then replenish s else Some s);
     e \<leftarrow> process_new_order bench_taker (mt_engine s1);
     Some (length (e_fills e), s1\<lparr>mt_engine := e, mt_remaining := mt_remaining s1 - 1\<rparr>) }"

text \<open>The abstract book holds the giant order with what the benchmark believes is left of it.\<close>

definition maker_left :: "OrderId \<Rightarrow> 64 word \<Rightarrow> lob" where
  "maker_left i left = \<lparr>lob_bids = [],
     lob_asks = (if left = 0 then [] else [\<lparr>m_id = i, m_price = kMid, m_open = unat left\<rparr>])\<rparr>"

definition match_bench_ok :: "nat \<Rightarrow> match_bench \<Rightarrow> bool" where
  "match_bench_ok n s \<longleftrightarrow> 0 < n \<and> (\<exists>i. implements n (mt_engine s) (maker_left i (mt_remaining s)))"

lemma new_order_implements:
  assumes "implements n e s"
  obtains e' where "process_new_order msg e = Some e'" "e_fills e' = fst (lob_new n msg s)" "implements n e' (snd (lob_new n msg s))"
  using process_implements [OF assms, of "NewOrder msg"] by auto

lemma replenish_ok:
  assumes "match_bench_ok n s" and "mt_remaining s = 0"
  shows "\<exists>s'. replenish s = Some s' \<and> match_bench_ok n s' \<and> mt_remaining s' \<noteq> 0"
proof -
  let ?m = "bench_maker (mt_maker_id s)"
  obtain i where n: "0 < n" and imp: "implements n (mt_engine s) (maker_left i 0)" using assms by (auto simp: match_bench_ok_def)
  have "lob_new n ?m (maker_left i 0) = ([], maker_left (mt_maker_id s) (ucast (n_quantity ?m)))"
    using n by (simp add: lob_new_def rejected_def bench_maker_def maker_left_def lob_side_def set_lob_side_def rest_remainder_def
        rest_maker_def enqueue_def lob_size_def lob_ids_def kMid_def MAX_PRICE_TICKS_def)
  then obtain e where "process_new_order ?m (mt_engine s) = Some e" "implements n e (maker_left (mt_maker_id s) (ucast (n_quantity ?m)))"
    using new_order_implements [OF imp, of ?m] by auto
  then show ?thesis using n by (auto simp: replenish_def match_bench_ok_def bench_maker_def)
qed

lemma taker_sweep:
  assumes "left \<noteq> 0"
  shows "length (fst (lob_new n bench_taker (maker_left i left))) = 1" "snd (lob_new n bench_taker (maker_left i left)) = maker_left i (left - 1)"
proof -
  have pos: "0 < unat left" using assms by (simp add: unat_gt_0)
  have "left = 1 \<longleftrightarrow> unat left \<le> 1" using pos by (metis One_nat_def le_less less_one not_le unat_1 unsigned_word_eqI)
  moreover have "unat (left - 1) = unat left - 1" using pos unat_sub [of 1 left] by (simp add: word_le_nat_alt)
  ultimately show "length (fst (lob_new n bench_taker (maker_left i left))) = 1" "snd (lob_new n bench_taker (maker_left i left)) = maker_left i (left - 1)"
    using assms by (auto simp: lob_new_def rejected_def bench_taker_def maker_left_def lob_side_def set_lob_side_def rest_remainder_def
        accepts_def kMid_def MAX_PRICE_TICKS_def)
qed

lemma match_body_ok:
  assumes ok: "match_bench_ok n s"
  shows "\<exists>s'. BM_MatchOrder s = Some (1, s') \<and> match_bench_ok n s'"
proof -
  have "\<exists>s1. (if mt_remaining s = 0 then replenish s else Some s) = Some s1 \<and> match_bench_ok n s1 \<and> mt_remaining s1 \<noteq> 0"
    using replenish_ok [OF ok] ok by (cases "mt_remaining s = 0") auto
  then obtain s1 i where s1: "(if mt_remaining s = 0 then replenish s else Some s) = Some s1" "mt_remaining s1 \<noteq> 0" "0 < n"
      "implements n (mt_engine s1) (maker_left i (mt_remaining s1))"
    by (auto simp: match_bench_ok_def)
  note sweep = taker_sweep [OF s1(2), of n i]
  obtain e where e: "process_new_order bench_taker (mt_engine s1) = Some e"
      "e_fills e = fst (lob_new n bench_taker (maker_left i (mt_remaining s1)))" "implements n e (maker_left i (mt_remaining s1 - 1))"
    using new_order_implements [OF s1(4), of bench_taker] unfolding sweep(2) by blast
  have "length (e_fills e) = 1" using sweep(1) by (simp only: e(2))
  then show ?thesis using s1 e(1,3) by (auto simp: BM_MatchOrder_def match_bench_ok_def)
qed

interpretation match_bench: benchmark_body BM_MatchOrder 1 "match_bench_ok n" for n
  by unfold_locales (rule match_body_ok)

text \<open>Each iteration produces exactly one fill, across every replenishment.\<close>

lemma match_bench_one_fill:
  assumes "0 < n" "n < 2 ^ 32"
  shows "\<exists>s. bench_loop BM_MatchOrder k (start_match_bench n) = Some (replicate k 1, s)"
proof -
  have "maker_left 0 0 = empty_lob" by (simp add: maker_left_def empty_lob_def)
  then have "match_bench_ok n (start_match_bench n)"
    using assms new_engine_implements [OF assms(2)] by (auto simp: match_bench_ok_def start_match_bench_def intro!: exI [of _ 0])
  from match_bench.loop_ok [OF this] show ?thesis by blast
qed

section \<open>Streams\<close>

text \<open>
  The comparison replays one generated stream per iteration into a fresh engine and keeps the
  number of fills of the last run.
\<close>

definition bench_workload :: workload_config where
  "bench_workload = \<lparr>wc_cancel_rate = round_dbl (35 / 100), wc_market_rate = round_dbl (1 / 10), wc_min_quantity = 1, wc_max_quantity = 500\<rparr>"

definition make_stream :: "draws list \<Rightarrow> engine_message list option" where
  "make_stream drs = map_option fst (generate bench_workload drs new_generator)"

fun flat_replay :: "engine_message list \<Rightarrow> 64 word \<Rightarrow> engine \<Rightarrow> (64 word \<times> engine) option" where
  "flat_replay [] fills e = Some (fills, e)"
| "flat_replay (msg # msgs) fills e = do { e1 \<leftarrow> process msg e; flat_replay msgs (fills + of_nat (length (e_fills e1))) e1 }"

fun map_replay :: "engine_message list \<Rightarrow> 64 word \<Rightarrow> map_book \<Rightarrow> (64 word \<times> map_book) option" where
  "map_replay [] fills b = Some (fills, b)"
| "map_replay (msg # msgs) fills b = do { (k, b1) \<leftarrow> map_process msg b; map_replay msgs (fills + k) b1 }"

fun run_flat :: "nat \<Rightarrow> engine_message list \<Rightarrow> nat \<Rightarrow> 64 word \<Rightarrow> 64 word option" where
  "run_flat pool msgs 0 fills_per_run = Some fills_per_run"
| "run_flat pool msgs (Suc k) fills_per_run = do {
     (fills, _) \<leftarrow> flat_replay msgs 0 (new_engine pool);
     run_flat pool msgs k fills }"

fun run_map :: "engine_message list \<Rightarrow> nat \<Rightarrow> 64 word \<Rightarrow> 64 word option" where
  "run_map msgs 0 fills_per_run = Some fills_per_run"
| "run_map msgs (Suc k) fills_per_run = do {
     (fills, _) \<leftarrow> map_replay msgs 0 new_map_book;
     run_map msgs k fills }"

definition BM_SyntheticStream :: "nat \<Rightarrow> draws list \<Rightarrow> nat \<Rightarrow> 64 word option" where
  "BM_SyntheticStream pool drs iterations = do { msgs \<leftarrow> make_stream drs; run_flat pool msgs iterations 0 }"

definition BM_Stream_FlatBook :: "nat \<Rightarrow> draws list \<Rightarrow> nat \<Rightarrow> 64 word option" where
  "BM_Stream_FlatBook pool drs iterations = do { msgs \<leftarrow> make_stream drs; run_flat pool msgs iterations 0 }"

definition BM_Stream_StdMapBook :: "draws list \<Rightarrow> nat \<Rightarrow> 64 word option" where
  "BM_Stream_StdMapBook drs iterations = do { msgs \<leftarrow> make_stream drs; run_map msgs iterations 0 }"

lemma flat_replay_run: "run_messages msgs e = Some (fss, e') \<Longrightarrow> flat_replay msgs k e = Some (k + of_nat (sum_list (map length fss)), e')"
proof (induction msgs arbitrary: e fss k)
  case (Cons msg msgs)
  then show ?case by (auto simp: add.assoc split: Option.bind_splits)
qed simp

lemma map_replay_run: "map_run msgs b = Some (ks, b') \<Longrightarrow> map_replay msgs k b = Some (k + sum_list ks, b')"
proof (induction msgs arbitrary: b ks k)
  case (Cons msg msgs)
  then show ?case by (auto simp: add.assoc split: Option.bind_splits)
qed simp

lemma run_flat_same: "flat_replay msgs 0 (new_engine pool) = Some (fills, e) \<Longrightarrow> run_flat pool msgs k f0 = Some (if k = 0 then f0 else fills)"
  by (induction k arbitrary: f0) auto

lemma run_map_same: "map_replay msgs 0 new_map_book = Some (fills, b) \<Longrightarrow> run_map msgs k f0 = Some (if k = 0 then f0 else fills)"
  by (induction k arbitrary: f0) auto

lemma sum_of_nat_lengths: "sum_list (map (of_nat \<circ> length) fss) = (of_nat (sum_list (map length fss)) :: 64 word)"
  by (induction fss) simp_all

text \<open>
  The two sides of the comparison report the same \<open>fills_per_run\<close>, which is also the one of
  \<open>BM_SyntheticStream\<close>, whatever numbers are drawn, as long as the pool has a slot for every limit order that is not cancelled.
\<close>

lemma comparison_is_fair:
  assumes "draws_ok bench_workload drs new_generator" "length drs < 2 ^ 64 - 1" and pool: "pool < 2 ^ 32"
    and msgs: "make_stream drs = Some msgs" and fit: "fits_pool pool {} msgs"
  shows "\<exists>fills. BM_Stream_FlatBook pool drs k = Some fills \<and> BM_Stream_StdMapBook drs k = Some fills \<and> BM_SyntheticStream pool drs k = Some fills"
proof -
  obtain g where "flow bench_workload g msgs" "length msgs = length drs"
    using generate_flow [OF flow.start assms(1)] assms(2) msgs by (auto simp: make_stream_def)
  then have "stream_ok {} msgs" using flow_stream_ok assms(2) by simp
  from map_run_sim [OF new_engine_implements [OF pool] new_map_rep this _ _ _ fit] obtain fss e b where
    "run_messages msgs (new_engine pool) = Some (fss, e)" "map_run msgs new_map_book = Some (map (of_nat \<circ> length) fss, b)"
    by (auto simp: lob_ids_def empty_lob_def)
  then have "flat_replay msgs 0 (new_engine pool) = Some (of_nat (sum_list (map length fss)), e)"
      "map_replay msgs 0 new_map_book = Some (of_nat (sum_list (map length fss)), b)"
    using flat_replay_run [of msgs _ fss e 0] map_replay_run [of msgs new_map_book _ b 0] by (simp_all add: sum_of_nat_lengths)
  then show ?thesis
    using run_flat_same [of msgs pool _ e k 0] run_map_same [of msgs _ b k 0] msgs
    by (simp add: BM_Stream_FlatBook_def BM_Stream_StdMapBook_def BM_SyntheticStream_def)
qed

end
