(* ===== verification/Order_Tools.thy ===== *)
theory Order_Tools
  imports Synthetic_Workload Pipeline
begin

text \<open>
  The command-line tools around the engine: \<^verbatim>\<open>tools/synthetic_generator.cpp\<close> with its options and
  its main function, \<^verbatim>\<open>tools/replay_tool.cpp\<close>, and the receiving loop of
  \<^verbatim>\<open>tools/feed_smoke.cpp\<close>.  What one tool writes the other reads: the counts that the
  generator prints are the ones the replay tool prints for its file.

  Whether a file can be opened or written, the random draws and the clock are arguments, and so
  is \<^verbatim>\<open>std::stod\<close>, whose range errors are implementation-defined.
\<close>

section \<open>Options of the generator\<close>

text \<open>
  \<^verbatim>\<open>std::stoull\<close>: blanks, a sign, digits, anything after them ignored; a negative number wraps.
  Without a digit, and above \<open>2 ^ 64 - 1\<close>, it throws (\<open>None\<close>).
\<close>

definition stoull :: "string \<Rightarrow> 64 word option" where
  "stoull s = (let s1 = dropWhile is_blank s;
       neg = (case s1 of c # _ \<Rightarrow> c = CHR ''-'' | [] \<Rightarrow> False);
       s2 = (case s1 of c # r \<Rightarrow> if c = CHR ''-'' \<or> c = CHR ''+'' then r else s1 | [] \<Rightarrow> []);
       ds = takeWhile is_digit s2; n = nat_of_digits ds
     in if ds = [] \<or> n \<ge> 2 ^ 64 then None else Some (if neg then - of_nat n else of_nat n))"

record generator_config =
  gc_num_orders :: "64 word"
  gc_cancel_rate :: dbl
  gc_market_rate :: dbl
  gc_price_mean :: dbl
  gc_price_stddev :: dbl
  gc_seed :: "64 word"
  gc_output_file :: string

definition default_generator_config :: generator_config where
  "default_generator_config = \<lparr>gc_num_orders = 10000, gc_cancel_rate = round_dbl (20 / 100), gc_market_rate = round_dbl (10 / 100),
     gc_price_mean = Fin 100, gc_price_stddev = Fin 2, gc_seed = 42, gc_output_file = ''orders.bin''\<rparr>"

definition apply_option :: "(string \<Rightarrow> dbl option) \<Rightarrow> string \<Rightarrow> string \<Rightarrow> generator_config \<Rightarrow> generator_config option" where
  "apply_option stod key val cfg =
     (if key = ''--num_orders'' then map_option (\<lambda>n. cfg\<lparr>gc_num_orders := n\<rparr>) (stoull val)
      else if key = ''--cancel_rate'' then map_option (\<lambda>d. cfg\<lparr>gc_cancel_rate := d\<rparr>) (stod val)
      else if key = ''--market_rate'' then map_option (\<lambda>d. cfg\<lparr>gc_market_rate := d\<rparr>) (stod val)
      else if key = ''--price_mean'' then map_option (\<lambda>d. cfg\<lparr>gc_price_mean := d\<rparr>) (stod val)
      else if key = ''--price_stddev'' then map_option (\<lambda>d. cfg\<lparr>gc_price_stddev := d\<rparr>) (stod val)
      else if key = ''--seed'' then map_option (\<lambda>n. cfg\<lparr>gc_seed := n\<rparr>) (stoull val)
      else if key = ''--output'' then Some (cfg\<lparr>gc_output_file := val\<rparr>)
      else Some cfg)"

text \<open>The loop takes two arguments at a time; a single one at the end is not looked at.\<close>

fun generator_args :: "(string \<Rightarrow> dbl option) \<Rightarrow> string list \<Rightarrow> generator_config \<Rightarrow> generator_config option" where
  "generator_args stod (key # val # rest) cfg = do { cfg1 \<leftarrow> apply_option stod key val cfg; generator_args stod rest cfg1 }"
| "generator_args stod _ cfg = Some cfg"

definition workload_of :: "generator_config \<Rightarrow> workload_config" where
  "workload_of cfg = \<lparr>wc_cancel_rate = gc_cancel_rate cfg, wc_market_rate = gc_market_rate cfg, wc_min_quantity = 1, wc_max_quantity = 500\<rparr>"

section \<open>The two programs\<close>

record writer =
  wr_gen :: generator
  wr_out :: "byte list"
  wr_new :: nat
  wr_cancel :: nat

fun write_records :: "workload_config \<Rightarrow> (nat \<Rightarrow> byte) \<Rightarrow> draws list \<Rightarrow> writer \<Rightarrow> writer option" where
  "write_records cfg pad [] w = Some w"
| "write_records cfg pad (dr # drs) w = do {
     (msg, g) \<leftarrow> next_message cfg dr (wr_gen w);
     let w1 = w\<lparr>wr_gen := g, wr_out := wr_out w @ record_bytes pad msg\<rparr>;
     write_records cfg pad drs (case msg of NewOrder _ \<Rightarrow> w1\<lparr>wr_new := wr_new w1 + 1\<rparr> | Cancel _ \<Rightarrow> w1\<lparr>wr_cancel := wr_cancel w1 + 1\<rparr>) }"

text \<open>The exit code, and the writer when the loop ran.  \<open>draw\<close> are the draws under the configured seed.\<close>

definition generator_main :: "(string \<Rightarrow> dbl option) \<Rightarrow> (generator_config \<Rightarrow> nat \<Rightarrow> draws) \<Rightarrow> (nat \<Rightarrow> byte) \<Rightarrow> bool \<Rightarrow> bool \<Rightarrow> string list \<Rightarrow>
    (int \<times> writer option) option" where
  "generator_main stod draw pad opened written args = do {
     cfg \<leftarrow> generator_args stod args default_generator_config;
     if \<not> opened then Some (1, None)
     else do {
       w \<leftarrow> write_records (workload_of cfg) pad (map (draw cfg) [0..<unat (gc_num_orders cfg)])
         \<lparr>wr_gen = new_generator, wr_out = [], wr_new = 0, wr_cancel = 0\<rparr>;
       Some (if written then 0 else 1, Some w) } }"

text \<open>The replay tool, given the contents of the file named by its first argument if it can be opened.\<close>

definition replay_main :: "string list \<Rightarrow> (string \<Rightarrow> byte list option) \<Rightarrow> int \<times> replay_counts option" where
  "replay_main args open_file = (case args of
      [] \<Rightarrow> (1, None)
    | path # _ \<Rightarrow> (case open_file path of
        None \<Rightarrow> (1, None)
      | Some bs \<Rightarrow> (0, Some (fst (replay bs \<lparr>rp_new = 0, rp_cancel = 0, rp_error = 0\<rparr> [])))))"

section \<open>Properties of the generator\<close>

lemma not_sign: "is_digit c \<Longrightarrow> \<not> is_blank c \<and> c \<noteq> CHR ''-'' \<and> c \<noteq> CHR ''+''"
  by (auto simp: is_digit_def is_blank_def)

text \<open>A number written in decimal is read back, up to the width of the type.\<close>

lemma stoull_digits:
  assumes "0 < w" and "n < 10 ^ w" and "n < 2 ^ 64"
  shows "stoull (digits_of w n) = Some (of_nat n)"
proof -
  obtain c r where cr: "digits_of w n = c # r" using assms(1) length_digits_of [of w n] by (cases "digits_of w n") auto
  then have c: "is_digit c" using digits_of_all [of c w n] by simp
  have "takeWhile is_digit (digits_of w n) = digits_of w n" using digits_of_all by (simp add: takeWhile_eq_all_conv)
  moreover have "nat_of_digits (digits_of w n) = n" using assms(2) by (simp add: nat_of_digits_of)
  ultimately show ?thesis using not_sign [OF c] cr assms(3) by (simp add: stoull_def)
qed

lemma record_size: "length (record_bytes pad m) = (case m of NewOrder _ \<Rightarrow> 41 | Cancel _ \<Rightarrow> 17)"
  by (cases m) (simp_all add: new_order_bytes_def cancel_bytes_def)

lemma new_orders_at: "new_orders (m # ms) = new_orders ms + (case m of NewOrder _ \<Rightarrow> 1 | Cancel _ \<Rightarrow> 0)"
  by (simp add: new_orders_def split: engine_message.splits)

lemma order_file_size: "length (order_file pad ms) = 41 * new_orders ms + 17 * (length ms - new_orders ms)"
proof (induction ms)
  case (Cons m ms)
  have "length (order_file pad (m # ms)) = length (record_bytes pad m) + length (order_file pad ms)" by (simp add: order_file_def)
  then show ?case using Cons new_orders_le [of ms] by (cases m) (auto simp: record_size new_orders_at simp del: record_bytes.simps)
qed (simp add: order_file_def new_orders_def)

lemma write_records_generate:
  "write_records cfg pad drs w = do {
     (ms, g) \<leftarrow> generate cfg drs (wr_gen w);
     Some (w\<lparr>wr_gen := g, wr_out := wr_out w @ order_file pad ms, wr_new := wr_new w + new_orders ms,
       wr_cancel := wr_cancel w + (length ms - new_orders ms)\<rparr>) }"
proof (induction drs arbitrary: w)
  case (Cons dr drs)
  show ?case
    by (auto simp: Cons.IH order_file_def new_orders_at Suc_diff_le new_orders_le Let_def split: Option.bind_split engine_message.splits)
qed (simp add: order_file_def new_orders_def)

lemma generated_price_fits: "generate cfg drs g = Some (ms, g') \<Longrightarrow> list_all price_fits ms"
proof (induction drs arbitrary: g ms)
  case (Cons dr drs)
  then obtain m g1 ms' where m: "next_message cfg dr g = Some (m, g1)" "generate cfg drs g1 = Some (ms', g')" "ms = m # ms'"
    by (auto split: Option.bind_splits)
  have "price_fits m"
  proof (cases m)
    case (NewOrder x)
    then obtain ticks where "n_price x = clamp_price ticks"
      using m(1) by (auto simp: next_message_def make_new_order_def split: if_splits Option.bind_splits)
    then show ?thesis using clamp_price_range [of ticks] NewOrder by (simp add: price_fits_def MAX_PRICE_TICKS_def)
  qed (simp add: price_fits_def)
  then show ?case using Cons.IH [OF m(2)] m(3) by simp
qed simp

text \<open>
  A run of the generator with draws in range ends with exit code 0 and the configured number of
  records, and the replay tool reports for its file the same counts and no error.
\<close>

lemma tools_agree:
  assumes args: "generator_args stod args default_generator_config = Some cfg"
    and draws: "draws_ok (workload_of cfg) (map (draw cfg) [0..<unat (gc_num_orders cfg)]) new_generator"
    and bound: "unat (gc_num_orders cfg) < 2 ^ 64 - 1"
  obtains w where "generator_main stod draw pad True True args = Some (0, Some w)"
    and "wr_new w + wr_cancel w = unat (gc_num_orders cfg)" and "length (wr_out w) = 41 * wr_new w + 17 * wr_cancel w"
    and "replay_main [path] (\<lambda>_. Some (wr_out w)) = (0, Some \<lparr>rp_new = wr_new w, rp_cancel = wr_cancel w, rp_error = 0\<rparr>)"
proof -
  obtain ms g where ms: "generate (workload_of cfg) (map (draw cfg) [0..<unat (gc_num_orders cfg)]) new_generator = Some (ms, g)"
      "length ms = unat (gc_num_orders cfg)"
    using generate_flow [OF flow.start draws] bound by auto
  let ?w = "\<lparr>wr_gen = g, wr_out = order_file pad ms, wr_new = new_orders ms, wr_cancel = length ms - new_orders ms\<rparr>"
  have main: "generator_main stod draw pad True True args = Some (0, Some ?w)"
    using args ms(1) by (simp add: generator_main_def write_records_generate)
  have tool: "replay_main [path] (\<lambda>_. Some (wr_out ?w)) = (0, Some \<lparr>rp_new = wr_new ?w, rp_cancel = wr_cancel ?w, rp_error = 0\<rparr>)"
    using replay_file [OF generated_price_fits [OF ms(1)], of pad "[]"] by (simp add: replay_main_def)
  show thesis by (rule that [OF main _ _ tool]) (use order_file_size [of pad ms] new_orders_le [of ms] ms(2) in simp_all)
qed

section \<open>The smoke test of the feed\<close>

text \<open>
  The receiving loop of \<^verbatim>\<open>feed_smoke.cpp\<close>.  An iteration reads the clock (\<open>expired\<close>: the deadline
  has passed) and pops; the feed's thread has offered the messages of \<open>arrived\<close> before.
\<close>

record smoke =
  sm_queue :: "engine_message spsc"
  sm_n :: nat
  sm_news :: nat
  sm_cancels :: nat
  sm_received :: "engine_message list"

definition start_smoke :: smoke where
  "start_smoke = \<lparr>sm_queue = new_spsc FEED_QUEUE_SIZE (NewOrder \<lparr>n_id = 0, n_side = Bid, n_type = Limit, n_price = 0, n_quantity = 0, n_timestamp = 0\<rparr>),
     sm_n = 0, sm_news = 0, sm_cancels = 0, sm_received = []\<rparr>"

fun arrive :: "engine_message list \<Rightarrow> engine_message spsc \<Rightarrow> engine_message spsc option" where
  "arrive [] q = Some q"
| "arrive (m # ms) q = do { (_, q1) \<leftarrow> try_push FEED_QUEUE_SIZE m q; arrive ms q1 }"

definition smoke_iteration :: "smoke \<Rightarrow> smoke option" where
  "smoke_iteration s = do {
     (r, q) \<leftarrow> try_pop FEED_QUEUE_SIZE (sm_queue s);
     Some (case r of
       None \<Rightarrow> s\<lparr>sm_queue := q\<rparr>
     | Some m \<Rightarrow> let s1 = s\<lparr>sm_queue := q, sm_n := sm_n s + 1, sm_received := sm_received s @ [m]\<rparr> in
         (case m of NewOrder _ \<Rightarrow> s1\<lparr>sm_news := sm_news s + 1\<rparr> | Cancel _ \<Rightarrow> s1\<lparr>sm_cancels := sm_cancels s + 1\<rparr>)) }"

fun smoke_loop :: "int \<Rightarrow> (bool \<times> engine_message list) list \<Rightarrow> smoke \<Rightarrow> smoke option" where
  "smoke_loop max_messages [] s = Some s"
| "smoke_loop max_messages ((expired, arrived) # rest) s = do {
     q \<leftarrow> arrive arrived (sm_queue s);
     let s1 = s\<lparr>sm_queue := q\<rparr>;
     if int (sm_n s1) < max_messages \<and> \<not> expired
     then do { s2 \<leftarrow> smoke_iteration s1; smoke_loop max_messages rest s2 }
     else Some s1 }"

definition smoke_exit :: "smoke \<Rightarrow> int" where
  "smoke_exit s = (if sm_n s > 0 then 0 else 1)"

definition smoke_ok :: "int \<Rightarrow> smoke \<Rightarrow> bool" where
  "smoke_ok limit s \<longleftrightarrow> (\<exists>xs. queue_rep FEED_QUEUE_SIZE (sm_queue s) xs) \<and> sm_n s = length (sm_received s) \<and>
     sm_news s = new_orders (sm_received s) \<and> sm_news s + sm_cancels s = sm_n s \<and> int (sm_n s) \<le> max 0 limit"

lemma arrive_rep: "queue_rep FEED_QUEUE_SIZE q xs \<Longrightarrow> \<exists>q' ys. arrive ms q = Some q' \<and> queue_rep FEED_QUEUE_SIZE q' ys"
proof (induction ms arbitrary: q xs)
  case (Cons m ms)
  obtain ok q1 ys where "try_push FEED_QUEUE_SIZE m q = Some (ok, q1)" "queue_rep FEED_QUEUE_SIZE q1 ys"
    using ring.push_rep [of FEED_QUEUE_SIZE q xs m] Cons.prems feed_capacity by auto
  then show ?case using Cons.IH [of q1 ys] by simp
qed auto

lemma smoke_iteration_ok:
  assumes "smoke_ok limit s" and "int (sm_n s) < limit"
  shows "\<exists>s'. smoke_iteration s = Some s' \<and> smoke_ok limit s'"
proof -
  obtain xs where q: "queue_rep FEED_QUEUE_SIZE (sm_queue s) xs" using assms(1) by (auto simp: smoke_ok_def)
  show ?thesis
  proof (cases xs)
    case Nil
    then obtain q1 where "try_pop FEED_QUEUE_SIZE (sm_queue s) = Some (None, q1)" "queue_rep FEED_QUEUE_SIZE q1 []"
      using ring.pop_rep [of FEED_QUEUE_SIZE "sm_queue s" xs] q feed_capacity by auto
    then show ?thesis using assms(1) by (auto simp: smoke_iteration_def smoke_ok_def)
  next
    case (Cons m ys)
    then obtain q1 where "try_pop FEED_QUEUE_SIZE (sm_queue s) = Some (Some m, q1)" "queue_rep FEED_QUEUE_SIZE q1 ys"
      using ring.pop_rep [of FEED_QUEUE_SIZE "sm_queue s" xs] q feed_capacity by auto
    then show ?thesis using assms by (cases m) (auto simp: smoke_iteration_def smoke_ok_def Let_def new_orders_snoc)
  qed
qed

text \<open>
  The smoke test counts every message it takes exactly once, takes no more than it was asked for, and
  reports failure only when it received none.
\<close>

lemma smoke_loop_ok: "smoke_ok limit s \<Longrightarrow> \<exists>s'. smoke_loop limit sched s = Some s' \<and> smoke_ok limit s'"
proof (induction sched arbitrary: s)
  case (Cons it sched)
  obtain expired arrived where it: "it = (expired, arrived)" by (cases it)
  obtain xs where "queue_rep FEED_QUEUE_SIZE (sm_queue s) xs" using Cons.prems by (auto simp: smoke_ok_def)
  then obtain q ys where q: "arrive arrived (sm_queue s) = Some q" "queue_rep FEED_QUEUE_SIZE q ys" using arrive_rep by blast
  then have ok: "smoke_ok limit (s\<lparr>sm_queue := q\<rparr>)" using Cons.prems by (auto simp: smoke_ok_def)
  show ?case
  proof (cases "int (sm_n s) < limit \<and> \<not> expired")
    case True
    then obtain s2 where "smoke_iteration (s\<lparr>sm_queue := q\<rparr>) = Some s2" "smoke_ok limit s2"
      using smoke_iteration_ok [OF ok] by auto
    then show ?thesis using Cons.IH [of s2] q(1) it True by (simp add: Let_def)
  next
    case False
    then have "smoke_loop limit (it # sched) s = Some (s\<lparr>sm_queue := q\<rparr>)" using q(1) it by (auto simp: Let_def)
    then show ?thesis using ok by simp
  qed
qed simp

lemma feed_smoke_sound:
  "\<exists>s. smoke_loop limit sched start_smoke = Some s \<and> sm_news s + sm_cancels s = length (sm_received s) \<and>
    int (length (sm_received s)) \<le> max 0 limit \<and> (smoke_exit s = 1 \<longleftrightarrow> sm_received s = [])"
proof -
  have "smoke_ok limit start_smoke"
    using new_queue_rep [OF feed_capacity(1)] by (auto simp: smoke_ok_def start_smoke_def new_orders_def intro!: exI [of _ "[]"])
  from smoke_loop_ok [OF this, of sched] obtain s where "smoke_loop limit sched start_smoke = Some s" "smoke_ok limit s" by blast
  then show ?thesis by (intro exI [of _ s]) (auto simp: smoke_ok_def smoke_exit_def)
qed

end
