(* ===== verification/Spec2Isabelle.thy ===== *)
theory Spec2Isabelle
  imports Live_Program Engine_Properties Spsc_Concurrent Map_Book_Equivalence Pipeline_Shutdown Synthetic_Ingest Server_Properties
    Client_Properties Client_Smoke Tsc_Clock Ring_Bench Stream_Bench Order_Tools
begin

text \<open>
  A verification of the lock-free matching engine: an exchange simulator in which an
  ingest thread (live Coinbase feed or synthetic generator), an engine thread and an
  output thread are connected by single-producer single-consumer ring buffers, with an
  optional dashboard.

  \<^bold>\<open>The parts and the theories that model them\<close> (paths below \<^verbatim>\<open>src/\<close>)

  \<^item> \<open>Core_Types\<close>: identifiers, prices, quantities, orders and messages of
    \<^verbatim>\<open>src/core/types.h\<close>, \<^verbatim>\<open>src/core/order.h\<close>, \<^verbatim>\<open>src/transport/message.h\<close>.  Identifiers,
    quantities and time stamps are words of their width; a price is an \<open>int\<close>, since only
    values of the grid are computed with (no operation of the source can overflow there).  \<open>Prelude\<close> holds the shared list, map and
    option lemmas.
  \<^item> \<open>Memory_Pool\<close>, \<open>Price_Level\<close>, \<open>Order_Book\<close>, \<open>Matching_Engine\<close>: one theory per class of
    \<^verbatim>\<open>src/core\<close>.  Orders live in an explicit store of slots, because the free list, the
    intrusive queue of a price level and the identifier map alias the same memory; an
    access to a slot that is not live is a fault (\<open>None\<close>).
  \<^item> \<open>Matching_Spec\<close>: the abstract specification, price-time priority on a list of resting
    orders with a bound on their number.  \<open>Engine_Refinement\<close>, \<open>Engine_Simulation\<close> and
    \<open>Engine_Run\<close> prove the simulation between engine and specification;
    \<open>Engine_Contract\<close> states what clients may rely on as a locale and interprets it on the
    engine; \<open>Engine_Properties\<close> holds C1 and C3 to C13.
  \<^item> \<open>Spsc_Queue\<close>: \<^verbatim>\<open>src/transport/spsc_queue.h\<close> run sequentially refines a bounded FIFO
    list (C14).  \<open>Spsc_Concurrent\<close>: the same code as atomic steps of two threads,
    where a load of the other thread's index may return any value between the last one
    seen and the current one, which is what release stores and acquire loads allow
    (C15 to C18).
  \<^item> \<open>Map_Book\<close>, \<open>Map_Book_Equivalence\<close>: the ordered-map order book of
    \<^verbatim>\<open>bench/matching_bench.cpp\<close>, which the benchmark compares with the engine, and that both
    produce the same fills (C19).
  \<^item> \<open>Ieee_Double\<close>, \<open>Price_Conversion\<close>: binary64 arithmetic with round to nearest even as
    computable functions on rationals, and the conversions between dollars and ticks (C20).
  \<^item> \<open>Latency_Tracker\<close>: the log-linear histogram of \<^verbatim>\<open>src/metrics/latency_tracker.h\<close>
    (C21, C22).  \<open>Metrics_Collector\<close>: the collector and its report.  \<open>Tsc_Clock\<close>:
    \<^verbatim>\<open>src/metrics/tsc_clock.h\<close>, calibration against the steady clock and the conversion of
    counter ticks to nanoseconds (C40); the readings of both clocks are arguments.
  \<^item> \<open>From_Chars\<close>, \<open>Feed_Handler\<close>, \<open>Feed_Numbers\<close>, \<open>Feed_Properties\<close>, \<open>Feed_Theorems\<close>: the parser of
    exchange frames in \<^verbatim>\<open>src/feed/feed_handler.cpp\<close> (C23 to C26).  simdjson, the clock and
    the iteration order of the hash map are arguments.  \<open>Coinbase_Feed\<close>: the handlers of
    \<^verbatim>\<open>src/feed/coinbase_feed.cpp\<close> that push the parsed messages.  \<open>Live_Depth\<close>: feed and
    engine composed as functions: the engine run on what the feed emits holds the depth of the exchange.
  \<^item> \<open>Text_Format\<close>, \<open>Dashboard_Hub\<close>, \<open>Dashboard_Properties\<close>: \<^verbatim>\<open>src/server/dashboard_hub.h\<close>
    (C27, C28).
  \<^item> \<open>Wire_Format\<close>, \<open>Trade_Logger\<close>: the byte layout of the messages and the binary log of
    \<^verbatim>\<open>src/metrics/trade_logger.cpp\<close> (C29).  \<open>Synthetic_Workload\<close>: the generator of
    \<^verbatim>\<open>tools/synthetic_workload.h\<close> and the files of \<^verbatim>\<open>tools/synthetic_generator.cpp\<close> and
    \<^verbatim>\<open>tools/replay_tool.cpp\<close>.  \<open>Order_Tools\<close>: the options and main functions of these tools and
    the loop of \<^verbatim>\<open>tools/feed_smoke.cpp\<close>.
  \<^item> \<open>Pipeline\<close>, \<open>Pipeline_System\<close>: \<^verbatim>\<open>src/main.cpp\<close>: command line, thread loops, shared
    counters, and all threads with the staged shutdown as one step relation (C30, C32), in which a step is one access of a
    thread to shared state, an operation on a queue or an update of a counter.  In this relation
    the ingest thread may offer any message; \<open>Synthetic_Ingest\<close> puts the loop over the generator in its place
    (C31), \<open>Live_System\<close> the message handler of the live feed and \<open>Live_Program\<close> the event loop of the client
    that calls it (C2), and each step of these systems is one of the pipeline or leaves it alone.  \<open>Pipeline_Shutdown\<close>: what the staged shutdown drains, and that the engine
    and output threads end (C33, C34).
  \<^item> \<open>Io_Context\<close>, \<open>Dashboard_Server\<close>, \<open>Server_Properties\<close>, \<open>Ws_Client\<close>, \<open>Client_Properties\<close>:
    the two components that run on an Asio context.  The state holds the multiset of
    operations in flight; a step completes one of them, with success or an error, or runs a
    posted call, and executes the handler of the source.  \<^verbatim>\<open>src/server/ws_server.cpp\<close>
    accepts sessions, queues frames per session and broadcasts every tick (C35, C36);
    \<^verbatim>\<open>src/feed/ws_client.cpp\<close> resolves, connects, shakes hands, subscribes, reads, and
    reconnects with back-off (C37 to C39).  \<open>Client_Smoke\<close>: \<^verbatim>\<open>tools/ws_client_smoke.cpp\<close>, a program around that
    client.
  \<^item> \<open>Book_Bench\<close>, \<open>Stream_Bench\<close>, \<open>Ring_Bench\<close>: the programs of \<^verbatim>\<open>bench/\<close>.  Their loops, in any
    number of iterations, are shown to do the work they are timed for.

  \<^bold>\<open>What the lemmas show\<close>

  Engine: no memory fault and termination on every message stream, exact agreement with
  the specification, best prices, aggregates, conservation of slots and of quantity,
  price-time priority, limits, cancellation, and the behaviour on duplicate
  identifiers and on an exhausted pool; and agreement with the ordered-map book.  Queue: FIFO order, absence of races, wait
  freedom under every interleaving, and what exactly a refused operation has seen.  Numbers: exactness of price and
  size conversion in floating point, bucket precision, and rank of percentiles.  Feed:
  the emitted messages rebuild exactly the depth the frames describe, and so does the book of the engine thread in the
  running program, under every interleaving, as long as the feed drops nothing.  Dashboard, log
  and files: what is shown is what the book holds, what is written can be read back.
  Pipeline: nothing ingested is lost or reordered before the engine, and every
  counter agrees with what was done up to the one operation that a thread has not counted yet; the synthetic flow reaches the engine complete, in order and without a rejected order;
  \<open>shutdown_may_abandon\<close> shows how a message can stay behind in a queue, when a thread is between its failed pop and
  its look at the stop flag, and \<open>shutdown_drains\<close> and \<open>output_drains\<close> that a thread that is at its pop, and whose loads
  see current values, leaves nothing behind.  Server and client: at most one read and one write per stream
  under every order of completions, no access to a queue that is empty, frames in
  order, the connection attempt that is always under way until \<open>stop\<close>; and, as lemmas, the
  orders of completions in which \<open>stop\<close> does not end a connection that is being set up.
  Benchmarks and tools: every timed operation succeeds, both sides of the comparison report
  the same fills, an iteration of the throughput benchmark ends exactly when all items have arrived,
  and what the generator writes the replay tool counts.

  \<^bold>\<open>Interfaces\<close>

  Locales state the contracts between components (slot store and free list, the
  queue of a level, the book, the engine seen by its clients, the bounded queue, a step
  relation with an inductive invariant, the body of a benchmark); each is
  interpreted on the definitions of the component that provides it, and the clients' lemmas are
  proved from the contract.

  \<^bold>\<open>Bounds\<close>

  The engine is proved for any pool size below \<open>2 ^ 32\<close> (the program uses 1000000), which
  keeps the 32-bit counters of a level exact.  Percentile queries are defined for any number of
  samples; their rank assumes fewer than \<open>2 ^ 40\<close>
  samples, for which the double-precision rank is off by less than one.  The loops over the
  price grid and over the orders of a level have termination proofs; no definition
  uses fuel except the reader of log files, whose fuel is the length of the file.
  Counters of the pipeline are 64-bit words and the equations about them hold modulo
  \<open>2 ^ 64\<close>.

  \<^bold>\<open>What the models rely on\<close>

  \<^item> Queues in the pipeline: \<open>Pipeline_System\<close> takes a \<^verbatim>\<open>try_push\<close> or \<^verbatim>\<open>try_pop\<close> as one step, the store that publishes
    it.  \<open>Spsc_Concurrent\<close> has the finer steps; there is no theorem that derives the coarse steps from them.  An operation may
    be refused although the queue has room or an item, as with an old index there.  C33 and C34 are about runs in which
    the loads of the stopping thread see the current indices and its stop flag.
  \<^item> Work of the output thread on its timers is one step: the counters it prints are taken together.
  \<^item> Asio and Beast: a handler runs once per operation and handlers of one context do not overlap; an operation of a
    connection is aborted only after a close or a stop; a stream is open only between handshake and close.
  \<^item> The reconnect timer: when it expires, the operations on the transport that was closed before, and the tasks posted
    before, have completed.  This is an assumption on timing (\<open>Ws_Client\<close>).
  \<^item> The random numbers of the generator: the uniform ones are in their range.  The normal price draw has no bound; a
    flow goes on only with draws for which the conversion to ticks is defined.
  \<^item> simdjson: its accessors are the fields of a record (\<open>Feed_Handler\<close>) and may return anything; the depth that a
    frame describes is what they return for it.
  \<^item> A frame counts as sent by a session of the dashboard server when its queue accepts it; a frame refused at the cap
    is not part of the history that C35 is about.

  \<^bold>\<open>Not modelled\<close>

  The bodies of the Asio and Beast operations: an operation is in flight until it completes,
  with success or with an error.  Thread pinning and scheduling priorities, which change no state; the
  registration of signal handlers (the handler itself is a step); the rendering of a double on the console;
  and the measurement of time in the benchmarks.
\<close>

end
